(* ===== verification/Prelude.thy ===== *)
theory Prelude
  imports Main "HOL-Library.Word" "HOL-Library.Monad_Syntax"
begin

unbundle bit_operations_syntax

text \<open>
  Shared vocabulary of the development: names for the machine types of the target
  (32-bit ARM, \<^verbatim>\<open>char\<close> unsigned), checked array accesses, 32-bit subtraction on
  natural numbers, and the generic list and option lemmas that the component theories use.

  Convention: an operation whose C body indexes an array or follows a pointer returns an
  \<open>option\<close>, and \<open>None\<close> means that the C program would touch memory outside the object
  (undefined behaviour). A theorem that an operation returns \<open>Some\<close> is therefore a
  memory-safety theorem about that operation.
\<close>

section \<open>Machine types\<close>

type_synonym u8 = "8 word"
type_synonym u16 = "16 word"
type_synonym u32 = "32 word"
type_synonym u64 = "64 word"

text \<open>
  \<open>mem_simps\<close> collects the rules for checked accesses and the option monad;
  \<open>ring_simps\<close> the rules for indices that wrap around in a buffer.
\<close>

named_theorems mem_simps
named_theorems ring_simps

section \<open>Checked array accesses\<close>

definition rd :: "'a list \<Rightarrow> nat \<Rightarrow> 'a option" where
  "rd xs i = (if i < length xs then Some (xs ! i) else None)"

definition wr :: "'a list \<Rightarrow> nat \<Rightarrow> 'a \<Rightarrow> 'a list option" where
  "wr xs i v = (if i < length xs then Some (xs[i := v]) else None)"

lemma rd_in [mem_simps]: "i < length xs \<Longrightarrow> rd xs i = Some (xs ! i)"
  by (simp add: rd_def)

lemma rd_out [mem_simps]: "length xs \<le> i \<Longrightarrow> rd xs i = None"
  by (simp add: rd_def)

lemma wr_in [mem_simps]: "i < length xs \<Longrightarrow> wr xs i v = Some (xs[i := v])"
  by (simp add: wr_def)

lemma wr_out [mem_simps]: "length xs \<le> i \<Longrightarrow> wr xs i v = None"
  by (simp add: wr_def)

lemma rd_eq_Some_iff: "rd xs i = Some v \<longleftrightarrow> i < length xs \<and> xs ! i = v"
  by (simp add: rd_def)

lemma wr_eq_Some_iff: "wr xs i v = Some ys \<longleftrightarrow> i < length xs \<and> ys = xs[i := v]"
  by (auto simp: wr_def)

declare Option.bind_cong [fundef_cong]

section \<open>32-bit subtraction on natural numbers\<close>

text \<open>The value of the C expression \<^verbatim>\<open>a - b\<close> on two \<^verbatim>\<open>unsigned int\<close> operands.\<close>

definition sub32 :: "nat \<Rightarrow> nat \<Rightarrow> nat" where
  "sub32 a b = (a + 2 ^ 32 - b) mod 2 ^ 32"

lemma sub32_no_borrow: "b \<le> a \<Longrightarrow> a < 2 ^ 32 \<Longrightarrow> sub32 a b = a - b"
proof -
  assume "b \<le> a" and "a < 2 ^ 32"
  then have "a + 2 ^ 32 - b = (a - b) + 2 ^ 32" and "a - b < 2 ^ 32" by simp_all
  then show "sub32 a b = a - b" by (simp only: sub32_def mod_add_self2 mod_less)
qed

section \<open>Indices that wrap around\<close>

text \<open>The idiom \<^verbatim>\<open>p++; if (p == end) p = data;\<close> on an offset below \<open>n\<close>.\<close>

definition bump :: "nat \<Rightarrow> nat \<Rightarrow> nat" where
  "bump n p = (if Suc p = n then 0 else Suc p)"

lemma bump_mod [ring_simps]: "p < n \<Longrightarrow> bump n p = Suc p mod n"
  by (auto simp: bump_def)

lemma bump_less [ring_simps]: "p < n \<Longrightarrow> bump n p < n"
  by (auto simp: bump_def)

lemma mod_add_distinct_less:
  fixes n :: nat
  assumes "i < j" and "j < n"
  shows "(a + i) mod n \<noteq> (a + j) mod n"
proof
  assume "(a + i) mod n = (a + j) mod n"
  then have "n dvd (a + j) - (a + i)"
    using assms(1) mod_eq_dvd_iff_nat [of "a + i" "a + j" n] by (metis add_le_cancel_left less_imp_le)
  then have "n dvd j - i" by simp
  with assms show False by (auto dest!: dvd_imp_le)
qed

lemma mod_add_distinct:
  fixes n :: nat
  assumes "i < n" and "j < n" and "i \<noteq> j"
  shows "(a + i) mod n \<noteq> (a + j) mod n"
  using assms mod_add_distinct_less [of i j n a] mod_add_distinct_less [of j i n a]
  by (metis linorder_neqE_nat)

section \<open>Words read as natural numbers\<close>

lemma unat_drop_bit: "unat (drop_bit n w) = unat w div 2 ^ n"
proof -
  have "unat (drop_bit n w) = drop_bit n (unat w)"
    by (simp only: unsigned_drop_bit_eq take_bit_nat_eq_self [OF unsigned_less])
  then show ?thesis by (simp only: drop_bit_eq_div [of n "unat w"])
qed

lemma unat_add_small:
  fixes a b :: "'a::len word"
  assumes "unat a + unat b < 2 ^ LENGTH('a)"
  shows "unat (a + b) = unat a + unat b"
  using assms by (simp add: unat_add_lem)

lemma unat_mult_small:
  fixes a b :: "'a::len word"
  assumes "unat a * unat b < 2 ^ LENGTH('a)"
  shows "unat (a * b) = unat a * unat b"
  using assms by (simp add: unat_mult_lem)

lemma u64_less: "unat (x :: u64) < 2 ^ 64"
  using unsigned_less [of x] by simp

lemma u32_less: "unat (x :: u32) < 2 ^ 32"
  using unsigned_less [of x] by simp

lemma unat_widen: "unat (ucast (x :: u32) :: u64) = unat x"
  using u32_less [of x] by (simp add: unsigned_ucast_eq take_bit_nat_eq_self)

end
