(* ===== verification/Circbuf.thy ===== *)
theory Circbuf
  imports Prelude
begin

text \<open>
  The ring buffer of \<^verbatim>\<open>lib/circbuf.c\<close>. The pointers \<^verbatim>\<open>top\<close>, \<^verbatim>\<open>tail\<close> and \<^verbatim>\<open>end\<close>
  are offsets from \<^verbatim>\<open>data\<close>. The buffer refines a bounded queue that drops its oldest
  bytes on overflow, the contract of the locale \<open>lossy_queue\<close>.
\<close>

section \<open>State and operations\<close>

record circbuf =
  csize :: nat
  totalsize :: nat
  ctop :: nat
  tail :: nat
  cdata :: "u8 list"
  cend :: nat

text \<open>
  \<open>buf_init\<close> takes the block that \<^verbatim>\<open>malloc\<close> returned, whose contents are unspecified.
\<close>

definition buf_init :: "u8 list \<Rightarrow> nat \<Rightarrow> circbuf" where
  "buf_init block n =
     \<lparr>csize = 0, totalsize = n, ctop = 0, tail = 0, cdata = block, cend = n\<rparr>"

fun buf_pop_loop :: "nat \<Rightarrow> u8 list \<Rightarrow> nat \<Rightarrow> nat \<Rightarrow> (u8 list \<times> nat) option" where
  "buf_pop_loop 0 d e p = Some ([], p)"
| "buf_pop_loop (Suc n) d e p = do {
     c \<leftarrow> rd d p;
     (cs, q) \<leftarrow> buf_pop_loop n d e (bump e p);
     Some (c # cs, q) }"

text \<open>The result is the bytes stored in \<^verbatim>\<open>dest\<close> (their number is the return value).\<close>

definition buf_pop :: "circbuf \<Rightarrow> nat \<Rightarrow> (u8 list \<times> circbuf) option" where
  "buf_pop b len = (let len = (if len > csize b then csize b else len) in do {
     (dest, p) \<leftarrow> buf_pop_loop len (cdata b) (cend b) (ctop b);
     Some (dest, b\<lparr>ctop := p, csize := csize b - len\<rparr>) })"

fun buf_push_loop :: "u8 list \<Rightarrow> nat \<Rightarrow> circbuf \<Rightarrow> (nat \<times> circbuf) option" where
  "buf_push_loop [] p b = Some (p, b)"
| "buf_push_loop (c # src) p b = do {
     d \<leftarrow> wr (cdata b) p c;
     let b = b\<lparr>cdata := d\<rparr>;
     let b = (if csize b < totalsize b then b\<lparr>csize := Suc (csize b)\<rparr>
              else b\<lparr>ctop := bump (cend b) (ctop b)\<rparr>);
     buf_push_loop src (bump (cend b) p) b }"

definition buf_push :: "circbuf \<Rightarrow> u8 list \<Rightarrow> circbuf option" where
  "buf_push b src = do {
     (p, b) \<leftarrow> buf_push_loop src (tail b) b;
     Some (b\<lparr>tail := p\<rparr>) }"

definition buf_free :: "circbuf \<Rightarrow> circbuf" where
  "buf_free b = \<lparr>csize = 0, totalsize = 0, ctop = 0, tail = 0, cdata = [], cend = 0\<rparr>"

section \<open>Invariant and abstraction\<close>

text \<open>\<open>ring_at p b\<close>: the buffer is well formed when its write position is \<open>p\<close>.\<close>

definition ring_at :: "nat \<Rightarrow> circbuf \<Rightarrow> bool" where
  "ring_at p b \<longleftrightarrow> 0 < totalsize b \<and> length (cdata b) = totalsize b \<and> cend b = totalsize b
     \<and> ctop b < totalsize b \<and> csize b \<le> totalsize b
     \<and> p = (ctop b + csize b) mod totalsize b"

definition circ_inv :: "circbuf \<Rightarrow> bool" where
  "circ_inv b = ring_at (tail b) b"

definition contents :: "circbuf \<Rightarrow> u8 list" where
  "contents b = map (\<lambda>i. cdata b ! ((ctop b + i) mod totalsize b)) [0..<csize b]"

text \<open>The last \<open>n\<close> elements of a list: what a lossy queue of capacity \<open>n\<close> keeps.\<close>

definition lastn :: "nat \<Rightarrow> 'a list \<Rightarrow> 'a list" where
  "lastn n xs = drop (length xs - n) xs"

lemma lastn_short [simp]: "length xs \<le> n \<Longrightarrow> lastn n xs = xs"
  by (simp add: lastn_def)

lemma length_lastn [simp]: "length (lastn n xs) = min n (length xs)"
  by (auto simp: lastn_def)

lemma lastn_append_lastn: "lastn n (lastn n xs @ ys) = lastn n (xs @ ys)"
proof (cases "length xs \<le> n")
  case False
  then have "lastn n xs @ ys = drop (length xs - n) (xs @ ys)" by (simp add: lastn_def)
  with False show ?thesis by (simp add: lastn_def add.commute)
qed simp

lemma length_contents [simp]: "length (contents b) = csize b"
  by (simp add: contents_def)

section \<open>The queue contract\<close>

text \<open>Sequences of calls: on an implementation, and on the list it should behave like.\<close>

datatype 'a qop = Push "'a list" | Pop nat

fun run_impl :: "('q \<Rightarrow> 'a list \<Rightarrow> 'q option) \<Rightarrow> ('q \<Rightarrow> nat \<Rightarrow> ('a list \<times> 'q) option)
    \<Rightarrow> 'q \<Rightarrow> 'a qop list \<Rightarrow> ('a list list \<times> 'q) option" where
  "run_impl push pop q [] = Some ([], q)"
| "run_impl push pop q (Push xs # ops) = do { q \<leftarrow> push q xs; run_impl push pop q ops }"
| "run_impl push pop q (Pop n # ops) = do {
     (out, q) \<leftarrow> pop q n; (outs, q) \<leftarrow> run_impl push pop q ops; Some (out # outs, q) }"

fun run_list :: "nat \<Rightarrow> 'a list \<Rightarrow> 'a qop list \<Rightarrow> 'a list list \<times> 'a list" where
  "run_list n xs [] = ([], xs)"
| "run_list n xs (Push ys # ops) = run_list n (lastn n (xs @ ys)) ops"
| "run_list n xs (Pop k # ops) = (case run_list n (drop k xs) ops of
     (outs, zs) \<Rightarrow> (take k xs # outs, zs))"

locale lossy_queue =
  fixes inv :: "'q \<Rightarrow> bool" and items :: "'q \<Rightarrow> 'a list" and cap :: "'q \<Rightarrow> nat"
    and push :: "'q \<Rightarrow> 'a list \<Rightarrow> 'q option" and pop :: "'q \<Rightarrow> nat \<Rightarrow> ('a list \<times> 'q) option"
  assumes push_law: "inv q \<Longrightarrow>
      \<exists>q'. push q xs = Some q' \<and> inv q' \<and> cap q' = cap q \<and> items q' = lastn (cap q) (items q @ xs)"
    and pop_law: "inv q \<Longrightarrow>
      \<exists>q'. pop q n = Some (take n (items q), q') \<and> inv q' \<and> cap q' = cap q
           \<and> items q' = drop n (items q)"
begin

lemma fifo:
  assumes "inv q" and "items q = []" and "length xs \<le> cap q" and "length xs \<le> n"
  shows "\<exists>q1 q2. push q xs = Some q1 \<and> pop q1 n = Some (xs, q2) \<and> inv q2 \<and> items q2 = []"
proof -
  from push_law [OF assms(1), of xs] assms obtain q1 where 1: "push q xs = Some q1" "inv q1"
    "items q1 = xs" by auto
  from pop_law [OF 1(2), of n] 1(3) assms(4) show ?thesis using 1(1) by auto
qed

lemma run_refines:
  assumes "inv q" and "run_list (cap q) (items q) ops = (outs, rest)"
  shows "\<exists>q'. run_impl push pop q ops = Some (outs, q') \<and> inv q' \<and> items q' = rest"
  using assms
proof (induction ops arbitrary: q outs)
  case Nil
  then show ?case by simp
next
  case (Cons x ops)
  show ?case
  proof (cases x)
    case (Push xs)
    from push_law [OF Cons.prems(1), of xs] obtain q1 where "push q xs = Some q1" "inv q1"
      "cap q1 = cap q" "items q1 = lastn (cap q) (items q @ xs)" by blast
    with Push Cons.prems(2) Cons.IH [of q1 outs] show ?thesis by simp
  next
    case (Pop n)
    with Cons.prems(2) obtain outs' where outs: "outs = take n (items q) # outs'"
      and rest: "run_list (cap q) (drop n (items q)) ops = (outs', rest)"
      by (auto split: prod.splits)
    from pop_law [OF Cons.prems(1), of n] obtain q1 where
      "pop q n = Some (take n (items q), q1)" "inv q1" "cap q1 = cap q"
      "items q1 = drop n (items q)" by blast
    with Pop outs rest Cons.IH [of q1 outs'] show ?thesis by auto
  qed
qed

end

section \<open>The ring buffer refines the lossy queue\<close>

lemma circ_inv_init: "0 < n \<Longrightarrow> length block = n \<Longrightarrow> circ_inv (buf_init block n)"
  by (simp add: circ_inv_def ring_at_def buf_init_def)

lemma contents_init [simp]: "contents (buf_init block n) = []"
  by (simp add: contents_def buf_init_def)

lemma totalsize_init [simp]: "totalsize (buf_init block n) = n"
  by (simp add: buf_init_def)

lemma buf_pop_loop_spec:
  assumes "0 < e" and "length d = e" and "p < e"
  shows "buf_pop_loop n d e p = Some (map (\<lambda>i. d ! ((p + i) mod e)) [0..<n], (p + n) mod e)"
  using assms
proof (induction n arbitrary: p)
  case (Suc n)
  have "buf_pop_loop n d e (bump e p)
      = Some (map (\<lambda>i. d ! ((bump e p + i) mod e)) [0..<n], (bump e p + n) mod e)"
    using Suc.prems by (intro Suc.IH) (simp_all add: ring_simps)
  then show ?case using Suc.prems
    by (simp add: mem_simps ring_simps mod_simps map_upt_Suc del: upt_Suc)
qed simp

lemma buf_pop_spec:
  assumes "circ_inv b"
  shows "\<exists>b'. buf_pop b n = Some (take n (contents b), b') \<and> circ_inv b'
     \<and> totalsize b' = totalsize b \<and> contents b' = drop n (contents b)"
proof -
  define len where "len = min n (csize b)"
  let ?b' = "b\<lparr>ctop := (ctop b + len) mod totalsize b, csize := csize b - len\<rparr>"
  have take: "take n (contents b) = map (\<lambda>i. cdata b ! ((ctop b + i) mod totalsize b)) [0..<len]"
    by (simp add: contents_def take_map len_def take_upt min_def)
  have pop: "buf_pop b n = Some (take n (contents b), ?b')"
  proof -
    have "(if n > csize b then csize b else n) = len" by (simp add: len_def)
    then show ?thesis
      using assms buf_pop_loop_spec [of "cend b" "cdata b" "ctop b" len]
      unfolding take buf_pop_def by (simp add: circ_inv_def ring_at_def)
  qed
  have "len \<le> csize b" by (simp add: len_def)
  then have "((ctop b + len) mod totalsize b + (csize b - len)) mod totalsize b
      = (ctop b + csize b) mod totalsize b"
    by (subst mod_add_left_eq) simp
  then have "circ_inv ?b'" using assms by (auto simp: circ_inv_def ring_at_def)
  moreover have "contents ?b' = drop n (contents b)"
    by (rule nth_equalityI)
      (auto simp: contents_def len_def mod_simps add.assoc split: if_splits)
  ultimately show ?thesis using pop by auto
qed

text \<open>One iteration of the push loop: the byte is written at \<open>p\<close>.\<close>

definition push1 :: "nat \<Rightarrow> circbuf \<Rightarrow> u8 \<Rightarrow> circbuf" where
  "push1 p b c = (let b = b\<lparr>cdata := (cdata b)[p := c]\<rparr>
     in if csize b < totalsize b then b\<lparr>csize := Suc (csize b)\<rparr>
        else b\<lparr>ctop := bump (cend b) (ctop b)\<rparr>)"

lemma push1_ring_at: "ring_at p b \<Longrightarrow> ring_at (bump (cend b) p) (push1 p b c)"
  by (auto simp: push1_def ring_at_def Let_def ring_simps mod_simps)

lemma push1_fields [simp]:
  "totalsize (push1 p b c) = totalsize b" "cend (push1 p b c) = cend b"
  by (simp_all add: push1_def Let_def)

lemma push1_contents_room:
  assumes "ring_at p b" and "csize b < totalsize b"
  shows "contents (push1 p b c) = contents b @ [c]"
proof -
  have "(ctop b + csize b) mod totalsize b \<noteq> (ctop b + i) mod totalsize b" if "i < csize b" for i
    using assms(2) that by (intro mod_add_distinct) auto
  then show ?thesis using assms
    by (auto simp: contents_def push1_def Let_def ring_at_def)
qed

lemma push1_contents_full:
  assumes "ring_at p b" and "csize b = totalsize b"
  shows "contents (push1 p b c) = tl (contents b) @ [c]"
proof (rule nth_equalityI)
  have n: "0 < totalsize b" "ctop b < totalsize b" "length (cdata b) = totalsize b"
    "cend b = totalsize b" and p: "p = ctop b"
    using assms by (simp_all add: ring_at_def)
  show "length (contents (push1 p b c)) = length (tl (contents b) @ [c])"
    using n assms(2) by (simp add: push1_def Let_def)
  fix i assume "i < length (contents (push1 p b c))"
  then have i: "i < totalsize b" using assms(2) by (simp add: push1_def Let_def)
  have pos: "contents (push1 p b c) ! i = (cdata b)[ctop b := c] ! ((ctop b + Suc i) mod totalsize b)"
    using n i assms(2) by (simp add: p contents_def push1_def Let_def ring_simps mod_simps)
  show "contents (push1 p b c) ! i = (tl (contents b) @ [c]) ! i"
  proof (cases "Suc i < totalsize b")
    case True
    have "(ctop b + 0) mod totalsize b \<noteq> (ctop b + Suc i) mod totalsize b"
      using True by (intro mod_add_distinct) auto
    moreover have "i < totalsize b - 1" using True by simp
    ultimately show ?thesis using True n assms(2) unfolding pos
      by (simp add: contents_def nth_append nth_tl)
  next
    case False
    then have last: "Suc i = totalsize b" using i by simp
    then have "length (tl (contents b)) = i" using assms(2) by simp
    then have "(tl (contents b) @ [c]) ! i = c" by (metis nth_append_length)
    then show ?thesis using n last unfolding pos by simp
  qed
qed

lemma push1_contents:
  assumes "ring_at p b"
  shows "contents (push1 p b c) = lastn (totalsize b) (contents b @ [c])"
proof (cases "csize b < totalsize b")
  case True
  then show ?thesis using push1_contents_room [OF assms] by simp
next
  case False
  then have full: "csize b = totalsize b" and pos: "0 < totalsize b"
    using assms by (auto simp: ring_at_def)
  from full have "length (contents b @ [c]) - totalsize b = 1" by simp
  moreover from full pos obtain a list where "contents b = a # list"
    by (metis length_contents length_greater_0_conv neq_Nil_conv)
  ultimately show ?thesis using push1_contents_full [OF assms full] by (simp add: lastn_def)
qed

lemma buf_push_loop_spec:
  assumes "ring_at p b"
  shows "\<exists>p' b'. buf_push_loop src p b = Some (p', b') \<and> ring_at p' b'
     \<and> totalsize b' = totalsize b \<and> contents b' = lastn (totalsize b) (contents b @ src)"
  using assms
proof (induction src arbitrary: p b)
  case Nil
  then show ?case by (simp add: ring_at_def)
next
  case (Cons c src)
  have "p < length (cdata b)" using Cons.prems by (simp add: ring_at_def)
  then have "buf_push_loop (c # src) p b = buf_push_loop src (bump (cend b) p) (push1 p b c)"
    by (simp add: mem_simps push1_def Let_def)
  with Cons.IH [OF push1_ring_at [OF Cons.prems, of c]] show ?case
    by (simp add: push1_contents [OF Cons.prems] lastn_append_lastn)
qed

lemma contents_tail [simp]: "contents (b\<lparr>tail := p\<rparr>) = contents b"
  by (simp add: contents_def)

lemma buf_push_spec:
  assumes "circ_inv b"
  shows "\<exists>b'. buf_push b src = Some b' \<and> circ_inv b' \<and> totalsize b' = totalsize b
     \<and> contents b' = lastn (totalsize b) (contents b @ src)"
proof -
  from buf_push_loop_spec [of "tail b" b src] assms obtain p' b'
    where "buf_push_loop src (tail b) b = Some (p', b')" "ring_at p' b'"
      "totalsize b' = totalsize b" "contents b' = lastn (totalsize b) (contents b @ src)"
    by (auto simp: circ_inv_def)
  then show ?thesis by (auto simp: buf_push_def circ_inv_def ring_at_def)
qed

interpretation ring: lossy_queue circ_inv contents totalsize buf_push buf_pop
  by unfold_locales (blast intro: buf_push_spec buf_pop_spec)+

section \<open>Properties\<close>

text \<open>
  \<^bold>\<open>C34.\<close> From \<open>buf_init\<close> on a non-empty block, every sequence of \<open>buf_push\<close> and
  \<open>buf_pop\<close> calls stays inside the block, keeps the pointers consistent, and returns exactly
  the bytes that a list would return that drops its oldest elements beyond the capacity.
\<close>

theorem circbuf_refines_queue:
  assumes "0 < n" and "length block = n" and "run_list n [] ops = (outs, rest)"
  shows "\<exists>b. run_impl buf_push buf_pop (buf_init block n) ops = Some (outs, b)
    \<and> circ_inv b \<and> contents b = rest"
  using ring.run_refines [of "buf_init block n" ops outs rest] assms
  by (simp add: circ_inv_init)

theorem circbuf_refines_queue_witness:
  "\<exists>b. run_impl buf_push buf_pop (buf_init [9, 9, 9] 3)
       [Push [1, 2], Pop 1, Push [3, 4, 5], Pop 7] = Some ([[1], [3, 4, 5]], b)
     \<and> circ_inv b \<and> contents b = []"
  by (rule circbuf_refines_queue) (simp_all add: lastn_def)

text \<open>
  Bytes that fit into an empty buffer come back unchanged and in order.
\<close>

theorem circbuf_fifo:
  assumes "circ_inv b" and "contents b = []" and "length xs \<le> totalsize b" and "length xs \<le> n"
  shows "\<exists>b1 b2. buf_push b xs = Some b1 \<and> buf_pop b1 n = Some (xs, b2)
    \<and> circ_inv b2 \<and> contents b2 = []"
  using assms by (rule ring.fifo)

theorem circbuf_fifo_witness:
  "\<exists>b1 b2. buf_push (buf_init [0, 0] 2) [7, 8] = Some b1 \<and> buf_pop b1 5 = Some ([7, 8], b2)
    \<and> circ_inv b2 \<and> contents b2 = []"
  by (rule circbuf_fifo) (simp_all add: circ_inv_init)

end
