(* ===== verification/Cstring.thy ===== *)
theory Cstring
  imports Prelude "HOL-Library.Sublist" "HOL-Library.Char_ord"
begin

text \<open>
  The string and memory primitives of \<^verbatim>\<open>lib/string.c\<close>, \<^verbatim>\<open>lib/linux_string.c\<close> and the
  character classes of \<^verbatim>\<open>lib/ctype.c\<close> / \<^verbatim>\<open>include/linux/ctype.h\<close>.

  A function that only reads forward takes its pointer as the list of bytes from the pointer to
  the end of the object; running off that list is \<open>None\<close>. A returned pointer into the
  argument is an offset. A function that writes takes the memory as a byte list and its pointers
  as indices. \<open>cstring s bs\<close> says that a NUL-terminated string \<open>s\<close> starts at \<open>bs\<close>.
\<close>

abbreviation NUL :: char where
  "NUL \<equiv> CHR 0x00"

definition cstring :: "string \<Rightarrow> char list \<Rightarrow> bool" where
  "cstring s bs \<longleftrightarrow> NUL \<notin> set s \<and> prefix (s @ [NUL]) bs"

lemma cstring_Nil [simp]: "cstring [] bs \<longleftrightarrow> (\<exists>r. bs = NUL # r)"
  by (auto simp: cstring_def prefix_def)

lemma cstring_Cons [simp]: "cstring (c # s) bs \<longleftrightarrow> c \<noteq> NUL \<and> (\<exists>r. bs = c # r \<and> cstring s r)"
  by (auto simp: cstring_def prefix_def)

section \<open>Character classes\<close>

definition ctype_U :: u8 where "ctype_U = 0x01"
definition ctype_L :: u8 where "ctype_L = 0x02"
definition ctype_D :: u8 where "ctype_D = 0x04"
definition ctype_C :: u8 where "ctype_C = 0x08"
definition ctype_P :: u8 where "ctype_P = 0x10"
definition ctype_S :: u8 where "ctype_S = 0x20"
definition ctype_X :: u8 where "ctype_X = 0x40"
definition ctype_SP :: u8 where "ctype_SP = 0x80"

definition ctype :: "u8 list" where
  "ctype =
     replicate 9 ctype_C @ replicate 5 (ctype_C OR ctype_S) @ replicate 18 ctype_C @
     [ctype_S OR ctype_SP] @ replicate 15 ctype_P @
     replicate 10 ctype_D @ replicate 7 ctype_P @
     replicate 6 (ctype_U OR ctype_X) @ replicate 20 ctype_U @ replicate 6 ctype_P @
     replicate 6 (ctype_L OR ctype_X) @ replicate 20 ctype_L @ replicate 4 ctype_P @ [ctype_C] @
     replicate 32 0 @
     [ctype_S OR ctype_SP] @ replicate 31 ctype_P @
     replicate 23 ctype_U @ [ctype_P] @ replicate 7 ctype_U @ [ctype_L] @
     replicate 23 ctype_L @ [ctype_P] @ replicate 8 ctype_L"

definition ismask :: "char \<Rightarrow> u8" where
  "ismask c = ctype ! (of_char c :: nat)"

definition isdigit :: "char \<Rightarrow> bool" where "isdigit c = (ismask c AND ctype_D \<noteq> 0)"
definition isxdigit :: "char \<Rightarrow> bool" where "isxdigit c = (ismask c AND (ctype_D OR ctype_X) \<noteq> 0)"
definition isspace :: "char \<Rightarrow> bool" where "isspace c = (ismask c AND ctype_S \<noteq> 0)"
definition isupper :: "char \<Rightarrow> bool" where "isupper c = (ismask c AND ctype_U \<noteq> 0)"
definition islower :: "char \<Rightarrow> bool" where "islower c = (ismask c AND ctype_L \<noteq> 0)"
definition isalpha :: "char \<Rightarrow> bool" where "isalpha c = (ismask c AND (ctype_U OR ctype_L) \<noteq> 0)"
definition isblank :: "char \<Rightarrow> bool" where "isblank c = (c = CHR '' '' \<or> c = CHR 0x09)"

definition tolower :: "char \<Rightarrow> char" where
  "tolower c = (if isupper c then char_of ((of_char c :: nat) + 32) else c)"

definition toupper :: "char \<Rightarrow> char" where
  "toupper c = (if islower c then char_of ((of_char c :: nat) - 32) else c)"

lemma length_ctype: "length ctype = 256"
  by (simp add: ctype_def)

lemmas ctype_masks =
  ctype_U_def ctype_L_def ctype_D_def ctype_C_def ctype_P_def ctype_S_def ctype_X_def ctype_SP_def

text \<open>The table read as ranges of character codes.\<close>

lemma ismask_range:
  "ismask c = (let n = of_char c :: nat in
     if n < 9 then ctype_C else if n < 14 then ctype_C OR ctype_S else if n < 32 then ctype_C
     else if n < 33 then ctype_S OR ctype_SP else if n < 48 then ctype_P
     else if n < 58 then ctype_D else if n < 65 then ctype_P
     else if n < 71 then ctype_U OR ctype_X else if n < 91 then ctype_U
     else if n < 97 then ctype_P else if n < 103 then ctype_L OR ctype_X
     else if n < 123 then ctype_L else if n < 127 then ctype_P else if n < 128 then ctype_C
     else if n < 160 then 0 else if n < 161 then ctype_S OR ctype_SP else if n < 192 then ctype_P
     else if n < 215 then ctype_U else if n < 216 then ctype_P else if n < 223 then ctype_U
     else if n < 247 then ctype_L else if n < 248 then ctype_P else ctype_L)"
  using nat_of_char_less_256 [of c]
  by (simp add: ismask_def ctype_def nth_append Let_def less_diff_conv2 nth_Cons')

lemma isdigit_iff: "isdigit c \<longleftrightarrow> 48 \<le> (of_char c :: nat) \<and> (of_char c :: nat) \<le> 57"
  by (simp add: isdigit_def ismask_range Let_def ctype_masks)

lemma isspace_iff:
  "isspace c \<longleftrightarrow> (9 \<le> (of_char c :: nat) \<and> (of_char c :: nat) \<le> 13) \<or> of_char c = (32::nat) \<or> of_char c = (160::nat)"
  by (auto simp: isspace_def ismask_range Let_def ctype_masks)

section \<open>Reading functions\<close>

text \<open>Assignment of an \<^verbatim>\<open>int\<close> to a \<^verbatim>\<open>signed char\<close>: the low eight bits, sign extended.\<close>

definition s8 :: "int \<Rightarrow> int" where
  "s8 x = (x + 128) mod 256 - 128"

definition cdiff :: "char \<Rightarrow> char \<Rightarrow> int" where
  "cdiff c d = of_char c - of_char d"

fun strlen :: "char list \<Rightarrow> nat option" where
  "strlen [] = None"
| "strlen (c # cs) = (if c \<noteq> NUL then map_option Suc (strlen cs) else Some 0)"

fun strnlen :: "char list \<Rightarrow> nat \<Rightarrow> nat option" where
  "strnlen cs 0 = Some 0"
| "strnlen [] (Suc n) = None"
| "strnlen (c # cs) (Suc n) = (if c \<noteq> NUL then map_option Suc (strnlen cs n) else Some 0)"

fun strncasecmp :: "char list \<Rightarrow> char list \<Rightarrow> nat \<Rightarrow> int option" where
  "strncasecmp s1 s2 0 = Some 0"
| "strncasecmp (c1 # s1) (c2 # s2) (Suc n) =
     (if c1 = NUL \<or> c2 = NUL then Some (cdiff c1 c2)
      else if c1 = c2 then strncasecmp s1 s2 n
      else if tolower c1 \<noteq> tolower c2 then Some (cdiff (tolower c1) (tolower c2))
      else strncasecmp s1 s2 n)"
| "strncasecmp _ _ (Suc n) = None"

definition strcasecmp :: "char list \<Rightarrow> char list \<Rightarrow> int option" where
  "strcasecmp s1 s2 = strncasecmp s1 s2 (2 ^ 32 - 1)"

fun strcmp :: "char list \<Rightarrow> char list \<Rightarrow> int option" where
  "strcmp (c # cs) (d # ct) =
     (let res = s8 (cdiff c d) in if res \<noteq> 0 \<or> c = NUL then Some res else strcmp cs ct)"
| "strcmp _ _ = None"

fun strncmp :: "char list \<Rightarrow> char list \<Rightarrow> nat \<Rightarrow> int option" where
  "strncmp cs ct 0 = Some 0"
| "strncmp (c # cs) (d # ct) (Suc n) =
     (let res = s8 (cdiff c d) in if res \<noteq> 0 \<or> c = NUL then Some res else strncmp cs ct n)"
| "strncmp _ _ (Suc n) = None"

text \<open>A search returns \<open>Some (Some i)\<close> for the offset found and \<open>Some None\<close> for NULL.\<close>

fun strchr :: "char list \<Rightarrow> char \<Rightarrow> nat option option" where
  "strchr [] c = None"
| "strchr (x # xs) c =
     (if x \<noteq> c then (if x = NUL then Some None else map_option (map_option Suc) (strchr xs c))
      else Some (Some 0))"

fun strrchr_loop :: "char list \<Rightarrow> char \<Rightarrow> nat \<Rightarrow> nat option option" where
  "strrchr_loop s c p = do {
     x \<leftarrow> rd s p;
     if x = c then Some (Some p)
     else case p of 0 \<Rightarrow> Some None | Suc q \<Rightarrow> strrchr_loop s c q }"

definition strrchr :: "char list \<Rightarrow> char \<Rightarrow> nat option option" where
  "strrchr s c = do { p \<leftarrow> strlen s; strrchr_loop s c p }"

text \<open>The inner loop of \<^verbatim>\<open>strspn\<close> and \<^verbatim>\<open>strpbrk\<close>: is \<open>c\<close> one of the characters?\<close>

fun among :: "char \<Rightarrow> char list \<Rightarrow> bool option" where
  "among c [] = None"
| "among c (a # as) = (if a = NUL then Some False else if c = a then Some True else among c as)"

fun strspn :: "char list \<Rightarrow> char list \<Rightarrow> nat option" where
  "strspn [] accept = None"
| "strspn (p # ps) accept =
     (if p = NUL then Some 0
      else do { b \<leftarrow> among p accept; if b then map_option Suc (strspn ps accept) else Some 0 })"

fun strpbrk :: "char list \<Rightarrow> char list \<Rightarrow> nat option option" where
  "strpbrk [] ct = None"
| "strpbrk (c # cs) ct =
     (if c = NUL then Some None
      else do { b \<leftarrow> among c ct;
                if b then Some (Some 0) else map_option (map_option Suc) (strpbrk cs ct) })"

fun memcmp :: "char list \<Rightarrow> char list \<Rightarrow> nat \<Rightarrow> int option" where
  "memcmp cs ct 0 = Some 0"
| "memcmp (c # cs) (d # ct) (Suc n) =
     (let res = cdiff c d in if res \<noteq> 0 then Some res else memcmp cs ct n)"
| "memcmp _ _ (Suc n) = None"

fun memscan :: "char list \<Rightarrow> char \<Rightarrow> nat \<Rightarrow> nat option" where
  "memscan p c 0 = Some 0"
| "memscan [] c (Suc n) = None"
| "memscan (x # p) c (Suc n) = (if x = c then Some 0 else map_option Suc (memscan p c n))"

fun memchr :: "char list \<Rightarrow> char \<Rightarrow> nat \<Rightarrow> nat option option" where
  "memchr p c 0 = Some None"
| "memchr [] c (Suc n) = None"
| "memchr (x # p) c (Suc n) =
     (if c = x then Some (Some 0) else map_option (map_option Suc) (memchr p c n))"

text \<open>
  The loop of \<^verbatim>\<open>strstr\<close> is entered with a non-empty needle only; the conjunct \<open>0 < l2\<close>
  records that for the termination proof.
\<close>

function strstr_loop :: "char list \<Rightarrow> char list \<Rightarrow> nat \<Rightarrow> nat \<Rightarrow> nat option option" where
  "strstr_loop s1 s2 l1 l2 =
     (if l1 \<ge> l2 \<and> 0 < l2 then do {
        r \<leftarrow> memcmp s1 s2 l2;
        if r = 0 then Some (Some 0)
        else map_option (map_option Suc) (strstr_loop (tl s1) s2 (l1 - 1) l2) }
      else Some None)"
  by pat_completeness auto
termination by (relation "measure (\<lambda>(s1, s2, l1, l2). l1)") auto

declare strstr_loop.simps [simp del]

definition strstr :: "char list \<Rightarrow> char list \<Rightarrow> nat option option" where
  "strstr s1 s2 = do {
     l2 \<leftarrow> strlen s2;
     if l2 = 0 then Some (Some 0)
     else do { l1 \<leftarrow> strlen s1; strstr_loop s1 s2 l1 l2 } }"

section \<open>Writing functions\<close>

function strcpy_loop :: "char list \<Rightarrow> nat \<Rightarrow> nat \<Rightarrow> char list option" where
  "strcpy_loop m dest src = do {
     c \<leftarrow> rd m src;
     m' \<leftarrow> wr m dest c;
     if c \<noteq> NUL then strcpy_loop m' (dest + 1) (src + 1) else Some m' }"
  by pat_completeness auto
termination
  by (relation "measure (\<lambda>(m, dest, src). length m - src)") (auto simp: rd_eq_Some_iff wr_eq_Some_iff)

declare strcpy_loop.simps [simp del]

abbreviation strcpy :: "char list \<Rightarrow> nat \<Rightarrow> nat \<Rightarrow> char list option" where
  "strcpy \<equiv> strcpy_loop"

fun strncpy :: "char list \<Rightarrow> nat \<Rightarrow> nat \<Rightarrow> nat \<Rightarrow> char list option" where
  "strncpy m dest src 0 = Some m"
| "strncpy m dest src (Suc count) = do {
     c \<leftarrow> rd m src;
     m' \<leftarrow> wr m dest c;
     if c \<noteq> NUL then strncpy m' (dest + 1) (src + 1) count else Some m' }"

definition strcat :: "char list \<Rightarrow> nat \<Rightarrow> nat \<Rightarrow> char list option" where
  "strcat m dest src = do { n \<leftarrow> strlen (drop dest m); strcpy m (dest + n) src }"

fun strncat_loop :: "char list \<Rightarrow> nat \<Rightarrow> nat \<Rightarrow> nat \<Rightarrow> char list option" where
  "strncat_loop m dest src 0 = wr m dest NUL"
| "strncat_loop m dest src (Suc count) = do {
     c \<leftarrow> rd m src;
     m' \<leftarrow> wr m dest c;
     if c \<noteq> NUL then strncat_loop m' (dest + 1) (src + 1) count else Some m' }"

definition strncat :: "char list \<Rightarrow> nat \<Rightarrow> nat \<Rightarrow> nat \<Rightarrow> char list option" where
  "strncat m dest src count =
     (if count \<noteq> 0 then do { n \<leftarrow> strlen (drop dest m); strncat_loop m (dest + n) src count }
      else Some m)"

fun fill_bytes :: "char list \<Rightarrow> nat \<Rightarrow> char \<Rightarrow> nat \<Rightarrow> char list option" where
  "fill_bytes m p c 0 = Some m"
| "fill_bytes m p c (Suc n) = do { m \<leftarrow> wr m p c; fill_bytes m (p + 1) c n }"

text \<open>A store of the word \<^verbatim>\<open>cl\<close>, whose four bytes are all \<open>c\<close>.\<close>

definition fill_word :: "char list \<Rightarrow> nat \<Rightarrow> char \<Rightarrow> char list option" where
  "fill_word m p c = (if p + 3 < length m then Some (m[p := c, p + 1 := c, p + 2 := c, p + 3 := c])
                      else None)"

fun fill_words :: "char list \<Rightarrow> nat \<Rightarrow> char \<Rightarrow> nat \<Rightarrow> char list option" where
  "fill_words m p c count =
     (if count \<ge> 4 then do { m \<leftarrow> fill_word m p c; fill_words m (p + 4) c (count - 4) }
      else fill_bytes m p c count)"

declare fill_words.simps [simp del]

definition memset :: "char list \<Rightarrow> nat \<Rightarrow> char \<Rightarrow> nat \<Rightarrow> char list option" where
  "memset m s c count = (if s mod 4 = 0 then fill_words m s c count else fill_bytes m s c count)"

fun copy_up :: "char list \<Rightarrow> nat \<Rightarrow> nat \<Rightarrow> nat \<Rightarrow> char list option" where
  "copy_up m d s 0 = Some m"
| "copy_up m d s (Suc n) = do { c \<leftarrow> rd m s; m \<leftarrow> wr m d c; copy_up m (d + 1) (s + 1) n }"

definition bcopy :: "char list \<Rightarrow> nat \<Rightarrow> nat \<Rightarrow> nat \<Rightarrow> char list option" where
  "bcopy m src dest count = copy_up m dest src count"

text \<open>\<^verbatim>\<open>*dl++ = *sl++\<close>: the word is read before it is stored.\<close>

definition copy_word :: "char list \<Rightarrow> nat \<Rightarrow> nat \<Rightarrow> char list option" where
  "copy_word m d s = (if d + 3 < length m \<and> s + 3 < length m
     then Some (m[d := m ! s, d + 1 := m ! (s + 1), d + 2 := m ! (s + 2), d + 3 := m ! (s + 3)])
     else None)"

fun copy_words :: "char list \<Rightarrow> nat \<Rightarrow> nat \<Rightarrow> nat \<Rightarrow> char list option" where
  "copy_words m d s count =
     (if count \<ge> 4 then do { m \<leftarrow> copy_word m d s; copy_words m (d + 4) (s + 4) (count - 4) }
      else copy_up m d s count)"

declare copy_words.simps [simp del]

definition memcpy :: "char list \<Rightarrow> nat \<Rightarrow> nat \<Rightarrow> nat \<Rightarrow> char list option" where
  "memcpy m dest src count =
     (if src = dest then Some m
      else if dest mod 4 = 0 \<and> src mod 4 = 0 then copy_words m dest src count
      else copy_up m dest src count)"

text \<open>The descending loop \<^verbatim>\<open>*--tmp = *--s\<close>: \<open>d\<close> and \<open>s\<close> are the starts of the areas.\<close>

fun copy_down :: "char list \<Rightarrow> nat \<Rightarrow> nat \<Rightarrow> nat \<Rightarrow> char list option" where
  "copy_down m d s 0 = Some m"
| "copy_down m d s (Suc n) = do { c \<leftarrow> rd m (s + n); m \<leftarrow> wr m (d + n) c; copy_down m d s n }"

definition memmove :: "char list \<Rightarrow> nat \<Rightarrow> nat \<Rightarrow> nat \<Rightarrow> char list option" where
  "memmove m dest src count =
     (if src = dest then Some m
      else if dest \<le> src then copy_up m dest src count
      else copy_down m dest src count)"

text \<open>
  The tokenisers write a NUL into the string and keep a position: \<^verbatim>\<open>___strtok\<close> for \<^verbatim>\<open>strtok\<close>,
  \<^verbatim>\<open>*s\<close> for \<^verbatim>\<open>strsep\<close>. The result is the memory, the new position and the token.
\<close>

definition strtok :: "char list \<Rightarrow> nat option \<Rightarrow> nat option \<Rightarrow> char list
    \<Rightarrow> (char list \<times> nat option \<times> nat option) option" where
  "strtok m saved s ct =
     (case (case s of None \<Rightarrow> saved | Some p \<Rightarrow> Some p) of
        None \<Rightarrow> Some (m, saved, None)
      | Some sbegin \<Rightarrow> do {
          n \<leftarrow> strspn (drop sbegin m) ct;
          let sbegin = sbegin + n;
          c \<leftarrow> rd m sbegin;
          if c = NUL then Some (m, None, None)
          else do {
            send \<leftarrow> strpbrk (drop sbegin m) ct;
            case send of None \<Rightarrow> Some (m, None, Some sbegin)
            | Some i \<Rightarrow> do { m \<leftarrow> wr m (sbegin + i) NUL; Some (m, Some (sbegin + i + 1), Some sbegin) } } })"

definition strsep :: "char list \<Rightarrow> nat option \<Rightarrow> char list
    \<Rightarrow> (char list \<times> nat option \<times> nat option) option" where
  "strsep m s ct =
     (case s of None \<Rightarrow> Some (m, None, None)
      | Some sbegin \<Rightarrow> do {
          end \<leftarrow> strpbrk (drop sbegin m) ct;
          case end of None \<Rightarrow> Some (m, None, Some sbegin)
          | Some i \<Rightarrow> do { m \<leftarrow> wr m (sbegin + i) NUL; Some (m, Some (sbegin + i + 1), Some sbegin) } })"

function strswab_loop :: "char list \<Rightarrow> nat \<Rightarrow> char list option" where
  "strswab_loop m p = do {
     c \<leftarrow> rd m p;
     if c = NUL then Some m
     else do {
       d \<leftarrow> rd m (p + 1);
       if d = NUL then Some m else strswab_loop (m[p := d, p + 1 := c]) (p + 2) } }"
  by pat_completeness auto
termination
  by (relation "measure (\<lambda>(m, p). length m - p)") (auto simp: rd_eq_Some_iff)

declare strswab_loop.simps [simp del]

text \<open>\<^verbatim>\<open>skip_spaces\<close> returns how far the pointer moves; \<^verbatim>\<open>strim\<close> trims in place.\<close>

fun skip_spaces :: "char list \<Rightarrow> nat option" where
  "skip_spaces [] = None"
| "skip_spaces (c # cs) = (if isspace c then map_option Suc (skip_spaces cs) else Some 0)"

fun strim_loop :: "char list \<Rightarrow> nat \<Rightarrow> nat \<Rightarrow> nat option" where
  "strim_loop m s 0 = Some s"
| "strim_loop m s (Suc n) = do {
     c \<leftarrow> rd m (s + n);
     if isspace c then strim_loop m s n else Some (s + Suc n) }"

definition strim :: "char list \<Rightarrow> nat \<Rightarrow> (char list \<times> nat) option" where
  "strim m s = do {
     n \<leftarrow> skip_spaces (drop s m);
     let s = s + n;
     size \<leftarrow> strlen (drop s m);
     if size = 0 then Some (m, s)
     else do { e \<leftarrow> strim_loop m s size; m \<leftarrow> wr m e NUL; Some (m, s) } }"

section \<open>Comparison\<close>

abbreviation str_less :: "string \<Rightarrow> string \<Rightarrow> bool" where
  "str_less \<equiv> ord_class.lexordp"

lemma of_char_int: "(of_char c :: int) = int (of_char c)"
  by (simp add: of_nat_of_char)

lemma cdiff_range: "- 256 < cdiff c d \<and> cdiff c d < 256"
  unfolding cdiff_def of_char_int
  using nat_of_char_less_256 [of c] nat_of_char_less_256 [of d] by linarith

lemma s8_cdiff_zero [simp]: "s8 (cdiff c d) = 0 \<longleftrightarrow> c = d"
proof
  assume "s8 (cdiff c d) = 0"
  then have "(cdiff c d + 128) mod 256 = 128" by (simp add: s8_def)
  then have "(cdiff c d + 128) mod 256 = 128 mod 256" by simp
  then have "256 dvd cdiff c d" by (simp only: mod_eq_dvd_iff) simp
  then obtain k where "cdiff c d = 256 * k" by (rule dvdE)
  then have "cdiff c d = 0" using cdiff_range [of c d] by simp
  then show "c = d" by (simp add: cdiff_def)
qed (simp add: cdiff_def s8_def)

lemma s8_cdiff_ascii:
  assumes "(of_char c :: nat) < 128" and "(of_char d :: nat) < 128"
  shows "s8 (cdiff c d) < 0 \<longleftrightarrow> c < d"
proof -
  have "s8 (cdiff c d) = cdiff c d"
    using assms by (simp add: s8_def cdiff_def of_char_int)
  then show ?thesis using assms by (simp add: cdiff_def of_char_int less_char_def)
qed

lemma strlen_cstring: "cstring s bs \<Longrightarrow> strlen bs = Some (length s)"
  by (induction s arbitrary: bs) auto

lemma strcmp_cstring:
  assumes "cstring s bs" and "cstring t ct"
  shows "\<exists>r. strcmp bs ct = Some r \<and> (r = 0 \<longleftrightarrow> s = t)"
  using assms
proof (induction s arbitrary: bs t ct)
  case Nil
  then show ?case by (cases t) auto
next
  case (Cons c s)
  then obtain bs' where bs: "bs = c # bs'" "c \<noteq> NUL" "cstring s bs'" by auto
  show ?case
  proof (cases t)
    case Nil
    with Cons.prems bs show ?thesis by auto
  next
    case (Cons d t')
    with \<open>cstring t ct\<close> obtain ct' where "ct = d # ct'" "cstring t' ct'" by auto
    with Cons.IH [OF bs(3), of t' ct'] bs Cons show ?thesis by auto
  qed
qed

lemma strncmp_cstring:
  assumes "cstring s bs" and "cstring t ct" and "length s = n"
  shows "\<exists>r. strncmp bs ct n = Some r \<and> (r = 0 \<longleftrightarrow> prefix s t)"
  using assms
proof (induction s arbitrary: bs t ct n)
  case (Cons c s)
  then obtain bs' m where bs: "bs = c # bs'" "c \<noteq> NUL" "cstring s bs'" and n: "n = Suc m" "length s = m"
    by (cases n) auto
  show ?case
  proof (cases t)
    case Nil
    with Cons.prems bs n show ?thesis by auto
  next
    case (Cons d t')
    with \<open>cstring t ct\<close> obtain ct' where "ct = d # ct'" "cstring t' ct'" by auto
    with Cons.IH [OF bs(3), of t' ct' m] bs n Cons show ?thesis by auto
  qed
qed simp

lemma NUL_less: "d \<noteq> NUL \<Longrightarrow> NUL < d"
proof -
  assume "d \<noteq> NUL"
  then have "(of_char d :: nat) \<noteq> of_char NUL" by (metis of_char_eq_iff)
  then show "NUL < d" by (simp add: less_char_def)
qed

lemma strcmp_order:
  assumes "cstring s bs" and "cstring t ct"
    and "\<forall>c \<in> set (s @ t). (of_char c :: nat) < 128"
  shows "\<exists>r. strcmp bs ct = Some r \<and> (r = 0 \<longleftrightarrow> s = t) \<and> (r < 0 \<longleftrightarrow> str_less s t)"
  using assms
proof (induction s arbitrary: bs t ct)
  case Nil
  have z: "(of_char NUL :: nat) < 128" by simp
  show ?case
  proof (cases t)
    case Nil
    with \<open>cstring [] bs\<close> \<open>cstring t ct\<close> show ?thesis by (auto simp: s8_def cdiff_def)
  next
    case (Cons d t')
    have "NUL < d" using Cons Nil.prems by (intro NUL_less) auto
    with Nil.prems Cons z show ?thesis by (auto simp: s8_cdiff_ascii)
  qed
next
  case (Cons c s)
  then obtain bs' where bs: "bs = c # bs'" "c \<noteq> NUL" "cstring s bs'" by auto
  show ?case
  proof (cases t)
    case Nil
    have "\<not> c < NUL" by (simp add: less_char_def)
    with Nil Cons.prems bs show ?thesis by (auto simp: s8_cdiff_ascii)
  next
    case t: (Cons d t')
    with \<open>cstring t ct\<close> obtain ct' where "ct = d # ct'" "cstring t' ct'" by auto
    with Cons.IH [OF bs(3), of t' ct'] Cons.prems(3) bs t show ?thesis
      by (auto simp: s8_cdiff_ascii)
  qed
qed

section \<open>Copying\<close>

lemma copy_up_spec:
  assumes "d + n \<le> length m" and "s + n \<le> length m" and "d \<le> s \<or> s + n \<le> d"
  shows "\<exists>r. copy_up m d s n = Some r \<and> length r = length m
    \<and> (\<forall>i < length m. r ! i = (if d \<le> i \<and> i < d + n then m ! (s + (i - d)) else m ! i))"
  using assms
proof (induction n arbitrary: m d s)
  case (Suc n)
  let ?m = "m[d := m ! s]"
  have step: "copy_up m d s (Suc n) = copy_up ?m (d + 1) (s + 1) n"
    using Suc.prems by (simp add: mem_simps)
  from Suc.IH [of "d + 1" ?m "s + 1"] Suc.prems obtain r where
    r: "copy_up ?m (d + 1) (s + 1) n = Some r" "length r = length m" and
    nth: "\<And>i. i < length m \<Longrightarrow>
      r ! i = (if d + 1 \<le> i \<and> i < d + 1 + n then ?m ! (s + 1 + (i - (d + 1))) else ?m ! i)"
    by auto
  have "r ! i = (if d \<le> i \<and> i < d + Suc n then m ! (s + (i - d)) else m ! i)" if "i < length m" for i
  proof (cases "d + 1 \<le> i \<and> i < d + 1 + n")
    case True
    then have "d \<noteq> s + 1 + (i - (d + 1))" using Suc.prems(3) by auto
    moreover have "s + 1 + (i - (d + 1)) = s + (i - d)" using True by linarith
    ultimately show ?thesis using nth [OF that] True by simp
  next
    case False
    then show ?thesis using nth [OF that] Suc.prems(1) that by (auto simp: nth_list_update)
  qed
  then show ?case using step r by auto
qed auto

lemma copy_down_spec:
  assumes "d + n \<le> length m" and "s + n \<le> length m" and "s \<le> d"
  shows "\<exists>r. copy_down m d s n = Some r \<and> length r = length m
    \<and> (\<forall>i < length m. r ! i = (if d \<le> i \<and> i < d + n then m ! (s + (i - d)) else m ! i))"
  using assms
proof (induction n arbitrary: m)
  case (Suc n)
  let ?m = "m[d + n := m ! (s + n)]"
  have step: "copy_down m d s (Suc n) = copy_down ?m d s n"
    using Suc.prems by (simp add: mem_simps)
  from Suc.IH [of ?m] Suc.prems obtain r where
    r: "copy_down ?m d s n = Some r" "length r = length m" and
    nth: "\<And>i. i < length m \<Longrightarrow>
      r ! i = (if d \<le> i \<and> i < d + n then ?m ! (s + (i - d)) else ?m ! i)"
    by auto
  have "r ! i = (if d \<le> i \<and> i < d + Suc n then m ! (s + (i - d)) else m ! i)" if "i < length m" for i
    using nth [OF that] Suc.prems that by (auto simp: nth_list_update)
  then show ?case using step r by auto
qed auto

text \<open>The memory after \<open>n\<close> bytes at \<open>s\<close> have been put at \<open>d\<close>.\<close>

definition moved :: "char list \<Rightarrow> nat \<Rightarrow> nat \<Rightarrow> nat \<Rightarrow> char list" where
  "moved m d s n = take d m @ take n (drop s m) @ drop (d + n) m"

lemma moved_nth:
  assumes "d + n \<le> length m" and "s + n \<le> length m" and "length r = length m"
    and "\<forall>i < length m. r ! i = (if d \<le> i \<and> i < d + n then m ! (s + (i - d)) else m ! i)"
  shows "r = moved m d s n"
  using assms by (intro nth_equalityI) (auto simp: moved_def nth_append)

lemma memmove_moved:
  assumes "d + n \<le> length m" and "s + n \<le> length m"
  shows "memmove m d s n = Some (moved m d s n)"
proof (cases "d \<le> s")
  case True
  with copy_up_spec [of d n m s] assms moved_nth [OF assms]
  have "copy_up m d s n = Some (moved m d s n)" by blast
  moreover have "moved m d s n = m" if "s = d"
    using that assms by (intro sym [OF moved_nth]) auto
  ultimately show ?thesis using True by (simp add: memmove_def)
next
  case False
  with copy_down_spec [of d n m s] assms moved_nth [OF assms]
  have "copy_down m d s n = Some (moved m d s n)" by (metis nat_le_linear)
  with False show ?thesis by (simp add: memmove_def)
qed

lemma copy_up_add:
  "copy_up m d s (a + b) = do { m \<leftarrow> copy_up m d s a; copy_up m (d + a) (s + a) b }"
  by (induction a arbitrary: m d s) (auto split: Option.bind_splits)

lemma copy_word_copy_up:
  assumes "d + 4 \<le> s \<or> s + 4 \<le> d"
  shows "copy_word m d s = copy_up m d s 4"
  using assms by (auto simp: copy_word_def numeral_eq_Suc rd_def wr_def)

lemma copy_words_copy_up:
  assumes "d + 4 \<le> s \<or> s + 4 \<le> d"
  shows "copy_words m d s n = copy_up m d s n"
  using assms
proof (induction m d s n rule: copy_words.induct)
  case (1 m d s n)
  show ?case
  proof (cases "4 \<le> n")
    case True
    have "copy_words m d s n = do { m \<leftarrow> copy_up m d s 4; copy_words m (d + 4) (s + 4) (n - 4) }"
      using True by (simp add: copy_words.simps [of m d s n] copy_word_copy_up [OF "1.prems"])
    also have "\<dots> = do { m \<leftarrow> copy_up m d s 4; copy_up m (d + 4) (s + 4) (n - 4) }"
    proof (rule Option.bind_cong)
      fix m' assume "copy_up m d s 4 = Some m'"
      then have "copy_word m d s = Some m'" by (simp add: copy_word_copy_up [OF "1.prems"])
      with True "1.prems" show "copy_words m' (d + 4) (s + 4) (n - 4) = copy_up m' (d + 4) (s + 4) (n - 4)"
        by (intro "1.IH") auto
    qed simp
    also have "\<dots> = copy_up m d s n" using True copy_up_add [of m d s 4 "n - 4"] by simp
    finally show ?thesis .
  next
    case False
    then show ?thesis by (simp add: copy_words.simps [of m d s n])
  qed
qed

lemma strcpy_copy_up:
  assumes "cstring t (drop s m)" and "d \<le> s \<or> s + length t < d" and "d + length t < length m"
  shows "strcpy m d s = copy_up m d s (length t + 1)"
  using assms
proof (induction t arbitrary: m d s)
  case Nil
  then obtain r where "drop s m = NUL # r" by auto
  then have "rd m s = Some NUL"
    by (metis list.distinct(1) nth_via_drop drop_eq_Nil linorder_not_le rd_in)
  with Nil.prems show ?case by (simp add: strcpy_loop.simps [of m] mem_simps)
next
  case (Cons c t)
  then obtain r where r: "drop s m = c # r" "cstring t r" "c \<noteq> NUL" by auto
  then have c: "s < length m" "m ! s = c" "r = drop (s + 1) m"
    by (metis list.distinct(1) drop_eq_Nil linorder_not_le, metis nth_via_drop,
        metis drop_Suc Suc_eq_plus1 list.sel(3) tl_drop)
  let ?m = "m[d := c]"
  have "drop (s + 1) ?m = drop (s + 1) m" if "d < s + 1" using that by simp
  moreover have "cstring t (drop (s + 1) ?m)" if "s + length (c # t) < d"
  proof -
    have "prefix (t @ [NUL]) (drop (s + 1) m)" using r(2) c(3) by (simp add: cstring_def)
    then have "take (length t + 1) (drop (s + 1) m) = t @ [NUL]" by (auto simp: prefix_def)
    moreover have "take (length t + 1) (drop (s + 1) ?m) = take (length t + 1) (drop (s + 1) m)"
      using that by (simp add: take_drop)
    ultimately show ?thesis using r(2) by (metis cstring_def take_is_prefix)
  qed
  ultimately have "cstring t (drop (s + 1) ?m)" using Cons.prems(2) r(2) c(3) by auto
  with Cons.prems have "strcpy ?m (d + 1) (s + 1) = copy_up ?m (d + 1) (s + 1) (length t + 1)"
    by (intro Cons.IH) auto
  with Cons.prems c r(3) show ?case by (simp add: strcpy_loop.simps [of m] mem_simps)
qed

section \<open>Substring search\<close>

lemma memcmp_prefix:
  assumes "n \<le> length a" and "n \<le> length b"
  shows "\<exists>r. memcmp a b n = Some r \<and> (r = 0 \<longleftrightarrow> take n a = take n b)"
  using assms
proof (induction a b n rule: memcmp.induct)
  case (2 c cs d ct n)
  then show ?case by (auto simp: cdiff_def Let_def)
qed auto

lemma strstr_loop_spec:
  assumes "cstring s b1" and "cstring t b2" and "t \<noteq> []"
  shows "\<exists>r. strstr_loop b1 b2 (length s) (length t) = Some r \<and> (r = None \<longleftrightarrow> \<not> sublist t s)
     \<and> (\<forall>i. r = Some i \<longrightarrow> prefix t (drop i s) \<and> (\<forall>j < i. \<not> prefix t (drop j s)))"
  using assms(1)
proof (induction s arbitrary: b1)
  case Nil
  then show ?case using assms(3) by (simp add: strstr_loop.simps [of b1])
next
  case (Cons c s)
  then obtain r where b1: "b1 = c # r" "cstring s r" by auto
  have take2: "take (length t) b2 = t" "length t \<le> length b2"
    using assms(2) by (auto simp: cstring_def prefix_def)
  show ?case
  proof (cases "length t \<le> length (c # s)")
    case True
    from Cons.prems obtain zs where zs: "b1 = (c # s) @ NUL # zs"
      by (auto simp: cstring_def prefix_def)
    have len: "take (length t) b1 = take (length t) (c # s)" "length t \<le> length b1"
      using True unfolding zs by (simp_all only: take_append) simp_all
    with memcmp_prefix [of "length t" b1 b2] take2 obtain q
      where q: "memcmp b1 b2 (length t) = Some q" "q = 0 \<longleftrightarrow> take (length t) (c # s) = t" by auto
    have pre: "take (length t) (c # s) = t \<longleftrightarrow> prefix t (c # s)"
      using True by (metis append_take_drop_id prefixI append_eq_conv_conj prefix_def)
    show ?thesis
    proof (cases "q = 0")
      case yes: True
      then show ?thesis using True q pre assms(3)
        by (simp add: strstr_loop.simps [of b1] prefix_imp_sublist)
    next
      case False
      from Cons.IH [OF b1(2)] obtain x where x: "strstr_loop r b2 (length s) (length t) = Some x"
        "x = None \<longleftrightarrow> \<not> sublist t s"
        "\<forall>i. x = Some i \<longrightarrow> prefix t (drop i s) \<and> (\<forall>j < i. \<not> prefix t (drop j s))" by blast
      have np: "\<not> prefix t (c # s)" using False q pre by simp
      have "strstr_loop b1 b2 (length (c # s)) (length t) = Some (map_option Suc x)"
        using True False q x(1) b1 assms(3) by (simp add: strstr_loop.simps [of "c # r"])
      moreover have "sublist t (c # s) \<longleftrightarrow> sublist t s" using np by (simp add: sublist_Cons_right)
      moreover have "\<not> prefix t (drop j (c # s))"
        if "x = Some i" "j < Suc i" for i j using that np x(3) by (cases j) auto
      ultimately show ?thesis using x(2,3) by auto
    qed
  next
    case False
    then have "\<not> sublist t (c # s)" by (metis sublist_length_le)
    with False show ?thesis by (simp add: strstr_loop.simps [of b1])
  qed
qed

text \<open>The list-level view of \<open>strstr\<close> that components working on plain strings use.\<close>

fun first_occ :: "string \<Rightarrow> string \<Rightarrow> nat option" where
  "first_occ t s = (if prefix t s then Some 0
     else case s of [] \<Rightarrow> None | c # s' \<Rightarrow> map_option Suc (first_occ t s'))"

declare first_occ.simps [simp del]

lemma first_occ_Some: "first_occ t s = Some i \<Longrightarrow> i + length t \<le> length s \<and> prefix t (drop i s)"
proof (induction s arbitrary: i)
  case Nil
  then show ?case by (auto simp: first_occ.simps [of t "[]"] split: if_splits)
next
  case (Cons c s)
  show ?case
  proof (cases "prefix t (c # s)")
    case True
    with Cons.prems have "i = 0" by (simp add: first_occ.simps [of t "c # s"])
    with True show ?thesis using prefix_length_le [OF True] by simp
  next
    case False
    with Cons.prems obtain j where "first_occ t s = Some j" "i = Suc j"
      by (auto simp: first_occ.simps [of t "c # s"])
    with Cons.IH [of j] show ?thesis by simp
  qed
qed

lemma first_occ_None: "first_occ t s = None \<longleftrightarrow> \<not> sublist t s"
proof (induction s)
  case Nil
  then show ?case by (auto simp: first_occ.simps [of t "[]"])
next
  case (Cons c s)
  then show ?case by (auto simp: first_occ.simps [of t "c # s"] sublist_Cons_right)
qed

lemma first_occ_least: "first_occ t s = Some i \<Longrightarrow> j < i \<Longrightarrow> \<not> prefix t (drop j s)"
proof (induction s arbitrary: i j)
  case Nil
  then show ?case by (auto simp: first_occ.simps [of t "[]"] split: if_splits)
next
  case (Cons c s)
  then have np: "\<not> prefix t (c # s)" by (auto simp: first_occ.simps [of t "c # s"])
  with Cons.prems obtain i' where i': "first_occ t s = Some i'" "i = Suc i'"
    by (auto simp: first_occ.simps [of t "c # s"])
  show ?case
  proof (cases j)
    case 0
    with np show ?thesis by simp
  next
    case (Suc j')
    with Cons.IH [OF i'(1), of j'] Cons.prems i' show ?thesis by simp
  qed
qed

section \<open>Properties\<close>

text \<open>
  \<open>memmove\<close> on two areas inside the memory never leaves them and puts exactly the old
  source bytes at the destination, whatever the overlap of the two areas; no other byte changes.
\<close>

theorem memmove_correct:
  assumes "d + n \<le> length m" and "s + n \<le> length m"
  shows "\<exists>r. memmove m d s n = Some r \<and> length r = length m \<and> take n (drop d r) = take n (drop s m)
    \<and> (\<forall>i < length m. i < d \<or> d + n \<le> i \<longrightarrow> r ! i = m ! i)"
  using assms memmove_moved [OF assms]
  by (auto simp: moved_def nth_append)

theorem memmove_correct_witness:
  "\<exists>r. memmove ''abcdef'' 1 0 4 = Some r \<and> length r = length ''abcdef''
    \<and> take 4 (drop 1 r) = take 4 (drop 0 ''abcdef'')
    \<and> (\<forall>i < length ''abcdef''. i < 1 \<or> 1 + 4 \<le> i \<longrightarrow> r ! i = ''abcdef'' ! i)"
  by (rule memmove_correct) simp_all

text \<open>
  The word-at-a-time loop of \<open>memcpy\<close> computes the same memory (and faults in the same
  cases) as the plain byte loop, for every pair of pointers and every length.
\<close>

theorem memcpy_bytewise:
  "memcpy m dest src count = (if src = dest then Some m else copy_up m dest src count)"
proof (cases "src = dest")
  case False
  have "copy_words m dest src count = copy_up m dest src count"
    if "dest mod 4 = 0" and "src mod 4 = 0"
  proof (rule copy_words_copy_up)
    from that obtain a b where "dest = 4 * a" "src = 4 * b" by (metis mod_0_imp_dvd dvdE)
    with False show "dest + 4 \<le> src \<or> src + 4 \<le> dest" by auto
  qed
  with False show ?thesis by (simp add: memcpy_def)
qed (simp add: memcpy_def)

text \<open>
  On two NUL-terminated strings of 7-bit characters \<open>strcmp\<close> returns, and the sign of
  its result is the lexicographic order of the strings.
\<close>

theorem strcmp_lexicographic:
  assumes "cstring s bs" and "cstring t ct" and "\<forall>c \<in> set (s @ t). (of_char c :: nat) < 128"
  shows "\<exists>r. strcmp bs ct = Some r \<and> (r = 0 \<longleftrightarrow> s = t) \<and> (r < 0 \<longleftrightarrow> str_less s t)"
  using assms by (rule strcmp_order)

theorem strcmp_lexicographic_witness:
  "\<exists>r. strcmp (''ab'' @ [NUL]) (''b'' @ [NUL]) = Some r \<and> (r = 0 \<longleftrightarrow> ''ab'' = ''b'')
    \<and> (r < 0 \<longleftrightarrow> str_less ''ab'' ''b'')"
  by (rule strcmp_lexicographic) simp_all

text \<open>
  With characters of both halves of the byte range, \<open>strcmp\<close> is not an order: its
  difference is cut to a signed char, and three one-character strings are each reported smaller
  than the next in a circle.
\<close>

theorem strcmp_not_transitive:
  "\<exists>a b c r1 r2 r3. strcmp [a, NUL] [b, NUL] = Some r1 \<and> r1 < 0
     \<and> strcmp [b, NUL] [c, NUL] = Some r2 \<and> r2 < 0
     \<and> strcmp [c, NUL] [a, NUL] = Some r3 \<and> r3 < 0"
  by (rule exI [of _ "CHR ''A''"], rule exI [of _ "CHR 0x90"], rule exI [of _ "CHR 0xE0"])
    (simp add: s8_def cdiff_def)

text \<open>
  \<open>strstr\<close> on two NUL-terminated strings returns the offset of the first occurrence of
  the needle, and NULL exactly when the needle does not occur.
\<close>

theorem strstr_first_match:
  assumes "cstring s b1" and "cstring t b2"
  shows "\<exists>r. strstr b1 b2 = Some r \<and> (r = None \<longleftrightarrow> \<not> sublist t s)
     \<and> (\<forall>i. r = Some i \<longrightarrow> prefix t (drop i s) \<and> (\<forall>j < i. \<not> prefix t (drop j s)))"
proof (cases "t = []")
  case True
  with assms show ?thesis by (auto simp: strstr_def)
next
  case False
  with strstr_loop_spec [OF assms False] assms show ?thesis
    by (simp add: strstr_def strlen_cstring)
qed

theorem strstr_first_match_witness:
  "\<exists>r. strstr (''banana'' @ [NUL]) (''an'' @ [NUL]) = Some r \<and> (r = None \<longleftrightarrow> \<not> sublist ''an'' ''banana'')
     \<and> (\<forall>i. r = Some i \<longrightarrow> prefix ''an'' (drop i ''banana'') \<and> (\<forall>j < i. \<not> prefix ''an'' (drop j ''banana'')))"
  by (rule strstr_first_match) simp_all

end
