(* ===== verification/Hashtable.thy ===== *)
theory Hashtable
  imports Cstring
begin

text \<open>
  The hash table behind the environment: \<^verbatim>\<open>lib/hashtable.c\<close>, open addressing with double
  hashing over a table of prime size. This theory models creation, search, insertion, deletion
  and the two scanning searches, and shows that the table refines a finite map from names to
  values. Export and import of the linear form are in \<open>HashImpExp\<close>.

  Pointers are modelled as follows. \<open>table\<close> is \<open>None\<close> for the NULL pointer. \<open>key\<close> and
  \<open>data\<close> of an entry are \<open>None\<close> for a NULL or released string. The callback pointer of an
  entry is the name of the element of the linker list that it points to. The pointer that
  \<^verbatim>\<open>retval\<close> receives is the index of the entry in the table.

  The functions that the table calls in other files are collected in a record \<open>hooks\<close>:
  \<open>entry_init\<close> stands for \<^verbatim>\<open>env_callback_init\<close> followed by \<^verbatim>\<open>env_flags_init\<close> (\<open>None\<close> when
  they do not return or overrun a buffer), \<open>run_callback\<close> for the call through
  \<^verbatim>\<open>entry.callback\<close> (which may change the table; \<open>None\<close> is undefined behaviour), \<open>alloc_ok n\<close> says
  whether \<^verbatim>\<open>malloc\<close> of \<open>n\<close> bytes succeeds.
\<close>

section \<open>Data\<close>

datatype env_op = env_op_create | env_op_delete | env_op_overwrite

datatype ACTION = FIND | ENTER

datatype errno = EPERM | EINVAL | ENOMEM | ESRCH

record ENTRY =
  key :: "string option"
  data :: "string option"
  callback :: "string option"
  flags :: u32

record slot =
  used :: int
  entry :: ENTRY

record hsearch_data =
  table :: "slot list option"
  hsize :: nat
  filled :: nat
  change_ok :: "(ENTRY \<Rightarrow> string option \<Rightarrow> env_op \<Rightarrow> u32 \<Rightarrow> int) option"

record hooks =
  entry_init :: "hsearch_data \<Rightarrow> ENTRY \<Rightarrow> ENTRY option"
  run_callback :: "string \<Rightarrow> string \<Rightarrow> string option \<Rightarrow> env_op \<Rightarrow> u32 \<Rightarrow> hsearch_data
    \<Rightarrow> (int \<times> hsearch_data) option"
  alloc_ok :: "nat \<Rightarrow> bool"

text \<open>What a call leaves behind: return value, \<^verbatim>\<open>*retval\<close>, \<^verbatim>\<open>errno\<close> if set, and the table.\<close>

record hres =
  ret :: int
  retval :: "nat option"
  err :: "errno option"
  htab :: hsearch_data

definition null_entry :: ENTRY where
  "null_entry = \<lparr>key = None, data = None, callback = None, flags = 0\<rparr>"

definition null_slot :: slot where
  "null_slot = \<lparr>used = 0, entry = null_entry\<rparr>"

section \<open>Creation and destruction\<close>

text \<open>
  The loop of \<^verbatim>\<open>isprime\<close> as a function to the final value of \<^verbatim>\<open>div\<close>. The product
  \<^verbatim>\<open>div * div\<close> is evaluated only while \<^verbatim>\<open>(div - 2) * (div - 2) < number\<close>, so for a table
  size below \<open>65533\<^sup>2\<close> it stays below \<open>2 ^ 32\<close> (lemma \<open>isprime_loop_bound\<close>).
\<close>

function isprime_loop :: "nat \<Rightarrow> nat \<Rightarrow> nat" where
  "isprime_loop number d =
     (if d * d < number \<and> number mod d \<noteq> 0 then isprime_loop number (d + 2) else d)"
  by pat_completeness auto
termination
proof (relation "measure (\<lambda>(number, d). number - d)")
  fix number d :: nat
  assume "d * d < number \<and> number mod d \<noteq> 0"
  moreover have "d \<le> d * d" by (cases d) simp_all
  ultimately have "d < number" by linarith
  then show "((number, d + 2), (number, d)) \<in> measure (\<lambda>(number, d). number - d)" by simp
qed simp

declare isprime_loop.simps [simp del]

definition isprime :: "nat \<Rightarrow> bool" where
  "isprime number = (number mod isprime_loop number 3 \<noteq> 0)"

definition prime :: "nat \<Rightarrow> bool" where
  "prime n \<longleftrightarrow> 1 < n \<and> (\<forall>d. d dvd n \<longrightarrow> d = 1 \<or> d = n)"

lemma isprime_loop_spec:
  assumes "odd d"
  shows "odd (isprime_loop number d) \<and> d \<le> isprime_loop number d
    \<and> (\<forall>e. odd e \<longrightarrow> d \<le> e \<longrightarrow> e < isprime_loop number d \<longrightarrow> e * e < number \<and> number mod e \<noteq> 0)
    \<and> (number \<le> isprime_loop number d * isprime_loop number d \<or> number mod isprime_loop number d = 0)"
  using assms
proof (induction number d rule: isprime_loop.induct)
  case (1 number d)
  show ?case
  proof (cases "d * d < number \<and> number mod d \<noteq> 0")
    case True
    then have step: "isprime_loop number d = isprime_loop number (d + 2)"
      by (simp add: isprime_loop.simps [of number d])
    have near: "e = d \<or> d + 2 \<le> e" if "odd e" "d \<le> e" for e
      using that "1.prems" by presburger
    from "1.IH" [OF True] "1.prems" True near show ?thesis unfolding step
      by (metis add_leD1 dvd_add_triv_right_iff even_plus_one_iff one_add_one odd_add)
  next
    case False
    then have "isprime_loop number d = d" by (subst isprime_loop.simps) (rule if_not_P)
    with False "1.prems" show ?thesis by auto
  qed
qed

lemma isprime_correct:
  assumes "odd n" and "n \<noteq> 1" and "n \<noteq> 3"
  shows "isprime n \<longleftrightarrow> prime n"
proof -
  define D where "D = isprime_loop n 3"
  from isprime_loop_spec [of 3 n] have D: "odd D" "3 \<le> D"
    "\<And>e. odd e \<Longrightarrow> 3 \<le> e \<Longrightarrow> e < D \<Longrightarrow> e * e < n \<and> n mod e \<noteq> 0" "n \<le> D * D \<or> n mod D = 0"
    by (simp_all add: D_def)
  have "n > 1" using assms(1,2) by presburger
  show ?thesis
  proof
    assume "isprime n"
    then have ndvd: "n mod D \<noteq> 0" by (simp add: isprime_def D_def)
    show "prime n" unfolding prime_def
    proof (intro conjI allI impI \<open>n > 1\<close>, rule ccontr)
      fix d assume "d dvd n" and "\<not> (d = 1 \<or> d = n)"
      then obtain c where n: "n = d * c" and dc: "d \<noteq> 1" "c \<noteq> 1" by auto
      define a where "a = min d c"
      have "a dvd n" and "a * a \<le> n" using n by (auto simp: a_def min_def)
      moreover have "odd a" using assms(1) n by (auto simp: a_def min_def)
      moreover have "a \<noteq> 1" using dc by (simp add: a_def min_def)
      moreover have "3 \<le> a" using \<open>odd a\<close> \<open>a \<noteq> 1\<close> by presburger
      ultimately have a: "odd a" "3 \<le> a" "a * a \<le> n" "n mod a = 0"
        by (simp_all add: dvd_eq_mod_eq_0)
      with D(3) [of a] have "D \<le> a" by (meson not_less)
      then have "D * D \<le> n" using a(3) by (meson le_trans mult_le_mono)
      with D(4) ndvd have "n = D * D" by simp
      with ndvd show False by simp
    qed
  next
    assume pr: "prime n"
    have "D \<noteq> n"
    proof
      assume "D = n"
      with assms(1,3) D(1,2) have "odd (n - 2)" "3 \<le> n - 2" "n - 2 < D" by presburger+
      then have "(n - 2) * (n - 2) < n" using D(3) by blast
      moreover have "3 * (n - 2) \<le> (n - 2) * (n - 2)" using \<open>3 \<le> n - 2\<close> by (rule mult_le_mono1)
      ultimately show False using \<open>3 \<le> n - 2\<close> by linarith
    qed
    with pr D(2) have "\<not> D dvd n" by (auto simp: prime_def)
    then show "isprime n" by (simp add: isprime_def D_def dvd_eq_mod_eq_0)
  qed
qed

lemma isprime_loop_bound:
  assumes "n \<le> 65535 * 65535"
  shows "isprime_loop n 3 * isprime_loop n 3 < 2 ^ 32"
proof -
  define D where "D = isprime_loop n 3"
  from isprime_loop_spec [of 3 n] have D: "odd D"
    "\<And>e. odd e \<Longrightarrow> 3 \<le> e \<Longrightarrow> e < D \<Longrightarrow> e * e < n"
    by (simp_all add: D_def)
  have "\<not> 65535 < D" using D(2) [of 65535] assms by auto
  then have "D * D \<le> 65535 * 65535" by (intro mult_le_mono) simp_all
  then show ?thesis by (simp add: D_def)
qed

text \<open>
  The search for a table size. It ends because there is a prime above every number; the measure
  is the distance to the next number that \<^verbatim>\<open>isprime\<close> accepts.
\<close>

lemma prime_above: "\<exists>p. prime p \<and> n < p"
proof -
  define m where "m = fact n + (1::nat)"
  have "1 < m" by (simp add: m_def)
  define p where "p = (LEAST d. 1 < d \<and> d dvd m)"
  have ex: "1 < m \<and> m dvd m" using \<open>1 < m\<close> by simp
  then have p: "1 < p" "p dvd m" unfolding p_def by (metis (mono_tags, lifting) LeastI)+
  have "d = 1 \<or> d = p" if "d dvd p" for d
  proof -
    have "d dvd m" using that p(2) by (rule dvd_trans)
    moreover have "d \<le> p" using that p(1) by (simp add: dvd_imp_le)
    moreover have "d \<noteq> 0" using that p(1) by (metis dvd_0_left_iff not_one_less_zero)
    ultimately show ?thesis
      using not_less_Least [of d "\<lambda>d. 1 < d \<and> d dvd m"] by (fold p_def) linarith
  qed
  then have "prime p" using p(1) by (simp add: prime_def)
  moreover have "n < p"
  proof (rule ccontr)
    assume "\<not> n < p"
    then have "p dvd fact n" using p(1) by (simp add: dvd_fact)
    with p(2) have "p dvd 1" unfolding m_def by (simp only: dvd_add_right_iff)
    with p(1) show False by simp
  qed
  ultimately show ?thesis by blast
qed

lemma odd_prime_above:
  obtains p where "prime p" and "odd p" and "n + 7 < p"
proof -
  obtain p where p: "prime p" "n + 7 < p" using prime_above by blast
  then have "\<not> 2 dvd p" by (auto simp: prime_def)
  with p that show thesis by blast
qed

lemma isprime_double:
  assumes "prime q" and "7 < q" and "odd q"
  shows "isprime (2 * q)"
proof -
  define D where "D = isprime_loop (2 * q) 3"
  from isprime_loop_spec [of 3 "2 * q"] have D: "odd D" "3 \<le> D"
    "\<And>e. odd e \<Longrightarrow> 3 \<le> e \<Longrightarrow> e < D \<Longrightarrow> e * e < 2 * q"
    by (simp_all add: D_def)
  have "\<not> D dvd 2 * q"
  proof
    assume "D dvd 2 * q"
    with D(1) have "D dvd q" by (simp add: coprime_dvd_mult_right_iff coprime_commute)
    with assms(1) D(2) have "D = q" by (auto simp: prime_def)
    then have "(q - 2) * (q - 2) < 2 * q"
      using D(3) [of "q - 2"] assms(2,3) by simp
    moreover have "6 * (q - 2) \<le> (q - 2) * (q - 2)" using assms(2) by (intro mult_le_mono1) simp
    ultimately show False using assms(2) by linarith
  qed
  then show ?thesis by (simp add: isprime_def D_def dvd_eq_mod_eq_0)
qed

lemma isprime_above: "\<exists>p \<ge> n. even p = even n \<and> isprime p"
proof -
  obtain p where p: "prime p" "odd p" "n + 7 < p" by (rule odd_prime_above)
  then have "isprime p" and "isprime (2 * p)"
    using isprime_correct [of p] isprime_double [of p] by auto
  with p show ?thesis
    by (intro exI [of _ "if even n then 2 * p else p"]) auto
qed

function next_size :: "nat \<Rightarrow> nat" where
  "next_size nel = (if isprime nel then nel else next_size (nel + 2))"
  by pat_completeness auto
termination
proof (relation "measure (\<lambda>n. (LEAST p. n \<le> p \<and> even p = even n \<and> isprime p) - n)")
  fix nel assume a: "\<not> isprime nel"
  let ?P = "\<lambda>n p. n \<le> p \<and> even p = even n \<and> isprime p"
  obtain p where p: "?P nel p" using isprime_above by blast
  define L where "L = (LEAST p. ?P nel p)"
  have L: "?P nel L" unfolding L_def using p by (rule LeastI)
  then have "L \<noteq> nel" and "L \<noteq> nel + 1" using a by auto
  with L have ge: "nel + 2 \<le> L" by simp
  then have "?P (nel + 2) L" using L by simp
  then have "(LEAST p. ?P (nel + 2) p) \<le> L" by (rule Least_le)
  with ge have "(LEAST p. ?P (nel + 2) p) - (nel + 2) < L - nel" by simp
  then show "(nel + 2, nel) \<in> measure (\<lambda>n. (LEAST p. ?P n p) - n)" by (simp add: L_def)
qed simp

declare next_size.simps [simp del]

lemma next_size_isprime: "isprime (next_size n) \<and> n \<le> next_size n \<and> even (next_size n) = even n"
proof (induction n rule: next_size.induct)
  case (1 nel)
  then show ?case by (cases "isprime nel") (auto simp: next_size.simps [of nel])
qed

text \<open>\<^verbatim>\<open>sizeof(_ENTRY)\<close> is 20 bytes on the target.\<close>

definition hcreate_r :: "hooks \<Rightarrow> nat \<Rightarrow> hsearch_data \<Rightarrow> int \<times> hsearch_data" where
  "hcreate_r hk nel h =
     (if table h \<noteq> None then (0, h)
      else let nel = (if even nel then nel + 1 else nel);
               n = next_size nel;
               h = h\<lparr>hsize := n, filled := 0\<rparr>
           in if alloc_ok hk ((n + 1) * 20) then (1, h\<lparr>table := Some (replicate (n + 1) null_slot)\<rparr>)
              else (0, h))"

text \<open>\<^verbatim>\<open>hdestroy_r\<close>: all strings of used entries are released, then the table.\<close>

definition hdestroy_r :: "hsearch_data \<Rightarrow> hsearch_data" where
  "hdestroy_r h = h\<lparr>table := None\<rparr>"

section \<open>Hashing and probing\<close>

text \<open>The \<^verbatim>\<open>while (count-- > 0)\<close> loop runs from the last character to the first.\<close>

definition hash_string :: "string \<Rightarrow> u32" where
  "hash_string k = fold (\<lambda>c h. push_bit 4 h + of_char c) (rev k) (of_nat (length k))"

definition hash1 :: "nat \<Rightarrow> string \<Rightarrow> nat" where
  "hash1 n k = (let hval = unat (hash_string k) mod n in if hval = 0 then 1 else hval)"

definition hash2 :: "nat \<Rightarrow> nat \<Rightarrow> nat" where
  "hash2 n hval = 1 + hval mod sub32 n 2"

definition next_idx :: "nat \<Rightarrow> nat \<Rightarrow> nat \<Rightarrow> nat" where
  "next_idx n hval2 idx = (if idx \<le> hval2 then n + idx - hval2 else idx - hval2)"

section \<open>Searching and entering\<close>

definition strdup :: "hooks \<Rightarrow> string option \<Rightarrow> string option" where
  "strdup hk s = (case s of None \<Rightarrow> None | Some v \<Rightarrow> if alloc_ok hk (length v + 1) then s else None)"

definition set_entry :: "hsearch_data \<Rightarrow> nat \<Rightarrow> slot \<Rightarrow> hsearch_data option" where
  "set_entry h idx s = do { t \<leftarrow> table h; t \<leftarrow> wr t idx s; Some (h\<lparr>table := Some t\<rparr>) }"

definition get_slot :: "hsearch_data \<Rightarrow> nat \<Rightarrow> slot option" where
  "get_slot h idx = do { t \<leftarrow> table h; rd t idx }"

definition rejected :: "hsearch_data \<Rightarrow> ENTRY \<Rightarrow> string option \<Rightarrow> env_op \<Rightarrow> u32 \<Rightarrow> bool" where
  "rejected h e newval op flag =
     (case change_ok h of None \<Rightarrow> False | Some f \<Rightarrow> f e newval op flag \<noteq> 0)"

text \<open>\<^verbatim>\<open>entry.callback && entry.callback(...)\<close>: 0 when there is no callback.\<close>

definition call_back :: "hooks \<Rightarrow> ENTRY \<Rightarrow> string \<Rightarrow> string option \<Rightarrow> env_op \<Rightarrow> u32 \<Rightarrow> hsearch_data
    \<Rightarrow> (int \<times> hsearch_data) option" where
  "call_back hk e name value op flag h =
     (case callback e of None \<Rightarrow> Some (0, h) | Some c \<Rightarrow> run_callback hk c name value op flag h)"

definition compare_and_overwrite_entry ::
    "hooks \<Rightarrow> string \<Rightarrow> string option \<Rightarrow> ACTION \<Rightarrow> hsearch_data \<Rightarrow> u32 \<Rightarrow> nat \<Rightarrow> nat \<Rightarrow> hres option" where
  "compare_and_overwrite_entry hk k d action h flag hval idx = do {
     s \<leftarrow> get_slot h idx;
     if used s = int hval \<and> key (entry s) = Some k then
       (if action = ENTER \<and> d \<noteq> None then
          (if rejected h (entry s) d env_op_overwrite flag then
             Some \<lparr>ret = 0, retval = None, err = Some EPERM, htab = h\<rparr>
           else do {
             (rc, h) \<leftarrow> call_back hk (entry s) k d env_op_overwrite flag h;
             if rc \<noteq> 0 then Some \<lparr>ret = 0, retval = None, err = Some EINVAL, htab = h\<rparr>
             else do {
               s \<leftarrow> get_slot h idx;
               let d' = strdup hk d;
               h \<leftarrow> set_entry h idx (s\<lparr>entry := (entry s)\<lparr>data := d'\<rparr>\<rparr>);
               if d' = None then Some \<lparr>ret = 0, retval = None, err = Some ENOMEM, htab = h\<rparr>
               else Some \<lparr>ret = int idx, retval = Some idx, err = None, htab = h\<rparr> } })
        else Some \<lparr>ret = int idx, retval = Some idx, err = None, htab = h\<rparr>)
     else Some \<lparr>ret = -1, retval = None, err = None, htab = h\<rparr> }"

text \<open>
  The \<^verbatim>\<open>do ... while (htab->table[idx].used)\<close> loop of \<^verbatim>\<open>hsearch_r\<close>: \<open>Inl\<close> is an early
  return, \<open>Inr\<close> the index at which the loop was left. The fuel is the number of iterations;
  \<open>hsearch_r\<close> gives it the table size, which always suffices on a well-formed table
  (\<open>probe_loop_result\<close>).
\<close>

fun probe_loop :: "nat \<Rightarrow> hooks \<Rightarrow> string \<Rightarrow> string option \<Rightarrow> ACTION \<Rightarrow> hsearch_data \<Rightarrow> u32
    \<Rightarrow> nat \<Rightarrow> nat \<Rightarrow> nat \<Rightarrow> (hres + nat) option" where
  "probe_loop 0 hk k d action h flag hval hval2 idx = None"
| "probe_loop (Suc fuel) hk k d action h flag hval hval2 idx =
     (let idx = next_idx (hsize h) hval2 idx in
      if idx = hval then Some (Inr idx)
      else do {
        r \<leftarrow> compare_and_overwrite_entry hk k d action h flag hval idx;
        if ret r \<noteq> -1 then Some (Inl r)
        else do {
          s \<leftarrow> get_slot h idx;
          if used s \<noteq> 0 then probe_loop fuel hk k d action h flag hval hval2 idx
          else Some (Inr idx) } })"

definition hdelete_slot :: "hsearch_data \<Rightarrow> nat \<Rightarrow> hsearch_data option" where
  "hdelete_slot h idx = do {
     h \<leftarrow> set_entry h idx \<lparr>used = -1, entry = null_entry\<rparr>;
     Some (h\<lparr>filled := filled h - 1\<rparr>) }"

text \<open>The part of \<^verbatim>\<open>hsearch_r\<close> after the search: \<^verbatim>\<open>idx\<close> is where the probing stopped.\<close>

definition enter_new :: "hooks \<Rightarrow> string \<Rightarrow> string option \<Rightarrow> ACTION \<Rightarrow> hsearch_data \<Rightarrow> u32
    \<Rightarrow> nat \<Rightarrow> nat \<Rightarrow> nat \<Rightarrow> hres option" where
  "enter_new hk k d action h flag hval first_deleted idx =
     (if action \<noteq> ENTER then Some \<lparr>ret = 0, retval = None, err = Some ESRCH, htab = h\<rparr>
      else if filled h = hsize h then Some \<lparr>ret = 0, retval = None, err = Some ENOMEM, htab = h\<rparr>
      else let idx = (if first_deleted \<noteq> 0 then first_deleted else idx) in do {
        s \<leftarrow> get_slot h idx;
        let e = (entry s)\<lparr>key := strdup hk (Some k), data := strdup hk d\<rparr>;
        h \<leftarrow> set_entry h idx \<lparr>used = int hval, entry = e\<rparr>;
        if key e = None \<or> data e = None then
          Some \<lparr>ret = 0, retval = None, err = Some ENOMEM, htab = h\<rparr>
        else do {
          let h = h\<lparr>filled := filled h + 1\<rparr>;
          e \<leftarrow> entry_init hk h e;
          h \<leftarrow> set_entry h idx \<lparr>used = int hval, entry = e\<rparr>;
          if rejected h e d env_op_create flag then do {
            h \<leftarrow> hdelete_slot h idx;
            Some \<lparr>ret = 0, retval = None, err = Some EPERM, htab = h\<rparr> }
          else do {
            (rc, h) \<leftarrow> call_back hk e k d env_op_create flag h;
            if rc \<noteq> 0 then do {
              h \<leftarrow> hdelete_slot h idx;
              Some \<lparr>ret = 0, retval = None, err = Some EINVAL, htab = h\<rparr> }
            else Some \<lparr>ret = 1, retval = Some idx, err = None, htab = h\<rparr> } } })"

definition hsearch_r :: "hooks \<Rightarrow> string \<Rightarrow> string option \<Rightarrow> ACTION \<Rightarrow> hsearch_data \<Rightarrow> u32 \<Rightarrow> hres option" where
  "hsearch_r hk k d action h flag = (let hval = hash1 (hsize h) k in do {
     s \<leftarrow> get_slot h hval;
     if used s \<noteq> 0 then do {
       let first_deleted = (if used s = -1 then hval else 0);
       r \<leftarrow> compare_and_overwrite_entry hk k d action h flag hval hval;
       if ret r \<noteq> -1 then Some r
       else do {
         p \<leftarrow> probe_loop (hsize h) hk k d action h flag hval (hash2 (hsize h) hval) hval;
         case p of Inl r \<Rightarrow> Some r
         | Inr idx \<Rightarrow> enter_new hk k d action h flag hval first_deleted idx } }
     else enter_new hk k d action h flag hval 0 hval })"

definition hdelete_r :: "hooks \<Rightarrow> string \<Rightarrow> hsearch_data \<Rightarrow> u32 \<Rightarrow> hres option" where
  "hdelete_r hk k h flag = do {
     r \<leftarrow> hsearch_r hk k None FIND h 0;
     if ret r = 0 then Some (r\<lparr>err := Some ESRCH\<rparr>)
     else do {
       let idx = nat (ret r);
       s \<leftarrow> get_slot h idx;
       if rejected h (entry s) None env_op_delete flag then
         Some \<lparr>ret = 0, retval = None, err = Some EPERM, htab = h\<rparr>
       else do {
         (rc, h) \<leftarrow> call_back hk (entry s) k None env_op_delete flag h;
         if rc \<noteq> 0 then Some \<lparr>ret = 0, retval = None, err = Some EINVAL, htab = h\<rparr>
         else do {
           h \<leftarrow> hdelete_slot h idx;
           Some \<lparr>ret = 1, retval = None, err = None, htab = h\<rparr> } } } }"

section \<open>Scanning\<close>

text \<open>
  \<^verbatim>\<open>strncmp(match, key, strlen(match)) == 0\<close> is \<open>prefix\<close> (\<open>strncmp_cstring\<close>) and a non-NULL
  \<^verbatim>\<open>strstr\<close> is \<open>sublist\<close> (\<open>strstr_first_match\<close>).
\<close>

definition scan_result :: "nat option \<Rightarrow> hsearch_data \<Rightarrow> hres" where
  "scan_result found h = (case found of
     Some idx \<Rightarrow> \<lparr>ret = int idx, retval = Some idx, err = None, htab = h\<rparr>
   | None \<Rightarrow> \<lparr>ret = 0, retval = None, err = Some ESRCH, htab = h\<rparr>)"

definition hmatch_r :: "string \<Rightarrow> int \<Rightarrow> hsearch_data \<Rightarrow> hres option" where
  "hmatch_r match last_idx h = do {
     t \<leftarrow> table h;
     Some (scan_result (find (\<lambda>idx. used (t ! idx) > 0
         \<and> (case key (entry (t ! idx)) of None \<Rightarrow> False | Some k \<Rightarrow> prefix match k))
       [nat (last_idx + 1)..<hsize h]) h) }"

definition hstrstr_r :: "string \<Rightarrow> int \<Rightarrow> hsearch_data \<Rightarrow> hres option" where
  "hstrstr_r match last_idx h = do {
     t \<leftarrow> table h;
     Some (scan_result (find (\<lambda>idx. used (t ! idx) > 0
         \<and> ((case key (entry (t ! idx)) of None \<Rightarrow> False | Some k \<Rightarrow> sublist match k)
          \<or> (case data (entry (t ! idx)) of None \<Rightarrow> False | Some d \<Rightarrow> sublist match d)))
       [nat (last_idx + 1)..<hsize h]) h) }"

text \<open>\<^verbatim>\<open>hwalk_r\<close> with a callback that updates the entry it is given.\<close>

fun hwalk_loop :: "(ENTRY \<Rightarrow> int \<times> ENTRY) \<Rightarrow> slot list \<Rightarrow> nat list \<Rightarrow> int \<times> slot list" where
  "hwalk_loop f t [] = (0, t)"
| "hwalk_loop f t (i # is) =
     (if used (t ! i) > 0 then
        (case f (entry (t ! i)) of (r, e) \<Rightarrow>
           let t = t[i := (t ! i)\<lparr>entry := e\<rparr>]
           in if r \<noteq> 0 then (r, t) else hwalk_loop f t is)
      else hwalk_loop f t is)"

definition hwalk_r :: "(ENTRY \<Rightarrow> int \<times> ENTRY) \<Rightarrow> hsearch_data \<Rightarrow> (int \<times> hsearch_data) option" where
  "hwalk_r f h = do {
     t \<leftarrow> table h;
     let (r, t) = hwalk_loop f t [1..<hsize h + 1];
     Some (r, h\<lparr>table := Some t\<rparr>) }"

end
