(* ===== verification/HashProbe.thy ===== *)
theory HashProbe
  imports Hashtable
begin

text \<open>
  The probe sequence of a key and what \<open>hsearch_r\<close> does along it. For a prime table size the
  sequence visits every bucket exactly once before it returns to its start, so the search loop
  ends within \<open>hsize\<close> iterations.
\<close>

section \<open>Arithmetic of the probe sequence\<close>

lemma hash1_range: "1 < n \<Longrightarrow> 1 \<le> hash1 n k \<and> hash1 n k < n"
  by (simp add: hash1_def Let_def)

lemma hash2_range:
  assumes "3 \<le> n" and "n < 2 ^ 32"
  shows "1 \<le> hash2 n v \<and> hash2 n v < n"
proof -
  have s: "sub32 n 2 = n - 2" using assms by (intro sub32_no_borrow) simp_all
  have "v mod (n - 2) < n - 2" using assms(1) by simp
  then show ?thesis unfolding hash2_def s by linarith
qed

lemma next_idx_eq:
  assumes "1 \<le> i" and "i \<le> n" and "1 \<le> d" and "d < n"
  shows "next_idx n d i = Suc ((i - 1 + (n - d)) mod n)"
proof (cases "i \<le> d")
  case True
  then have "i - 1 + (n - d) < n" using assms by linarith
  then show ?thesis using True assms by (simp add: next_idx_def)
next
  case False
  then have "i - 1 + (n - d) = (i - 1 - d) + n" and "i - 1 - d < n" using assms by linarith+
  then have "(i - 1 + (n - d)) mod n = i - 1 - d" by (simp only: mod_add_self2 mod_less)
  then show ?thesis using False assms by (simp add: next_idx_def)
qed

definition pos :: "nat \<Rightarrow> string \<Rightarrow> nat \<Rightarrow> nat" where
  "pos n k j = (next_idx n (hash2 n (hash1 n k)) ^^ j) (hash1 n k)"

lemma pos_0 [simp]: "pos n k 0 = hash1 n k"
  by (simp add: pos_def)

lemma pos_Suc: "pos n k (Suc j) = next_idx n (hash2 n (hash1 n k)) (pos n k j)"
  by (simp add: pos_def)

definition good_size :: "nat \<Rightarrow> bool" where
  "good_size n \<longleftrightarrow> prime n \<and> 5 \<le> n \<and> n < 2 ^ 31"

lemma pos_eq:
  assumes "good_size n"
  shows "pos n k j = Suc ((hash1 n k - 1 + j * (n - hash2 n (hash1 n k))) mod n)"
proof (induction j)
  case 0
  have "hash1 n k - 1 < n" using hash1_range [of n k] assms unfolding good_size_def by linarith
  then show ?case using hash1_range [of n k] assms by (simp add: good_size_def)
next
  case (Suc j)
  let ?d = "hash2 n (hash1 n k)"
  have d: "1 \<le> ?d" "?d < n" using hash2_range [of n "hash1 n k"] assms by (auto simp: good_size_def)
  have "pos n k j \<le> n" unfolding Suc.IH using d by (simp add: Suc_le_eq)
  then have "pos n k (Suc j) = Suc ((pos n k j - 1 + (n - ?d)) mod n)"
    unfolding pos_Suc using d by (intro next_idx_eq) (simp_all add: Suc.IH)
  also have "\<dots> = Suc ((hash1 n k - 1 + j * (n - ?d) + (n - ?d)) mod n)"
    unfolding Suc.IH by (simp only: diff_Suc_1 mod_add_left_eq)
  finally show ?case by (simp add: add.assoc add.commute [of "n - ?d"])
qed

lemma pos_range: "good_size n \<Longrightarrow> 1 \<le> pos n k j \<and> pos n k j \<le> n"
  using pos_eq [of n k j] by (auto simp: good_size_def Suc_le_eq)

lemma prime_dvd_multD:
  assumes "prime p" and "p dvd a * b" and "\<not> p dvd a"
  shows "p dvd b"
proof -
  have "gcd a p = 1"
  proof -
    have "gcd a p dvd p" by simp
    with assms(1) have "gcd a p = 1 \<or> gcd a p = p" unfolding prime_def by blast
    moreover have "gcd a p \<noteq> p" using assms(3) by (metis gcd_dvd1)
    ultimately show ?thesis by simp
  qed
  then have "coprime p a" by (simp add: coprime_iff_gcd_eq_1 gcd.commute)
  with assms(2) show ?thesis by (simp add: coprime_dvd_mult_right_iff)
qed

lemma pos_inj_less:
  assumes "good_size n" and "i < j" and "j < n"
  shows "pos n k i \<noteq> pos n k j"
proof
  let ?e = "n - hash2 n (hash1 n k)"
  have e: "0 < ?e" "?e < n"
    using hash2_range [of n "hash1 n k"] assms(1) by (auto simp: good_size_def)
  assume "pos n k i = pos n k j"
  then have "(hash1 n k - 1 + i * ?e) mod n = (hash1 n k - 1 + j * ?e) mod n"
    by (simp add: pos_eq [OF assms(1)])
  note eq = this
  have le: "hash1 n k - 1 + i * ?e \<le> hash1 n k - 1 + j * ?e"
    using assms(2) by (simp add: mult_le_mono1)
  have "n dvd (hash1 n k - 1 + j * ?e) - (hash1 n k - 1 + i * ?e)"
    by (rule mod_eq_dvd_iff_nat [OF le, THEN iffD1]) (rule eq [symmetric])
  then have "n dvd ?e * (j - i)" by (simp add: diff_mult_distrib mult.commute)
  moreover have "\<not> n dvd ?e" using e by (auto dest: dvd_imp_le)
  moreover have "prime n" using assms(1) by (simp add: good_size_def)
  ultimately have "n dvd j - i" by (blast intro: prime_dvd_multD)
  with assms(2,3) show False by (auto dest!: dvd_imp_le)
qed

lemma pos_inj: "good_size n \<Longrightarrow> inj_on (pos n k) {..<n}"
  by (auto simp: inj_on_def) (metis linorder_neqE_nat pos_inj_less)

lemma pos_period: "good_size n \<Longrightarrow> pos n k n = hash1 n k"
  using pos_eq [of n k n] pos_eq [of n k 0] by simp

lemma pos_surj:
  assumes "good_size n"
  shows "pos n k ` {..<n} = {1..n}"
proof (rule card_subset_eq)
  show "pos n k ` {..<n} \<subseteq> {1..n}" using pos_range [OF assms, of k] by auto
  show "card (pos n k ` {..<n}) = card {1..n}"
    using card_image [OF pos_inj [OF assms, of k]] by simp
qed simp

lemma pos_ne_home: "good_size n \<Longrightarrow> 0 < j \<Longrightarrow> j < n \<Longrightarrow> pos n k j \<noteq> hash1 n k"
  using pos_inj_less [of n 0 j k] by simp

section \<open>The search along the sequence\<close>

text \<open>\<open>hit n t k i\<close>: the comparison of \<^verbatim>\<open>_compare_and_overwrite_entry\<close> succeeds at bucket \<open>i\<close>.\<close>

definition hit :: "nat \<Rightarrow> slot list \<Rightarrow> string \<Rightarrow> nat \<Rightarrow> bool" where
  "hit n t k i \<longleftrightarrow> used (t ! i) = int (hash1 n k) \<and> key (entry (t ! i)) = Some k"

lemma get_slot_in: "table h = Some t \<Longrightarrow> i < length t \<Longrightarrow> get_slot h i = Some (t ! i)"
  by (simp add: get_slot_def mem_simps)

lemma set_entry_in: "table h = Some t \<Longrightarrow> i < length t \<Longrightarrow> set_entry h i s = Some (h\<lparr>table := Some (t[i := s])\<rparr>)"
  by (simp add: set_entry_def mem_simps)

lemmas slot_access = get_slot_in set_entry_in

lemma compare_miss:
  assumes "table h = Some t" and "i < length t" and "\<not> hit (hsize h) t k i"
  shows "compare_and_overwrite_entry hk k d a h flag (hash1 (hsize h) k) i
     = Some \<lparr>ret = -1, retval = None, err = None, htab = h\<rparr>"
  using assms by (auto simp: compare_and_overwrite_entry_def slot_access hit_def)

lemma probe_loop_skip:
  assumes t: "table h = Some t" "length t = Suc n" "hsize h = n" "good_size n"
    and skip: "\<forall>i. j < i \<and> i \<le> j + m \<longrightarrow> \<not> hit n t k (pos n k i) \<and> used (t ! pos n k i) \<noteq> 0"
    and "j + m < n"
  shows "probe_loop (m + fuel) hk k d a h flag (hash1 n k) (hash2 n (hash1 n k)) (pos n k j)
     = probe_loop fuel hk k d a h flag (hash1 n k) (hash2 n (hash1 n k)) (pos n k (j + m))"
  using skip \<open>j + m < n\<close>
proof (induction m arbitrary: j)
  case (Suc m)
  let ?i = "pos n k (Suc j)"
  have i: "?i < length t" using pos_range [OF t(4), of k "Suc j"] t(2) by simp
  have "?i \<noteq> hash1 n k" using Suc.prems by (intro pos_ne_home t(4)) simp_all
  moreover have "\<not> hit n t k ?i" and "used (t ! ?i) \<noteq> 0" using Suc.prems(1) by auto
  ultimately have "probe_loop (Suc m + fuel) hk k d a h flag (hash1 n k) (hash2 n (hash1 n k)) (pos n k j)
     = probe_loop (m + fuel) hk k d a h flag (hash1 n k) (hash2 n (hash1 n k)) ?i"
    using compare_miss [OF t(1) i, of k hk d a flag] t i
    by (simp add: pos_Suc [symmetric] slot_access Let_def)
  also have "\<dots> = probe_loop fuel hk k d a h flag (hash1 n k) (hash2 n (hash1 n k)) (pos n k (Suc j + m))"
    using Suc.prems by (intro Suc.IH) auto
  finally show ?case by simp
qed simp

text \<open>
  The three ways the loop ends, from the first position after the home bucket: at a matching
  bucket, at an empty bucket, or back at the home bucket.
\<close>

lemma probe_loop_hit:
  assumes t: "table h = Some t" "length t = Suc n" "hsize h = n" "good_size n"
    and j: "0 < j" "j < n" "hit n t k (pos n k j)"
    and skip: "\<forall>i. 0 < i \<and> i < j \<longrightarrow> \<not> hit n t k (pos n k i) \<and> used (t ! pos n k i) \<noteq> 0"
    and res: "compare_and_overwrite_entry hk k d a h flag (hash1 n k) (pos n k j) = Some r" "ret r \<noteq> -1"
  shows "probe_loop n hk k d a h flag (hash1 n k) (hash2 n (hash1 n k)) (hash1 n k) = Some (Inl r)"
proof -
  have "probe_loop (j - 1 + Suc (n - j)) hk k d a h flag (hash1 n k) (hash2 n (hash1 n k)) (pos n k 0)
     = probe_loop (Suc (n - j)) hk k d a h flag (hash1 n k) (hash2 n (hash1 n k)) (pos n k (0 + (j - 1)))"
    using skip j by (intro probe_loop_skip [OF t]) auto
  moreover have "pos n k (Suc (j - 1)) = pos n k j" using j(1) by simp
  moreover have "pos n k j \<noteq> hash1 n k" using j by (intro pos_ne_home t(4))
  ultimately show ?thesis using res j t(3) by (simp add: pos_Suc [symmetric] Let_def)
qed

lemma probe_loop_empty:
  assumes t: "table h = Some t" "length t = Suc n" "hsize h = n" "good_size n"
    and j: "0 < j" "j < n" "used (t ! pos n k j) = 0"
    and skip: "\<forall>i. 0 < i \<and> i < j \<longrightarrow> \<not> hit n t k (pos n k i) \<and> used (t ! pos n k i) \<noteq> 0"
  shows "probe_loop n hk k d a h flag (hash1 n k) (hash2 n (hash1 n k)) (hash1 n k) = Some (Inr (pos n k j))"
proof -
  have "probe_loop (j - 1 + Suc (n - j)) hk k d a h flag (hash1 n k) (hash2 n (hash1 n k)) (pos n k 0)
     = probe_loop (Suc (n - j)) hk k d a h flag (hash1 n k) (hash2 n (hash1 n k)) (pos n k (0 + (j - 1)))"
    using skip j by (intro probe_loop_skip [OF t]) auto
  moreover have eq: "pos n k (Suc (j - 1)) = pos n k j" using j(1) by simp
  moreover have "pos n k j \<noteq> hash1 n k" using j by (intro pos_ne_home t(4))
  moreover have i: "pos n k j < length t" using pos_range [OF t(4), of k j] t(2) by simp
  moreover have "\<not> hit n t k (pos n k j)"
    using j(3) hash1_range [of n k] t(4) by (auto simp: hit_def good_size_def)
  ultimately show ?thesis using compare_miss [OF t(1) i, of k hk d a flag] j t
    by (simp add: pos_Suc [symmetric] slot_access Let_def)
qed

lemma probe_loop_full:
  assumes t: "table h = Some t" "length t = Suc n" "hsize h = n" "good_size n"
    and skip: "\<forall>i. 0 < i \<and> i < n \<longrightarrow> \<not> hit n t k (pos n k i) \<and> used (t ! pos n k i) \<noteq> 0"
  shows "probe_loop n hk k d a h flag (hash1 n k) (hash2 n (hash1 n k)) (hash1 n k) = Some (Inr (hash1 n k))"
proof -
  have n: "n - 1 + 1 = n" using t(4) by (simp add: good_size_def)
  have "probe_loop (n - 1 + 1) hk k d a h flag (hash1 n k) (hash2 n (hash1 n k)) (pos n k 0)
     = probe_loop 1 hk k d a h flag (hash1 n k) (hash2 n (hash1 n k)) (pos n k (0 + (n - 1)))"
    using skip n by (intro probe_loop_skip [OF t]) auto
  moreover have "pos n k (Suc (n - 1)) = hash1 n k" using n pos_period [OF t(4), of k] by simp
  ultimately show ?thesis using n t(3) by (simp add: pos_Suc [symmetric] Let_def)
qed

end
