(* ===== verification/HashRefine.thy ===== *)
theory HashRefine
  imports HashProbe
begin

text \<open>
  The well-formedness invariant of the hash table and its refinement of a finite map. The locale
  \<open>env_hooks\<close> states what the table relies on from the functions it calls (the initialisation
  of a new entry and the per-variable callbacks); inside it, lookup, insertion and deletion are
  shown to be lookup, update and removal on the map.
\<close>

section \<open>Invariant and abstraction\<close>

definition live :: "slot \<Rightarrow> bool" where
  "live s \<longleftrightarrow> 0 < used s"

text \<open>A used bucket holds a key whose probe sequence reaches it over non-empty buckets.\<close>

definition slot_ok :: "nat \<Rightarrow> slot list \<Rightarrow> nat \<Rightarrow> bool" where
  "slot_ok n t i \<longleftrightarrow> used (t ! i) = 0 \<or> used (t ! i) = -1
     \<or> (\<exists>k d j. key (entry (t ! i)) = Some k \<and> data (entry (t ! i)) = Some d
          \<and> used (t ! i) = int (hash1 n k) \<and> j < n \<and> i = pos n k j
          \<and> (\<forall>j' < j. used (t ! pos n k j') \<noteq> 0))"

definition tinv :: "nat \<Rightarrow> slot list \<Rightarrow> bool" where
  "tinv n t \<longleftrightarrow> good_size n \<and> length t = Suc n \<and> (\<forall>i \<in> {1..n}. slot_ok n t i)
     \<and> (\<forall>i \<in> {1..n}. \<forall>j \<in> {1..n}. live (t ! i) \<longrightarrow> live (t ! j)
          \<longrightarrow> key (entry (t ! i)) = key (entry (t ! j)) \<longrightarrow> i = j)"

definition live_set :: "nat \<Rightarrow> slot list \<Rightarrow> nat set" where
  "live_set n t = {i \<in> {1..n}. live (t ! i)}"

definition hinv :: "hsearch_data \<Rightarrow> bool" where
  "hinv h \<longleftrightarrow> (\<exists>t. table h = Some t \<and> tinv (hsize h) t \<and> filled h = card (live_set (hsize h) t))"

definition holds :: "nat \<Rightarrow> slot list \<Rightarrow> string \<Rightarrow> nat \<Rightarrow> bool" where
  "holds n t k i \<longleftrightarrow> i \<in> {1..n} \<and> live (t ! i) \<and> key (entry (t ! i)) = Some k"

text \<open>The map that a table represents.\<close>

definition abs_env :: "hsearch_data \<Rightarrow> string \<Rightarrow> string option" where
  "abs_env h k = (case table h of None \<Rightarrow> None | Some t \<Rightarrow>
     (case find (\<lambda>i. live (t ! i) \<and> key (entry (t ! i)) = Some k) [1..<Suc (hsize h)] of
        None \<Rightarrow> None | Some i \<Rightarrow> data (entry (t ! i))))"

text \<open>An empty bucket is left: the condition under which a new name is sure to find a place.\<close>

definition has_room :: "hsearch_data \<Rightarrow> bool" where
  "has_room h \<longleftrightarrow> (case table h of None \<Rightarrow> False
     | Some t \<Rightarrow> (\<exists>i \<in> {1..hsize h}. used (t ! i) = 0))"

lemma tinv_slot: "tinv n t \<Longrightarrow> i \<in> {1..n} \<Longrightarrow> slot_ok n t i"
  by (simp add: tinv_def)

lemma holds_unique: "tinv n t \<Longrightarrow> holds n t k i \<Longrightarrow> holds n t k j \<Longrightarrow> i = j"
  unfolding tinv_def holds_def by metis

lemma hit_iff_holds:
  assumes "tinv n t" and "i \<in> {1..n}"
  shows "hit n t k i \<longleftrightarrow> holds n t k i"
proof -
  have "1 \<le> hash1 n k" using assms(1) hash1_range [of n k] by (simp add: tinv_def good_size_def)
  with tinv_slot [OF assms] assms(2) show ?thesis
    by (auto simp: hit_def holds_def slot_ok_def live_def)
qed

lemma find_upt_Some:
  assumes "P i" and "i \<in> {1..n}" and "\<And>j. P j \<Longrightarrow> j \<in> {1..n} \<Longrightarrow> j = i"
  shows "find P [1..<Suc n] = Some i"
proof -
  from assms(1,2) have "find P [1..<Suc n] \<noteq> None" by (auto simp: find_None_iff)
  then obtain j where j: "find P [1..<Suc n] = Some j" by auto
  then have "P j" "j \<in> set [1..<Suc n]" by (auto simp: find_Some_iff simp del: upt_Suc)
  then have "j = i" by (intro assms(3)) auto
  with j show ?thesis by simp
qed

lemma abs_holds:
  assumes "table h = Some t" and "tinv (hsize h) t" and "holds (hsize h) t k i"
  shows "abs_env h k = data (entry (t ! i))"
proof -
  have "find (\<lambda>i. live (t ! i) \<and> key (entry (t ! i)) = Some k) [1..<Suc (hsize h)] = Some i"
    using assms holds_unique [OF assms(2)] by (intro find_upt_Some) (auto simp: holds_def)
  with assms(1) show ?thesis by (simp add: abs_env_def)
qed

lemma abs_not_holds:
  assumes "table h = Some t" and "\<And>i. \<not> holds (hsize h) t k i"
  shows "abs_env h k = None"
proof -
  have "find (\<lambda>i. live (t ! i) \<and> key (entry (t ! i)) = Some k) [1..<Suc (hsize h)] = None"
    using assms(2) by (auto simp: find_None_iff holds_def simp del: upt_Suc)
  with assms(1) show ?thesis by (simp add: abs_env_def)
qed

lemma holds_data: "tinv n t \<Longrightarrow> holds n t k i \<Longrightarrow> \<exists>d. data (entry (t ! i)) = Some d"
  using tinv_slot [of n t i] by (auto simp: holds_def slot_ok_def live_def)

lemma abs_dom: "table h = Some t \<Longrightarrow> tinv (hsize h) t \<Longrightarrow> k \<in> dom (abs_env h) \<longleftrightarrow> (\<exists>i. holds (hsize h) t k i)"
  using abs_holds [of h t k] abs_not_holds [of h t k] holds_data [of "hsize h" t k]
  by (auto simp: dom_def) (metis option.distinct(1))+

lemma holds_pos:
  assumes "tinv n t" and "holds n t k i"
  obtains j where "j < n" and "i = pos n k j" and "\<forall>j' < j. used (t ! pos n k j') \<noteq> 0"
  using tinv_slot [OF assms(1), of i] assms(2) by (auto simp: holds_def slot_ok_def live_def)

section \<open>What the search finds\<close>

lemma search_present:
  assumes t: "table h = Some t" "hsize h = n" and inv: "tinv n t" and i: "holds n t k i"
    and r: "compare_and_overwrite_entry hk k d a h flag (hash1 n k) i = Some r" "ret r \<noteq> -1"
  shows "hsearch_r hk k d a h flag = Some r"
proof -
  obtain j where j: "j < n" "i = pos n k j" "\<forall>j' < j. used (t ! pos n k j') \<noteq> 0"
    using holds_pos [OF inv i] by blast
  have g: "good_size n" and len: "length t = Suc n" using inv by (simp_all add: tinv_def)
  have home: "hash1 n k < length t" using pos_range [OF g, of k 0] len by simp
  have miss: "\<not> hit n t k (pos n k j')" if "j' < j" for j'
  proof
    assume "hit n t k (pos n k j')"
    moreover have "pos n k j' \<in> {1..n}" using pos_range [OF g, of k j'] by simp
    ultimately have "pos n k j' = i"
      using hit_iff_holds [OF inv] holds_unique [OF inv _ i] by blast
    with pos_inj_less [OF g that j(1)] j(2) show False by simp
  qed
  show ?thesis
  proof (cases "j = 0")
    case True
    moreover have "0 < used (t ! i)" using i by (simp add: holds_def live_def)
    ultimately show ?thesis using j(2) home r t
      by (simp add: hsearch_r_def slot_access Let_def)
  next
    case False
    have "used (t ! hash1 n k) \<noteq> 0" using j(3) False by (metis neq0_conv pos_0)
    moreover have "compare_and_overwrite_entry hk k d a h flag (hash1 n k) (hash1 n k)
        = Some \<lparr>ret = -1, retval = None, err = None, htab = h\<rparr>"
      using compare_miss [OF t(1) home, of k hk d a flag] miss [of 0] False t(2) by simp
    moreover have "probe_loop n hk k d a h flag (hash1 n k) (hash2 n (hash1 n k)) (hash1 n k) = Some (Inl r)"
    proof (rule probe_loop_hit [OF t(1) len t(2) g, of j])
      show "hit n t k (pos n k j)"
        using i j(2) hit_iff_holds [OF inv, of i k] by (simp add: holds_def)
    qed (use False j miss r in auto)
    ultimately show ?thesis using home t by (simp add: hsearch_r_def slot_access Let_def)
  qed
qed

text \<open>
  For a name that is not in the table the search ends at the first empty bucket of its probe
  sequence, or back at the home bucket when there is none.
\<close>

definition first_deleted :: "nat \<Rightarrow> slot list \<Rightarrow> string \<Rightarrow> nat" where
  "first_deleted n t k = (if used (t ! hash1 n k) = -1 then hash1 n k else 0)"

lemma search_absent:
  assumes t: "table h = Some t" "hsize h = n" and inv: "tinv n t" and no: "\<And>i. \<not> holds n t k i"
    and j: "j < n" "used (t ! pos n k j) = 0" "\<forall>j' < j. used (t ! pos n k j') \<noteq> 0"
  shows "hsearch_r hk k d a h flag
       = enter_new hk k d a h flag (hash1 n k) (first_deleted n t k) (pos n k j)"
proof -
  have g: "good_size n" and len: "length t = Suc n" using inv by (simp_all add: tinv_def)
  have home: "hash1 n k < length t" using pos_range [OF g, of k 0] len by simp
  have miss: "\<not> hit n t k (pos n k j')" for j'
    using no hit_iff_holds [OF inv, of "pos n k j'" k] pos_range [OF g, of k j'] by simp
  show ?thesis
  proof (cases "j = 0")
    case True
    then show ?thesis using j(2) home t by (simp add: hsearch_r_def slot_access Let_def first_deleted_def)
  next
    case False
    have "used (t ! hash1 n k) \<noteq> 0" using j(3) False by (metis neq0_conv pos_0)
    moreover have "compare_and_overwrite_entry hk k d a h flag (hash1 n k) (hash1 n k)
        = Some \<lparr>ret = -1, retval = None, err = None, htab = h\<rparr>"
      using compare_miss [OF t(1) home, of k hk d a flag] miss [of 0] t(2) by simp
    moreover have "probe_loop n hk k d a h flag (hash1 n k) (hash2 n (hash1 n k)) (hash1 n k)
        = Some (Inr (pos n k j))"
      by (rule probe_loop_empty [OF t(1) len t(2) g, of j]) (use False j miss in auto)
    ultimately show ?thesis using home t
      by (simp add: hsearch_r_def slot_access Let_def first_deleted_def)
  qed
qed

lemma search_absent_full:
  assumes t: "table h = Some t" "hsize h = n" and inv: "tinv n t" and no: "\<And>i. \<not> holds n t k i"
    and full: "\<forall>j < n. used (t ! pos n k j) \<noteq> 0"
  shows "hsearch_r hk k d a h flag
       = enter_new hk k d a h flag (hash1 n k) (first_deleted n t k) (hash1 n k)"
proof -
  have g: "good_size n" and len: "length t = Suc n" using inv by (simp_all add: tinv_def)
  have home: "hash1 n k < length t" using pos_range [OF g, of k 0] len by simp
  have miss: "\<not> hit n t k (pos n k j')" for j'
    using no hit_iff_holds [OF inv, of "pos n k j'" k] pos_range [OF g, of k j'] by simp
  have "used (t ! hash1 n k) \<noteq> 0" using full g by (metis pos_0 good_size_def gr0I not_numeral_le_zero)
  moreover have "compare_and_overwrite_entry hk k d a h flag (hash1 n k) (hash1 n k)
      = Some \<lparr>ret = -1, retval = None, err = None, htab = h\<rparr>"
    using compare_miss [OF t(1) home, of k hk d a flag] miss [of 0] t(2) by simp
  moreover have "probe_loop n hk k d a h flag (hash1 n k) (hash2 n (hash1 n k)) (hash1 n k)
      = Some (Inr (hash1 n k))"
    by (rule probe_loop_full [OF t(1) len t(2) g]) (use miss full in auto)
  ultimately show ?thesis using home t
    by (simp add: hsearch_r_def slot_access Let_def first_deleted_def)
qed

lemma first_empty:
  assumes "good_size n" and "i \<in> {1..n}" and "used (t ! i) = 0"
  obtains j where "j < n" and "used (t ! pos n k j) = 0" and "\<forall>j' < j. used (t ! pos n k j') \<noteq> 0"
proof -
  from assms(2) have "i \<in> pos n k ` {..<n}" by (simp only: pos_surj [OF assms(1)])
  then obtain j0 where j0: "j0 < n" "i = pos n k j0" by auto
  define j where "j = (LEAST j. used (t ! pos n k j) = 0)"
  have "used (t ! pos n k j) = 0" unfolding j_def by (rule LeastI [of _ j0]) (use j0 assms(3) in simp)
  moreover have "j \<le> j0" unfolding j_def by (rule Least_le) (use j0 assms(3) in simp)
  moreover have "\<forall>j' < j. used (t ! pos n k j') \<noteq> 0" unfolding j_def by (auto dest: not_less_Least)
  ultimately show thesis using j0(1) by (intro that [of j]) auto
qed

text \<open>\<open>FIND\<close> needs no assumption on the hooks: it calls none of them.\<close>

lemma find_spec:
  assumes "hinv h"
  shows "\<exists>r. hsearch_r hk k d FIND h flag = Some r \<and> htab r = h
    \<and> (case abs_env h k of
         None \<Rightarrow> ret r = 0 \<and> retval r = None \<and> err r = Some ESRCH
       | Some v \<Rightarrow> \<exists>t i. table h = Some t \<and> holds (hsize h) t k i \<and> data (entry (t ! i)) = Some v
            \<and> ret r = int i \<and> retval r = Some i)"
proof -
  from assms obtain t where t: "table h = Some t" "tinv (hsize h) t" by (auto simp: hinv_def)
  then have g: "good_size (hsize h)" and len: "length t = Suc (hsize h)" by (simp_all add: tinv_def)
  show ?thesis
  proof (cases "\<exists>i. holds (hsize h) t k i")
    case True
    then obtain i where i: "holds (hsize h) t k i" by blast
    then have "hit (hsize h) t k i" "i < length t"
      using hit_iff_holds [OF t(2), of i k] len by (auto simp: holds_def)
    then have "compare_and_overwrite_entry hk k d FIND h flag (hash1 (hsize h) k) i
        = Some \<lparr>ret = int i, retval = Some i, err = None, htab = h\<rparr>"
      using t(1) by (simp add: compare_and_overwrite_entry_def slot_access hit_def)
    then have "hsearch_r hk k d FIND h flag = Some \<lparr>ret = int i, retval = Some i, err = None, htab = h\<rparr>"
      by (rule search_present [OF t(1) refl t(2) i]) simp
    with abs_holds [OF t i] holds_data [OF t(2) i] i t(1) show ?thesis by auto
  next
    case False
    have "\<exists>fd idx. hsearch_r hk k d FIND h flag
        = enter_new hk k d FIND h flag (hash1 (hsize h) k) fd idx"
    proof (cases "\<exists>j < hsize h. used (t ! pos (hsize h) k j) = 0")
      case True
      then obtain j0 where "pos (hsize h) k j0 \<in> {1..hsize h}" "used (t ! pos (hsize h) k j0) = 0"
        using pos_range [OF g, of k] by auto
      then obtain j where "j < hsize h" "used (t ! pos (hsize h) k j) = 0"
        "\<forall>j' < j. used (t ! pos (hsize h) k j') \<noteq> 0" by (rule first_empty [OF g])
      then show ?thesis using search_absent [OF t(1) refl t(2)] False by blast
    next
      case full: False
      then show ?thesis using search_absent_full [OF t(1) refl t(2)] False by blast
    qed
    then have "hsearch_r hk k d FIND h flag
        = Some \<lparr>ret = 0, retval = None, err = Some ESRCH, htab = h\<rparr>"
      by (auto simp: enter_new_def)
    with abs_not_holds [OF t(1)] False show ?thesis by auto
  qed
qed

section \<open>Updating one bucket\<close>

lemma slot_ok_mono:
  assumes "slot_ok n t i" and "good_size n"
    and "used (t' ! i) = used (t ! i)" "key (entry (t' ! i)) = key (entry (t ! i))"
      "data (entry (t' ! i)) = data (entry (t ! i))"
    and "\<forall>x \<in> {1..n}. used (t ! x) \<noteq> 0 \<longrightarrow> used (t' ! x) \<noteq> 0"
  shows "slot_ok n t' i"
proof -
  have "used (t' ! pos n k j) \<noteq> 0" if "used (t ! pos n k j) \<noteq> 0" for k j
    using assms(6) pos_range [OF assms(2), of k j] that by simp
  with assms(1,3,4,5) show ?thesis unfolding slot_ok_def by metis
qed

lemma tinv_update:
  assumes inv: "tinv n t" and idx: "idx \<in> {1..n}"
    and mono: "used (t ! idx) \<noteq> 0 \<longrightarrow> used s \<noteq> 0" and ok: "slot_ok n (t[idx := s]) idx"
    and uniq: "\<And>i. live s \<Longrightarrow> i \<in> {1..n} \<Longrightarrow> i \<noteq> idx \<Longrightarrow> live (t ! i) \<Longrightarrow> key (entry (t ! i)) \<noteq> key (entry s)"
  shows "tinv n (t[idx := s])"
proof -
  let ?t = "t[idx := s]"
  have g: "good_size n" and len: "length t = Suc n" using inv by (simp_all add: tinv_def)
  then have at: "?t ! i = (if i = idx then s else t ! i)" for i using idx by (simp add: nth_list_update)
  have "slot_ok n ?t i" if "i \<in> {1..n}" for i
  proof (cases "i = idx")
    case False
    show ?thesis by (rule slot_ok_mono [OF tinv_slot [OF inv that] g]) (use False mono at in auto)
  qed (use ok in simp)
  moreover have "i = j" if "i \<in> {1..n}" "j \<in> {1..n}" "live (?t ! i)" "live (?t ! j)"
      "key (entry (?t ! i)) = key (entry (?t ! j))" for i j
  proof (rule ccontr)
    assume "i \<noteq> j"
    with that uniq [of i] uniq [of j] at have "i \<noteq> idx" "j \<noteq> idx" by (auto split: if_splits)
    with that at inv \<open>i \<noteq> j\<close> show False by (auto simp: tinv_def)
  qed
  ultimately show ?thesis using g len unfolding tinv_def by simp
qed

lemma abs_update:
  assumes h: "table h = Some t" "tinv (hsize h) t"
    and h': "table h' = Some (t[idx := s])" "hsize h' = hsize h" "tinv (hsize h) (t[idx := s])"
    and idx: "idx \<in> {1..hsize h}"
    and ks: "live s \<Longrightarrow> key (entry s) = Some k" "live (t ! idx) \<Longrightarrow> key (entry (t ! idx)) = Some k"
    and no: "\<And>i. i \<noteq> idx \<Longrightarrow> \<not> holds (hsize h) t k i"
  shows "abs_env h' = (abs_env h)(k := (if live s then data (entry s) else None))"
proof
  fix k'
  let ?t = "t[idx := s]"
  have at: "?t ! i = (if i = idx then s else t ! i)" for i
    using idx h(2) by (simp add: nth_list_update tinv_def)
  show "abs_env h' k' = ((abs_env h)(k := (if live s then data (entry s) else None))) k'"
  proof (cases "k' = k")
    case True
    show ?thesis
    proof (cases "live s")
      case l: True
      then have "holds (hsize h) ?t k idx" using ks idx at by (simp add: holds_def)
      then show ?thesis using abs_holds [of h' ?t k idx] h' l True at by simp
    next
      case False
      then have "\<not> holds (hsize h) ?t k i" for i using no [of i] at by (auto simp: holds_def)
      then show ?thesis using abs_not_holds [of h' ?t k] h' False True by simp
    qed
  next
    case ne: False
    have eq: "holds (hsize h) ?t k' i \<longleftrightarrow> holds (hsize h) t k' i" for i
      using ks ne at by (auto simp: holds_def)
    show ?thesis
    proof (cases "\<exists>i. holds (hsize h) t k' i")
      case True
      then obtain i where i: "holds (hsize h) t k' i" by blast
      then have "i \<noteq> idx" using ks(2) ne by (auto simp: holds_def)
      then show ?thesis using abs_holds [OF h i] abs_holds [of h' ?t k' i] eq i h' ne at by simp
    next
      case False
      then show ?thesis using abs_not_holds [of h t k'] abs_not_holds [of h' ?t k'] eq h h' ne by simp
    qed
  qed
qed

lemma live_set_update:
  assumes "tinv n t" and "idx \<in> {1..n}"
  shows "live_set n (t[idx := s]) = (if live s then insert idx (live_set n t) else live_set n t - {idx})"
  using assms by (auto simp: live_set_def tinv_def nth_list_update split: if_splits)

lemma finite_live_set [simp]: "finite (live_set n t)"
  by (simp add: live_set_def)

section \<open>Changes that callbacks may make\<close>

definition same_shape :: "hsearch_data \<Rightarrow> hsearch_data \<Rightarrow> bool" where
  "same_shape h h' \<longleftrightarrow> hsize h' = hsize h \<and> filled h' = filled h \<and> change_ok h' = change_ok h
     \<and> (\<exists>t t'. table h = Some t \<and> table h' = Some t' \<and> length t' = length t
          \<and> (\<forall>i < length t. used (t' ! i) = used (t ! i) \<and> key (entry (t' ! i)) = key (entry (t ! i))
               \<and> data (entry (t' ! i)) = data (entry (t ! i))))"

lemma same_shape_refl: "table h \<noteq> None \<Longrightarrow> same_shape h h"
  by (auto simp: same_shape_def)

lemma same_shape_trans: "same_shape h1 h2 \<Longrightarrow> same_shape h2 h3 \<Longrightarrow> same_shape h1 h3"
  unfolding same_shape_def by (elim conjE exE) (intro conjI, simp_all)

lemma same_shape_tinv:
  assumes "tinv n t" and "length t' = length t"
    and "\<forall>i < length t. used (t' ! i) = used (t ! i) \<and> key (entry (t' ! i)) = key (entry (t ! i))
               \<and> data (entry (t' ! i)) = data (entry (t ! i))"
  shows "tinv n t'" and "live_set n t' = live_set n t" and "\<And>k i. holds n t' k i \<longleftrightarrow> holds n t k i"
proof -
  have g: "good_size n" and len: "length t = Suc n" using assms(1) by (simp_all add: tinv_def)
  have eq: "used (t' ! i) = used (t ! i)" "key (entry (t' ! i)) = key (entry (t ! i))"
    "data (entry (t' ! i)) = data (entry (t ! i))" if "i \<in> {1..n}" for i
    using assms(3) that len by auto
  have "slot_ok n t' i" if "i \<in> {1..n}" for i
    by (rule slot_ok_mono [OF tinv_slot [OF assms(1) that] g]) (use eq that in auto)
  then show "tinv n t'" using assms(1,2) eq unfolding tinv_def live_def by metis
  show "live_set n t' = live_set n t" using eq(1) by (auto simp: live_set_def live_def)
  show "holds n t' k i \<longleftrightarrow> holds n t k i" for k i using eq [of i] by (auto simp: holds_def live_def)
qed

lemma same_shape_inv:
  assumes "same_shape h h'" and "hinv h"
  shows "hinv h'" and "abs_env h' = abs_env h"
proof -
  from assms obtain t t' where t: "table h = Some t" "table h' = Some t'" "length t' = length t"
    "\<forall>i < length t. used (t' ! i) = used (t ! i) \<and> key (entry (t' ! i)) = key (entry (t ! i))
               \<and> data (entry (t' ! i)) = data (entry (t ! i))"
    and n: "hsize h' = hsize h" "filled h' = filled h"
    and inv: "tinv (hsize h) t" "filled h = card (live_set (hsize h) t)"
    by (auto simp: same_shape_def hinv_def)
  note eq = same_shape_tinv [OF inv(1) t(3,4)]
  show "hinv h'" using t(2) n inv eq by (auto simp: hinv_def)
  show "abs_env h' = abs_env h"
  proof
    fix k
    show "abs_env h' k = abs_env h k"
    proof (cases "\<exists>i. holds (hsize h) t k i")
      case True
      then obtain i where i: "holds (hsize h) t k i" by blast
      then have "i < length t" using inv(1) by (auto simp: holds_def tinv_def)
      with i show ?thesis
        using abs_holds [OF t(1) inv(1) i] abs_holds [of h' t' k i] eq n t by simp
    next
      case False
      then show ?thesis using abs_not_holds [of h t k] abs_not_holds [of h' t' k] eq(3) n t by simp
    qed
  qed
qed

text \<open>One bucket at most changes its \<open>used\<close> field.\<close>

definition takes_one :: "hsearch_data \<Rightarrow> hsearch_data \<Rightarrow> bool" where
  "takes_one h h' \<longleftrightarrow> hsize h' = hsize h \<and> (\<exists>t t' i. table h = Some t \<and> table h' = Some t' \<and> length t' = length t
     \<and> (\<forall>j < length t. j \<noteq> i \<longrightarrow> used (t' ! j) = used (t ! j)))"

lemma takes_one_update: "table h = Some t \<Longrightarrow> takes_one h (h\<lparr>filled := f, table := Some (t[i := s])\<rparr>)"
  by (auto simp: takes_one_def intro!: exI [of _ i])

lemma takes_one_shape:
  assumes "takes_one h h1" and "same_shape h1 h2"
  shows "takes_one h h2"
proof -
  from assms(1) obtain t t1 i where t: "hsize h1 = hsize h" "table h = Some t" "table h1 = Some t1" "length t1 = length t"
    "\<forall>j < length t. j \<noteq> i \<longrightarrow> used (t1 ! j) = used (t ! j)" by (auto simp: takes_one_def)
  with assms(2) obtain t2 where "hsize h2 = hsize h" "table h2 = Some t2" "length t2 = length t"
    "\<forall>j < length t. used (t2 ! j) = used (t1 ! j)" by (auto simp: same_shape_def)
  with t show ?thesis unfolding takes_one_def by (intro conjI exI [of _ t] exI [of _ t2] exI [of _ i]) auto
qed

lemma takes_one_delete:
  assumes "table h = Some t" and "same_shape (h\<lparr>filled := f, table := Some (t[i := s])\<rparr>) h1" and "hdelete_slot h1 i = Some h2"
  shows "takes_one h h2"
proof -
  from assms(2) obtain t1 where t1: "table h1 = Some t1" "hsize h1 = hsize h" "length t1 = length t"
    "\<forall>j < length t. used (t1 ! j) = used (t[i := s] ! j)" by (auto simp: same_shape_def)
  with assms(3) have "table h2 = Some (t1[i := \<lparr>used = -1, entry = null_entry\<rparr>])" "hsize h2 = hsize h"
    by (auto simp: hdelete_slot_def set_entry_def wr_def split: if_splits Option.bind_splits)
  with t1 assms(1) show ?thesis by (auto simp: takes_one_def intro!: exI [of _ i])
qed

section \<open>The contract of the hooks, and the refinement\<close>

lemma call_back_no_pointer: "callback e = None \<Longrightarrow> call_back hk e k v op flag h = Some (0, h)"
  by (simp add: call_back_def)

locale env_hooks =
  fixes hk :: hooks and safe :: "(string \<Rightarrow> string option) \<Rightarrow> string \<Rightarrow> bool"
  assumes init_keeps: "hinv h \<Longrightarrow> safe (abs_env h) k \<Longrightarrow> key e = Some k
      \<Longrightarrow> \<exists>e'. entry_init hk h e = Some e' \<and> key e' = key e \<and> data e' = data e"
    and callback_shape: "hinv h
      \<Longrightarrow> \<exists>rc h'. run_callback hk c name v op flag h = Some (rc, h') \<and> same_shape h h'"
    and memory [simp]: "alloc_ok hk n"
begin

lemma strdup_ok [simp]: "strdup hk s = s"
  by (simp add: strdup_def split: option.splits)

lemma call_back_shape:
  assumes "hinv h"
  obtains rc h' where "call_back hk e name v op flag h = Some (rc, h')" "same_shape h h'"
proof (cases "callback e")
  case None
  with assms that show ?thesis by (auto simp: call_back_def hinv_def intro: same_shape_refl)
next
  case (Some c)
  with callback_shape [OF assms, of c name v op flag] that show ?thesis by (auto simp: call_back_def)
qed

text \<open>Overwriting the value of a name that is in the table.\<close>

lemma overwrite_bucket:
  assumes h: "hinv h" "table h = Some t" and i: "holds (hsize h) t k i"
  shows "hinv (h\<lparr>table := Some (t[i := (t ! i)\<lparr>entry := (entry (t ! i))\<lparr>data := Some v\<rparr>\<rparr>])\<rparr>)
    \<and> abs_env (h\<lparr>table := Some (t[i := (t ! i)\<lparr>entry := (entry (t ! i))\<lparr>data := Some v\<rparr>\<rparr>])\<rparr>)
        = (abs_env h)(k \<mapsto> v)"
proof -
  let ?s = "(t ! i)\<lparr>entry := (entry (t ! i))\<lparr>data := Some v\<rparr>\<rparr>"
  have inv: "tinv (hsize h) t" and fil: "filled h = card (live_set (hsize h) t)"
    using h by (auto simp: hinv_def)
  have i': "i \<in> {1..hsize h}" "live (t ! i)" "live ?s" "key (entry (t ! i)) = Some k"
    using i by (auto simp: holds_def live_def)
  have len: "i < length t" using i' inv by (auto simp: tinv_def)
  have ok: "slot_ok (hsize h) (t[i := ?s]) i"
  proof -
    from holds_pos [OF inv i] obtain j where j: "j < hsize h" "i = pos (hsize h) k j"
      "\<forall>j' < j. used (t ! pos (hsize h) k j') \<noteq> 0" by blast
    have "used (t[i := ?s] ! x) = used (t ! x)" for x by (cases "x = i") (simp_all add: len)
    moreover have "used (t ! i) = int (hash1 (hsize h) k)"
      using hit_iff_holds [OF inv i'(1), of k] i by (simp add: hit_def)
    ultimately show ?thesis using j i'(4) len unfolding slot_ok_def by auto
  qed
  have tinv: "tinv (hsize h) (t[i := ?s])"
    using holds_unique [OF inv i] i' by (intro tinv_update [OF inv i'(1) _ ok]) (auto simp: holds_def)
  have "live_set (hsize h) (t[i := ?s]) = live_set (hsize h) t"
    using live_set_update [OF inv i'(1), of ?s] i' by (auto simp: live_set_def)
  then have "hinv (h\<lparr>table := Some (t[i := ?s])\<rparr>)" using tinv fil by (simp add: hinv_def)
  moreover have "abs_env (h\<lparr>table := Some (t[i := ?s])\<rparr>)
      = (abs_env h)(k := (if live ?s then data (entry ?s) else None))"
    using tinv i' holds_unique [OF inv i] by (intro abs_update [OF h(2) inv, of _ i]) auto
  ultimately show ?thesis using i'(3) by simp
qed

lemma enter_present:
  assumes h: "hinv h" "table h = Some t" and i: "holds (hsize h) t k i"
  shows "\<exists>r. hsearch_r hk k (Some v) ENTER h flag = Some r \<and> hinv (htab r)
    \<and> (if ret r = 0 then abs_env (htab r) = abs_env h \<and> err r \<in> {Some EPERM, Some EINVAL} \<and> retval r = None
       else abs_env (htab r) = (abs_env h)(k \<mapsto> v) \<and> err r = None \<and> retval r \<noteq> None)"
proof -
  let ?n = "hsize h"
  let ?cmp = "compare_and_overwrite_entry hk k (Some v) ENTER h flag (hash1 ?n k) i"
  have inv: "tinv ?n t" using h by (auto simp: hinv_def)
  have i': "i < length t" "0 < i" and hit: "hit ?n t k i"
    using i inv hit_iff_holds [OF inv, of i k] by (auto simp: holds_def tinv_def)
  have "\<exists>r. ?cmp = Some r \<and> ret r \<noteq> -1 \<and> hinv (htab r)
    \<and> (if ret r = 0 then abs_env (htab r) = abs_env h \<and> err r \<in> {Some EPERM, Some EINVAL} \<and> retval r = None
       else abs_env (htab r) = (abs_env h)(k \<mapsto> v) \<and> err r = None \<and> retval r \<noteq> None)"
  proof (cases "rejected h (entry (t ! i)) (Some v) env_op_overwrite flag")
    case True
    then show ?thesis using hit i' h
      by (simp add: compare_and_overwrite_entry_def slot_access hit_def)
  next
    case ok: False
    obtain rc h1 where cb: "call_back hk (entry (t ! i)) k (Some v) env_op_overwrite flag h = Some (rc, h1)"
      and shape: "same_shape h h1" by (rule call_back_shape [OF h(1)])
    from shape obtain t1 where t1: "table h1 = Some t1" "length t1 = length t" "hsize h1 = ?n"
      by (auto simp: same_shape_def h(2))
    have inv1: "hinv h1" and abs1: "abs_env h1 = abs_env h"
      using same_shape_inv [OF shape h(1)] by simp_all
    have i1: "holds (hsize h1) t1 k i"
      using i shape i'(1) by (auto simp: same_shape_def h(2) t1(1) holds_def live_def)
    show ?thesis
    proof (cases "rc = 0")
      case True
      then show ?thesis using hit i' h(2) ok cb t1 overwrite_bucket [OF inv1 t1(1) i1, of v] abs1
        by (simp add: compare_and_overwrite_entry_def slot_access hit_def Let_def)
    next
      case False
      then show ?thesis using hit i' h(2) ok cb inv1 abs1
        by (simp add: compare_and_overwrite_entry_def slot_access hit_def)
    qed
  qed
  then obtain r where r: "?cmp = Some r" "ret r \<noteq> -1" "hinv (htab r)"
    "if ret r = 0 then abs_env (htab r) = abs_env h \<and> err r \<in> {Some EPERM, Some EINVAL} \<and> retval r = None
       else abs_env (htab r) = (abs_env h)(k \<mapsto> v) \<and> err r = None \<and> retval r \<noteq> None" by blast
  with search_present [OF h(2) refl inv i r(1,2)] show ?thesis by blast
qed

text \<open>Filling a bucket that is not in use, and releasing one that is.\<close>

lemma insert_bucket:
  assumes h: "hinv h" "table h = Some t" and no: "\<And>i. \<not> holds (hsize h) t k i"
    and j: "j < hsize h" "idx = pos (hsize h) k j" "\<forall>j' < j. used (t ! pos (hsize h) k j') \<noteq> 0"
    and free: "\<not> live (t ! idx)" and e: "key e = Some k" "data e = Some v"
  defines "t' \<equiv> t[idx := \<lparr>used = int (hash1 (hsize h) k), entry = e\<rparr>]"
  shows "hinv (h\<lparr>filled := Suc (filled h), table := Some t'\<rparr>)
    \<and> abs_env (h\<lparr>filled := Suc (filled h), table := Some t'\<rparr>) = (abs_env h)(k \<mapsto> v)
    \<and> holds (hsize h) t' k idx"
proof -
  let ?s = "\<lparr>used = int (hash1 (hsize h) k), entry = e\<rparr>"
  have inv: "tinv (hsize h) t" and fil: "filled h = card (live_set (hsize h) t)"
    using h by (auto simp: hinv_def)
  have g: "good_size (hsize h)" using inv by (simp add: tinv_def)
  have idx: "idx \<in> {1..hsize h}" and len: "idx < length t"
    using pos_range [OF g, of k j] j(2) inv by (auto simp: tinv_def)
  have live: "live ?s"
    using hash1_range [of "hsize h" k] g by (simp add: live_def good_size_def)
  have "used (t' ! pos (hsize h) k j') \<noteq> 0" if "j' < j" for j'
    using pos_inj_less [OF g that j(1), of k, THEN not_sym] j(2,3) that by (simp add: t'_def)
  then have ok: "slot_ok (hsize h) t' idx" using j e len by (auto simp: slot_ok_def t'_def)
  have tinv: "tinv (hsize h) t'" unfolding t'_def
  proof (rule tinv_update [OF inv idx])
    show "used (t ! idx) \<noteq> 0 \<longrightarrow> used ?s \<noteq> 0" using live by (simp add: live_def)
    show "slot_ok (hsize h) (t[idx := ?s]) idx" using ok by (simp add: t'_def)
    show "key (entry (t ! i)) \<noteq> key (entry ?s)" if "i \<in> {1..hsize h}" "live (t ! i)" for i
      using no [of i] that e by (simp add: holds_def)
  qed
  have "live_set (hsize h) t' = insert idx (live_set (hsize h) t)"
    unfolding t'_def using live_set_update [OF inv idx, of ?s] live by simp
  moreover have "idx \<notin> live_set (hsize h) t" using free by (simp add: live_set_def)
  ultimately have "card (live_set (hsize h) t') = Suc (filled h)" using fil by simp
  then have "hinv (h\<lparr>filled := Suc (filled h), table := Some t'\<rparr>)" using tinv by (simp add: hinv_def)
  moreover have "abs_env (h\<lparr>filled := Suc (filled h), table := Some t'\<rparr>)
      = (abs_env h)(k := (if live ?s then data (entry ?s) else None))"
    unfolding t'_def using tinv [unfolded t'_def] idx e free no
    by (intro abs_update [OF h(2) inv, of _ idx]) auto
  ultimately show ?thesis using live e idx len by (simp add: holds_def t'_def)
qed

lemma delete_bucket:
  assumes h: "hinv h" "table h = Some t" and i: "holds (hsize h) t k i"
  shows "\<exists>h'. hdelete_slot h i = Some h' \<and> hinv h' \<and> abs_env h' = (abs_env h)(k := None)
    \<and> hsize h' = hsize h \<and> change_ok h' = change_ok h"
proof -
  let ?s = "\<lparr>used = -1, entry = null_entry\<rparr>"
  have inv: "tinv (hsize h) t" and fil: "filled h = card (live_set (hsize h) t)"
    using h by (auto simp: hinv_def)
  have i': "i \<in> {1..hsize h}" "key (entry (t ! i)) = Some k" "live (t ! i)" and len: "i < length t"
    using i inv by (auto simp: holds_def tinv_def)
  have dead: "\<not> live ?s" by (simp add: live_def)
  have tinv: "tinv (hsize h) (t[i := ?s])"
    using i' len dead by (intro tinv_update [OF inv i'(1)]) (auto simp: slot_ok_def)
  have "live_set (hsize h) (t[i := ?s]) = live_set (hsize h) t - {i}"
    using live_set_update [OF inv i'(1), of ?s] dead by simp
  moreover have "i \<in> live_set (hsize h) t" using i' by (simp add: live_set_def)
  ultimately have card: "card (live_set (hsize h) (t[i := ?s])) = filled h - 1" using fil by simp
  let ?h = "h\<lparr>table := Some (t[i := ?s]), filled := filled h - 1\<rparr>"
  have "hinv ?h" using tinv card by (simp add: hinv_def)
  moreover have "abs_env ?h = (abs_env h)(k := (if live ?s then data (entry ?s) else None))"
    using tinv i' holds_unique [OF inv i] by (intro abs_update [OF h(2) inv, of _ i]) (auto simp: live_def)
  ultimately show ?thesis using h(2) len dead by (simp add: hdelete_slot_def slot_access)
qed

lemma not_full:
  assumes "hinv h" and "table h = Some t" and "i \<in> {1..hsize h}" and "\<not> live (t ! i)"
  shows "filled h \<noteq> hsize h"
proof -
  have "live_set (hsize h) t \<subseteq> {1..hsize h}" and "i \<notin> live_set (hsize h) t"
    using assms(4) by (auto simp: live_set_def)
  with assms(3) have "live_set (hsize h) t \<subset> {1..hsize h}" by blast
  then have "card (live_set (hsize h) t) < card {1..hsize h}" by (intro psubset_card_mono) simp_all
  moreover have "filled h = card (live_set (hsize h) t)" using assms(1,2) by (auto simp: hinv_def)
  ultimately show ?thesis by simp
qed

lemma enter_new_spec:
  assumes h: "hinv h" "table h = Some t" and no: "\<And>i. \<not> holds (hsize h) t k i"
    and j: "j < hsize h" "\<forall>j' < j. used (t ! pos (hsize h) k j') \<noteq> 0"
    and free: "\<not> live (t ! pos (hsize h) k j)"
    and idx: "(if fd \<noteq> 0 then fd else idx) = pos (hsize h) k j"
    and safe: "safe ((abs_env h)(k \<mapsto> v)) k"
  shows "\<exists>r. enter_new hk k (Some v) ENTER h flag (hash1 (hsize h) k) fd idx = Some r \<and> hinv (htab r) \<and> takes_one h (htab r)
    \<and> (if ret r = 0 then abs_env (htab r) = abs_env h \<and> err r \<in> {Some EPERM, Some EINVAL} \<and> retval r = None
       else abs_env (htab r) = (abs_env h)(k \<mapsto> v) \<and> err r = None \<and> retval r \<noteq> None)"
proof -
  let ?n = "hsize h" and ?i = "pos (hsize h) k j" and ?v = "int (hash1 (hsize h) k)"
  have inv: "tinv ?n t" using h by (auto simp: hinv_def)
  have i: "?i < length t" "?i \<in> {1..?n}" using inv pos_range [of ?n k j] by (auto simp: tinv_def)
  have room: "filled h \<noteq> ?n" by (rule not_full [OF h i(2) free])
  define e0 where "e0 = (entry (t ! ?i))\<lparr>key := Some k, data := Some v\<rparr>"
  define h1 where "h1 = h\<lparr>table := Some (t[?i := \<lparr>used = ?v, entry = e0\<rparr>]), filled := Suc (filled h)\<rparr>"
  have h1: "h1 = h\<lparr>filled := Suc (filled h), table := Some (t[?i := \<lparr>used = ?v, entry = e0\<rparr>])\<rparr>"
    by (cases h) (simp add: h1_def)
  have e0: "key e0 = Some k" "data e0 = Some v" by (simp_all add: e0_def)
  have "hinv h1" "abs_env h1 = (abs_env h)(k \<mapsto> v)"
    using insert_bucket [OF h no j(1) refl j(2) free e0] unfolding h1 by simp_all
  with init_keeps [of h1 k e0] safe e0 obtain e where
    init: "entry_init hk h1 e0 = Some e" and e: "key e = Some k" "data e = Some v" by auto
  define t2 where "t2 = t[?i := \<lparr>used = ?v, entry = e\<rparr>]"
  define h2 where "h2 = h\<lparr>filled := Suc (filled h), table := Some t2\<rparr>"
  have h2: "hinv h2" "abs_env h2 = (abs_env h)(k \<mapsto> v)" "holds (hsize h2) t2 k ?i" "table h2 = Some t2"
    using insert_bucket [OF h no j(1) refl j(2) free e] unfolding h2_def t2_def by simp_all
  have absent: "(abs_env h)(k := None) = abs_env h" using abs_not_holds [OF h(2) no] by auto
  have "get_slot h ?i = Some (t ! ?i)" "set_entry h1 ?i \<lparr>used = ?v, entry = e\<rparr> = Some h2"
    using i h(2) by (simp_all add: slot_access h1_def h2_def t2_def)
  moreover have "set_entry h ?i \<lparr>used = ?v, entry = e0\<rparr> = Some (h\<lparr>table := Some (t[?i := \<lparr>used = ?v, entry = e0\<rparr>])\<rparr>)"
    using i h(2) by (simp add: slot_access)
  ultimately have run: "enter_new hk k (Some v) ENTER h flag (hash1 ?n k) fd idx =
     (if rejected h2 e (Some v) env_op_create flag then do {
            h \<leftarrow> hdelete_slot h2 ?i;
            Some \<lparr>ret = 0, retval = None, err = Some EPERM, htab = h\<rparr> }
          else do {
            (rc, h) \<leftarrow> call_back hk e k (Some v) env_op_create flag h2;
            if rc \<noteq> 0 then do {
              h \<leftarrow> hdelete_slot h ?i;
              Some \<lparr>ret = 0, retval = None, err = Some EINVAL, htab = h\<rparr> }
            else Some \<lparr>ret = 1, retval = Some ?i, err = None, htab = h\<rparr> })"
    using room unfolding enter_new_def idx Let_def
    by (simp add: e0_def [symmetric] h1_def [symmetric] init)
  show ?thesis
  proof (cases "rejected h2 e (Some v) env_op_create flag")
    case True
    moreover have "same_shape (h\<lparr>filled := Suc (filled h), table := Some (t[?i := \<lparr>used = ?v, entry = e\<rparr>])\<rparr>) h2"
      unfolding h2_def t2_def by (rule same_shape_refl) simp
    ultimately show ?thesis
      using delete_bucket [OF h2(1,4,3)] h2(2) absent takes_one_delete [OF h(2)] unfolding run by fastforce
  next
    case ok: False
    obtain rc h3 where cb: "call_back hk e k (Some v) env_op_create flag h2 = Some (rc, h3)"
      and shape: "same_shape h2 h3" by (rule call_back_shape [OF h2(1)])
    have h3: "hinv h3" "abs_env h3 = (abs_env h)(k \<mapsto> v)"
      using same_shape_inv [OF shape h2(1)] h2(2) by simp_all
    from shape obtain t3 where t3: "table h3 = Some t3" "hsize h3 = hsize h2" "length t3 = length t2"
      "\<forall>i < length t2. used (t3 ! i) = used (t2 ! i) \<and> key (entry (t3 ! i)) = key (entry (t2 ! i))
         \<and> data (entry (t3 ! i)) = data (entry (t2 ! i))" by (auto simp: same_shape_def h2(4))
    have "holds (hsize h3) t3 k ?i"
      using h2(3) t3 i(1) by (auto simp: holds_def live_def t2_def)
    from delete_bucket [OF h3(1) t3(1) this] obtain h4 where
      "hdelete_slot h3 ?i = Some h4" "hinv h4" "abs_env h4 = abs_env h"
      using h3(2) absent by auto
    moreover have "takes_one h h3" "hdelete_slot h3 ?i = Some h4 \<Longrightarrow> takes_one h h4" for h4
      using takes_one_shape [OF takes_one_update [OF h(2)] shape [unfolded h2_def t2_def]]
        takes_one_delete [OF h(2) shape [unfolded h2_def t2_def]] by blast+
    ultimately show ?thesis using h3 ok cb unfolding run by (cases "rc = 0") simp_all
  qed
qed

lemma enter_absent:
  assumes h: "hinv h" "table h = Some t" and no: "\<And>i. \<not> holds (hsize h) t k i"
    and room: "i0 \<in> {1..hsize h}" "used (t ! i0) = 0"
    and safe: "safe ((abs_env h)(k \<mapsto> v)) k"
  shows "\<exists>r. hsearch_r hk k (Some v) ENTER h flag = Some r \<and> hinv (htab r) \<and> takes_one h (htab r)
    \<and> (if ret r = 0 then abs_env (htab r) = abs_env h \<and> err r \<in> {Some EPERM, Some EINVAL} \<and> retval r = None
       else abs_env (htab r) = (abs_env h)(k \<mapsto> v) \<and> err r = None \<and> retval r \<noteq> None)"
proof -
  have inv: "tinv (hsize h) t" and g: "good_size (hsize h)" using h by (auto simp: hinv_def tinv_def)
  obtain j where j: "j < hsize h" "used (t ! pos (hsize h) k j) = 0"
    "\<forall>j' < j. used (t ! pos (hsize h) k j') \<noteq> 0" using first_empty [OF g room] by blast
  note run = search_absent [OF h(2) refl inv no j, of hk "Some v" ENTER flag]
  show ?thesis
  proof (cases "used (t ! hash1 (hsize h) k) = -1")
    case True
    have "0 < hash1 (hsize h) k" using hash1_range [of "hsize h" k] g by (simp add: good_size_def)
    then show ?thesis unfolding run
      using True g by (intro enter_new_spec [OF h no, of 0])
        (simp_all add: first_deleted_def live_def good_size_def safe)
  next
    case False
    then show ?thesis unfolding run
      using j by (intro enter_new_spec [OF h no, of j]) (simp_all add: first_deleted_def live_def safe)
  qed
qed

theorem enter_spec:
  assumes "hinv h" and "has_room h \<or> k \<in> dom (abs_env h)" and "safe ((abs_env h)(k \<mapsto> v)) k"
  shows "\<exists>r. hsearch_r hk k (Some v) ENTER h flag = Some r \<and> hinv (htab r)
    \<and> (if ret r = 0 then abs_env (htab r) = abs_env h \<and> err r \<in> {Some EPERM, Some EINVAL} \<and> retval r = None
       else abs_env (htab r) = (abs_env h)(k \<mapsto> v) \<and> err r = None \<and> retval r \<noteq> None)"
proof -
  from assms(1) obtain t where t: "table h = Some t" "tinv (hsize h) t" by (auto simp: hinv_def)
  show ?thesis
  proof (cases "\<exists>i. holds (hsize h) t k i")
    case True
    then show ?thesis using enter_present [OF assms(1) t(1)] by blast
  next
    case False
    then have "k \<notin> dom (abs_env h)" using abs_dom [OF t] by blast
    with assms(2) have "has_room h" by simp
    with t(1) obtain i where "i \<in> {1..hsize h}" "used (t ! i) = 0"
      unfolding has_room_def by (simp only: option.case) blast
    then show ?thesis using enter_absent [OF assms(1) t(1)] False assms(3) by blast
  qed
qed

theorem delete_spec:
  assumes "hinv h"
  shows "\<exists>r. hdelete_r hk k h flag = Some r \<and> hinv (htab r)
    \<and> (if ret r = 0 then abs_env (htab r) = abs_env h \<and> err r \<in> {Some ESRCH, Some EPERM, Some EINVAL}
          \<and> (err r = Some ESRCH \<longleftrightarrow> k \<notin> dom (abs_env h))
       else abs_env (htab r) = (abs_env h)(k := None) \<and> k \<in> dom (abs_env h))"
proof -
  from assms obtain t where t: "table h = Some t" "tinv (hsize h) t" by (auto simp: hinv_def)
  from find_spec [OF assms, of hk k None 0] obtain r where
    r: "hsearch_r hk k None FIND h 0 = Some r" "htab r = h" and
    res: "case abs_env h k of None \<Rightarrow> ret r = 0 \<and> retval r = None \<and> err r = Some ESRCH
       | Some v \<Rightarrow> \<exists>t i. table h = Some t \<and> holds (hsize h) t k i \<and> data (entry (t ! i)) = Some v
            \<and> ret r = int i \<and> retval r = Some i" by blast
  show ?thesis
  proof (cases "abs_env h k")
    case None
    with r res assms show ?thesis by (auto simp: hdelete_r_def dom_def)
  next
    case (Some v)
    with res t(1) obtain i where i: "holds (hsize h) t k i" "ret r = int i" by auto
    then have i': "i < length t" "0 < i" using t(2) by (auto simp: holds_def tinv_def)
    obtain rc h1 where cb: "call_back hk (entry (t ! i)) k None env_op_delete flag h = Some (rc, h1)"
      and shape: "same_shape h h1" by (rule call_back_shape [OF assms])
    have h1: "hinv h1" "abs_env h1 = abs_env h" using same_shape_inv [OF shape assms] by simp_all
    from shape obtain t1 where t1: "table h1 = Some t1" "hsize h1 = hsize h" "length t1 = length t"
      "\<forall>i < length t. used (t1 ! i) = used (t ! i) \<and> key (entry (t1 ! i)) = key (entry (t ! i))
         \<and> data (entry (t1 ! i)) = data (entry (t ! i))" by (auto simp: same_shape_def t(1))
    have "holds (hsize h1) t1 k i" using i(1) t1 i' by (auto simp: holds_def live_def)
    from delete_bucket [OF h1(1) t1(1) this] h1 r i i' t(1) cb Some assms show ?thesis
      by (auto simp: hdelete_r_def slot_access Let_def split: if_splits)
  qed
qed

end

end
