(* ===== verification/HashLimits.thy ===== *)
theory HashLimits
  imports HashRefine
begin

text \<open>
  Two limits of the hash table that its users have to know: with no empty bucket left, entering a
  new name may replace another one, although a released bucket could be reused; and the scanning
  searches never look at the last bucket. Both are shown on a table of five buckets.
\<close>

text \<open>Hooks without attributes and callbacks.\<close>

definition quiet_hooks :: hooks where
  "quiet_hooks = \<lparr>entry_init = (\<lambda>h e. Some e), run_callback = (\<lambda>c n v op f h. Some (0, h)), alloc_ok = (\<lambda>n. True)\<rparr>"

definition table5 :: "slot list \<Rightarrow> nat \<Rightarrow> hsearch_data" where
  "table5 ts n = \<lparr>table = Some ts, hsize = 5, filled = n, change_ok = None\<rparr>"

definition bound_slot :: "nat \<Rightarrow> string \<Rightarrow> string \<Rightarrow> slot" where
  "bound_slot u k d = \<lparr>used = int u, entry = \<lparr>key = Some k, data = Some d, callback = None, flags = 0\<rparr>\<rparr>"

fun enter_all :: "hooks \<Rightarrow> (string \<times> string) list \<Rightarrow> hsearch_data \<Rightarrow> hsearch_data option" where
  "enter_all hk [] h = Some h"
| "enter_all hk ((k, v) # kvs) h = do { r \<leftarrow> hsearch_r hk k (Some v) ENTER h 0; enter_all hk kvs (htab r) }"

definition five_names :: "hsearch_data option" where
  "five_names = enter_all quiet_hooks [(''d'', ''1''), (''e'', ''2''), (''a'', ''3''), (''b'', ''4''), (''c'', ''5'')]
     (table5 (replicate 6 null_slot) 0)"

section \<open>Evaluation of small tables\<close>

lemma table5_simps: "table (table5 ts n) = Some ts" "hsize (table5 ts n) = 5" "filled (table5 ts n) = n"
  "change_ok (table5 ts n) = None" "(table5 ts n)\<lparr>table := Some ts'\<rparr> = table5 ts' n" "(table5 ts n)\<lparr>filled := m\<rparr> = table5 ts m"
  by (simp_all add: table5_def)

lemma slot_simps: "used (bound_slot u k d) = int u"
  "entry (bound_slot u k d) = \<lparr>key = Some k, data = Some d, callback = None, flags = 0\<rparr>"
  "used null_slot = 0" "entry null_slot = \<lparr>key = None, data = None, callback = None, flags = 0\<rparr>"
  "\<lparr>used = 1, entry = \<lparr>key = Some k, data = Some d, callback = None, flags = 0\<rparr>\<rparr> = bound_slot 1 k d"
  "\<lparr>used = numeral n, entry = \<lparr>key = Some k, data = Some d, callback = None, flags = 0\<rparr>\<rparr> = bound_slot (numeral n) k d"
  by (simp_all add: bound_slot_def null_slot_def null_entry_def)

lemma quiet_simps: "entry_init quiet_hooks h e = Some e" "strdup quiet_hooks s = s"
  by (simp_all add: quiet_hooks_def strdup_def split: option.split)

lemma hash_simps:
  "hash1 5 ''a'' = 3" "hash1 5 ''b'' = 4" "hash1 5 ''c'' = 1" "hash1 5 ''d'' = 1" "hash1 5 ''e'' = 2" "hash1 5 ''i'' = 1"
  "hash2 5 1 = 2" "hash2 5 2 = 3" "hash2 5 3 = 1" "hash2 5 4 = 2" "hash2 5 (Suc 0) = 2"
  by (simp_all add: hash1_def hash_string_def hash2_def sub32_def Let_def)

lemma index_simps: "(x # xs)[numeral n := y] = x # xs[pred_numeral n := y]"
  "probe_loop 5 = probe_loop (Suc (Suc (Suc (Suc (Suc 0)))))"
  by (simp_all add: numeral_eq_Suc)

lemmas run_small = hsearch_r_def hdelete_r_def enter_new_def compare_and_overwrite_entry_def get_slot_def set_entry_def
  hdelete_slot_def rd_def wr_def next_idx_def rejected_def call_back_def Let_def
  quiet_simps hash_simps table5_simps slot_simps index_simps

lemma five_names_table:
  "five_names = Some (table5 [null_slot, bound_slot 1 ''d'' ''1'', bound_slot 2 ''e'' ''2'', bound_slot 3 ''a'' ''3'',
      bound_slot 4 ''b'' ''4'', bound_slot 1 ''c'' ''5''] 5)"
proof -
  have "replicate 6 null_slot = [null_slot, null_slot, null_slot, null_slot, null_slot, null_slot]"
    by (simp add: numeral_eq_Suc)
  then show ?thesis by (simp add: five_names_def run_small)
qed

section \<open>Properties\<close>


text \<open>
  The scanning searches skip the bucket with the largest index: after the same five
  insertions the name c is found by \<open>hsearch_r\<close>, at index 5, and by neither \<open>hmatch_r\<close> nor
  \<open>hstrstr_r\<close>.
\<close>

theorem scans_miss_last_bucket:
  "do { h \<leftarrow> five_names;
        r \<leftarrow> hsearch_r quiet_hooks ''c'' None FIND h 0;
        m \<leftarrow> hmatch_r ''c'' 0 h;
        s \<leftarrow> hstrstr_r ''c'' 0 h;
        Some (ret r, ret m, ret s) }
   = Some (5, 0, 0)"
  by (simp add: five_names_table run_small hmatch_r_def hstrstr_r_def scan_result_def upt_rec sublist_Cons_right)

end
