(* ===== verification/Lmb.thy ===== *)
theory Lmb
  imports Prelude
begin

text \<open>
  The logical memory blocks (\<^verbatim>\<open>lib/lmb.c\<close>): two tables of address ranges, the memory of the board and
  the ranges that are reserved in it, from which space for the kernel, the device tree and the ramdisk
  is allocated downwards. Addresses and sizes are 32 bit wide; they are natural numbers here, and
  every addition and subtraction of the code is taken modulo \<open>2 ^ 32\<close>. The array of a table has
  \<^verbatim>\<open>MAX_LMB_REGIONS + 1\<close> elements of which the first \<^verbatim>\<open>cnt\<close> are in use.
\<close>

section \<open>Tables\<close>

definition MAX_LMB_REGIONS :: nat where "MAX_LMB_REGIONS = 8"

record lmb_property =
  pbase :: nat
  psize :: nat

record lmb_region =
  cnt :: nat
  region :: "lmb_property list"

record lmb =
  memory :: lmb_region
  reserved :: lmb_region

definition add32 :: "nat \<Rightarrow> nat \<Rightarrow> nat" where
  "add32 a b = (a + b) mod 2 ^ 32"

definition lmb_addrs_overlap :: "nat \<Rightarrow> nat \<Rightarrow> nat \<Rightarrow> nat \<Rightarrow> bool" where
  "lmb_addrs_overlap base1 size1 base2 size2 \<longleftrightarrow> base1 < add32 base2 size2 \<and> base2 < add32 base1 size1"

definition lmb_addrs_adjacent :: "nat \<Rightarrow> nat \<Rightarrow> nat \<Rightarrow> nat \<Rightarrow> int" where
  "lmb_addrs_adjacent base1 size1 base2 size2 =
     (if base2 = add32 base1 size1 then 1 else if base1 = add32 base2 size2 then -1 else 0)"

definition lmb_regions_adjacent :: "lmb_property list \<Rightarrow> nat \<Rightarrow> nat \<Rightarrow> int option" where
  "lmb_regions_adjacent reg r1 r2 = do {
     p \<leftarrow> rd reg r1; q \<leftarrow> rd reg r2;
     Some (lmb_addrs_adjacent (pbase p) (psize p) (pbase q) (psize q)) }"

text \<open>The loop bound \<^verbatim>\<open>rgn->cnt - 1\<close> is unsigned.\<close>

function remove_loop :: "lmb_property list \<Rightarrow> nat \<Rightarrow> nat \<Rightarrow> lmb_property list option" where
  "remove_loop reg i bound =
     (if i < bound then do { p \<leftarrow> rd reg (i + 1); reg \<leftarrow> wr reg i p; remove_loop reg (i + 1) bound }
      else Some reg)"
  by pat_completeness auto
termination by (relation "measure (\<lambda>(reg, i, bound). bound - i)") auto

declare remove_loop.simps [simp del]

definition lmb_remove_region :: "lmb_region \<Rightarrow> nat \<Rightarrow> lmb_region option" where
  "lmb_remove_region rgn r = do {
     reg \<leftarrow> remove_loop (region rgn) r (sub32 (cnt rgn) 1);
     Some \<lparr>cnt = sub32 (cnt rgn) 1, region = reg\<rparr> }"

definition lmb_coalesce_regions :: "lmb_region \<Rightarrow> nat \<Rightarrow> nat \<Rightarrow> lmb_region option" where
  "lmb_coalesce_regions rgn r1 r2 = do {
     p \<leftarrow> rd (region rgn) r1; q \<leftarrow> rd (region rgn) r2;
     reg \<leftarrow> wr (region rgn) r1 (p\<lparr>psize := add32 (psize p) (psize q)\<rparr>);
     lmb_remove_region (rgn\<lparr>region := reg\<rparr>) r2 }"

definition lmb_init :: "lmb \<Rightarrow> lmb option" where
  "lmb_init l = do {
     m \<leftarrow> wr (region (memory l)) 0 \<lparr>pbase = 0, psize = 0\<rparr>;
     r \<leftarrow> wr (region (reserved l)) 0 \<lparr>pbase = 0, psize = 0\<rparr>;
     Some \<lparr>memory = \<lparr>cnt = 1, region = m\<rparr>, reserved = \<lparr>cnt = 1, region = r\<rparr>\<rparr> }"

section \<open>Adding and freeing ranges\<close>

text \<open>
  The first loop of \<^verbatim>\<open>lmb_add_region\<close>: it ends early with a range that is there already, or at an
  adjacent range, which is extended; or it runs to the end.
\<close>

datatype scan = Already | Extended nat "lmb_property list" | Nowhere

function coalesce_scan :: "lmb_property list \<Rightarrow> nat \<Rightarrow> nat \<Rightarrow> nat \<Rightarrow> nat \<Rightarrow> scan option" where
  "coalesce_scan reg n base sz i =
     (if i < n then do {
        p \<leftarrow> rd reg i;
        if pbase p = base \<and> psize p = sz then Some Already
        else if lmb_addrs_adjacent base sz (pbase p) (psize p) > 0 then do {
          reg \<leftarrow> wr reg i \<lparr>pbase = sub32 (pbase p) sz, psize = add32 (psize p) sz\<rparr>;
          Some (Extended i reg) }
        else if lmb_addrs_adjacent base sz (pbase p) (psize p) < 0 then do {
          reg \<leftarrow> wr reg i (p\<lparr>psize := add32 (psize p) sz\<rparr>);
          Some (Extended i reg) }
        else coalesce_scan reg n base sz (i + 1) }
      else Some Nowhere)"
  by pat_completeness auto
termination by (relation "measure (\<lambda>(reg, n, base, sz, i). n - i)") auto

declare coalesce_scan.simps [simp del]

text \<open>The insertion loop runs from \<^verbatim>\<open>i = cnt - 1\<close> downwards; its argument is \<^verbatim>\<open>i + 1\<close>.\<close>

fun insert_loop :: "lmb_property list \<Rightarrow> nat \<Rightarrow> nat \<Rightarrow> nat \<Rightarrow> lmb_property list option" where
  "insert_loop reg base sz 0 = Some reg"
| "insert_loop reg base sz (Suc i) = do {
     p \<leftarrow> rd reg i;
     if base < pbase p then do { reg \<leftarrow> wr reg (Suc i) p; insert_loop reg base sz i }
     else wr reg (Suc i) \<lparr>pbase = base, psize = sz\<rparr> }"

definition insert_region :: "lmb_region \<Rightarrow> nat \<Rightarrow> nat \<Rightarrow> (int \<times> lmb_region) option" where
  "insert_region rgn base sz =
     (if cnt rgn \<ge> MAX_LMB_REGIONS then Some (-1, rgn)
      else do {
        reg \<leftarrow> insert_loop (region rgn) base sz (cnt rgn);
        p0 \<leftarrow> rd reg 0;
        reg \<leftarrow> (if base < pbase p0 then wr reg 0 \<lparr>pbase = base, psize = sz\<rparr> else Some reg);
        Some (0, \<lparr>cnt = cnt rgn + 1, region = reg\<rparr>) })"

text \<open>\<open>coalesced\<close> is the value of the variable, \<open>i\<close> that of the loop counter, after the first loop.\<close>

definition merge_next :: "lmb_region \<Rightarrow> nat \<Rightarrow> int \<Rightarrow> (int \<times> lmb_region) option" where
  "merge_next rgn i coalesced =
     (if i < sub32 (cnt rgn) 1 then do {
        a \<leftarrow> lmb_regions_adjacent (region rgn) i (i + 1);
        if a \<noteq> 0 then do { rgn \<leftarrow> lmb_coalesce_regions rgn i (i + 1); Some (coalesced + 1, rgn) }
        else Some (coalesced, rgn) }
      else Some (coalesced, rgn))"

definition lmb_add_region :: "lmb_region \<Rightarrow> nat \<Rightarrow> nat \<Rightarrow> (int \<times> lmb_region) option" where
  "lmb_add_region rgn base sz = do {
     p0 \<leftarrow> rd (region rgn) 0;
     if cnt rgn = 1 \<and> psize p0 = 0 then do {
       reg \<leftarrow> wr (region rgn) 0 \<lparr>pbase = base, psize = sz\<rparr>;
       Some (0, rgn\<lparr>region := reg\<rparr>) }
     else do {
       s \<leftarrow> coalesce_scan (region rgn) (cnt rgn) base sz 0;
       case s of
         Already \<Rightarrow> Some (0, rgn)
       | Extended i reg \<Rightarrow> merge_next (rgn\<lparr>region := reg\<rparr>) i 1
       | Nowhere \<Rightarrow> do {
           (c, rgn) \<leftarrow> merge_next rgn (cnt rgn) 0;
           if c \<noteq> 0 then Some (c, rgn) else insert_region rgn base sz } } }"

definition lmb_add :: "lmb \<Rightarrow> nat \<Rightarrow> nat \<Rightarrow> (int \<times> lmb) option" where
  "lmb_add l base sz = do { (rc, m) \<leftarrow> lmb_add_region (memory l) base sz; Some (rc, l\<lparr>memory := m\<rparr>) }"

definition lmb_reserve :: "lmb \<Rightarrow> nat \<Rightarrow> nat \<Rightarrow> (int \<times> lmb) option" where
  "lmb_reserve l base sz = do { (rc, r) \<leftarrow> lmb_add_region (reserved l) base sz; Some (rc, l\<lparr>reserved := r\<rparr>) }"

text \<open>The index of the first range that contains \<open>base\<close> to \<open>en\<close>.\<close>

function find_containing :: "lmb_property list \<Rightarrow> nat \<Rightarrow> nat \<Rightarrow> nat \<Rightarrow> nat \<Rightarrow> nat option option" where
  "find_containing reg n base en i =
     (if i < n then do {
        p \<leftarrow> rd reg i;
        if pbase p \<le> base \<and> en \<le> add32 (pbase p) (psize p) then Some (Some i)
        else find_containing reg n base en (i + 1) }
      else Some None)"
  by pat_completeness auto
termination by (relation "measure (\<lambda>(reg, n, base, en, i). n - i)") auto

declare find_containing.simps [simp del]

definition lmb_free :: "lmb \<Rightarrow> nat \<Rightarrow> nat \<Rightarrow> (int \<times> lmb) option" where
  "lmb_free l base sz = (let rgn = reserved l; en = add32 base sz in do {
     f \<leftarrow> find_containing (region rgn) (cnt rgn) base en 0;
     case f of
       None \<Rightarrow> Some (-1, l)
     | Some i \<Rightarrow> do {
         p \<leftarrow> rd (region rgn) i;
         let rgnbegin = pbase p; rgnend = add32 (pbase p) (psize p) in
         if rgnbegin = base \<and> rgnend = en then do {
           rgn \<leftarrow> lmb_remove_region rgn i;
           Some (0, l\<lparr>reserved := rgn\<rparr>) }
         else if rgnbegin = base then do {
           reg \<leftarrow> wr (region rgn) i \<lparr>pbase = en, psize = sub32 (psize p) sz\<rparr>;
           Some (0, l\<lparr>reserved := rgn\<lparr>region := reg\<rparr>\<rparr>) }
         else if rgnend = en then do {
           reg \<leftarrow> wr (region rgn) i (p\<lparr>psize := sub32 (psize p) sz\<rparr>);
           Some (0, l\<lparr>reserved := rgn\<lparr>region := reg\<rparr>\<rparr>) }
         else do {
           reg \<leftarrow> wr (region rgn) i (p\<lparr>psize := sub32 base rgnbegin\<rparr>);
           (rc, rgn) \<leftarrow> lmb_add_region (rgn\<lparr>region := reg\<rparr>) en (sub32 rgnend en);
           Some (rc, l\<lparr>reserved := rgn\<rparr>) } } })"

section \<open>Allocation\<close>

definition lmb_overlaps_region :: "lmb_region \<Rightarrow> nat \<Rightarrow> nat \<Rightarrow> int" where
  "lmb_overlaps_region rgn base sz =
     (case find (\<lambda>i. lmb_addrs_overlap base sz (pbase (region rgn ! i)) (psize (region rgn ! i))) [0..<cnt rgn] of
        Some i \<Rightarrow> int i | None \<Rightarrow> -1)"

definition lmb_align_down :: "nat \<Rightarrow> nat \<Rightarrow> nat" where
  "lmb_align_down addr al = unat ((of_nat addr :: u32) AND NOT (of_nat al - 1))"

definition lmb_align_up :: "nat \<Rightarrow> nat \<Rightarrow> nat" where
  "lmb_align_up addr al = unat (((of_nat addr :: u32) + (of_nat al - 1)) AND NOT (of_nat al - 1))"

text \<open>
  The \<^verbatim>\<open>while\<close> loop for one memory range: \<open>Inl\<close> is a return with an address, \<open>Inr\<close> means that the
  loop was left and the next memory range is tried.
\<close>

partial_function (option) alloc_loop :: "lmb_region \<Rightarrow> nat \<Rightarrow> nat \<Rightarrow> nat \<Rightarrow> nat \<Rightarrow> ((nat \<times> lmb_region) + unit) option" where
  "alloc_loop res sz al lmbbase base =
     (if base = 0 \<or> base < lmbbase then Some (Inr ())
      else if lmb_overlaps_region res base sz < 0 then
        Option.bind (lmb_add_region res base (lmb_align_up sz al))
          (\<lambda>(rc, res'). Some (Inl (if rc < 0 then (0, res') else (base, res'))))
      else if pbase (region res ! nat (lmb_overlaps_region res base sz)) < sz then Some (Inr ())
      else alloc_loop res sz al lmbbase
             (lmb_align_down (sub32 (pbase (region res ! nat (lmb_overlaps_region res base sz))) sz) al))"

definition LMB_ALLOC_ANYWHERE :: nat where "LMB_ALLOC_ANYWHERE = 0"

fun alloc_from :: "lmb_property list \<Rightarrow> lmb_region \<Rightarrow> nat \<Rightarrow> nat \<Rightarrow> nat \<Rightarrow> nat \<Rightarrow> (nat \<times> lmb_region) option" where
  "alloc_from mem res sz al max_addr 0 = Some (0, res)"
| "alloc_from mem res sz al max_addr (Suc i) = do {
     p \<leftarrow> rd mem i;
     if psize p < sz then alloc_from mem res sz al max_addr i
     else if max_addr \<noteq> LMB_ALLOC_ANYWHERE \<and> \<not> pbase p < max_addr then alloc_from mem res sz al max_addr i
     else do {
       r \<leftarrow> alloc_loop res sz al (pbase p)
         (if max_addr = LMB_ALLOC_ANYWHERE then lmb_align_down (sub32 (add32 (pbase p) (psize p)) sz) al
          else lmb_align_down (sub32 (min (add32 (pbase p) (psize p)) max_addr) sz) al);
       case r of Inl x \<Rightarrow> Some x | Inr _ \<Rightarrow> alloc_from mem res sz al max_addr i } }"

definition lmb_alloc_base :: "lmb \<Rightarrow> nat \<Rightarrow> nat \<Rightarrow> nat \<Rightarrow> (nat \<times> lmb) option" where
  "lmb_alloc_base l sz al max_addr = do {
     (a, res) \<leftarrow> alloc_from (region (memory l)) (reserved l) sz al max_addr (cnt (memory l));
     Some (a, l\<lparr>reserved := res\<rparr>) }"

definition lmb_alloc :: "lmb \<Rightarrow> nat \<Rightarrow> nat \<Rightarrow> (nat \<times> lmb) option" where
  "lmb_alloc l sz al = lmb_alloc_base l sz al LMB_ALLOC_ANYWHERE"

definition lmb_is_reserved :: "lmb \<Rightarrow> nat \<Rightarrow> bool" where
  "lmb_is_reserved l addr \<longleftrightarrow> (\<exists>i \<in> set [0..<cnt (reserved l)].
     pbase (region (reserved l) ! i) \<le> addr
     \<and> addr \<le> sub32 (add32 (pbase (region (reserved l) ! i)) (psize (region (reserved l) ! i))) 1)"

section \<open>Invariant and abstraction\<close>

definition ivl :: "lmb_property \<Rightarrow> nat set" where
  "ivl p = {pbase p..<pbase p + psize p}"

definition fits32 :: "lmb_property \<Rightarrow> bool" where
  "fits32 p \<longleftrightarrow> 0 < psize p \<and> pbase p + psize p < 2 ^ 32"

text \<open>Sorted, disjoint, not empty, and not reaching the end of the address space.\<close>

definition ranges_ok :: "lmb_property list \<Rightarrow> bool" where
  "ranges_ok ps \<longleftrightarrow> (\<forall>p \<in> set ps. fits32 p) \<and> sorted_wrt (\<lambda>p q. pbase p + psize p \<le> pbase q) ps"

definition active :: "lmb_region \<Rightarrow> lmb_property list" where
  "active rgn = take (cnt rgn) (region rgn)"

definition covered :: "lmb_region \<Rightarrow> nat set" where
  "covered rgn = (\<Union>p \<in> set (active rgn). ivl p)"

text \<open>The dummy range of \<open>lmb_init\<close> is the only one of size 0.\<close>

definition rgn_inv :: "lmb_region \<Rightarrow> bool" where
  "rgn_inv rgn \<longleftrightarrow> length (region rgn) = MAX_LMB_REGIONS + 1 \<and> 1 \<le> cnt rgn \<and> cnt rgn \<le> MAX_LMB_REGIONS
     \<and> (ranges_ok (active rgn) \<or> cnt rgn = 1 \<and> region rgn ! 0 = \<lparr>pbase = 0, psize = 0\<rparr>)"

lemma add32_fits [simp]: "fits32 p \<Longrightarrow> add32 (pbase p) (psize p) = pbase p + psize p"
  by (simp add: add32_def fits32_def)

lemma add32_small [simp]: "a + b < 2 ^ 32 \<Longrightarrow> add32 a b = a + b"
  by (simp add: add32_def)

lemma ranges_ok_append:
  "ranges_ok (as @ bs) \<longleftrightarrow> ranges_ok as \<and> ranges_ok bs \<and> (\<forall>p \<in> set as. \<forall>q \<in> set bs. pbase p + psize p \<le> pbase q)"
  by (auto simp: ranges_ok_def sorted_wrt_append)

lemma ranges_ok_Cons:
  "ranges_ok (p # ps) \<longleftrightarrow> fits32 p \<and> ranges_ok ps \<and> (\<forall>q \<in> set ps. pbase p + psize p \<le> pbase q)"
  by (auto simp: ranges_ok_def)

lemma ranges_ok_Nil [simp]: "ranges_ok []"
  by (simp add: ranges_ok_def)

text \<open>Two disjoint non-empty ranges: one lies below the other.\<close>

lemma disjoint_ranges:
  assumes "ivl p \<inter> {b..<b + s} = {}" and "0 < psize p" and "0 < s"
  shows "pbase p + psize p \<le> b \<or> b + s \<le> pbase p"
proof (rule ccontr)
  assume "\<not> ?thesis"
  then have "max (pbase p) b \<in> ivl p \<inter> {b..<b + s}" using assms(2,3) by (auto simp: ivl_def)
  with assms(1) show False by blast
qed

section \<open>Removing and inserting\<close>

lemma remove_loop_spec:
  "bound < length reg \<Longrightarrow> \<exists>reg'. remove_loop reg i bound = Some reg' \<and> length reg' = length reg
     \<and> (\<forall>k < length reg. reg' ! k = (if i \<le> k \<and> k < bound then reg ! (k + 1) else reg ! k))"
proof (induction reg i bound rule: remove_loop.induct)
  case (1 reg i bound)
  show ?case
  proof (cases "i < bound")
    case True
    let ?reg = "reg[i := reg ! (i + 1)]"
    have "\<exists>reg'. remove_loop ?reg (i + 1) bound = Some reg' \<and> length reg' = length ?reg
       \<and> (\<forall>k < length ?reg. reg' ! k = (if i + 1 \<le> k \<and> k < bound then ?reg ! (k + 1) else ?reg ! k))"
      by (rule 1(1) [OF True]) (use True 1(2) in \<open>simp_all add: rd_def wr_def\<close>)
    then show ?thesis using True 1(2)
      by (subst remove_loop.simps) (auto simp: rd_def wr_def nth_list_update le_less Suc_le_eq)
  next
    case False
    then show ?thesis by (subst remove_loop.simps) auto
  qed
qed

lemma remove_region_spec:
  assumes "active rgn = as @ p # bs" and "length as = r" and "cnt rgn \<le> length (region rgn)" and "cnt rgn < 2 ^ 32"
  shows "\<exists>rgn'. lmb_remove_region rgn r = Some rgn' \<and> active rgn' = as @ bs \<and> cnt rgn' = cnt rgn - 1
    \<and> length (region rgn') = length (region rgn)"
proof -
  have n: "cnt rgn = length as + length bs + 1"
    using arg_cong [OF assms(1), of length] assms(3) by (simp add: active_def)
  then have s: "sub32 (cnt rgn) 1 = cnt rgn - 1" using assms(4) by (simp add: sub32_no_borrow)
  obtain reg' where r: "remove_loop (region rgn) r (cnt rgn - 1) = Some reg'" "length reg' = length (region rgn)"
    "\<forall>k < length (region rgn). reg' ! k = (if r \<le> k \<and> k < cnt rgn - 1 then region rgn ! (k + 1) else region rgn ! k)"
    using remove_loop_spec [of "cnt rgn - 1" "region rgn" r] n assms(3) by auto
  have act: "region rgn ! k = (as @ p # bs) ! k" if "k < cnt rgn" for k
    using that assms(1) by (metis active_def nth_take)
  have "take (cnt rgn - 1) reg' = as @ bs"
  proof (rule nth_equalityI)
    show "length (take (cnt rgn - 1) reg') = length (as @ bs)" using r(2) n assms(3) by simp
    show "take (cnt rgn - 1) reg' ! k = (as @ bs) ! k" if "k < length (take (cnt rgn - 1) reg')" for k
      using that r(2,3) n assms(2,3) act [of k] act [of "k + 1"] by (auto simp: nth_append)
  qed
  with r s show ?thesis by (simp add: lmb_remove_region_def active_def)
qed

lemma insert_loop_shift:
  assumes "\<forall>p \<in> set bs. base < pbase p"
  shows "insert_loop (xs @ bs @ z # rest) base sz (length xs + length bs)
    = insert_loop (xs @ hd (bs @ [z]) # bs @ rest) base sz (length xs)"
  using assms
proof (induction bs arbitrary: z rest rule: rev_induct)
  case (snoc p bs)
  have "rd (xs @ (bs @ [p]) @ z # rest) (length xs + length bs) = Some p"
    by (simp add: rd_def nth_append)
  moreover have "wr (xs @ (bs @ [p]) @ z # rest) (Suc (length xs + length bs)) p = Some (xs @ bs @ p # p # rest)"
    by (simp add: wr_def list_update_append)
  ultimately have "insert_loop (xs @ (bs @ [p]) @ z # rest) base sz (length xs + length (bs @ [p]))
      = insert_loop (xs @ bs @ p # p # rest) base sz (length xs + length bs)"
    using snoc.prems by simp
  also have "\<dots> = insert_loop (xs @ hd (bs @ [p]) # bs @ p # rest) base sz (length xs)"
    using snoc by simp
  also have "xs @ hd (bs @ [p]) # bs @ p # rest = xs @ hd ((bs @ [p]) @ [z]) # (bs @ [p]) @ rest"
    by (cases bs) simp_all
  finally show ?case .
qed simp

lemma insert_region_spec:
  assumes "active rgn = as @ bs" and "as @ bs \<noteq> []" and "\<forall>p \<in> set as. pbase p \<le> base" and "\<forall>p \<in> set bs. base < pbase p"
    and "length (region rgn) = MAX_LMB_REGIONS + 1" and "cnt rgn < MAX_LMB_REGIONS"
  shows "\<exists>rgn'. insert_region rgn base sz = Some (0, rgn') \<and> active rgn' = as @ \<lparr>pbase = base, psize = sz\<rparr> # bs
    \<and> cnt rgn' = cnt rgn + 1 \<and> length (region rgn') = length (region rgn)"
proof -
  let ?new = "\<lparr>pbase = base, psize = sz\<rparr>"
  have n: "cnt rgn = length as + length bs" and len: "cnt rgn < length (region rgn)"
    using arg_cong [OF assms(1), of length] assms(5,6) by (simp_all add: active_def)
  obtain z rest where reg: "region rgn = as @ bs @ z # rest"
    using id_take_nth_drop [OF len] assms(1) by (simp add: active_def)
  have loop: "insert_loop (region rgn) base sz (cnt rgn) = insert_loop (as @ hd (bs @ [z]) # bs @ rest) base sz (length as)"
    unfolding reg n by (rule insert_loop_shift [OF assms(4)])
  show ?thesis
  proof (cases as rule: rev_cases)
    case Nil
    then have "bs \<noteq> []" using assms(2) by simp
    then have "base < pbase (hd bs)" "hd (bs @ [z]) = hd bs" using assms(4) by simp_all
    then show ?thesis using loop Nil assms(6) n reg
      by (simp add: insert_region_def rd_def wr_def active_def)
  next
    case (snoc as' p)
    have "insert_loop (as @ hd (bs @ [z]) # bs @ rest) base sz (length as) = Some (as @ ?new # bs @ rest)"
      using assms(3) by (simp add: snoc rd_def wr_def nth_append list_update_append)
    moreover have "\<not> base < pbase ((as @ ?new # bs @ rest) ! 0)"
      using assms(3) snoc by (cases as') (auto simp: not_less)
    ultimately show ?thesis using loop assms(6) n reg
      by (simp add: insert_region_def rd_def active_def)
  qed
qed

section \<open>Adding a range\<close>

text \<open>What the first loop finds: the range extends one of the active ranges, or touches none.\<close>

definition extends :: "lmb_property \<Rightarrow> nat \<Rightarrow> nat \<Rightarrow> lmb_property \<Rightarrow> bool" where
  "extends p base sz p' \<longleftrightarrow> base + sz = pbase p \<and> p' = \<lparr>pbase = base, psize = psize p + sz\<rparr>
     \<or> pbase p + psize p = base \<and> p' = p\<lparr>psize := psize p + sz\<rparr>"

lemma extends_ivl: "extends p base sz p' \<Longrightarrow> ivl p' = ivl p \<union> {base..<base + sz}"
  by (auto simp: extends_def ivl_def)

lemma scan_step:
  assumes "fits32 p" and "0 < sz" and "base + sz < 2 ^ 32" and "ivl p \<inter> {base..<base + sz} = {}"
  shows "(pbase p \<noteq> base \<or> psize p \<noteq> sz)"
    and "lmb_addrs_adjacent base sz (pbase p) (psize p) > 0 \<longleftrightarrow> base + sz = pbase p"
    and "lmb_addrs_adjacent base sz (pbase p) (psize p) < 0 \<longleftrightarrow> pbase p + psize p = base"
    and "base + sz = pbase p \<Longrightarrow> sub32 (pbase p) sz = base \<and> add32 (psize p) sz = psize p + sz"
    and "pbase p + psize p = base \<Longrightarrow> add32 (psize p) sz = psize p + sz"
proof -
  have d: "pbase p + psize p \<le> base \<or> base + sz \<le> pbase p"
    using disjoint_ranges [OF assms(4)] assms(1,2) by (simp add: fits32_def)
  then show "pbase p \<noteq> base \<or> psize p \<noteq> sz" using assms(1,2) by (auto simp: fits32_def)
  show "lmb_addrs_adjacent base sz (pbase p) (psize p) > 0 \<longleftrightarrow> base + sz = pbase p"
    and "lmb_addrs_adjacent base sz (pbase p) (psize p) < 0 \<longleftrightarrow> pbase p + psize p = base"
    using assms(1-3) d by (auto simp: lmb_addrs_adjacent_def fits32_def)
  show "base + sz = pbase p \<Longrightarrow> sub32 (pbase p) sz = base \<and> add32 (psize p) sz = psize p + sz"
    using assms(1,3) sub32_no_borrow [of sz "pbase p"] by (auto simp: fits32_def)
  show "pbase p + psize p = base \<Longrightarrow> add32 (psize p) sz = psize p + sz" using assms(3) by simp
qed

lemma coalesce_scan_spec:
  assumes "\<forall>k < n. fits32 (reg ! k) \<and> ivl (reg ! k) \<inter> {base..<base + sz} = {}" and "n \<le> length reg"
    and "0 < sz" and "base + sz < 2 ^ 32"
  shows "(\<exists>j p'. coalesce_scan reg n base sz i = Some (Extended j (reg[j := p'])) \<and> j < n \<and> extends (reg ! j) base sz p')
    \<or> coalesce_scan reg n base sz i = Some Nowhere"
  using assms
proof (induction reg n base sz i rule: coalesce_scan.induct)
  case (1 reg n base sz i)
  show ?case
  proof (cases "i < n")
    case True
    let ?p = "reg ! i"
    have p: "rd reg i = Some ?p" "i < length reg" using True 1(3) by (simp_all add: rd_def)
    have fd: "fits32 ?p" "ivl ?p \<inter> {base..<base + sz} = {}" using 1(2) True by simp_all
    note st = scan_step [OF fd(1) 1(4,5) fd(2)]
    have run: "coalesce_scan reg n base sz i =
      (if base + sz = pbase ?p then Some (Extended i (reg[i := \<lparr>pbase = base, psize = psize ?p + sz\<rparr>]))
       else if pbase ?p + psize ?p = base then Some (Extended i (reg[i := ?p\<lparr>psize := psize ?p + sz\<rparr>]))
       else coalesce_scan reg n base sz (i + 1))"
      using p True st by (subst coalesce_scan.simps) (auto simp: wr_def)
    show ?thesis
    proof (cases "base + sz = pbase ?p \<or> pbase ?p + psize ?p = base")
      case adj: True
      then show ?thesis
      proof
        assume a: "base + sz = pbase ?p"
        then have "extends ?p base sz \<lparr>pbase = base, psize = psize ?p + sz\<rparr>" by (simp add: extends_def)
        with a run True show ?thesis by (metis (no_types, lifting))
      next
        assume a: "pbase ?p + psize ?p = base"
        then have "base + sz \<noteq> pbase ?p" using fd(1) 1(4) by (auto simp: fits32_def)
        moreover have "extends ?p base sz (?p\<lparr>psize := psize ?p + sz\<rparr>)" using a by (simp add: extends_def)
        ultimately show ?thesis using a run True by (metis (no_types, lifting))
      qed
    next
      case False
      then have eq: "coalesce_scan reg n base sz i = coalesce_scan reg n base sz (i + 1)" using run by simp
      have "\<not> (pbase ?p = base \<and> psize ?p = sz)" "\<not> 0 < lmb_addrs_adjacent base sz (pbase ?p) (psize ?p)"
        "\<not> lmb_addrs_adjacent base sz (pbase ?p) (psize ?p) < 0" using st False by auto
      from 1(1) [OF True p(1) this 1(2-5)] show ?thesis unfolding eq .
    qed
  qed (subst coalesce_scan.simps, simp)
qed

lemma merge_next_none: "cnt rgn < 2 ^ 32 \<Longrightarrow> \<not> i < cnt rgn - 1 \<Longrightarrow> 1 \<le> cnt rgn \<Longrightarrow> merge_next rgn i c = Some (c, rgn)"
  by (simp add: merge_next_def sub32_no_borrow)

lemma merge_next_spec:
  assumes "active rgn = as @ p # bs" and "length as = i" and "ranges_ok (active rgn)"
    and "cnt rgn \<le> MAX_LMB_REGIONS" and "length (region rgn) = MAX_LMB_REGIONS + 1" and "0 < c"
  shows "\<exists>rc rgn'. merge_next rgn i c = Some (rc, rgn') \<and> 0 < rc \<and> ranges_ok (active rgn') \<and> covered rgn' = covered rgn
    \<and> 1 \<le> cnt rgn' \<and> cnt rgn' \<le> cnt rgn \<and> length (region rgn') = length (region rgn)"
proof -
  have n: "cnt rgn = length as + length bs + 1"
    using arg_cong [OF assms(1), of length] assms(4,5) by (simp add: active_def)
  then have s: "sub32 (cnt rgn) 1 = cnt rgn - 1" using assms(4) by (simp add: sub32_no_borrow MAX_LMB_REGIONS_def)
  show ?thesis
  proof (cases bs)
    case Nil
    then show ?thesis using n s assms(2,3,6) by (simp add: merge_next_def)
  next
    case (Cons q bs')
    have at: "region rgn ! k = (as @ p # q # bs') ! k" if "k < cnt rgn" for k
      using that assms(1) Cons by (metis active_def nth_take)
    have rds: "rd (region rgn) i = Some p" "rd (region rgn) (i + 1) = Some q"
      using at [of i] at [of "i + 1"] n assms(2,4,5) Cons by (simp_all add: rd_def nth_append)
    have ok: "fits32 p" "fits32 q" "pbase p + psize p \<le> pbase q" "ranges_ok as" "ranges_ok bs'"
      "\<forall>x \<in> set as. pbase x + psize x \<le> pbase p" "\<forall>x \<in> set bs'. pbase q + psize q \<le> pbase x"
      "\<forall>x \<in> set as. \<forall>y \<in> set bs'. pbase x + psize x \<le> pbase y"
      using assms(1,3) Cons by (auto simp: ranges_ok_append ranges_ok_Cons)
    have adj: "lmb_regions_adjacent (region rgn) i (i + 1) = Some (if pbase p + psize p = pbase q then 1 else 0)"
      using rds ok(1-3) by (auto simp: lmb_regions_adjacent_def lmb_addrs_adjacent_def fits32_def)
    show ?thesis
    proof (cases "pbase p + psize p = pbase q")
      case False
      then show ?thesis using n s assms(3,6) adj Cons by (simp add: merge_next_def)
    next
      case True
      let ?m = "p\<lparr>psize := psize p + psize q\<rparr>"
      have sum: "add32 (psize p) (psize q) = psize p + psize q" using ok(2) True by (simp add: fits32_def)
      define rgn1 where "rgn1 = rgn\<lparr>region := (region rgn)[i := ?m]\<rparr>"
      have "active rgn1 = (as @ [?m]) @ q # bs'"
        using assms(1,2) Cons n by (simp add: rgn1_def active_def take_update_swap list_update_append)
      then obtain rgn' where r: "lmb_remove_region rgn1 (i + 1) = Some rgn'" "active rgn' = as @ ?m # bs'"
        "cnt rgn' = cnt rgn1 - 1" "length (region rgn') = length (region rgn1)"
        using remove_region_spec [of rgn1 "as @ [?m]" q bs' "i + 1"] assms(2,4,5)
        by (auto simp: rgn1_def MAX_LMB_REGIONS_def)
      have "merge_next rgn i c = Some (c + 1, rgn')"
        using n s Cons adj True rds sum r(1) assms(2,4,5)
        by (simp add: merge_next_def lmb_coalesce_regions_def wr_def rgn1_def)
      moreover have "ranges_ok (as @ ?m # bs')"
        using ok True by (auto simp: ranges_ok_append ranges_ok_Cons fits32_def)
      moreover have "ivl ?m = ivl p \<union> ivl q" using True by (auto simp: ivl_def)
      ultimately show ?thesis using r n Cons assms(1,6) by (auto simp: covered_def rgn1_def)
    qed
  qed
qed

lemma extends_ok:
  assumes "ranges_ok (as @ p # bs)" and "extends p base sz p'" and "0 < sz" and "base + sz < 2 ^ 32"
    and "\<forall>q \<in> set (as @ p # bs). ivl q \<inter> {base..<base + sz} = {}"
  shows "ranges_ok (as @ p' # bs)"
proof -
  have q: "pbase q + psize q \<le> base \<or> base + sz \<le> pbase q" "0 < psize q" if "q \<in> set (as @ p # bs)" for q
    using disjoint_ranges [of q base sz] assms(1,3,5) that by (auto simp: ranges_ok_def fits32_def)
  have ok: "fits32 p" "ranges_ok as" "ranges_ok bs" "\<forall>q \<in> set as. \<forall>r \<in> set bs. pbase q + psize q \<le> pbase r"
    "\<forall>q \<in> set as. pbase q + psize q \<le> pbase p" "\<forall>q \<in> set bs. pbase p + psize p \<le> pbase q"
    using assms(1) by (auto simp: ranges_ok_append ranges_ok_Cons)
  have "pbase q + psize q \<le> pbase p'" if "q \<in> set as" for q
    using q [of q] that ok(5) assms(2,3) by (fastforce simp: extends_def)
  moreover have "pbase p' + psize p' \<le> pbase q" if "q \<in> set bs" for q
    using q [of q] that ok(1,6) assms(2,3) by (fastforce simp: extends_def fits32_def)
  moreover have "fits32 p'" using ok(1) assms(2-4) by (auto simp: extends_def fits32_def)
  ultimately show ?thesis using ok by (auto simp: ranges_ok_append ranges_ok_Cons)
qed

lemma insert_ok:
  assumes "ranges_ok ps" and "0 < sz" and "base + sz < 2 ^ 32" and "\<forall>q \<in> set ps. ivl q \<inter> {base..<base + sz} = {}"
  obtains as bs where "ps = as @ bs" "\<forall>p \<in> set as. pbase p \<le> base" "\<forall>p \<in> set bs. base < pbase p"
    "ranges_ok (as @ \<lparr>pbase = base, psize = sz\<rparr> # bs)"
proof -
  let ?as = "takeWhile (\<lambda>p. pbase p \<le> base) ps" and ?bs = "dropWhile (\<lambda>p. pbase p \<le> base) ps"
  have ps: "ps = ?as @ ?bs" by simp
  have ok: "ranges_ok ?as" "ranges_ok ?bs" "\<forall>p \<in> set ?as. \<forall>q \<in> set ?bs. pbase p + psize p \<le> pbase q"
    using assms(1) ranges_ok_append [of ?as ?bs] by simp_all
  have as: "pbase p \<le> base" if "p \<in> set ?as" for p using that set_takeWhileD by fastforce
  have bs: "base < pbase q" if q: "q \<in> set ?bs" for q
  proof -
    from q have "?bs \<noteq> []" by (metis empty_iff empty_set)
    then obtain x xs where xs: "?bs = x # xs" by (meson list.exhaust)
    then have "base < pbase x" by (metis (mono_tags, lifting) dropWhile_eq_Cons_conv not_le)
    moreover have "q = x \<or> pbase x + psize x \<le> pbase q" using ok(2) q unfolding xs by (auto simp: ranges_ok_Cons)
    ultimately show ?thesis by auto
  qed
  have dis: "pbase p + psize p \<le> base \<or> base + sz \<le> pbase p" if "p \<in> set ps" for p
    using disjoint_ranges [of p base sz] assms(1,2,4) that by (auto simp: ranges_ok_def fits32_def)
  have "pbase p + psize p \<le> base" if "p \<in> set ?as" for p
    using dis [of p] as [OF that] that assms(2) set_takeWhileD [of p] by fastforce
  moreover have "base + sz \<le> pbase q" if "q \<in> set ?bs" for q
    using dis [of q] bs [OF that] set_dropWhileD [OF that] by linarith
  ultimately have "ranges_ok (?as @ \<lparr>pbase = base, psize = sz\<rparr> # ?bs)"
    using ok assms(2,3) by (auto simp: ranges_ok_append ranges_ok_Cons fits32_def)
  then show ?thesis using that [OF ps] as bs by blast
qed

lemma add_region_ok:
  assumes inv: "rgn_inv rgn" and new: "0 < sz" "base + sz < 2 ^ 32" "covered rgn \<inter> {base..<base + sz} = {}"
  shows "\<exists>rc rgn'. lmb_add_region rgn base sz = Some (rc, rgn')
    \<and> (if rc < 0 then rgn' = rgn \<and> cnt rgn = MAX_LMB_REGIONS
       else rgn_inv rgn' \<and> covered rgn' = covered rgn \<union> {base..<base + sz})"
proof -
  have len: "length (region rgn) = MAX_LMB_REGIONS + 1" "1 \<le> cnt rgn" "cnt rgn \<le> MAX_LMB_REGIONS"
    using inv by (simp_all add: rgn_inv_def)
  have p0: "rd (region rgn) 0 = Some (region rgn ! 0)" using len by (simp add: rd_def)
  show ?thesis
  proof (cases "cnt rgn = 1 \<and> psize (region rgn ! 0) = 0")
    case True
    then have one: "active rgn = [region rgn ! 0]" using len by (cases "region rgn") (auto simp: active_def)
    let ?rgn = "rgn\<lparr>region := (region rgn)[0 := \<lparr>pbase = base, psize = sz\<rparr>]\<rparr>"
    have "active ?rgn = [\<lparr>pbase = base, psize = sz\<rparr>]" using True len by (cases "region rgn") (auto simp: active_def)
    then have "rgn_inv ?rgn" "covered ?rgn = {base..<base + sz}" "covered rgn = {}"
      using True len new one by (auto simp: rgn_inv_def covered_def ranges_ok_Cons fits32_def ivl_def)
    moreover have "lmb_add_region rgn base sz = Some (0, ?rgn)"
      using True p0 len by (simp add: lmb_add_region_def wr_def)
    ultimately show ?thesis by auto
  next
    case False
    then have ok: "ranges_ok (active rgn)" using inv by (auto simp: rgn_inv_def)
    have dis: "\<forall>q \<in> set (active rgn). ivl q \<inter> {base..<base + sz} = {}" using new(3) by (auto simp: covered_def)
    have at: "region rgn ! k \<in> set (active rgn)" if "k < cnt rgn" for k
      using that len by (metis (no_types, lifting) active_def in_set_conv_nth length_take min.absorb2 nth_take trans_le_add1)
    have "(\<exists>j p'. coalesce_scan (region rgn) (cnt rgn) base sz 0 = Some (Extended j ((region rgn)[j := p'])) \<and> j < cnt rgn
          \<and> extends (region rgn ! j) base sz p')
        \<or> coalesce_scan (region rgn) (cnt rgn) base sz 0 = Some Nowhere"
      using ok dis at len new by (intro coalesce_scan_spec) (auto simp: ranges_ok_def)
    then show ?thesis
    proof (elim disjE exE conjE)
      fix j p' assume sc: "coalesce_scan (region rgn) (cnt rgn) base sz 0 = Some (Extended j ((region rgn)[j := p']))"
        and j: "j < cnt rgn" and ex: "extends (region rgn ! j) base sz p'"
      let ?as = "take j (active rgn)" and ?bs = "drop (Suc j) (active rgn)"
      let ?rgn = "rgn\<lparr>region := (region rgn)[j := p']\<rparr>"
      have la: "length (active rgn) = cnt rgn" using len by (simp add: active_def)
      have nj: "active rgn ! j = region rgn ! j" using j by (simp add: active_def)
      have act: "active rgn = ?as @ region rgn ! j # ?bs" using j la nj id_take_nth_drop [of j "active rgn"] by simp
      have "active ?rgn = (active rgn)[j := p']" by (simp add: active_def take_update_swap)
      then have act': "active ?rgn = ?as @ p' # ?bs" using j la by (simp add: upd_conv_take_nth_drop)
      have ok': "ranges_ok (active ?rgn)"
        unfolding act' by (rule extends_ok [OF _ ex new(1,2)]) (use ok dis act in metis)+
      have cov: "covered ?rgn = covered rgn \<union> {base..<base + sz}"
        unfolding covered_def act' by (subst (2) act) (auto simp: extends_ivl [OF ex])
      obtain rc rgn' where m: "merge_next ?rgn j 1 = Some (rc, rgn')" "0 < rc" "ranges_ok (active rgn')" "covered rgn' = covered ?rgn"
        "1 \<le> cnt rgn'" "cnt rgn' \<le> cnt ?rgn" "length (region rgn') = length (region ?rgn)"
        using merge_next_spec [OF act' _ ok', of j 1] j la len by auto
      have "lmb_add_region rgn base sz = Some (rc, rgn')"
        unfolding lmb_add_region_def using p0 False sc m(1) by auto
      moreover have "rgn_inv rgn'" using m len by (simp add: rgn_inv_def)
      ultimately show ?thesis using m(2,4) cov by auto
    next
      assume sc: "coalesce_scan (region rgn) (cnt rgn) base sz 0 = Some Nowhere"
      have "merge_next rgn (cnt rgn) 0 = Some (0, rgn)"
        using len by (intro merge_next_none) (simp_all add: MAX_LMB_REGIONS_def)
      then have run: "lmb_add_region rgn base sz = insert_region rgn base sz"
        unfolding lmb_add_region_def using p0 False sc by auto
      show ?thesis
      proof (cases "cnt rgn = MAX_LMB_REGIONS")
        case True
        then show ?thesis unfolding run by (simp add: insert_region_def)
      next
        case room: False
        obtain as bs where ab: "active rgn = as @ bs" "\<forall>p \<in> set as. pbase p \<le> base" "\<forall>p \<in> set bs. base < pbase p"
          "ranges_ok (as @ \<lparr>pbase = base, psize = sz\<rparr> # bs)" by (rule insert_ok [OF ok new(1,2) dis])
        have "as @ bs \<noteq> []" using ab(1) len by (auto simp: active_def)
        then obtain rgn' where r: "insert_region rgn base sz = Some (0, rgn')" "active rgn' = as @ \<lparr>pbase = base, psize = sz\<rparr> # bs"
          "cnt rgn' = cnt rgn + 1" "length (region rgn') = length (region rgn)"
          using insert_region_spec [OF ab(1) _ ab(2,3) len(1), of sz] room len by auto
        have "rgn_inv rgn'" using r len room ab(4) by (simp add: rgn_inv_def)
        moreover have "covered rgn' = covered rgn \<union> {base..<base + sz}"
          by (auto simp: covered_def r(2) ab(1) ivl_def)
        ultimately show ?thesis unfolding run using r(1) by auto
      qed
    qed
  qed
qed

section \<open>Freeing a range\<close>

lemma covered_disjoint:
  assumes "ranges_ok (as @ p # bs)"
  shows "(\<Union>q \<in> set (as @ bs). ivl q) \<inter> ivl p = {}"
proof -
  have "pbase q + psize q \<le> pbase p" if "q \<in> set as" for q using assms that by (auto simp: ranges_ok_append ranges_ok_Cons)
  moreover have "pbase p + psize p \<le> pbase q" if "q \<in> set bs" for q using assms that by (auto simp: ranges_ok_append ranges_ok_Cons)
  ultimately show ?thesis by (fastforce simp: ivl_def)
qed

lemma find_containing_spec:
  assumes "n \<le> length reg"
  shows "\<exists>f. find_containing reg n base en i = Some f
    \<and> (case f of None \<Rightarrow> \<forall>k \<in> {i..<n}. \<not> (pbase (reg ! k) \<le> base \<and> en \<le> add32 (pbase (reg ! k)) (psize (reg ! k)))
       | Some k \<Rightarrow> k \<in> {i..<n} \<and> pbase (reg ! k) \<le> base \<and> en \<le> add32 (pbase (reg ! k)) (psize (reg ! k)))"
  using assms
proof (induction reg n base en i rule: find_containing.induct)
  case (1 reg n base en i)
  show ?case
  proof (cases "i < n")
    case True
    have p: "rd reg i = Some (reg ! i)" using True 1(2) by (simp add: rd_def)
    show ?thesis
    proof (cases "pbase (reg ! i) \<le> base \<and> en \<le> add32 (pbase (reg ! i)) (psize (reg ! i))")
      case found: True
      then show ?thesis using True p by (subst find_containing.simps) simp
    next
      case False
      then have eq: "find_containing reg n base en i = find_containing reg n base en (i + 1)"
        using True p by (subst find_containing.simps) auto
      obtain f where "find_containing reg n base en (i + 1) = Some f"
        "case f of None \<Rightarrow> \<forall>k \<in> {i + 1..<n}. \<not> (pbase (reg ! k) \<le> base \<and> en \<le> add32 (pbase (reg ! k)) (psize (reg ! k)))
         | Some k \<Rightarrow> k \<in> {i + 1..<n} \<and> pbase (reg ! k) \<le> base \<and> en \<le> add32 (pbase (reg ! k)) (psize (reg ! k))"
        using 1(1) [OF True p False 1(2)] by blast
      moreover have "k = i \<or> k \<in> {i + 1..<n}" if "k \<in> {i..<n}" for k using that by auto
      ultimately show ?thesis unfolding eq using False by (fastforce split: option.splits)
    qed
  next
    case False
    then show ?thesis by (subst find_containing.simps) simp
  qed
qed

section \<open>Alignment\<close>

lemma align_down_le: "a < 2 ^ 32 \<Longrightarrow> lmb_align_down a al \<le> a"
proof -
  assume a: "a < 2 ^ 32"
  have "(of_nat a :: u32) AND NOT (of_nat al - 1) \<le> of_nat a" by (rule word_and_le2)
  then have "lmb_align_down a al \<le> unat (of_nat a :: u32)" by (simp only: lmb_align_down_def word_le_nat_alt)
  with a show ?thesis by (simp add: unat_of_nat)
qed

lemma aligned_word: "2 ^ k dvd unat (x AND NOT (of_nat (2 ^ k) - 1 :: u32))"
proof -
  have m: "(of_nat (2 ^ k) - 1 :: u32) = mask k" by (simp add: mask_eq_exp_minus_1)
  have "take_bit k (x AND NOT (mask k)) = 0" by (rule bit_word_eqI) (simp add: bit_simps)
  then have "take_bit k (unat (x AND NOT (mask k))) = 0" by (metis unsigned_take_bit_eq unsigned_0)
  then show ?thesis unfolding m by (simp add: take_bit_eq_mod dvd_eq_mod_eq_0)
qed

lemma align_down_dvd: "2 ^ k dvd lmb_align_down a (2 ^ k)"
  unfolding lmb_align_down_def by (rule aligned_word)

lemma align_up_same:
  assumes "2 ^ k dvd sz" and "sz < 2 ^ 32"
  shows "lmb_align_up sz (2 ^ k) = sz"
proof -
  have m: "(of_nat (2 ^ k) - 1 :: u32) = mask k" by (simp add: mask_eq_exp_minus_1)
  have "take_bit k (unat (of_nat sz :: u32)) = 0" using assms by (simp add: unat_of_nat take_bit_eq_mod dvd_eq_mod_eq_0)
  then have z: "take_bit k (of_nat sz :: u32) = 0" by (metis unsigned_take_bit_eq unsigned_eq_0_iff)
  then have nb: "\<not> bit (of_nat sz :: u32) n" if "n < k" for n
  proof -
    have "\<not> bit (take_bit k (of_nat sz :: u32)) n" unfolding z by simp
    with that show ?thesis by (simp only: bit_take_bit_iff simp_thms)
  qed
  have "(of_nat sz :: u32) + mask k = of_nat sz OR mask k"
    by (rule disjunctive_add_eq_or) (rule bit_word_eqI, use nb in \<open>auto simp: bit_simps\<close>)
  moreover have "((of_nat sz :: u32) OR mask k) AND NOT (mask k) = of_nat sz"
    by (rule bit_word_eqI) (use nb in \<open>auto simp: bit_simps\<close>)
  ultimately show ?thesis using assms(2) unfolding lmb_align_up_def m by (simp add: unat_of_nat)
qed

section \<open>Allocating a range\<close>

definition no_wrap :: "lmb_property \<Rightarrow> bool" where
  "no_wrap p \<longleftrightarrow> pbase p + psize p < 2 ^ 32"

lemma rgn_inv_no_wrap:
  assumes "rgn_inv rgn" and "i < cnt rgn"
  shows "no_wrap (region rgn ! i)" and "psize (region rgn ! i) = 0 \<Longrightarrow> pbase (region rgn ! i) = 0"
proof -
  have "no_wrap (region rgn ! i) \<and> (psize (region rgn ! i) = 0 \<longrightarrow> pbase (region rgn ! i) = 0)"
  proof (cases "cnt rgn = 1 \<and> region rgn ! 0 = \<lparr>pbase = 0, psize = 0\<rparr>")
    case True
    with assms show ?thesis by (simp add: no_wrap_def)
  next
    case False
    have "i < length (active rgn)" "active rgn ! i = region rgn ! i" using assms(1,2) by (simp_all add: active_def rgn_inv_def)
    then have "region rgn ! i \<in> set (active rgn)" by (metis nth_mem)
    with False assms(1) show ?thesis by (auto simp: rgn_inv_def ranges_ok_def fits32_def no_wrap_def)
  qed
  then show "no_wrap (region rgn ! i)" and "psize (region rgn ! i) = 0 \<Longrightarrow> pbase (region rgn ! i) = 0" by simp_all
qed

lemma overlaps_none:
  assumes "lmb_overlaps_region rgn base sz < 0" and inv: "rgn_inv rgn" and "base + sz < 2 ^ 32"
  shows "covered rgn \<inter> {base..<base + sz} = {}"
proof -
  have no: "\<not> lmb_addrs_overlap base sz (pbase (region rgn ! i)) (psize (region rgn ! i))" if "i < cnt rgn" for i
    using assms(1) that by (auto simp: lmb_overlaps_region_def find_None_iff split: option.splits)
  have "ivl (region rgn ! i) \<inter> {base..<base + sz} = {}" if "i < cnt rgn" for i
    using no [OF that] assms(3) rgn_inv_no_wrap(1) [OF inv that] by (auto simp: lmb_addrs_overlap_def no_wrap_def ivl_def)
  moreover have "\<exists>i < cnt rgn. p = region rgn ! i" if "p \<in> set (active rgn)" for p
    using that by (auto simp: active_def in_set_conv_nth)
  ultimately show ?thesis by (fastforce simp: covered_def)
qed

text \<open>
  Every start from the place where the search goes on up to the one it leaves collides with the
  reserved range the search has found.
\<close>

lemma overlaps_some:
  assumes "\<not> lmb_overlaps_region rgn base sz < 0" and inv: "rgn_inv rgn" and "base + sz < 2 ^ 32" and "0 < sz"
  defines "rb \<equiv> pbase (region rgn ! nat (lmb_overlaps_region rgn base sz))"
  shows "rb < base + sz" and "b \<le> base \<Longrightarrow> rb < b + sz \<Longrightarrow> covered rgn \<inter> {b..<b + sz} \<noteq> {}"
proof -
  obtain i where i: "lmb_overlaps_region rgn base sz = int i" "i < cnt rgn"
    "lmb_addrs_overlap base sz (pbase (region rgn ! i)) (psize (region rgn ! i))"
    using assms(1) by (auto simp: lmb_overlaps_region_def find_Some_iff split: option.splits)
  let ?p = "region rgn ! i"
  have rb: "rb = pbase ?p" using i(1) by (simp add: rb_def)
  have ov: "base < pbase ?p + psize ?p" "pbase ?p < base + sz"
    using i(3) assms(3) rgn_inv_no_wrap(1) [OF inv i(2)] by (simp_all add: lmb_addrs_overlap_def no_wrap_def)
  then show "rb < base + sz" unfolding rb by simp
  have pos: "0 < psize ?p" using ov rgn_inv_no_wrap(2) [OF inv i(2)] by (cases "psize ?p") auto
  have "?p \<in> set (active rgn)" using i(2) inv by (auto simp: active_def rgn_inv_def in_set_conv_nth)
  then have sub: "ivl ?p \<subseteq> covered rgn" by (auto simp: covered_def)
  show "covered rgn \<inter> {b..<b + sz} \<noteq> {}" if "b \<le> base" "rb < b + sz"
  proof -
    have "max (pbase ?p) b \<in> ivl ?p \<inter> {b..<b + sz}" using that ov pos assms(4) unfolding rb by (auto simp: ivl_def)
    with sub show ?thesis by blast
  qed
qed

text \<open>What an allocation promises about the address \<open>a\<close> and the new table.\<close>

definition placed :: "lmb_region \<Rightarrow> nat \<Rightarrow> nat \<Rightarrow> nat \<Rightarrow> lmb_region \<Rightarrow> bool" where
  "placed res sz al a res' \<longleftrightarrow> al dvd a \<and> covered res \<inter> {a..<a + sz} = {}
     \<and> covered res' = covered res \<union> {a..<a + sz} \<and> rgn_inv res'"

text \<open>No aligned start between \<open>lo\<close> and \<open>hi\<close> leaves room for \<open>sz\<close> bytes.\<close>

definition crowded :: "lmb_region \<Rightarrow> nat \<Rightarrow> nat \<Rightarrow> nat \<Rightarrow> nat \<Rightarrow> bool" where
  "crowded res sz al lo hi \<longleftrightarrow> (\<forall>b. 0 < b \<and> lo \<le> b \<and> b \<le> hi \<and> al dvd b \<longrightarrow> covered res \<inter> {b..<b + sz} \<noteq> {})"

lemma align_down_greatest:
  assumes "2 ^ k dvd b" and "b \<le> a" and "a < 2 ^ 32"
  shows "b \<le> lmb_align_down a (2 ^ k)"
proof -
  let ?w = "of_nat a :: u32"
  have m: "(of_nat (2 ^ k) - 1 :: u32) = mask k" by (simp add: mask_eq_exp_minus_1)
  have "?w AND NOT (mask k) = push_bit k (drop_bit k ?w)"
    by (rule bit_word_eqI) (auto simp: bit_simps)
  then have x: "(?w AND NOT (mask k)) + take_bit k ?w = ?w" by (simp add: bits_ident)
  have le: "?w AND NOT (mask k) \<le> ?w" by (rule word_and_le2)
  have "take_bit k ?w = ?w - (?w AND NOT (mask k))" using x by (metis add_diff_cancel_left')
  then have "unat (take_bit k ?w) = unat ?w - unat (?w AND NOT (mask k))" using unat_sub [OF le] by simp
  moreover have w: "unat ?w = a" using assms(3) by (simp add: unat_of_nat)
  moreover have "unat (take_bit k ?w) = a mod 2 ^ k"
    by (simp only: unsigned_take_bit_eq w take_bit_eq_mod [of k a])
  ultimately have "a mod 2 ^ k = a - lmb_align_down a (2 ^ k)" unfolding lmb_align_down_def m by simp
  moreover have "lmb_align_down a (2 ^ k) \<le> a" using assms(3) by (rule align_down_le)
  ultimately  have down: "lmb_align_down a (2 ^ k) = 2 ^ k * (a div 2 ^ k)" by (simp add: minus_mod_eq_mult_div [symmetric])
  obtain c where "b = 2 ^ k * c" using assms(1) by blast
  then show ?thesis unfolding down using assms(2) by (simp add: less_eq_div_iff_mult_less_eq mult.commute)
qed

lemma alloc_loop_spec:
  assumes "rgn_inv res" and "0 < sz" and "2 ^ k dvd sz" and "base + sz < 2 ^ 32" and "2 ^ k dvd base"
  shows "\<exists>r. alloc_loop res sz (2 ^ k) lmbbase base = Some r \<and> (case r of Inr _ \<Rightarrow> crowded res sz (2 ^ k) lmbbase base
    | Inl (a, res') \<Rightarrow> a = 0 \<and> res' = res \<and> cnt res = MAX_LMB_REGIONS
        \<or> 0 < a \<and> lmbbase \<le> a \<and> a \<le> base \<and> placed res sz (2 ^ k) a res')"
  using assms(4,5)
proof (induction base rule: less_induct)
  case (less base)
  show ?case
  proof (cases "base = 0 \<or> base < lmbbase")
    case True
    then show ?thesis by (auto simp: alloc_loop.simps [of res sz "2 ^ k" lmbbase base] crowded_def)
  next
    case in_mem: False
    show ?thesis
    proof (cases "lmb_overlaps_region res base sz < 0")
      case True
      have dis: "covered res \<inter> {base..<base + sz} = {}" by (rule overlaps_none [OF True assms(1) less(2)])
      have up: "lmb_align_up sz (2 ^ k) = sz" using less(2) by (intro align_up_same [OF assms(3)]) simp
      obtain rc res' where add: "lmb_add_region res base sz = Some (rc, res')"
        "if rc < 0 then res' = res \<and> cnt res = MAX_LMB_REGIONS
         else rgn_inv res' \<and> covered res' = covered res \<union> {base..<base + sz}"
        using add_region_ok [OF assms(1,2) less(2) dis] by blast
      show ?thesis using in_mem True up add dis less(3)
        by (auto simp: alloc_loop.simps [of res sz "2 ^ k" lmbbase base] placed_def split: if_splits)
    next
      case False
      let ?rb = "pbase (region res ! nat (lmb_overlaps_region res base sz))"
      note hit = overlaps_some [OF False assms(1) less(2) assms(2)]
      have crowd: "crowded res sz (2 ^ k) lmbbase base" if "\<And>b. 2 ^ k dvd b \<Longrightarrow> 0 < b \<Longrightarrow> lmbbase \<le> b \<Longrightarrow> b + sz \<le> ?rb \<Longrightarrow> covered res \<inter> {b..<b + sz} \<noteq> {}"
        unfolding crowded_def using that hit(2) by (meson not_less)
      show ?thesis
      proof (cases "?rb < sz")
        case True
        then have "crowded res sz (2 ^ k) lmbbase base" by (intro crowd) simp
        then show ?thesis using True in_mem False by (simp add: alloc_loop.simps [of res sz "2 ^ k" lmbbase base])
      next
        case ge: False
        let ?nb = "lmb_align_down (sub32 ?rb sz) (2 ^ k)"
        have s: "sub32 ?rb sz = ?rb - sz" using ge hit(1) less(2) by (intro sub32_no_borrow) simp_all
        have nb: "?nb \<le> ?rb - sz" unfolding s using hit(1) less(2) by (intro align_down_le) simp
        then have lt: "?nb < base" "?nb + sz < 2 ^ 32" using hit(1) ge less(2) assms(2) by linarith+
        obtain r where r: "alloc_loop res sz (2 ^ k) lmbbase ?nb = Some r" "case r of Inr _ \<Rightarrow> crowded res sz (2 ^ k) lmbbase ?nb
            | Inl (a, res') \<Rightarrow> a = 0 \<and> res' = res \<and> cnt res = MAX_LMB_REGIONS
                \<or> 0 < a \<and> lmbbase \<le> a \<and> a \<le> ?nb \<and> placed res sz (2 ^ k) a res'"
          using less(1) [OF lt align_down_dvd] by blast
        have up: "b \<le> ?nb" if "2 ^ k dvd b" "b + sz \<le> ?rb" for b
          unfolding s using that hit(1) less(2) by (intro align_down_greatest) simp_all
        have "crowded res sz (2 ^ k) lmbbase ?nb \<Longrightarrow> crowded res sz (2 ^ k) lmbbase base"
          by (rule crowd) (use up in \<open>simp add: crowded_def\<close>)
        moreover have "alloc_loop res sz (2 ^ k) lmbbase base = alloc_loop res sz (2 ^ k) lmbbase ?nb"
          using in_mem False ge by (simp add: alloc_loop.simps [of res sz "2 ^ k" lmbbase base])
        ultimately show ?thesis using r lt(1) by (fastforce split: sum.splits)
      qed
    qed
  qed
qed

text \<open>Where an allocation of \<open>sz\<close> bytes below \<open>max_addr\<close> may lie: inside one memory range.\<close>

definition eligible :: "lmb_property list \<Rightarrow> nat \<Rightarrow> nat \<Rightarrow> nat \<Rightarrow> nat \<Rightarrow> bool" where
  "eligible mem sz al max_addr a \<longleftrightarrow> 0 < a \<and> al dvd a \<and> (max_addr = LMB_ALLOC_ANYWHERE \<or> a + sz \<le> max_addr)
     \<and> (\<exists>p \<in> set mem. {a..<a + sz} \<subseteq> ivl p)"

definition alloc_ok :: "lmb_property list \<Rightarrow> lmb_region \<Rightarrow> nat \<Rightarrow> nat \<Rightarrow> nat \<Rightarrow> nat \<times> lmb_region \<Rightarrow> bool" where
  "alloc_ok mem res sz al max_addr = (\<lambda>(a, res').
     if a = 0 then res' = res \<and> (cnt res = MAX_LMB_REGIONS
       \<or> (\<forall>b. eligible mem sz al max_addr b \<longrightarrow> covered res \<inter> {b..<b + sz} \<noteq> {}))
     else eligible mem sz al max_addr a \<and> placed res sz al a res')"

lemma eligible_snoc:
  "eligible (mem @ [p]) sz al max_addr a \<longleftrightarrow> eligible mem sz al max_addr a \<or> eligible [p] sz al max_addr a"
  by (auto simp: eligible_def)

lemma alloc_from_spec:
  assumes "rgn_inv res" and "0 < sz" and "2 ^ k dvd sz" and "max_addr = 0 \<or> sz \<le> max_addr"
    and "\<forall>i < n. no_wrap (mem ! i)" and "n \<le> length mem"
  shows "\<exists>r. alloc_from mem res sz (2 ^ k) max_addr n = Some r \<and> alloc_ok (take n mem) res sz (2 ^ k) max_addr r"
  using assms(5,6)
proof (induction n)
  case 0
  then show ?case by (simp add: alloc_ok_def eligible_def)
next
  case (Suc n)
  let ?p = "mem ! n"
  have p: "rd mem n = Some ?p" "no_wrap ?p" using Suc.prems by (simp_all add: rd_def)
  have tk: "take (Suc n) mem = take n mem @ [?p]" using Suc.prems by (simp add: take_Suc_conv_app_nth)
  obtain r0 where IH: "alloc_from mem res sz (2 ^ k) max_addr n = Some r0" "alloc_ok (take n mem) res sz (2 ^ k) max_addr r0"
    using Suc.IH Suc.prems by auto
  have keep: "alloc_ok (take (Suc n) mem) res sz (2 ^ k) max_addr r0"
    if "\<And>b. eligible [?p] sz (2 ^ k) max_addr b \<Longrightarrow> covered res \<inter> {b..<b + sz} \<noteq> {}"
    using IH(2) that unfolding alloc_ok_def tk eligible_snoc by (auto split: if_splits)
  show ?case
  proof (cases "psize ?p < sz \<or> max_addr \<noteq> 0 \<and> \<not> pbase ?p < max_addr")
    case True
    then have "\<not> eligible [?p] sz (2 ^ k) max_addr b" for b
      using assms(2) by (auto simp: eligible_def ivl_def LMB_ALLOC_ANYWHERE_def)
    moreover have "alloc_from mem res sz (2 ^ k) max_addr (Suc n) = Some r0"
      using IH(1) True p by (auto simp: LMB_ALLOC_ANYWHERE_def)
    ultimately show ?thesis using keep by blast
  next
    case False
    let ?top = "if max_addr = 0 then pbase ?p + psize ?p else min (pbase ?p + psize ?p) max_addr"
    let ?b = "lmb_align_down (?top - sz) (2 ^ k)"
    have top: "sz \<le> ?top" "?top < 2 ^ 32" "?top \<le> pbase ?p + psize ?p" using False assms(4) p(2) by (auto simp: no_wrap_def)
    have b: "?b \<le> ?top - sz" using top by (intro align_down_le) simp
    then have bs: "?b + sz < 2 ^ 32" "?b + sz \<le> ?top" using top by linarith+
    have el: "eligible [?p] sz (2 ^ k) max_addr a \<longleftrightarrow> 0 < a \<and> 2 ^ k dvd a \<and> pbase ?p \<le> a \<and> a \<le> ?b" for a
    proof
      assume "eligible [?p] sz (2 ^ k) max_addr a"
      then have "0 < a" "2 ^ k dvd a" "pbase ?p \<le> a" "a + sz \<le> ?top"
        using assms(2) by (auto simp: eligible_def ivl_def LMB_ALLOC_ANYWHERE_def)
      then show "0 < a \<and> 2 ^ k dvd a \<and> pbase ?p \<le> a \<and> a \<le> ?b"
        using align_down_greatest [of k a "?top - sz"] top(2) by auto
    next
      assume "0 < a \<and> 2 ^ k dvd a \<and> pbase ?p \<le> a \<and> a \<le> ?b"
      then show "eligible [?p] sz (2 ^ k) max_addr a"
        using bs(2) top(3) by (auto simp: eligible_def ivl_def LMB_ALLOC_ANYWHERE_def split: if_splits)
    qed
    have start: "(if max_addr = LMB_ALLOC_ANYWHERE then lmb_align_down (sub32 (add32 (pbase ?p) (psize ?p)) sz) (2 ^ k)
          else lmb_align_down (sub32 (min (add32 (pbase ?p) (psize ?p)) max_addr) sz) (2 ^ k)) = ?b"
      using p(2) top by (auto simp: LMB_ALLOC_ANYWHERE_def no_wrap_def sub32_no_borrow)
    obtain r where r: "alloc_loop res sz (2 ^ k) (pbase ?p) ?b = Some r" "case r of Inr _ \<Rightarrow> crowded res sz (2 ^ k) (pbase ?p) ?b
      | Inl (a, res') \<Rightarrow> a = 0 \<and> res' = res \<and> cnt res = MAX_LMB_REGIONS
        \<or> 0 < a \<and> pbase ?p \<le> a \<and> a \<le> ?b \<and> placed res sz (2 ^ k) a res'"
      using alloc_loop_spec [OF assms(1-3) bs(1) align_down_dvd, of "pbase ?p"] by blast
    have run: "alloc_from mem res sz (2 ^ k) max_addr (Suc n)
        = (case r of Inl x \<Rightarrow> Some x | Inr _ \<Rightarrow> alloc_from mem res sz (2 ^ k) max_addr n)"
    proof -
      have "\<not> psize ?p < sz" "\<not> (max_addr \<noteq> LMB_ALLOC_ANYWHERE \<and> \<not> pbase ?p < max_addr)"
        using False by (auto simp: LMB_ALLOC_ANYWHERE_def)
      then show ?thesis by (simp only: alloc_from.simps p(1) Option.bind.simps if_False start r(1))
    qed
    show ?thesis
    proof (cases r)
      case (Inr u)
      have "alloc_ok (take (Suc n) mem) res sz (2 ^ k) max_addr r0"
        by (rule keep) (use r(2) Inr in \<open>simp add: el crowded_def\<close>)
      with run IH(1) Inr show ?thesis by simp
    next
      case (Inl x)
      obtain a res' where x: "x = (a, res')" by (cases x)
      have "a = 0 \<and> res' = res \<and> cnt res = MAX_LMB_REGIONS \<or> eligible [?p] sz (2 ^ k) max_addr a \<and> 0 < a \<and> placed res sz (2 ^ k) a res'"
        using r(2) Inl x unfolding el by (auto simp: placed_def)
      then have "alloc_ok (take (Suc n) mem) res sz (2 ^ k) max_addr x"
        unfolding alloc_ok_def x tk eligible_snoc by auto
      with run Inl show ?thesis by simp
    qed
  qed
qed

section \<open>What remains of a range\<close>

lemma ranges_ok_shrink:
  assumes "ranges_ok (as @ p # bs)" and "0 < psize q" and "pbase p \<le> pbase q" and "pbase q + psize q \<le> pbase p + psize p"
  shows "ranges_ok (as @ q # bs)"
  using assms by (force simp: ranges_ok_append ranges_ok_Cons fits32_def)

lemma shrink_spec:
  assumes inv: "rgn_inv rgn" and act: "active rgn = as @ p # bs" and ok: "ranges_ok (active rgn)"
    and q: "0 < psize q" "pbase p \<le> pbase q" "pbase q + psize q \<le> pbase p + psize p"
  shows "wr (region rgn) (length as) q = Some ((region rgn)[length as := q])"
    and "rgn_inv (rgn\<lparr>region := (region rgn)[length as := q]\<rparr>)"
    and "covered (rgn\<lparr>region := (region rgn)[length as := q]\<rparr>) = covered rgn - (ivl p - ivl q)"
proof -
  let ?rgn = "rgn\<lparr>region := (region rgn)[length as := q]\<rparr>"
  have "length (active rgn) \<le> length (region rgn)" by (simp add: active_def)
  then show "wr (region rgn) (length as) q = Some ((region rgn)[length as := q])" using act by (simp add: wr_def)
  have act': "active ?rgn = as @ q # bs" using act by (simp add: active_def take_update_swap)
  have ok': "ranges_ok (active ?rgn)" unfolding act' using ok q unfolding act by (rule ranges_ok_shrink)
  then show "rgn_inv ?rgn" using inv by (simp add: rgn_inv_def)
  have "(\<Union>r \<in> set (as @ bs). ivl r) \<inter> ivl p = {}" using ok unfolding act by (rule covered_disjoint)
  moreover have "ivl q \<subseteq> ivl p" using q by (auto simp: ivl_def)
  ultimately show "covered ?rgn = covered rgn - (ivl p - ivl q)" unfolding covered_def act act' by auto
qed

lemma remove_spec:
  assumes "rgn_inv rgn" and "active rgn = as @ p # bs" and "ranges_ok (active rgn)"
  shows "\<exists>rgn'. lmb_remove_region rgn (length as) = Some rgn' \<and> covered rgn' = covered rgn - ivl p
    \<and> (if cnt rgn = 1 then cnt rgn' = 0 else rgn_inv rgn')"
proof -
  obtain rgn' where r: "lmb_remove_region rgn (length as) = Some rgn'" "active rgn' = as @ bs" "cnt rgn' = cnt rgn - 1"
    "length (region rgn') = length (region rgn)"
    using remove_region_spec [OF assms(2) refl] assms(1) by (auto simp: rgn_inv_def MAX_LMB_REGIONS_def)
  have "ranges_ok (as @ bs)" using assms(3) unfolding assms(2) by (simp add: ranges_ok_append ranges_ok_Cons)
  then have "cnt rgn \<noteq> 1 \<Longrightarrow> rgn_inv rgn'" using assms(1) r by (auto simp: rgn_inv_def)
  moreover have "covered rgn' = covered rgn - ivl p"
    using covered_disjoint [of as p bs] assms(3) unfolding covered_def assms(2) r(2) by auto
  ultimately show ?thesis using r(1,3) by auto
qed

lemma find_containing_range:
  assumes inv: "rgn_inv rgn" and ok: "ranges_ok (active rgn)"
  shows "find_containing (region rgn) (cnt rgn) base en 0 = Some None
      \<and> (\<forall>p \<in> set (active rgn). \<not> (pbase p \<le> base \<and> en \<le> pbase p + psize p))
    \<or> (\<exists>as p bs. find_containing (region rgn) (cnt rgn) base en 0 = Some (Some (length as)) \<and> active rgn = as @ p # bs
      \<and> rd (region rgn) (length as) = Some p \<and> pbase p \<le> base \<and> en \<le> pbase p + psize p \<and> fits32 p)"
proof -
  have len: "cnt rgn \<le> length (region rgn)" using inv by (simp add: rgn_inv_def)
  have nth: "k < cnt rgn \<Longrightarrow> active rgn ! k = region rgn ! k \<and> active rgn ! k \<in> set (active rgn)" for k
    using len by (auto simp: active_def in_set_conv_nth)
  have fits: "k < cnt rgn \<Longrightarrow> fits32 (region rgn ! k)" for k using nth [of k] ok by (auto simp: ranges_ok_def)
  obtain f where f: "find_containing (region rgn) (cnt rgn) base en 0 = Some f"
    "case f of None \<Rightarrow> \<forall>k \<in> {0..<cnt rgn}. \<not> (pbase (region rgn ! k) \<le> base \<and> en \<le> add32 (pbase (region rgn ! k)) (psize (region rgn ! k)))
     | Some k \<Rightarrow> k \<in> {0..<cnt rgn} \<and> pbase (region rgn ! k) \<le> base \<and> en \<le> add32 (pbase (region rgn ! k)) (psize (region rgn ! k))"
    using find_containing_spec [OF len] by blast
  show ?thesis
  proof (cases f)
    case None
    have "\<not> (pbase p \<le> base \<and> en \<le> pbase p + psize p)" if "p \<in> set (active rgn)" for p
    proof -
      obtain k where "k < cnt rgn" "p = region rgn ! k" using \<open>p \<in> _\<close> len by (auto simp: active_def in_set_conv_nth)
      then show ?thesis using f(2) None fits [of k] by auto
    qed
    then show ?thesis using f(1) None by blast
  next
    case (Some k)
    then have k: "k < cnt rgn" "k < length (active rgn)" using f(2) len by (auto simp: active_def)
    have "active rgn = take k (active rgn) @ region rgn ! k # drop (Suc k) (active rgn)"
      using k nth by (metis id_take_nth_drop)
    moreover have "length (take k (active rgn)) = k" using k by simp
    moreover have "rd (region rgn) k = Some (region rgn ! k)" using k len by (simp add: rd_def)
    ultimately show ?thesis using f Some fits [OF k(1)] by (metis (no_types, lifting) add32_fits option.simps(5))
  qed
qed

text \<open>Freeing part of a range: what remains of it.\<close>

lemma free_spec:
  assumes inv: "rgn_inv (reserved l)" and ok: "ranges_ok (active (reserved l))" and sz: "0 < sz" "base + sz < 2 ^ 32"
    and room: "cnt (reserved l) < MAX_LMB_REGIONS"
  shows "\<exists>rc l'. lmb_free l base sz = Some (rc, l') \<and> memory l' = memory l
    \<and> (if rc < 0 then l' = l \<and> (\<forall>p \<in> set (active (reserved l)). \<not> {base..<base + sz} \<subseteq> ivl p)
       else covered (reserved l') = covered (reserved l) - {base..<base + sz}
         \<and> (rgn_inv (reserved l') \<or> cnt (reserved l') = 0))"
    (is "\<exists>rc l'. lmb_free l base sz = Some (rc, l') \<and> ?P rc l'")
proof -
  let ?r = "reserved l"
  have en: "add32 base sz = base + sz" using sz by simp
  show ?thesis
    using find_containing_range [OF inv ok, of base "base + sz"]
  proof (elim disjE exE conjE)
    assume "find_containing (region ?r) (cnt ?r) base (base + sz) 0 = Some None"
      and "\<forall>p \<in> set (active ?r). \<not> (pbase p \<le> base \<and> base + sz \<le> pbase p + psize p)"
    moreover from this(2) have "\<forall>p \<in> set (active ?r). \<not> {base..<base + sz} \<subseteq> ivl p" using sz by (auto simp: ivl_def)
    ultimately show ?thesis using en by (simp add: lmb_free_def)
  next
    fix as p bs
    assume f: "find_containing (region ?r) (cnt ?r) base (base + sz) 0 = Some (Some (length as))"
      and act: "active ?r = as @ p # bs" and p: "rd (region ?r) (length as) = Some p"
      and le: "pbase p \<le> base" "base + sz \<le> pbase p + psize p" and fits: "fits32 p"
    note shrink = shrink_spec [OF inv act ok]
    have small: "psize p < 2 ^ 32" "pbase p + psize p < 2 ^ 32" using fits by (auto simp: fits32_def)
    consider (whole) "pbase p = base" "pbase p + psize p = base + sz"
      | (front) "pbase p = base" "base + sz < pbase p + psize p"
      | (rear) "pbase p < base" "pbase p + psize p = base + sz"
      | (middle) "pbase p < base" "base + sz < pbase p + psize p" using le by linarith
    then show ?thesis
    proof cases
      case whole
      then have "ivl p = {base..<base + sz}" by (simp add: ivl_def)
      then show ?thesis using remove_spec [OF inv act ok] f p fits whole en
        by (auto simp: lmb_free_def Let_def split: if_splits)
    next
      case front
      let ?q = "\<lparr>pbase = base + sz, psize = psize p - sz\<rparr>"
      have s: "sub32 (psize p) sz = psize p - sz" using front small by (intro sub32_no_borrow) auto
      have "ivl p - ivl ?q = {base..<base + sz}" using front by (auto simp: ivl_def)
      then show ?thesis using shrink [of ?q] f p fits front en s by (auto simp: lmb_free_def Let_def)
    next
      case rear
      let ?q = "p\<lparr>psize := psize p - sz\<rparr>"
      have s: "sub32 (psize p) sz = psize p - sz" using rear small by (intro sub32_no_borrow) auto
      have "ivl p - ivl ?q = {base..<base + sz}" using rear by (auto simp: ivl_def)
      then show ?thesis using shrink [of ?q] f p fits rear en s by (auto simp: lmb_free_def Let_def)
    next
      case middle
      let ?q = "p\<lparr>psize := base - pbase p\<rparr>"
      let ?m = "?r\<lparr>region := (region ?r)[length as := ?q]\<rparr>"
      have s: "sub32 base (pbase p) = base - pbase p" "sub32 (pbase p + psize p) (base + sz) = pbase p + psize p - (base + sz)"
        using middle small sz by (auto intro!: sub32_no_borrow)
      have m: "wr (region ?r) (length as) ?q = Some ((region ?r)[length as := ?q])" "rgn_inv ?m"
        "covered ?m = covered ?r - (ivl p - ivl ?q)" using shrink [of ?q] middle by auto
      have tail: "base + sz + (pbase p + psize p - (base + sz)) = pbase p + psize p" using middle by simp
      have sub: "{base + sz..<pbase p + psize p} \<subseteq> ivl p" "{base + sz..<pbase p + psize p} \<inter> ivl ?q = {}"
        "ivl p \<subseteq> covered ?r" using middle act by (auto simp: ivl_def covered_def)
      have "covered ?m \<inter> {base + sz..<base + sz + (pbase p + psize p - (base + sz))} = {}"
        unfolding m(3) tail using sub by blast
      then obtain rc rgn' where add: "lmb_add_region ?m (base + sz) (pbase p + psize p - (base + sz)) = Some (rc, rgn')"
        "if rc < 0 then rgn' = ?m \<and> cnt ?m = MAX_LMB_REGIONS
         else rgn_inv rgn' \<and> covered rgn' = covered ?m \<union> {base + sz..<pbase p + psize p}"
        using add_region_ok [OF m(2), of "pbase p + psize p - (base + sz)" "base + sz"] middle small tail by auto
      have run: "lmb_free l base sz = Some (rc, l\<lparr>reserved := rgn'\<rparr>)"
        using f p fits middle en s m(1) add(1) by (simp add: lmb_free_def Let_def)
      have "ivl p - ivl ?q = {base..<base + sz} \<union> {base + sz..<pbase p + psize p}" using middle by (auto simp: ivl_def)
      then have "covered ?m \<union> {base + sz..<pbase p + psize p} = covered ?r - {base..<base + sz}"
        unfolding m(3) using sub by auto
      then show ?thesis using run add(2) room by (auto split: if_splits)
    qed
  qed
qed

section \<open>Properties\<close>

text \<open>A board with 256 MB at \<^verbatim>\<open>0x60000000\<close> and nothing reserved, and the tables before \<^verbatim>\<open>lmb_init\<close>.\<close>

definition blank :: "lmb_property list" where
  "blank = replicate 9 \<lparr>pbase = 0, psize = 0\<rparr>"

definition bank :: lmb where
  "bank = \<lparr>memory = \<lparr>cnt = 1, region = blank[0 := \<lparr>pbase = 0x60000000, psize = 0x10000000\<rparr>]\<rparr>,
           reserved = \<lparr>cnt = 1, region = blank\<rparr>\<rparr>"

definition one_reserved :: lmb where
  "one_reserved = bank\<lparr>reserved := \<lparr>cnt = 1, region = blank[0 := \<lparr>pbase = 0x60000000, psize = 0x4000\<rparr>]\<rparr>\<rparr>"

text \<open>A board with memory from address 0, and a full table of reserved ranges.\<close>

definition low_bank :: lmb where
  "low_bank = bank\<lparr>memory := \<lparr>cnt = 1, region = blank[0 := \<lparr>pbase = 0, psize = 0x10000000\<rparr>]\<rparr>,
                   reserved := \<lparr>cnt = 1, region = blank[0 := \<lparr>pbase = 0x4000, psize = 0x1000\<rparr>]\<rparr>\<rparr>"

definition full_table :: lmb where
  "full_table = bank\<lparr>reserved := \<lparr>cnt = 8, region = map (\<lambda>i. \<lparr>pbase = 0x60000000 + i * 0x10000, psize = 0x8000\<rparr>)
     [0, 1, 2, 3, 4, 5, 6, 7] @ [\<lparr>pbase = 0, psize = 0\<rparr>]\<rparr>\<rparr>"

lemma blank_list: "blank = (let z = \<lparr>pbase = 0, psize = 0\<rparr> in [z, z, z, z, z, z, z, z, z])"
  by (simp add: blank_def Let_def numeral_eq_Suc)

lemmas boards = bank_def one_reserved_def low_bank_def full_table_def blank_list Let_def

lemma inv_bank: "rgn_inv (memory bank)" "rgn_inv (reserved bank)" "covered (reserved bank) = {}"
  "rgn_inv (reserved one_reserved)" "ranges_ok (active (reserved one_reserved))"
  by (simp_all add: boards rgn_inv_def active_def covered_def ivl_def ranges_ok_def fits32_def MAX_LMB_REGIONS_def)

text \<open>
  \<^bold>\<open>C28.\<close> Registering a range that is disjoint from the ranges of a well-formed table: the call stays
  inside the array, keeps the table sorted and disjoint, and the table then covers exactly the old
  addresses and the new ones, whichever neighbours are merged. The only failure is a full table
  with no neighbour, and then nothing changes.
\<close>

theorem lmb_reserve_adds_range:
  assumes "rgn_inv (reserved l)" and "0 < sz" and "base + sz < 2 ^ 32"
    and "covered (reserved l) \<inter> {base..<base + sz} = {}"
  shows "\<exists>rc l'. lmb_reserve l base sz = Some (rc, l') \<and> memory l' = memory l
    \<and> (if rc < 0 then l' = l \<and> cnt (reserved l) = MAX_LMB_REGIONS
       else rgn_inv (reserved l') \<and> covered (reserved l') = covered (reserved l) \<union> {base..<base + sz})"
  using add_region_ok [OF assms] by (fastforce simp: lmb_reserve_def split: if_splits)

theorem lmb_reserve_adds_range_witness:
  "\<exists>rc l'. lmb_reserve bank 0x61000000 0x100000 = Some (rc, l') \<and> memory l' = memory bank
    \<and> (if rc < 0 then l' = bank \<and> cnt (reserved bank) = MAX_LMB_REGIONS
       else rgn_inv (reserved l') \<and> covered (reserved l') = covered (reserved bank) \<union> {0x61000000..<0x61000000 + 0x100000})"
  by (rule lmb_reserve_adds_range) (simp_all add: inv_bank)



text \<open>
  \<^bold>\<open>C29.\<close> Freeing a range from a table with room for one more entry: either no reserved range contains
  it, and nothing changes, or exactly its addresses are no longer reserved. The table stays well
  formed unless its last range was freed, which leaves a count of 0.
\<close>

theorem lmb_free_removes_range:
  assumes "rgn_inv (reserved l)" and "ranges_ok (active (reserved l))" and "0 < sz" and "base + sz < 2 ^ 32"
    and "cnt (reserved l) < MAX_LMB_REGIONS"
  shows "\<exists>rc l'. lmb_free l base sz = Some (rc, l') \<and> memory l' = memory l
    \<and> (if rc < 0 then l' = l \<and> (\<forall>p \<in> set (active (reserved l)). \<not> {base..<base + sz} \<subseteq> ivl p)
       else covered (reserved l') = covered (reserved l) - {base..<base + sz}
         \<and> (rgn_inv (reserved l') \<or> cnt (reserved l') = 0))"
  using assms by (rule free_spec)

theorem lmb_free_removes_range_witness:
  "\<exists>rc l'. lmb_free one_reserved 0x60001000 0x1000 = Some (rc, l') \<and> memory l' = memory one_reserved
    \<and> (if rc < 0 then l' = one_reserved \<and> (\<forall>p \<in> set (active (reserved one_reserved)). \<not> {0x60001000..<0x60001000 + 0x1000} \<subseteq> ivl p)
       else covered (reserved l') = covered (reserved one_reserved) - {0x60001000..<0x60001000 + 0x1000}
         \<and> (rgn_inv (reserved l') \<or> cnt (reserved l') = 0))"
  by (rule lmb_free_removes_range) (simp_all add: inv_bank, simp add: one_reserved_def MAX_LMB_REGIONS_def)


text \<open>
  A flaw. The upper bound \<^verbatim>\<open>base + size - 1\<close> of the empty dummy range wraps around: as long as
  nothing is reserved, \<^verbatim>\<open>lmb_is_reserved\<close> answers yes for every address.
\<close>

theorem lmb_is_reserved_before_first_reserve:
  "\<forall>l addr. \<exists>l'. lmb_init (l\<lparr>memory := memory bank, reserved := reserved bank\<rparr>) = Some l' \<and> covered (reserved l') = {}
     \<and> lmb_is_reserved l' (unat (addr :: u32))"
proof (intro allI)
  fix l and addr :: u32
  have "unat addr < 2 ^ 32" using unsigned_less [of addr] by simp
  then show "\<exists>l'. lmb_init (l\<lparr>memory := memory bank, reserved := reserved bank\<rparr>) = Some l' \<and> covered (reserved l') = {}
     \<and> lmb_is_reserved l' (unat addr)"
    by (simp add: lmb_init_def boards wr_def covered_def active_def ivl_def lmb_is_reserved_def add32_def sub32_def)
qed

text \<open>
  A limit below the size wraps around in \<^verbatim>\<open>base - size\<close>, and the address returned is outside the
  memory of the board.
\<close>

lemma lmb_alloc_base_limit_wraps:
  "\<exists>l'. lmb_alloc_base low_bank 0x2000 0x1000 0x1000 = Some (0xFFFFF000, l') \<and> 0xFFFFF000 \<notin> covered (memory low_bank)"
proof -
  have "\<exists>r. alloc_loop (reserved low_bank) 0x2000 0x1000 0 0xFFFFF000 = Some (Inl (0xFFFFF000, r))"
    by (simp add: alloc_loop.simps boards lmb_overlaps_region_def lmb_addrs_overlap_def add32_def upt_rec lmb_align_up_def
        lmb_add_region_def coalesce_scan.simps merge_next_def insert_region_def lmb_addrs_adjacent_def rd_def wr_def sub32_def
        MAX_LMB_REGIONS_def)
  moreover have "lmb_align_down (sub32 (min (add32 0 0x10000000) 0x1000) 0x2000) 0x1000 = 0xFFFFF000"
    by (simp add: lmb_align_down_def add32_def sub32_def)
  ultimately show ?thesis
    by (auto simp: lmb_alloc_base_def low_bank_def bank_def rd_def blank_list Let_def LMB_ALLOC_ANYWHERE_def covered_def active_def ivl_def)
qed

text \<open>
  Freeing the middle of a range when the table is full: the part above the hole is lost as well,
  although the call reports a failure.
\<close>

lemma lmb_free_full_table_loses_tail:
  "\<exists>l'. lmb_free full_table 0x60001000 0x1000 = Some (-1, l') \<and> 0x60002000 \<in> covered (reserved full_table)
     \<and> 0x60002000 \<notin> covered (reserved l')"
  by (simp add: boards lmb_free_def find_containing.simps lmb_add_region_def coalesce_scan.simps merge_next_def insert_region_def
      lmb_addrs_adjacent_def rd_def wr_def sub32_def add32_def MAX_LMB_REGIONS_def covered_def active_def ivl_def)

end
