(* ===== verification/EnvAttr.thy ===== *)
theory EnvAttr
  imports Cstring
begin

text \<open>
  The attribute lists of the environment (\<^verbatim>\<open>common/env_attr.c\<close>): strings of the form
  \<^verbatim>\<open>name:attributes,name:attributes\<close>, in which spaces around the parts are ignored. The list and
  the name are plain strings; a position in the list is an offset. \<open>env_attr_lookup\<close> looks
  backwards from a match for the preceding delimiter, and for a match at the start of the list
  it reads the bytes in front of the list: these are the parameter \<open>pre\<close>, nearest byte first.
\<close>

definition ENV_ATTR_LIST_DELIM :: char where "ENV_ATTR_LIST_DELIM = CHR '',''"
definition ENV_ATTR_SEP :: char where "ENV_ATTR_SEP = CHR '':''"

abbreviation is_sp :: "char \<Rightarrow> bool" where "is_sp c \<equiv> c = CHR '' ''"

section \<open>Walking a list\<close>

text \<open>\<^verbatim>\<open>strim\<close> on a private copy of a string.\<close>

definition trim :: "string \<Rightarrow> string" where
  "trim s = rev (dropWhile isspace (rev (dropWhile isspace s)))"

lemma dropWhile_shorter: "dropWhile P s = c # s' \<Longrightarrow> length s' < length s"
  using length_dropWhile_le [of P s] by simp

text \<open>One entry of the list, handed to the callback as name and optional attributes.\<close>

definition walk_entry :: "(string \<Rightarrow> string option \<Rightarrow> 's \<Rightarrow> int \<times> 's) \<Rightarrow> string \<Rightarrow> 's \<Rightarrow> int \<times> 's" where
  "walk_entry cb en st =
     (let name = trim (takeWhile (\<lambda>c. c \<noteq> ENV_ATTR_SEP) en);
          rest = dropWhile (\<lambda>c. c \<noteq> ENV_ATTR_SEP) en;
          attributes = (if rest = [] then None else Some (trim (tl rest)))
      in if name \<noteq> [] then cb name attributes st else (0, st))"

function env_attr_walk_loop :: "(nat \<Rightarrow> bool) \<Rightarrow> (string \<Rightarrow> string option \<Rightarrow> 's \<Rightarrow> int \<times> 's) \<Rightarrow> string \<Rightarrow> 's
    \<Rightarrow> int \<times> 's" where
  "env_attr_walk_loop alloc cb s st =
     (let en = takeWhile (\<lambda>c. c \<noteq> ENV_ATTR_LIST_DELIM) s;
          rest = dropWhile (\<lambda>c. c \<noteq> ENV_ATTR_LIST_DELIM) s
      in if en \<noteq> [] \<and> \<not> alloc (length en + 1) then (-12, st)
         else case (if en = [] then (0, st) else walk_entry cb en st) of (r, st) \<Rightarrow>
           if r \<noteq> 0 then (r, st)
           else case rest of [] \<Rightarrow> (0, st) | _ # s' \<Rightarrow> env_attr_walk_loop alloc cb s' st)"
  by pat_completeness auto
termination
  by (relation "measure (\<lambda>(alloc, cb, s, st). length s)") (auto dest!: sym dropWhile_shorter)

declare env_attr_walk_loop.simps [simp del]

definition env_attr_walk :: "(nat \<Rightarrow> bool) \<Rightarrow> string option \<Rightarrow> (string \<Rightarrow> string option \<Rightarrow> 's \<Rightarrow> int \<times> 's) \<Rightarrow> 's
    \<Rightarrow> int \<times> 's" where
  "env_attr_walk alloc attr_list cb st =
     (case attr_list of None \<Rightarrow> (1, st) | Some s \<Rightarrow> env_attr_walk_loop alloc cb s st)"

section \<open>Looking up one name\<close>

function reverse_strstr_loop :: "string \<Rightarrow> string \<Rightarrow> nat option \<Rightarrow> nat \<Rightarrow> nat option \<Rightarrow> nat option" where
  "reverse_strstr_loop s name start off result =
     (case (if name = [] then None else first_occ name (drop off s)) of
        None \<Rightarrow> result
      | Some i \<Rightarrow>
          if (case start of None \<Rightarrow> False | Some p \<Rightarrow> off + i + length name > p) then result
          else reverse_strstr_loop s name start (off + i + 1) (Some (off + i)))"
  by pat_completeness auto
termination
proof (relation "measure (\<lambda>(s, name, start, off, result). length s - off)", goal_cases)
  case (2 s name start off result i)
  then have "name \<noteq> []" and "first_occ name (drop off s) = Some i" by (auto split: if_splits)
  then have "off < length s" using first_occ_Some [of name "drop off s" i] by (cases name) auto
  then show ?case by simp
qed simp

declare reverse_strstr_loop.simps [simp del]

text \<open>The loop is entered for a non-empty \<^verbatim>\<open>search_for\<close> only, which its test of \<open>name\<close> records.\<close>

definition reverse_strstr :: "string \<Rightarrow> string \<Rightarrow> nat option \<Rightarrow> nat option" where
  "reverse_strstr s name start = (if name = [] then Some 0 else reverse_strstr_loop s name start 0 None)"

definition prev_char :: "char list \<Rightarrow> string \<Rightarrow> nat \<Rightarrow> char option" where
  "prev_char pre s p = (case dropWhile is_sp (rev (take p s) @ pre) of [] \<Rightarrow> None | c # _ \<Rightarrow> Some c)"

definition next_char :: "string \<Rightarrow> nat \<Rightarrow> char" where
  "next_char s q = hd (dropWhile is_sp (drop q s @ [NUL]))"

definition exact_match :: "string \<Rightarrow> nat \<Rightarrow> char \<Rightarrow> char \<Rightarrow> bool" where
  "exact_match s p pc nc \<longleftrightarrow> (p = 0 \<or> pc = ENV_ATTR_LIST_DELIM)
     \<and> (nc = ENV_ATTR_SEP \<or> nc = ENV_ATTR_LIST_DELIM \<or> nc = NUL)"

text \<open>The \<^verbatim>\<open>while (entry != NULL)\<close> loop; \<open>None\<close> is an out-of-bounds read or a loop that never ends.\<close>

partial_function (option) attr_match_loop :: "char list \<Rightarrow> string \<Rightarrow> string \<Rightarrow> nat option \<Rightarrow> nat option option" where
  "attr_match_loop pre s name en =
     (if en = None then Some None
      else Option.bind (prev_char pre s (the en)) (\<lambda>pc.
          if exact_match s (the en) pc (next_char s (the en + length name)) then Some en
          else attr_match_loop pre s name (reverse_strstr s name en)))"

text \<open>The attribute text that follows a name ending at offset \<open>q\<close>.\<close>

definition attr_text :: "string \<Rightarrow> nat \<Rightarrow> string" where
  "attr_text s q = (case dropWhile is_sp (drop q s) of
     [] \<Rightarrow> []
   | c # r \<Rightarrow> if c \<noteq> ENV_ATTR_SEP then []
             else takeWhile (\<lambda>c. c \<noteq> ENV_ATTR_LIST_DELIM \<and> c \<noteq> CHR '' '') (dropWhile is_sp r))"

text \<open>Return code and, on success, the string stored in \<^verbatim>\<open>attributes\<close>.\<close>

definition env_attr_lookup :: "char list \<Rightarrow> string option \<Rightarrow> string \<Rightarrow> (int \<times> string) option" where
  "env_attr_lookup pre attr_list name =
     (case attr_list of None \<Rightarrow> Some (1, [])
      | Some s \<Rightarrow> do {
          m \<leftarrow> attr_match_loop pre s name (reverse_strstr s name None);
          case m of None \<Rightarrow> Some (2, [])
          | Some p \<Rightarrow> Some (0, attr_text s (p + length name)) })"

section \<open>Lookup ends for every non-empty name\<close>

lemma reverse_strstr_loop_before:
  assumes "reverse_strstr_loop s name start off result = Some q"
    and "\<And>r. result = Some r \<Longrightarrow> P r"
    and "\<And>r. prefix name (drop r s) \<Longrightarrow> r + length name \<le> length s
       \<Longrightarrow> (\<And>p. start = Some p \<Longrightarrow> r + length name \<le> p) \<Longrightarrow> P r"
  shows "P q"
  using assms
proof (induction s name start off result rule: reverse_strstr_loop.induct)
  case (1 s name start off result)
  show ?case
  proof (cases "if name = [] then None else first_occ name (drop off s)")
    case None
    with "1.prems" show ?thesis by (simp add: reverse_strstr_loop.simps [of s])
  next
    case (Some i)
    then have occ: "first_occ name (drop off s) = Some i" "name \<noteq> []" by (auto split: if_splits)
    note found = first_occ_Some [OF occ(1)]
    show ?thesis
    proof (cases "case start of None \<Rightarrow> False | Some p \<Rightarrow> off + i + length name > p")
      case True
      with Some "1.prems" show ?thesis by (simp add: reverse_strstr_loop.simps [of s])
    next
      case False
      with Some "1.prems"(1) have rec: "reverse_strstr_loop s name start (off + i + 1) (Some (off + i)) = Some q"
        by (simp add: reverse_strstr_loop.simps [of s name start off])
      have "P (off + i)"
      proof (rule "1.prems"(3))
        show "prefix name (drop (off + i) s)" using found by (simp add: add.commute)
        show "off + i + length name \<le> length s" using found occ(2) by (cases name) auto
        show "off + i + length name \<le> p" if "start = Some p" for p using False that by simp
      qed
      then show ?thesis using "1.IH" [OF Some False rec] "1.prems"(3) by blast
    qed
  qed
qed

lemma reverse_strstr_before:
  assumes "reverse_strstr s name start = Some q" and "name \<noteq> []"
  shows "prefix name (drop q s)" and "q + length name \<le> length s"
    and "start = Some p \<Longrightarrow> q + length name \<le> p"
proof -
  have loop: "reverse_strstr_loop s name start 0 None = Some q"
    using assms by (simp add: reverse_strstr_def)
  show "prefix name (drop q s)" by (rule reverse_strstr_loop_before [OF loop]) simp_all
  show "q + length name \<le> length s" by (rule reverse_strstr_loop_before [OF loop]) simp_all
  show "start = Some p \<Longrightarrow> q + length name \<le> p"
    by (rule reverse_strstr_loop_before [OF loop, where P = "\<lambda>r. start = Some p \<longrightarrow> r + length name \<le> p", rule_format]) simp_all
qed

lemma prev_char_defined:
  assumes "\<exists>c \<in> set pre. \<not> is_sp c"
  shows "\<exists>pc. prev_char pre s p = Some pc"
proof -
  have "dropWhile is_sp (rev (take p s) @ pre) \<noteq> []" using assms by (auto simp: dropWhile_eq_Nil_conv)
  then show ?thesis by (auto simp: prev_char_def split: list.splits)
qed

lemma attr_match_loop_returns:
  assumes "\<exists>c \<in> set pre. \<not> is_sp c" and "name \<noteq> []"
  shows "\<exists>m. attr_match_loop pre s name en = Some m"
proof -
  have "\<exists>m. attr_match_loop pre s name (Some p) = Some m" for p
  proof (induction p rule: less_induct)
    case (less p)
    obtain pc where pc: "prev_char pre s p = Some pc" using prev_char_defined [OF assms(1)] by blast
    show ?case
    proof (cases "reverse_strstr s name (Some p)")
      case None
      with pc show ?thesis by (simp add: attr_match_loop.simps [of pre s name "Some p"] attr_match_loop.simps [of pre s name None])
    next
      case (Some q)
      then have "q < p" using reverse_strstr_before(3) [OF Some assms(2), of p] assms(2) by (cases name) auto
      from less.IH [OF this] pc Some show ?thesis by (auto simp: attr_match_loop.simps [of pre s name "Some p"])
    qed
  qed
  moreover have "attr_match_loop pre s name None = Some None"
    by (simp add: attr_match_loop.simps [of pre s name None])
  ultimately show ?thesis by (cases en) auto
qed

section \<open>Which match is found\<close>

definition occurs_at :: "string \<Rightarrow> string \<Rightarrow> nat \<Rightarrow> bool" where
  "occurs_at s name r \<longleftrightarrow> r + length name \<le> length s \<and> prefix name (drop r s)"

definition upto_start :: "nat option \<Rightarrow> string \<Rightarrow> nat \<Rightarrow> bool" where
  "upto_start start name r \<longleftrightarrow> (case start of None \<Rightarrow> True | Some p \<Rightarrow> r + length name \<le> p)"

lemma reverse_strstr_loop_last:
  assumes "name \<noteq> []"
    and "\<And>r. r < off \<Longrightarrow> occurs_at s name r \<Longrightarrow> upto_start start name r \<Longrightarrow> \<exists>q. result = Some q \<and> r \<le> q"
    and "\<And>q. result = Some q \<Longrightarrow> q < off"
    and "occurs_at s name r" and "upto_start start name r"
  shows "\<exists>q. reverse_strstr_loop s name start off result = Some q \<and> r \<le> q"
  using assms
proof (induction s name start off result rule: reverse_strstr_loop.induct)
  case (1 s name start off result)
  show ?case
  proof (cases "first_occ name (drop off s)")
    case None
    then have "\<not> sublist name (drop off s)" by (simp add: first_occ_None)
    moreover have "sublist name (drop off s)" if "off \<le> r"
    proof -
      have "drop r s = drop (r - off) (drop off s)" using that by simp
      then show ?thesis using "1.prems"(4) unfolding occurs_at_def
        by (metis prefix_imp_sublist sublist_drop sublist_order.order_trans)
    qed
    ultimately have "r < off" by (meson not_le)
    then show ?thesis using "1.prems" None by (simp add: reverse_strstr_loop.simps [of s])
  next
    case (Some i)
    note occ = Some and least = first_occ_least [OF Some] and found = first_occ_Some [OF Some]
    have gap: "r < off \<or> off + i \<le> r"
    proof (rule ccontr)
      assume "\<not> ?thesis"
      then have "r - off < i" "drop r s = drop (r - off) (drop off s)" by auto
      with least [of "r - off"] "1.prems"(4) show False by (simp add: occurs_at_def)
    qed
    show ?thesis
    proof (cases "case start of None \<Rightarrow> False | Some p \<Rightarrow> off + i + length name > p")
      case True
      then have "r < off" using gap "1.prems"(5) by (auto simp: upto_start_def split: option.splits)
      then show ?thesis using "1.prems" occ True by (simp add: reverse_strstr_loop.simps [of s])
    next
      case False
      have "reverse_strstr_loop s name start off result
          = reverse_strstr_loop s name start (off + i + 1) (Some (off + i))"
        using occ "1.prems"(1) False by (simp add: reverse_strstr_loop.simps [of s name start off])
      moreover have "\<exists>q. reverse_strstr_loop s name start (off + i + 1) (Some (off + i)) = Some q \<and> r \<le> q"
        by (rule "1.IH") (use occ "1.prems" False in auto)
      ultimately show ?thesis by simp
    qed
  qed
qed

lemma reverse_strstr_last:
  assumes "name \<noteq> []" and "occurs_at s name r" and "upto_start start name r"
  shows "\<exists>q. reverse_strstr s name start = Some q \<and> r \<le> q"
  using reverse_strstr_loop_last [of name 0 s start None r] assms by (simp add: reverse_strstr_def)

definition exact_at :: "char list \<Rightarrow> string \<Rightarrow> string \<Rightarrow> nat \<Rightarrow> bool" where
  "exact_at pre s name p \<longleftrightarrow> occurs_at s name p
     \<and> (\<exists>pc. prev_char pre s p = Some pc \<and> exact_match s p pc (next_char s (p + length name)))"

definition plain_name :: "string \<Rightarrow> bool" where
  "plain_name name \<longleftrightarrow> name \<noteq> [] \<and> (\<forall>c \<in> set name. c \<notin> {ENV_ATTR_SEP, ENV_ATTR_LIST_DELIM, CHR '' '', NUL})"

text \<open>An exact match is followed by a character that no plain name contains.\<close>

lemma exact_no_overlap:
  assumes "plain_name name" and "exact_at pre s name q" and "occurs_at s name p" and "q < p"
  shows "q + length name \<le> p"
proof (rule ccontr)
  assume "\<not> ?thesis"
  then have lt: "p < q + length name" by simp
  define x where "x = q + length name"
  have x: "x < length s" "x - p < length name" using assms(3,4) lt by (auto simp: occurs_at_def x_def)
  obtain c r where d: "drop x s = c # r" using x(1) by (metis Cons_nth_drop_Suc)
  have "c \<in> {ENV_ATTR_SEP, ENV_ATTR_LIST_DELIM, CHR '' '', NUL}"
    using assms(2) d by (auto simp: exact_at_def exact_match_def next_char_def x_def split: if_splits)
  moreover have "c = name ! (x - p)"
  proof -
    have "take (length name) (drop p s) = name" using assms(3) by (auto simp: occurs_at_def prefix_def)
    then have "name ! (x - p) = drop p s ! (x - p)" using x(2) by (metis nth_take)
    also have "\<dots> = s ! x" using assms(3) lt x by (simp add: x_def occurs_at_def)
    also have "\<dots> = c" using d x(1) by (metis nth_via_drop)
    finally show ?thesis by simp
  qed
  ultimately show False using assms(1) x(2) by (auto simp: plain_name_def)
qed

lemma attr_match_loop_last:
  assumes pre: "\<exists>c \<in> set pre. \<not> is_sp c" and plain: "plain_name name"
  shows "\<exists>m. attr_match_loop pre s name (reverse_strstr s name start) = Some m
    \<and> (\<forall>p. m = Some p \<longrightarrow> exact_at pre s name p)
    \<and> (\<forall>q. exact_at pre s name q \<longrightarrow> upto_start start name q \<longrightarrow> (\<exists>p. m = Some p \<and> q \<le> p))"
proof -
  have ne: "name \<noteq> []" using plain by (simp add: plain_name_def)
  have "\<exists>m. attr_match_loop pre s name (Some p) = Some m
    \<and> (\<forall>p. m = Some p \<longrightarrow> exact_at pre s name p)
    \<and> (\<forall>q. exact_at pre s name q \<longrightarrow> q \<le> p \<longrightarrow> (\<exists>p. m = Some p \<and> q \<le> p))"
    if "occurs_at s name p" for p using that
  proof (induction p rule: less_induct)
    case (less p)
    obtain pc where pc: "prev_char pre s p = Some pc" using prev_char_defined [OF pre] by blast
    show ?case
    proof (cases "exact_match s p pc (next_char s (p + length name))")
      case True
      with pc less.prems have "exact_at pre s name p" by (simp add: exact_at_def)
      with True pc show ?thesis by (auto simp: attr_match_loop.simps [of pre s name "Some p"])
    next
      case False
      have notp: "\<not> exact_at pre s name p" using False pc by (simp add: exact_at_def)
      have step: "attr_match_loop pre s name (Some p) = attr_match_loop pre s name (reverse_strstr s name (Some p))"
        using False pc by (simp add: attr_match_loop.simps [of pre s name "Some p"])
      have earlier: "\<exists>q'. reverse_strstr s name (Some p) = Some q' \<and> q \<le> q'"
        if "exact_at pre s name q" "q \<le> p" for q
      proof -
        have "q < p" using that notp by (metis le_neq_implies_less)
        then have "upto_start (Some p) name q"
          using exact_no_overlap [OF plain that(1) less.prems] by (simp add: upto_start_def)
        then show ?thesis using that(1) by (intro reverse_strstr_last ne) (simp_all add: exact_at_def)
      qed
      show ?thesis
      proof (cases "reverse_strstr s name (Some p)")
        case None
        with earlier step show ?thesis
          by (auto simp: attr_match_loop.simps [of pre s name None])
      next
        case (Some q)
        note b = reverse_strstr_before [OF Some ne]
        then have "q < p" "occurs_at s name q" using ne by (cases name, auto simp: occurs_at_def)
        from less.IH [OF this] step Some earlier show ?thesis by auto
      qed
    qed
  qed
  note main = this
  show ?thesis
  proof (cases "reverse_strstr s name start")
    case None
    then show ?thesis using reverse_strstr_last [OF ne, of s _ start]
      by (auto simp: attr_match_loop.simps [of pre s name None] exact_at_def)
  next
    case (Some p)
    note b = reverse_strstr_before [OF Some ne]
    from main [of p] b show ?thesis using reverse_strstr_last [OF ne, of s _ start] Some
      by (auto simp: occurs_at_def exact_at_def)
  qed
qed

section \<open>Properties\<close>

text \<open>
  For a plain name (not empty, no separators, no spaces) \<open>env_attr_lookup\<close> returns: 0
  with the attribute text behind the last entry of the list whose name is exactly the given one
  (occurrences inside other names or inside attributes do not count), and 2 when there is none.
\<close>

theorem env_attr_lookup_last_match:
  assumes "plain_name name" and "\<exists>c \<in> set pre. c \<noteq> CHR '' ''"
  shows "(\<exists>p. env_attr_lookup pre (Some s) name = Some (0, attr_text s (p + length name))
            \<and> exact_at pre s name p \<and> (\<forall>q. exact_at pre s name q \<longrightarrow> q \<le> p))
       \<or> (env_attr_lookup pre (Some s) name = Some (2, []) \<and> (\<forall>q. \<not> exact_at pre s name q))"
proof -
  from attr_match_loop_last [OF assms(2,1), of s None] obtain m where
    m: "attr_match_loop pre s name (reverse_strstr s name None) = Some m"
      "\<forall>p. m = Some p \<longrightarrow> exact_at pre s name p"
      "\<forall>q. exact_at pre s name q \<longrightarrow> (\<exists>p. m = Some p \<and> q \<le> p)"
    by (auto simp: upto_start_def)
  show ?thesis
  proof (cases m)
    case None
    with m show ?thesis by (auto simp: env_attr_lookup_def)
  next
    case (Some p)
    with m show ?thesis by (auto simp: env_attr_lookup_def)
  qed
qed

theorem env_attr_lookup_last_match_witness:
  "(\<exists>p. env_attr_lookup ''x'' (Some ''eth:a,ethaddr:mo'') ''eth'' = Some (0, attr_text ''eth:a,ethaddr:mo'' (p + length ''eth''))
      \<and> exact_at ''x'' ''eth:a,ethaddr:mo'' ''eth'' p \<and> (\<forall>q. exact_at ''x'' ''eth:a,ethaddr:mo'' ''eth'' q \<longrightarrow> q \<le> p))
   \<or> (env_attr_lookup ''x'' (Some ''eth:a,ethaddr:mo'') ''eth'' = Some (2, []) \<and> (\<forall>q. \<not> exact_at ''x'' ''eth:a,ethaddr:mo'' ''eth'' q))"
  by (rule env_attr_lookup_last_match) (simp_all add: plain_name_def ENV_ATTR_SEP_def ENV_ATTR_LIST_DELIM_def)

lemma empty_name_loops:
  assumes "attr_match_loop pre t name en = Some m"
  shows "\<not> (name = [] \<and> en = Some 0 \<and> t = c # s \<and> c \<notin> {ENV_ATTR_SEP, ENV_ATTR_LIST_DELIM, CHR '' '', NUL})"
proof (rule attr_match_loop.raw_induct [where
      P = "\<lambda>pre t name en m. \<not> (name = [] \<and> en = Some 0 \<and> t = c # s
        \<and> c \<notin> {ENV_ATTR_SEP, ENV_ATTR_LIST_DELIM, CHR '' '', NUL})", OF _ assms])
  fix loop and pre t name :: string and en m
  assume IH: "\<And>pre t name en m. loop pre t name en = Some m \<Longrightarrow> \<not> (name = [] \<and> en = Some 0 \<and> t = c # s
        \<and> c \<notin> {ENV_ATTR_SEP, ENV_ATTR_LIST_DELIM, CHR '' '', NUL})"
    and run: "(if en = None then Some None
      else Option.bind (prev_char pre t (the en)) (\<lambda>pc.
          if exact_match t (the en) pc (next_char t (the en + length name)) then Some en
          else loop pre t name (reverse_strstr t name en))) = Some m"
  show "\<not> (name = [] \<and> en = Some 0 \<and> t = c # s \<and> c \<notin> {ENV_ATTR_SEP, ENV_ATTR_LIST_DELIM, CHR '' '', NUL})"
  proof
    assume a: "name = [] \<and> en = Some 0 \<and> t = c # s \<and> c \<notin> {ENV_ATTR_SEP, ENV_ATTR_LIST_DELIM, CHR '' '', NUL}"
    then have "reverse_strstr t name en = Some 0" and "next_char t 0 = c"
      by (auto simp: reverse_strstr_def next_char_def)
    with a have "\<not> exact_match t 0 pc (next_char t 0)" for pc by (auto simp: exact_match_def)
    with run a obtain "loop pre t [] (Some 0) = Some m"
      by (auto simp: reverse_strstr_def split: Option.bind_splits)
    with IH a show False by blast
  qed
qed

lemma lookup_of_empty_name:
  assumes "c \<notin> {ENV_ATTR_SEP, ENV_ATTR_LIST_DELIM, CHR '' '', NUL}"
  shows "env_attr_lookup pre (Some (c # s)) [] = None"
proof -
  have "attr_match_loop pre (c # s) [] (Some 0) = None"
    using empty_name_loops [of pre "c # s" "[]" "Some 0"] assms by (metis option.exhaust)
  then show ?thesis by (simp add: env_attr_lookup_def reverse_strstr_def)
qed

text \<open>
  With an empty name \<open>env_attr_lookup\<close> never returns, unless the list starts with a
  delimiter or a space: the backward search yields the same position again and again.
\<close>

theorem env_attr_lookup_empty_name_hangs:
  assumes "c \<notin> {ENV_ATTR_SEP, ENV_ATTR_LIST_DELIM, CHR '' '', NUL}"
  shows "env_attr_lookup pre (Some (c # s)) [] = None"
  using assms by (rule lookup_of_empty_name)

theorem env_attr_lookup_empty_name_hangs_witness:
  "env_attr_lookup [] (Some ''ethaddr:ma,'') [] = None"
  by (rule env_attr_lookup_empty_name_hangs) (simp add: ENV_ATTR_SEP_def ENV_ATTR_LIST_DELIM_def)

end
