(* ===== verification/EnvFlags.thy ===== *)
theory EnvFlags
  imports EnvAttr HashRefine
begin

text \<open>
  Types and access rights of environment variables (\<^verbatim>\<open>common/env_flags.c\<close>, the board's
  configuration with \<^verbatim>\<open>CONFIG_CMD_NET\<close> and \<^verbatim>\<open>CONFIG_ENV_OVERWRITE\<close>). A pointer into a
  value is the list of bytes from there on, the terminating NUL included, so that pointers into
  the same value are compared by the length of what follows. The two enums are numbers, since the
  code casts between them and the low bits of \<^verbatim>\<open>ENTRY.flags\<close>.
\<close>

section \<open>Representation of types and rights\<close>

abbreviation (input) "env_flags_vartype_string \<equiv> (0 :: nat)"
abbreviation (input) "env_flags_vartype_decimal \<equiv> (1 :: nat)"
abbreviation (input) "env_flags_vartype_hex \<equiv> (2 :: nat)"
abbreviation (input) "env_flags_vartype_bool \<equiv> (3 :: nat)"
abbreviation (input) "env_flags_vartype_ipaddr \<equiv> (4 :: nat)"
abbreviation (input) "env_flags_vartype_macaddr \<equiv> (5 :: nat)"
abbreviation (input) "env_flags_vartype_end \<equiv> (6 :: nat)"

abbreviation (input) "env_flags_varaccess_any \<equiv> (0 :: nat)"

definition PREVENT_DELETE :: u32 where "PREVENT_DELETE = 0x08"
definition PREVENT_CREATE :: u32 where "PREVENT_CREATE = 0x10"
definition PREVENT_OVERWR :: u32 where "PREVENT_OVERWR = 0x20"
definition PREVENT_NONDEF_OVERWR :: u32 where "PREVENT_NONDEF_OVERWR = 0x40"
definition VARTYPE_BIN_MASK :: u32 where "VARTYPE_BIN_MASK = 0x07"
definition VARACCESS_BIN_MASK :: u32 where "VARACCESS_BIN_MASK = 0x78"
definition H_FORCE :: u32 where "H_FORCE = 2"

lemmas env_flag_bits = PREVENT_DELETE_def PREVENT_CREATE_def PREVENT_OVERWR_def
  PREVENT_NONDEF_OVERWR_def VARTYPE_BIN_MASK_def VARACCESS_BIN_MASK_def H_FORCE_def

definition env_flags_vartype_rep :: string where "env_flags_vartype_rep = ''sdxbim''"
definition env_flags_varaccess_rep :: string where "env_flags_varaccess_rep = ''aroc''"

definition env_flags_varaccess_mask :: "u32 list" where
  "env_flags_varaccess_mask = [0, PREVENT_DELETE OR PREVENT_CREATE OR PREVENT_OVERWR,
     PREVENT_DELETE OR PREVENT_OVERWR, PREVENT_DELETE OR PREVENT_NONDEF_OVERWR]"

text \<open>Position of the flag character in the string of representations, 0 when it is unknown.\<close>

definition parse_rep :: "string \<Rightarrow> nat \<Rightarrow> string \<Rightarrow> nat option" where
  "parse_rep reps loc fs = do {
     n \<leftarrow> strlen (fs @ [NUL]);
     if n \<le> loc then Some 0
     else do {
       p \<leftarrow> strchr (reps @ [NUL]) (fs ! loc);
       case p of Some i \<Rightarrow> Some i | None \<Rightarrow> Some 0 } }"

definition env_flags_parse_vartype :: "string \<Rightarrow> nat option" where
  "env_flags_parse_vartype fs = parse_rep env_flags_vartype_rep 0 fs"

definition env_flags_parse_varaccess :: "string \<Rightarrow> nat option" where
  "env_flags_parse_varaccess fs = parse_rep env_flags_varaccess_rep 1 fs"

text \<open>
  \<^verbatim>\<open>sizeof(env_flags_varaccess_mask)\<close> is the size in bytes: the loop runs to 16 over an array of
  four elements.
\<close>

fun binflags_loop :: "u32 \<Rightarrow> nat \<Rightarrow> nat \<Rightarrow> nat option" where
  "binflags_loop binflags i 0 = Some env_flags_varaccess_any"
| "binflags_loop binflags i (Suc n) = do {
     m \<leftarrow> rd env_flags_varaccess_mask i;
     if m = binflags AND VARACCESS_BIN_MASK then Some i else binflags_loop binflags (i + 1) n }"

definition env_flags_parse_varaccess_from_binflags :: "u32 \<Rightarrow> nat option" where
  "env_flags_parse_varaccess_from_binflags binflags = binflags_loop binflags 0 16"

definition env_parse_flags_to_bin :: "string \<Rightarrow> u32 option" where
  "env_parse_flags_to_bin fs = do {
     t \<leftarrow> env_flags_parse_vartype fs;
     a \<leftarrow> env_flags_parse_varaccess fs;
     m \<leftarrow> rd env_flags_varaccess_mask a;
     Some ((of_nat t AND VARTYPE_BIN_MASK) OR m) }"

section \<open>Checking a value against a type\<close>

definition is_hex_prefix :: "char list \<Rightarrow> bool option" where
  "is_hex_prefix v = do {
     c0 \<leftarrow> rd v 0;
     if c0 \<noteq> CHR ''0'' then Some False
     else do { c1 \<leftarrow> rd v 1; Some (c1 = CHR ''x'' \<or> c1 = CHR ''X'') } }"

text \<open>The counter starts at \<^verbatim>\<open>max_digits\<close> and stops at 0 only: \<open>-1\<close> means no limit.\<close>

fun skip_digits :: "bool \<Rightarrow> int \<Rightarrow> char list \<Rightarrow> char list option" where
  "skip_digits hex i [] = (if i = 0 then Some [] else None)"
| "skip_digits hex i (c # v) =
     (if i = 0 then Some (c # v)
      else if hex \<and> \<not> isxdigit c then Some (c # v)
      else if \<not> hex \<and> \<not> isdigit c then Some (c # v)
      else skip_digits hex (i - 1) v)"

definition skip_num :: "bool \<Rightarrow> char list \<Rightarrow> int \<Rightarrow> char list option" where
  "skip_num hex v max_digits = do {
     p \<leftarrow> (if hex then is_hex_prefix v else Some False);
     skip_digits hex max_digits (if p then drop 2 v else v) }"

text \<open>The loops over the parts of an address, with the number of parts that are left.\<close>

fun ip_loop :: "nat \<Rightarrow> char list \<Rightarrow> int option" where
  "ip_loop 0 cur = Some 0"
| "ip_loop (Suc n) cur = do {
     en \<leftarrow> skip_num False cur 3;
     if length en = length cur then Some (-1)
     else do {
       c \<leftarrow> rd en 0;
       if n \<noteq> 0 \<and> c \<noteq> CHR ''.'' then Some (-1)
       else if n = 0 \<and> c \<noteq> NUL then Some (-1)
       else ip_loop n (drop 1 en) } }"

fun mac_loop :: "nat \<Rightarrow> char list \<Rightarrow> int option" where
  "mac_loop 0 cur = Some 0"
| "mac_loop (Suc n) cur = do {
     en \<leftarrow> skip_num True cur 2;
     if length en = length cur then Some (-1)
     else do {
       p \<leftarrow> (if length cur = length en + 2 then is_hex_prefix cur else Some False);
       if p then Some (-1)
       else do {
         c \<leftarrow> rd en 0;
         if n \<noteq> 0 \<and> c \<noteq> CHR '':'' then Some (-1)
         else if n = 0 \<and> c \<noteq> NUL then Some (-1)
         else mac_loop n (drop 1 en) } } }"

definition bool_chars :: string where
  "bool_chars = ''1ytYT0nfNF''"

definition env_flags_validate_value :: "char list \<Rightarrow> nat \<Rightarrow> int option" where
  "env_flags_validate_value v type =
     (if type = env_flags_vartype_string then Some 0
      else if type = env_flags_vartype_decimal then do {
        en \<leftarrow> skip_num False v (-1);
        c \<leftarrow> rd en 0;
        Some (if c \<noteq> NUL then -1 else 0) }
      else if type = env_flags_vartype_hex then do {
        en \<leftarrow> skip_num True v (-1);
        c \<leftarrow> rd en 0;
        if c \<noteq> NUL then Some (-1)
        else do {
          p \<leftarrow> (if length v = length en + 2 then is_hex_prefix v else Some False);
          Some (if p then -1 else 0) } }
      else if type = env_flags_vartype_bool then do {
        c0 \<leftarrow> rd v 0;
        if c0 \<notin> set bool_chars then Some (-1)
        else do { c1 \<leftarrow> rd v 1; Some (if c1 \<noteq> NUL then -1 else 0) } }
      else if type = env_flags_vartype_ipaddr then ip_loop 4 v
      else if type = env_flags_vartype_macaddr then mac_loop 6 v
      else if type = env_flags_vartype_end then Some (-1)
      else Some 0)"

section \<open>Permission to change a variable\<close>

text \<open>
  \<open>getenv_default\<close> gives the value of a name in the default environment, a parameter. A live
  entry of the table has a value, so the comparison of old and default value is never made with a
  NULL pointer; \<^verbatim>\<open>strcmp\<close> is 0 exactly on equal strings (\<open>strcmp_eq_0\<close>).
\<close>

definition env_flags_validate :: "(string \<Rightarrow> string option) \<Rightarrow> ENTRY \<Rightarrow> string option \<Rightarrow> env_op \<Rightarrow> u32 \<Rightarrow> int" where
  "env_flags_validate getenv_default item newval op flag =
     (let newval = (case newval of None \<Rightarrow> [] | Some v \<Rightarrow> v);
          type = unat (VARTYPE_BIN_MASK AND flags item)
      in if op \<noteq> env_op_delete \<and> env_flags_validate_value (newval @ [NUL]) type = Some (-1) then -1
         else if flag AND H_FORCE \<noteq> 0 then 0
         else case op of
           env_op_delete \<Rightarrow> (if flags item AND PREVENT_DELETE \<noteq> 0 then 1 else 0)
         | env_op_overwrite \<Rightarrow>
             (if flags item AND PREVENT_OVERWR \<noteq> 0 then 1
              else if flags item AND PREVENT_NONDEF_OVERWR \<noteq> 0 then
                (let defval = (case (case key item of None \<Rightarrow> None | Some k \<Rightarrow> getenv_default k)
                               of None \<Rightarrow> [] | Some v \<Rightarrow> v)
                 in if data item \<noteq> Some defval then 1 else 0)
              else 0)
         | env_op_create \<Rightarrow> (if flags item AND PREVENT_CREATE \<noteq> 0 then 1 else 0))"

section \<open>What the checks accept\<close>

definition digit_class :: "bool \<Rightarrow> char \<Rightarrow> bool" where
  "digit_class hex c = (if hex then isxdigit c else isdigit c)"

text \<open>A maximal run of at most \<open>m\<close> digits: \<open>v = ds @ r\<close>.\<close>

definition munch :: "(char \<Rightarrow> bool) \<Rightarrow> nat \<Rightarrow> string \<Rightarrow> string \<Rightarrow> bool" where
  "munch d m ds r \<longleftrightarrow> (\<forall>c \<in> set ds. d c) \<and> length ds \<le> m \<and> (length ds = m \<or> r = [] \<or> \<not> d (hd r))"

lemma munch_unique:
  assumes "munch d m ds r" and "ds @ r = ds' @ r'" and "\<forall>c \<in> set ds'. d c" and "length ds' \<le> m"
    and "r' = [] \<or> \<not> d (hd r')"
  shows "ds' = ds \<and> r' = r"
proof -
  from assms(2) consider us where "ds = ds' @ us" "us @ r = r'" | us where "ds' = ds @ us" "r = us @ r'"
    by (auto simp: append_eq_append_conv2)
  then show ?thesis
  proof cases
    case 1
    with assms(1,5) show ?thesis by (cases us) (auto simp: munch_def)
  next
    case 2
    with assms(1,3,4) show ?thesis by (cases us) (auto simp: munch_def)
  qed
qed

lemma digit_class_NUL [simp]: "\<not> digit_class hex NUL"
  by (cases hex) (simp_all add: digit_class_def, code_simp+)

lemma skip_digits_class:
  "skip_digits hex i (c # v) = (if i = 0 \<or> \<not> digit_class hex c then Some (c # v) else skip_digits hex (i - 1) v)"
  by (simp add: digit_class_def)

lemma skip_digits_munch:
  "\<exists>ds r. v = ds @ r \<and> munch (digit_class hex) m ds r \<and> skip_digits hex (int m) (v @ [NUL]) = Some (r @ [NUL])"
proof (induction v arbitrary: m)
  case Nil
  show ?case by (simp add: munch_def skip_digits_class del: skip_digits.simps)
next
  case (Cons c v)
  show ?case
  proof (cases "m = 0 \<or> \<not> digit_class hex c")
    case True
    then show ?thesis
      by (intro exI [of _ "[]"] exI [of _ "c # v"]) (auto simp: munch_def skip_digits_class simp del: skip_digits.simps)
  next
    case False
    then obtain k where k: "m = Suc k" "digit_class hex c" by (cases m) auto
    from Cons.IH [of k] obtain ds r where "v = ds @ r" "munch (digit_class hex) k ds r"
      "skip_digits hex (int k) (v @ [NUL]) = Some (r @ [NUL])" by blast
    with k show ?thesis
      by (intro exI [of _ "c # ds"] exI [of _ r]) (auto simp: munch_def skip_digits_class simp del: skip_digits.simps)
  qed
qed

lemma skip_digits_unlimited:
  "i < 0 \<Longrightarrow> skip_digits hex i (v @ [NUL]) = Some (dropWhile (digit_class hex) v @ [NUL])"
  by (induction v arbitrary: i) (simp_all add: skip_digits_class del: skip_digits.simps)

text \<open>Values made of \<open>n\<close> parts with a separator between them.\<close>

fun join :: "char \<Rightarrow> string list \<Rightarrow> string" where
  "join sep [] = []"
| "join sep [g] = g"
| "join sep (g # g' # gs) = g @ sep # join sep (g' # gs)"

definition made_of :: "(string \<Rightarrow> bool) \<Rightarrow> char \<Rightarrow> nat \<Rightarrow> string \<Rightarrow> bool" where
  "made_of ok sep n v \<longleftrightarrow> (\<exists>gs. length gs = n \<and> (\<forall>g \<in> set gs. ok g) \<and> v = join sep gs)"

lemma made_of_one: "made_of ok sep (Suc 0) v \<longleftrightarrow> ok v"
  by (auto simp: made_of_def length_Suc_conv)

lemma made_of_more:
  "made_of ok sep (Suc (Suc n)) v \<longleftrightarrow> (\<exists>g w. v = g @ sep # w \<and> ok g \<and> made_of ok sep (Suc n) w)"
proof
  assume "made_of ok sep (Suc (Suc n)) v"
  then obtain g g' gs where "length gs = n" "\<forall>x \<in> set (g # g' # gs). ok x" "v = join sep (g # g' # gs)"
    by (auto simp: made_of_def length_Suc_conv)
  then show "\<exists>g w. v = g @ sep # w \<and> ok g \<and> made_of ok sep (Suc n) w"
    by (intro exI [of _ g] exI [of _ "join sep (g' # gs)"]) (auto simp: made_of_def intro!: exI [of _ "g' # gs"])
next
  assume "\<exists>g w. v = g @ sep # w \<and> ok g \<and> made_of ok sep (Suc n) w"
  then obtain g w g' gs where "v = g @ sep # w" "ok g" "length gs = n" "\<forall>x \<in> set (g' # gs). ok x" "w = join sep (g' # gs)"
    by (auto simp: made_of_def length_Suc_conv)
  then show "made_of ok sep (Suc (Suc n)) v" by (auto simp: made_of_def intro!: exI [of _ "g # g' # gs"])
qed

text \<open>Parts of an IP address: one to three digits. Parts of a MAC address: one or two
  hexadecimal digits, each part with an optional prefix.\<close>

definition ip_part :: "string \<Rightarrow> bool" where
  "ip_part g \<longleftrightarrow> g \<noteq> [] \<and> length g \<le> 3 \<and> (\<forall>c \<in> set g. isdigit c)"

definition hex_number :: "nat \<Rightarrow> string \<Rightarrow> bool" where
  "hex_number m g \<longleftrightarrow> (\<exists>p ds. g = p @ ds \<and> p \<in> {[], ''0x'', ''0X''} \<and> ds \<noteq> [] \<and> length ds \<le> m
     \<and> (\<forall>c \<in> set ds. isxdigit c))"

lemma xdigit_facts [simp]: "\<not> isxdigit CHR ''x''" "\<not> isxdigit CHR ''X''" "\<not> isxdigit CHR '':''" "\<not> isdigit CHR ''.''"
  by code_simp+

lemma ip_loop_correct:
  assumes "NUL \<notin> set v"
  shows "ip_loop (Suc n) (v @ [NUL]) = Some (if made_of ip_part CHR ''.'' (Suc n) v then 0 else -1)"
  using assms
proof (induction n arbitrary: v)
  case (0 v)
  obtain ds r where m: "v = ds @ r" "munch (digit_class False) 3 ds r"
    "skip_digits False (int 3) (v @ [NUL]) = Some (r @ [NUL])" using skip_digits_munch by blast
  have "ip_part v \<longleftrightarrow> ds \<noteq> [] \<and> r = []"
    using m(1,2) munch_unique [OF m(2), of v "[]"]
    by (auto simp: ip_part_def munch_def digit_class_def)
  then show ?case using m 0 by (cases r) (auto simp: made_of_one skip_num_def rd_def)
next
  case (Suc n v)
  obtain ds r where m: "v = ds @ r" "munch (digit_class False) 3 ds r"
    "skip_digits False (int 3) (v @ [NUL]) = Some (r @ [NUL])" using skip_digits_munch by blast
  have eq: "made_of ip_part CHR ''.'' (Suc (Suc n)) v
      \<longleftrightarrow> ds \<noteq> [] \<and> (\<exists>w. r = CHR ''.'' # w \<and> made_of ip_part CHR ''.'' (Suc n) w)" (is "?l \<longleftrightarrow> ?r")
  proof
    assume ?l
    then obtain g w where g: "v = g @ CHR ''.'' # w" "ip_part g" "made_of ip_part CHR ''.'' (Suc n) w"
      by (auto simp: made_of_more)
    then have "g = ds \<and> CHR ''.'' # w = r"
      using m(1) by (intro munch_unique [OF m(2)]) (auto simp: ip_part_def digit_class_def)
    with g show ?r by (auto simp: ip_part_def)
  next
    assume ?r
    then show ?l using m by (auto simp: made_of_more ip_part_def munch_def digit_class_def)
  qed
  show ?case using m Suc.prems Suc.IH [of "tl r"] unfolding eq
    by (cases r) (auto simp: skip_num_def rd_def)
qed

text \<open>A hexadecimal part splits into its prefix and a maximal run of digits.\<close>

definition hex_prefix :: "string \<Rightarrow> string" where
  "hex_prefix v = (if prefix ''0x'' v \<or> prefix ''0X'' v then take 2 v else [])"

lemma hex_prefix_split: "v = hex_prefix v @ drop (length (hex_prefix v)) v"
  by (auto simp: hex_prefix_def prefix_def)

lemma hex_prefix_length: "length (hex_prefix v) = (if hex_prefix v = [] then 0 else 2)"
  by (auto simp: hex_prefix_def prefix_def)

lemma is_hex_prefix_correct: "is_hex_prefix (v @ [NUL]) = Some (hex_prefix v \<noteq> [])"
proof (cases v)
  case Nil
  then show ?thesis by (simp add: is_hex_prefix_def hex_prefix_def rd_def)
next
  case (Cons c w)
  then show ?thesis
    by (cases w) (auto simp: is_hex_prefix_def hex_prefix_def rd_def)
qed

lemma hex_part_split:
  assumes "v = hex_prefix v @ ds @ r" and "munch isxdigit m ds r" and "2 \<le> m"
    and "r' = [] \<or> \<not> isxdigit (hd r') \<and> hd r' \<notin> {CHR ''x'', CHR ''X''}"
  shows "v = g @ r' \<and> hex_number m g \<longleftrightarrow> g = hex_prefix v @ ds \<and> r' = r \<and> ds \<noteq> []"
proof
  assume "v = g @ r' \<and> hex_number m g"
  then obtain p ds' where g: "v = p @ ds' @ r'" "g = p @ ds'" "p \<in> {[], ''0x'', ''0X''}" "ds' \<noteq> []" "length ds' \<le> m"
    "\<forall>c \<in> set ds'. isxdigit c" by (auto simp: hex_number_def)
  have "p = hex_prefix v"
  proof (cases "p = []")
    case True
    then obtain c ds'' where c: "ds' = c # ds''" using g by (cases ds') auto
    have "\<not> prefix ''0x'' v" "\<not> prefix ''0X'' v"
      using g True assms(4) c by (cases ds''; cases r'; auto)+
    then show ?thesis using True by (simp add: hex_prefix_def)
  next
    case False
    then show ?thesis using g by (auto simp: hex_prefix_def)
  qed
  with g assms(1) have "ds @ r = ds' @ r'" by (metis append.assoc same_append_eq)
  then have "ds' = ds \<and> r' = r" using g assms(4) by (intro munch_unique [OF assms(2)]) auto
  with g \<open>p = hex_prefix v\<close> show "g = hex_prefix v @ ds \<and> r' = r \<and> ds \<noteq> []" by simp
next
  assume "g = hex_prefix v @ ds \<and> r' = r \<and> ds \<noteq> []"
  moreover have "hex_prefix v \<in> {[], ''0x'', ''0X''}" by (auto simp: hex_prefix_def prefix_def)
  ultimately show "v = g @ r' \<and> hex_number m g"
    using assms(1,2) by (auto simp: hex_number_def munch_def)
qed

lemma hex_munch:
  obtains ds r where "v = hex_prefix v @ ds @ r" "munch isxdigit m ds r"
    "skip_num True (v @ [NUL]) (int m) = Some (r @ [NUL])"
    "length (v @ [NUL]) = length (hex_prefix v) + length ds + length (r @ [NUL])"
proof -
  obtain ds r where m: "drop (length (hex_prefix v)) v = ds @ r" "munch (digit_class True) m ds r"
    "skip_digits True (int m) (drop (length (hex_prefix v)) v @ [NUL]) = Some (r @ [NUL])"
    using skip_digits_munch by blast
  have "digit_class True = isxdigit" by (auto simp: digit_class_def fun_eq_iff)
  moreover have "(if hex_prefix v \<noteq> [] then drop 2 (v @ [NUL]) else v @ [NUL]) = drop (length (hex_prefix v)) v @ [NUL]"
    by (auto simp: hex_prefix_def prefix_def)
  moreover have v: "v = hex_prefix v @ ds @ r" using hex_prefix_split [of v] m(1) by simp
  moreover have "length v = length (hex_prefix v) + length ds + length r"
    using arg_cong [OF v, of length] by simp
  ultimately show ?thesis using m by (intro that) (simp_all add: skip_num_def is_hex_prefix_correct)
qed

lemma mac_loop_correct:
  assumes "NUL \<notin> set v"
  shows "mac_loop (Suc n) (v @ [NUL]) = Some (if made_of (hex_number 2) CHR '':'' (Suc n) v then 0 else -1)"
  using assms
proof (induction n arbitrary: v)
  case (0 v)
  obtain ds r where m: "v = hex_prefix v @ ds @ r" "munch isxdigit 2 ds r"
    "skip_num True (v @ [NUL]) 2 = Some (r @ [NUL])"
    "length (v @ [NUL]) = length (hex_prefix v) + length ds + length (r @ [NUL])"
    using hex_munch [of v 2] by auto
  have eq: "hex_number 2 v \<longleftrightarrow> ds \<noteq> [] \<and> r = []"
    using hex_part_split [OF m(1,2), of "[]" v] m(1) by auto
  have "NUL \<notin> set r" using m(1) 0 by (metis Un_iff set_append)
  then show ?case
    using m(3,4) hex_prefix_length [of v] unfolding made_of_one eq
    by (cases r) (auto simp: is_hex_prefix_correct rd_def)
next
  case (Suc n v)
  obtain ds r where m: "v = hex_prefix v @ ds @ r" "munch isxdigit 2 ds r"
    "skip_num True (v @ [NUL]) 2 = Some (r @ [NUL])"
    "length (v @ [NUL]) = length (hex_prefix v) + length ds + length (r @ [NUL])"
    using hex_munch [of v 2] by auto
  have nul: "NUL \<notin> set r" using m(1) Suc.prems by (metis Un_iff set_append)
  have eq: "made_of (hex_number 2) CHR '':'' (Suc (Suc n)) v
      \<longleftrightarrow> ds \<noteq> [] \<and> (\<exists>w. r = CHR '':'' # w \<and> made_of (hex_number 2) CHR '':'' (Suc n) w)"
  proof -
    have "v = g @ CHR '':'' # w \<and> hex_number 2 g \<longleftrightarrow> g = hex_prefix v @ ds \<and> CHR '':'' # w = r \<and> ds \<noteq> []" for g w
      by (rule hex_part_split [OF m(1,2)]) simp_all
    then show ?thesis unfolding made_of_more by metis
  qed
  show ?case
    using m(3,4) nul Suc.IH [of "tl r"] hex_prefix_length [of v] unfolding eq
    by (cases r) (auto simp: is_hex_prefix_correct rd_def)
qed

text \<open>The values that a variable of each type may take.\<close>

definition value_ok :: "nat \<Rightarrow> string \<Rightarrow> bool" where
  "value_ok type v \<longleftrightarrow>
     (if type = env_flags_vartype_decimal then \<forall>c \<in> set v. isdigit c
      else if type = env_flags_vartype_hex then v = [] \<or> hex_number (length v) v
      else if type = env_flags_vartype_bool then \<exists>c \<in> set bool_chars. v = [c]
      else if type = env_flags_vartype_ipaddr then made_of ip_part CHR ''.'' 4 v
      else if type = env_flags_vartype_macaddr then made_of (hex_number 2) CHR '':'' 6 v
      else type \<noteq> env_flags_vartype_end)"

lemma dropWhile_Nil_iff: "dropWhile P v = [] \<longleftrightarrow> (\<forall>c \<in> set v. P c)"
  by (induction v) auto

lemma rd_end:
  assumes "NUL \<notin> set r"
  obtains c where "rd (r @ [NUL]) 0 = Some c" "c = NUL \<longleftrightarrow> r = []"
  using assms by (cases r) (auto simp: rd_def)

lemma decimal_correct:
  assumes "NUL \<notin> set v"
  shows "env_flags_validate_value (v @ [NUL]) env_flags_vartype_decimal = Some (if \<forall>c \<in> set v. isdigit c then 0 else -1)"
proof -
  have d: "digit_class False = isdigit" by (auto simp: digit_class_def fun_eq_iff)
  have "NUL \<notin> set (dropWhile isdigit v)" using assms set_dropWhileD by fastforce
  then obtain c where "rd (dropWhile isdigit v @ [NUL]) 0 = Some c" "c = NUL \<longleftrightarrow> dropWhile isdigit v = []"
    by (rule rd_end)
  then show ?thesis
    by (simp add: env_flags_validate_value_def skip_num_def skip_digits_unlimited d dropWhile_Nil_iff)
qed

lemma hex_decide:
  assumes "skip_num True V (-1) = Some (r @ [NUL])" and "NUL \<notin> set r" and "is_hex_prefix V = Some p"
    and "length V = (if p then 2 else 0) + lw + 1" and "lw = 0 \<Longrightarrow> r = []"
  shows "env_flags_validate_value V env_flags_vartype_hex
    = Some (if \<not> p \<and> lw = 0 \<or> r = [] \<and> lw \<noteq> 0 then 0 else -1)"
proof -
  obtain c where "rd (r @ [NUL]) 0 = Some c" "c = NUL \<longleftrightarrow> r = []" by (rule rd_end [OF assms(2)])
  then show ?thesis using assms(1,3-5) by (cases "r = []") (auto simp: env_flags_validate_value_def)
qed

lemma hex_correct:
  assumes "NUL \<notin> set v"
  shows "env_flags_validate_value (v @ [NUL]) env_flags_vartype_hex = Some (if v = [] \<or> hex_number (length v) v then 0 else -1)"
proof -
  let ?w = "drop (length (hex_prefix v)) v"
  let ?r = "dropWhile isxdigit ?w"
  have d: "digit_class True = isxdigit" by (auto simp: digit_class_def fun_eq_iff)
  have nul: "NUL \<notin> set ?r" using assms by (meson in_set_dropD set_dropWhileD)
  have "(if hex_prefix v \<noteq> [] then drop 2 (v @ [NUL]) else v @ [NUL]) = ?w @ [NUL]"
    by (auto simp: hex_prefix_def prefix_def)
  then have run: "skip_num True (v @ [NUL]) (-1) = Some (?r @ [NUL])"
    by (simp add: skip_num_def is_hex_prefix_correct skip_digits_unlimited d)
  have "hex_number (length v) v \<longleftrightarrow> ?r = [] \<and> ?w \<noteq> []"
  proof
    assume "hex_number (length v) v"
    then obtain p ds where v: "v = p @ ds" "p \<in> {[], ''0x'', ''0X''}" "ds \<noteq> []" "\<forall>c \<in> set ds. isxdigit c"
      by (auto simp: hex_number_def)
    then have "p = hex_prefix v"
      by (cases "p = []"; cases "tl ds") (auto simp: hex_prefix_def prefix_def)
    then have "?w = ds" using v(1) by (metis append_eq_conv_conj)
    with v show "?r = [] \<and> ?w \<noteq> []" by (simp only: dropWhile_Nil_iff simp_thms)
  next
    assume r: "?r = [] \<and> ?w \<noteq> []"
    have "hex_prefix v \<in> {[], ''0x'', ''0X''}" by (auto simp: hex_prefix_def prefix_def)
    with r show "hex_number (length v) v"
      unfolding hex_number_def dropWhile_Nil_iff
      by (intro exI [of _ "hex_prefix v"] exI [of _ ?w]) (use hex_prefix_split [of v] in auto)
  qed
  moreover have "length (v @ [NUL]) = (if hex_prefix v \<noteq> [] then 2 else 0) + length ?w + 1"
    using arg_cong [OF hex_prefix_split [of v], of length] hex_prefix_length [of v] by auto
  moreover have "?w = [] \<Longrightarrow> ?r = []" by (simp only: dropWhile.simps)
  ultimately have "env_flags_validate_value (v @ [NUL]) env_flags_vartype_hex
      = Some (if (hex_prefix v = [] \<and> ?w = []) \<or> hex_number (length v) v then 0 else -1)"
    using hex_decide [OF run nul is_hex_prefix_correct, of "length ?w"] by (simp only: length_0_conv not_not)
  moreover have "hex_prefix v = [] \<and> ?w = [] \<longleftrightarrow> v = []" by (auto simp: hex_prefix_def)
  ultimately show ?thesis by (simp only:)
qed

lemma bool_correct:
  assumes "NUL \<notin> set v"
  shows "env_flags_validate_value (v @ [NUL]) env_flags_vartype_bool = Some (if \<exists>c \<in> set bool_chars. v = [c] then 0 else -1)"
proof (cases v)
  case Nil
  then show ?thesis by (simp add: env_flags_validate_value_def rd_def bool_chars_def)
next
  case (Cons c w)
  then obtain d where "rd (v @ [NUL]) 1 = Some d" "d = NUL \<longleftrightarrow> w = []"
    using assms rd_end [of w] by (auto simp: rd_def)
  with Cons show ?thesis by (auto simp: env_flags_validate_value_def rd_def)
qed

lemma validate_value_iff:
  assumes "NUL \<notin> set v"
  shows "env_flags_validate_value (v @ [NUL]) type = Some (if value_ok type v then 0 else -1)"
proof -
  consider "type = 1" | "type = 2" | "type = 3" | "type = 4" | "type = 5" | "type \<notin> {1, 2, 3, 4, 5}" by blast
  then show ?thesis
  proof cases
    case 4
    then show ?thesis using ip_loop_correct [OF assms, of 3]
      by (simp add: env_flags_validate_value_def value_ok_def numeral_eq_Suc)
  next
    case 5
    then show ?thesis using mac_loop_correct [OF assms, of 5]
      by (simp add: env_flags_validate_value_def value_ok_def numeral_eq_Suc)
  next
    case 6
    then show ?thesis by (auto simp: env_flags_validate_value_def value_ok_def)
  qed (use decimal_correct [OF assms] hex_correct [OF assms] bool_correct [OF assms] in \<open>simp_all add: value_ok_def\<close>)
qed

section \<open>Access rights in the flags word\<close>

lemma strchr_found:
  "strchr (reps @ [NUL]) c = Some (Some i) \<Longrightarrow> c \<noteq> NUL \<Longrightarrow> i < length reps"
proof (induction reps arbitrary: i)
  case (Cons a reps)
  then show ?case by (auto split: if_splits option.splits Option.bind_splits)
qed (auto split: if_splits)

lemma strchr_returns: "\<exists>p. strchr (reps @ [NUL]) c = Some p"
  by (induction reps) auto

lemma strlen_bytes: "strlen (fs @ [NUL]) = Some (length (takeWhile (\<lambda>c. c \<noteq> NUL) fs))"
  by (induction fs) auto

lemma parse_rep_range:
  assumes "reps \<noteq> []"
  shows "\<exists>i < length reps. parse_rep reps loc fs = Some i"
proof (cases "length (takeWhile (\<lambda>c. c \<noteq> NUL) fs) \<le> loc")
  case True
  with assms show ?thesis by (auto simp: parse_rep_def strlen_bytes)
next
  case False
  then have less: "loc < length (takeWhile (\<lambda>c. c \<noteq> NUL) fs)" by simp
  then have "takeWhile (\<lambda>c. c \<noteq> NUL) fs ! loc \<noteq> NUL" using nth_mem [OF less] set_takeWhileD by fast
  then have ne: "fs ! loc \<noteq> NUL" using less by (simp add: takeWhile_nth)
  obtain p where p: "strchr (reps @ [NUL]) (fs ! loc) = Some p" using strchr_returns by blast
  show ?thesis
  proof (cases p)
    case None
    with p False assms show ?thesis by (auto simp: parse_rep_def strlen_bytes)
  next
    case (Some i)
    with strchr_found [OF _ ne, of reps i] p False show ?thesis by (auto simp: parse_rep_def strlen_bytes)
  qed
qed

lemma mask_values: "env_flags_varaccess_mask = [0, 0x38, 0x28, 0x48]"
  by (simp add: env_flags_varaccess_mask_def env_flag_bits)

lemma binflags_loop_16:
  "env_flags_parse_varaccess_from_binflags b =
     (let m = b AND VARACCESS_BIN_MASK in
      if m = 0 then Some 0 else if m = 0x38 then Some 1 else if m = 0x28 then Some 2
      else if m = 0x48 then Some 3 else None)"
  by (auto simp: env_flags_parse_varaccess_from_binflags_def mask_values rd_def Let_def numeral_eq_Suc)

text \<open>The low bits of the flags word are the type, the others the rights.\<close>

lemma flags_to_bin:
  obtains t a where "env_flags_parse_vartype fs = Some t" "t < 6"
    "env_flags_parse_varaccess fs = Some a" "a < 4"
    "env_parse_flags_to_bin fs = Some (of_nat t OR env_flags_varaccess_mask ! a)"
proof -
  obtain t where t: "env_flags_parse_vartype fs = Some t" "t < 6"
    using parse_rep_range [of env_flags_vartype_rep 0 fs]
    by (auto simp: env_flags_parse_vartype_def env_flags_vartype_rep_def)
  obtain a where a: "env_flags_parse_varaccess fs = Some a" "a < 4"
    using parse_rep_range [of env_flags_varaccess_rep 1 fs]
    by (auto simp: env_flags_parse_varaccess_def env_flags_varaccess_rep_def)
  have "(of_nat t :: u32) AND VARTYPE_BIN_MASK = of_nat t"
    using t(2) by (auto simp: VARTYPE_BIN_MASK_def less_Suc_eq numeral_eq_Suc simp del: One_nat_def)
  with t a show ?thesis by (intro that) (simp_all add: env_parse_flags_to_bin_def rd_def mask_values)
qed

lemma bin_fields:
  assumes "t < 6" and "a < 4"
  shows "unat (VARTYPE_BIN_MASK AND (of_nat t OR env_flags_varaccess_mask ! a)) = t"
    and "(of_nat t OR env_flags_varaccess_mask ! a) AND VARACCESS_BIN_MASK = env_flags_varaccess_mask ! a"
    and "(of_nat t OR env_flags_varaccess_mask ! a) AND PREVENT_DELETE \<noteq> 0 \<longleftrightarrow> a \<noteq> 0"
    and "(of_nat t OR env_flags_varaccess_mask ! a) AND PREVENT_CREATE \<noteq> 0 \<longleftrightarrow> a = 1"
    and "(of_nat t OR env_flags_varaccess_mask ! a) AND PREVENT_OVERWR \<noteq> 0 \<longleftrightarrow> a = 1 \<or> a = 2"
    and "(of_nat t OR env_flags_varaccess_mask ! a) AND PREVENT_NONDEF_OVERWR \<noteq> 0 \<longleftrightarrow> a = 3"
proof -
  have "t \<in> {0, 1, 2, 3, 4, 5}" "a \<in> {0, 1, 2, 3}" using assms by auto
  then show "unat (VARTYPE_BIN_MASK AND (of_nat t OR env_flags_varaccess_mask ! a)) = t"
    "(of_nat t OR env_flags_varaccess_mask ! a) AND VARACCESS_BIN_MASK = env_flags_varaccess_mask ! a"
    "(of_nat t OR env_flags_varaccess_mask ! a) AND PREVENT_DELETE \<noteq> 0 \<longleftrightarrow> a \<noteq> 0"
    "(of_nat t OR env_flags_varaccess_mask ! a) AND PREVENT_CREATE \<noteq> 0 \<longleftrightarrow> a = 1"
    "(of_nat t OR env_flags_varaccess_mask ! a) AND PREVENT_OVERWR \<noteq> 0 \<longleftrightarrow> a = 1 \<or> a = 2"
    "(of_nat t OR env_flags_varaccess_mask ! a) AND PREVENT_NONDEF_OVERWR \<noteq> 0 \<longleftrightarrow> a = 3"
    by (auto simp: mask_values env_flag_bits)
qed

section \<open>Properties\<close>

text \<open>
  \<^bold>\<open>C33.\<close> The type check of a value reads inside the value only, always returns, and accepts
  exactly the values of the type: digits for a decimal number, optional prefix and at least one
  hexadecimal digit (or nothing at all) for a hexadecimal one, a single yes/no character, four
  parts of one to three digits for an IP address, six parts of one or two hexadecimal digits for
  a MAC address.
\<close>

theorem env_flags_validate_value_correct:
  assumes "NUL \<notin> set v"
  shows "env_flags_validate_value (v @ [NUL]) type = Some (if value_ok type v then 0 else -1)"
  by (rule validate_value_iff [OF assms])

theorem env_flags_validate_value_correct_witness:
  "env_flags_validate_value (''192.168.1.254'' @ [NUL]) 4 = Some (if value_ok 4 ''192.168.1.254'' then 0 else -1)"
  by (rule env_flags_validate_value_correct) simp

text \<open>The policy behind the four access letters.\<close>

fun permitted :: "nat \<Rightarrow> env_op \<Rightarrow> string option \<Rightarrow> string option \<Rightarrow> bool" where
  "permitted a env_op_create old def = (a \<noteq> 1)"
| "permitted a env_op_delete old def = (a = 0)"
| "permitted a env_op_overwrite old def =
     (a = 0 \<or> a = 3 \<and> old = Some (case def of None \<Rightarrow> [] | Some d \<Rightarrow> d))"

text \<open>
  \<^bold>\<open>C32.\<close> A variable whose flags word was made from a flags string is guarded as the string says:
  without \<^verbatim>\<open>H_FORCE\<close>, a change is refused with -1 exactly when the new value does not have the
  variable's type, and otherwise with 1 exactly when the access letter forbids it (read-only:
  everything; write-once: overwriting and deleting; change-default: deleting, and overwriting a
  value that is not the default). With \<^verbatim>\<open>H_FORCE\<close> only the type counts.
\<close>

theorem env_flags_validate_policy:
  assumes "env_parse_flags_to_bin fs = Some (flags item)" and "key item = Some k" and "NUL \<notin> set newval"
  shows "\<exists>t a. env_flags_parse_vartype fs = Some t \<and> env_flags_parse_varaccess fs = Some a \<and>
    env_flags_validate getdef item (Some newval) op flag =
      (if op \<noteq> env_op_delete \<and> \<not> value_ok t newval then -1
       else if flag AND H_FORCE \<noteq> 0 \<or> permitted a op (data item) (getdef k) then 0 else 1)"
proof -
  obtain t a where p: "env_flags_parse_vartype fs = Some t" "t < 6"
    "env_flags_parse_varaccess fs = Some a" "a < 4"
    "env_parse_flags_to_bin fs = Some (of_nat t OR env_flags_varaccess_mask ! a)"
    by (rule flags_to_bin)
  then have fl: "flags item = of_nat t OR env_flags_varaccess_mask ! a" using assms(1) by simp
  note bits = bin_fields [OF p(2,4), folded fl]
  have "env_flags_validate_value (newval @ [NUL]) t = Some (-1) \<longleftrightarrow> \<not> value_ok t newval"
    using validate_value_iff [OF assms(3), of t] by simp
  then show ?thesis
    using p(1,3,4) bits assms(2) by (cases op) (auto simp: env_flags_validate_def Let_def less_Suc_eq numeral_eq_Suc)
qed

theorem env_flags_validate_policy_witness:
  "\<exists>t a. env_flags_parse_vartype ''so'' = Some t \<and> env_flags_parse_varaccess ''so'' = Some a \<and>
    env_flags_validate (\<lambda>_. None) \<lparr>key = Some ''serial'', data = Some ''1'', callback = None, flags = 0x28\<rparr>
        (Some ''2'') env_op_overwrite 0 =
      (if env_op_overwrite \<noteq> env_op_delete \<and> \<not> value_ok t ''2'' then -1
       else if 0 AND H_FORCE \<noteq> 0 \<or> permitted a env_op_overwrite (Some ''1'') ((\<lambda>_. None) ''serial'') then 0 else 1)"
  using env_flags_validate_policy [of "''so''" "\<lparr>key = Some ''serial'', data = Some ''1'', callback = None, flags = 0x28\<rparr>"
      "''serial''" "''2''" "\<lambda>_. None" env_op_overwrite 0]
  by (simp add: env_parse_flags_to_bin_def env_flags_parse_vartype_def env_flags_parse_varaccess_def parse_rep_def
      env_flags_vartype_rep_def env_flags_varaccess_rep_def mask_values rd_def VARTYPE_BIN_MASK_def)

text \<open>
  Decoding the rights from a flags word inverts the encoding for the four standard
  combinations; for every other combination the loop, whose bound is the size of the mask array in
  bytes, reads past the end of the array.
\<close>

theorem env_flags_parse_varaccess_from_binflags_bounds:
  "(\<forall>t a. t < 6 \<and> a < 4 \<longrightarrow>
      env_flags_parse_varaccess_from_binflags (of_nat t OR env_flags_varaccess_mask ! a) = Some a)
   \<and> (\<forall>b. env_flags_parse_varaccess_from_binflags b = None
         \<longleftrightarrow> b AND VARACCESS_BIN_MASK \<notin> set env_flags_varaccess_mask)"
proof -
  have "env_flags_parse_varaccess_from_binflags (of_nat t OR env_flags_varaccess_mask ! a) = Some a"
    if "t < 6" "a < 4" for t a
  proof -
    have "a \<in> {0, 1, 2, 3}" using that(2) by auto
    then show ?thesis unfolding binflags_loop_16 bin_fields(2) [OF that] by (auto simp: mask_values Let_def)
  qed
  then show ?thesis by (simp add: binflags_loop_16 mask_values Let_def)
qed

theorem env_flags_parse_varaccess_from_binflags_bounds_witness:
  "env_flags_parse_varaccess_from_binflags (of_nat 5 OR env_flags_varaccess_mask ! 2) = Some 2
   \<and> env_flags_parse_varaccess_from_binflags 0x10 = None"
proof
  show "env_flags_parse_varaccess_from_binflags (of_nat 5 OR env_flags_varaccess_mask ! 2) = Some 2"
    by (rule env_flags_parse_varaccess_from_binflags_bounds [THEN conjunct1, rule_format]) simp
  show "env_flags_parse_varaccess_from_binflags 0x10 = None"
    using env_flags_parse_varaccess_from_binflags_bounds by (simp add: mask_values VARACCESS_BIN_MASK_def)
qed

end
