(* ===== verification/EnvHooks.thy ===== *)
theory EnvHooks
  imports EnvFlags
begin

text \<open>
  The functions that the hash table calls back: \<^verbatim>\<open>common/env_callback.c\<close> and the second half of
  \<^verbatim>\<open>common/env_flags.c\<close>. They are put together into the record \<open>hooks\<close> of the table, and shown
  to satisfy its contract \<open>env_hooks\<close>; lookup, insertion and deletion of the environment follow.

  What these functions use from elsewhere is the record \<open>world\<close>: whether the environment has been
  relocated (\<^verbatim>\<open>GD_FLG_ENV_READY\<close>), what \<^verbatim>\<open>getenv_f\<close> finds before that, the bytes in front of a list
  in memory (\<open>env_attr_lookup\<close> reads them), the names in the linker list of callbacks, the
  results of the callbacks of the other files, which do not change the table, and \<^verbatim>\<open>malloc\<close>.
\<close>

record world =
  env_ready :: bool
  early_env :: "string \<Rightarrow> string option"
  before :: "string \<Rightarrow> char list"
  clbk_tbl :: "string list"
  other_callback :: "string \<Rightarrow> string \<Rightarrow> string option \<Rightarrow> env_op \<Rightarrow> u32 \<Rightarrow> int"
  malloc_ok :: "nat \<Rightarrow> bool"

definition ENV_FLAGS_VAR :: string where "ENV_FLAGS_VAR = ''.flags''"
definition ENV_CALLBACK_VAR :: string where "ENV_CALLBACK_VAR = ''.callbacks''"
definition ENV_FLAGS_LIST_STATIC :: string where "ENV_FLAGS_LIST_STATIC = ''ethaddr:ma,''"

definition ENV_CALLBACK_LIST_STATIC :: string where
  "ENV_CALLBACK_LIST_STATIC = ''.callbacks:callbacks,.flags:flags,baudrate:baudrate,'' @
     ''bootfile:bootfile,loadaddr:loadaddr,stdin:console,stdout:console,stderr:console,''"

text \<open>A \<open>FIND\<close> calls none of the hooks (\<open>find_spec\<close> holds for any), so it is given none.\<close>

definition no_hooks :: hooks where
  "no_hooks = \<lparr>entry_init = (\<lambda>h e. None), run_callback = (\<lambda>c n v op f h. None), alloc_ok = (\<lambda>n. False)\<rparr>"

definition find_entry :: "hsearch_data \<Rightarrow> string \<Rightarrow> nat option option" where
  "find_entry h name = do { r \<leftarrow> hsearch_r no_hooks name None FIND h 0; Some (retval r) }"

definition getenv :: "world \<Rightarrow> hsearch_data \<Rightarrow> string \<Rightarrow> string option option" where
  "getenv w h name =
     (if env_ready w then do {
        p \<leftarrow> find_entry h name;
        case p of None \<Rightarrow> Some None
        | Some i \<Rightarrow> do { s \<leftarrow> get_slot h i; Some (data (entry s)) } }
      else Some (early_env w name))"

section \<open>Initialisation of a new entry\<close>

text \<open>The list first, then the static list: return code and attribute text.\<close>

definition lookup_lists :: "world \<Rightarrow> string option \<Rightarrow> string \<Rightarrow> string \<Rightarrow> (int \<times> string) option" where
  "lookup_lists w dyn static name = do {
     (rc, fs) \<leftarrow> (case dyn of None \<Rightarrow> Some (1, []) | Some l \<Rightarrow> env_attr_lookup (before w l) (Some l) name);
     if rc \<noteq> 0 then env_attr_lookup (before w static) (Some static) name else Some (rc, fs) }"

definition env_flags_lookup :: "world \<Rightarrow> string option \<Rightarrow> string \<Rightarrow> (int \<times> string) option" where
  "env_flags_lookup w flags_list name = lookup_lists w flags_list ENV_FLAGS_LIST_STATIC name"

text \<open>
  \<^verbatim>\<open>flags[ENV_FLAGS_ATTR_MAX_LEN + 1]\<close> has room for two characters, \<^verbatim>\<open>callback_name\<close> for 255; a longer
  attribute is written past the array.
\<close>

definition env_flags_init :: "world \<Rightarrow> hsearch_data \<Rightarrow> ENTRY \<Rightarrow> ENTRY option" where
  "env_flags_init w h e = do {
     var_name \<leftarrow> key e;
     flags_list \<leftarrow> getenv w h ENV_FLAGS_VAR;
     (rc, fs) \<leftarrow> env_flags_lookup w flags_list var_name;
     if length fs > 2 then None
     else if rc = 0 \<and> fs \<noteq> [] then do {
       b \<leftarrow> env_parse_flags_to_bin fs;
       Some (e\<lparr>flags := b\<rparr>) }
     else Some e }"

definition find_env_callback :: "world \<Rightarrow> string option \<Rightarrow> string option" where
  "find_env_callback w name = (case name of None \<Rightarrow> None | Some n \<Rightarrow> find (\<lambda>c. c = n) (clbk_tbl w))"

definition env_callback_init :: "world \<Rightarrow> hsearch_data \<Rightarrow> ENTRY \<Rightarrow> ENTRY option" where
  "env_callback_init w h e = do {
     var_name \<leftarrow> key e;
     callback_list \<leftarrow> getenv w h ENV_CALLBACK_VAR;
     (rc, cn) \<leftarrow> lookup_lists w callback_list ENV_CALLBACK_LIST_STATIC var_name;
     if length cn > 255 then None
     else if rc = 0 \<and> cn \<noteq> [] then
       (case find_env_callback w (Some cn) of None \<Rightarrow> Some e | Some c \<Rightarrow> Some (e\<lparr>callback := Some c\<rparr>))
     else Some e }"

section \<open>The callbacks that rewrite the whole table\<close>

definition clear_flags :: "ENTRY \<Rightarrow> int \<times> ENTRY" where
  "clear_flags e = (0, e\<lparr>flags := 0\<rparr>)"

definition clear_callback :: "ENTRY \<Rightarrow> int \<times> ENTRY" where
  "clear_callback e = (0, e\<lparr>callback := None\<rparr>)"

text \<open>Find the variable and, if it exists, update its entry.\<close>

definition update_found :: "(ENTRY \<Rightarrow> ENTRY option) \<Rightarrow> string \<Rightarrow> hsearch_data \<Rightarrow> hsearch_data option" where
  "update_found f name h = do {
     p \<leftarrow> find_entry h name;
     case p of None \<Rightarrow> Some h
     | Some i \<Rightarrow> do { s \<leftarrow> get_slot h i; e \<leftarrow> f (entry s); set_entry h i (s\<lparr>entry := e\<rparr>) } }"

text \<open>The callbacks of \<open>env_attr_walk\<close>; the state is \<open>None\<close> after undefined behaviour.\<close>

definition as_walk_callback :: "(hsearch_data \<Rightarrow> hsearch_data option) \<Rightarrow> hsearch_data option \<Rightarrow> int \<times> hsearch_data option" where
  "as_walk_callback f st = (case Option.bind st f of None \<Rightarrow> (-1, None) | Some h \<Rightarrow> (0, Some h))"

definition set_flags :: "string \<Rightarrow> string option \<Rightarrow> hsearch_data option \<Rightarrow> int \<times> hsearch_data option" where
  "set_flags name value = as_walk_callback (update_found (\<lambda>e.
     case value of None \<Rightarrow> Some (e\<lparr>flags := 0\<rparr>)
     | Some v \<Rightarrow> if v = [] then Some (e\<lparr>flags := 0\<rparr>)
                else do { b \<leftarrow> env_parse_flags_to_bin v; Some (e\<lparr>flags := b\<rparr>) }) name)"

definition set_callback :: "world \<Rightarrow> string \<Rightarrow> string option \<Rightarrow> hsearch_data option \<Rightarrow> int \<times> hsearch_data option" where
  "set_callback w name value = as_walk_callback (update_found (\<lambda>e.
     case value of None \<Rightarrow> Some (e\<lparr>callback := None\<rparr>)
     | Some v \<Rightarrow> if v = [] then Some (e\<lparr>callback := None\<rparr>)
                else (case find_env_callback w (Some v) of None \<Rightarrow> Some e
                      | Some c \<Rightarrow> Some (e\<lparr>callback := Some c\<rparr>))) name)"

definition on_flags :: "world \<Rightarrow> string option \<Rightarrow> hsearch_data \<Rightarrow> (int \<times> hsearch_data) option" where
  "on_flags w value h = do {
     (_, h) \<leftarrow> hwalk_r clear_flags h;
     h \<leftarrow> snd (env_attr_walk (malloc_ok w) (Some ENV_FLAGS_LIST_STATIC) set_flags (Some h));
     h \<leftarrow> snd (env_attr_walk (malloc_ok w) value set_flags (Some h));
     Some (0, h) }"

definition on_callbacks :: "world \<Rightarrow> string option \<Rightarrow> hsearch_data \<Rightarrow> (int \<times> hsearch_data) option" where
  "on_callbacks w value h = do {
     (_, h) \<leftarrow> hwalk_r clear_callback h;
     h \<leftarrow> snd (env_attr_walk (malloc_ok w) (Some ENV_CALLBACK_LIST_STATIC) (set_callback w) (Some h));
     h \<leftarrow> snd (env_attr_walk (malloc_ok w) value (set_callback w) (Some h));
     Some (0, h) }"

definition env_hooks_of :: "world \<Rightarrow> hooks" where
  "env_hooks_of w = \<lparr>
     entry_init = (\<lambda>h e. do { e \<leftarrow> env_callback_init w h e; env_flags_init w h e }),
     run_callback = (\<lambda>c name value op flag h.
       if c = ''flags'' then on_flags w value h
       else if c = ''callbacks'' then on_callbacks w value h
       else Some (other_callback w c name value op flag, h)),
     alloc_ok = malloc_ok w\<rparr>"

section \<open>The hooks keep the table\<close>

lemma find_entry_spec:
  assumes "hinv h"
  obtains "find_entry h name = Some None" "abs_env h name = None"
  | i t v where "find_entry h name = Some (Some i)" "table h = Some t" "i < length t"
      "abs_env h name = Some v" "data (entry (t ! i)) = Some v"
proof -
  from find_spec [OF assms, of no_hooks name None 0] obtain r where
    r: "hsearch_r no_hooks name None FIND h 0 = Some r"
    and res: "case abs_env h name of None \<Rightarrow> ret r = 0 \<and> retval r = None \<and> err r = Some ESRCH
       | Some v \<Rightarrow> \<exists>t i. table h = Some t \<and> holds (hsize h) t name i \<and> data (entry (t ! i)) = Some v
            \<and> ret r = int i \<and> retval r = Some i" by blast
  show ?thesis
  proof (cases "abs_env h name")
    case None
    with r res show ?thesis by (intro that(1)) (simp_all add: find_entry_def)
  next
    case (Some v)
    with res obtain t i where t: "table h = Some t" "holds (hsize h) t name i" "data (entry (t ! i)) = Some v"
      "retval r = Some i" by auto
    moreover have "i < length t" using t(1,2) assms by (auto simp: holds_def hinv_def tinv_def)
    ultimately show ?thesis using r Some by (intro that(2)) (simp_all add: find_entry_def)
  qed
qed

lemma getenv_spec:
  assumes "hinv h"
  shows "getenv w h name = Some (if env_ready w then abs_env h name else early_env w name)"
  by (rule find_entry_spec [OF assms, of name]) (auto simp: getenv_def get_slot_def rd_def)

lemma same_shape_set_entry:
  assumes "table h = Some t" and "i < length t" and "key e = key (entry (t ! i))" and "data e = data (entry (t ! i))"
  shows "\<exists>h'. set_entry h i ((t ! i)\<lparr>entry := e\<rparr>) = Some h' \<and> same_shape h h'"
  using assms by (auto simp: set_entry_def wr_def same_shape_def nth_list_update)

lemma update_found_shape:
  assumes "hinv h" and "\<And>e. \<exists>e'. f e = Some e' \<and> key e' = key e \<and> data e' = data e"
  shows "\<exists>h'. update_found f name h = Some h' \<and> same_shape h h'"
proof (rule find_entry_spec [OF assms(1), of name])
  assume "find_entry h name = Some None"
  then show ?thesis using assms(1) by (auto simp: update_found_def hinv_def intro: same_shape_refl)
next
  fix i t v
  assume i: "find_entry h name = Some (Some i)" "table h = Some t" "i < length t"
  obtain e where "f (entry (t ! i)) = Some e" "key e = key (entry (t ! i))" "data e = data (entry (t ! i))"
    using assms(2) by blast
  with same_shape_set_entry [OF i(2,3)] i show ?thesis by (auto simp: update_found_def get_slot_def rd_def)
qed

text \<open>A walk over an attribute list keeps every property that its callback keeps.\<close>

lemma walk_entry_keeps:
  assumes "\<And>name attr st. P st \<Longrightarrow> P (snd (cb name attr st))" and "P st"
  shows "P (snd (walk_entry cb en st))"
  using assms by (simp add: walk_entry_def Let_def)

lemma env_attr_walk_loop_keeps:
  assumes "\<And>name attr st. P st \<Longrightarrow> P (snd (cb name attr st))" and "P st"
  shows "P (snd (env_attr_walk_loop alloc cb s st))"
  using assms(2)
proof (induction s arbitrary: st rule: length_induct)
  case (1 s)
  let ?en = "takeWhile (\<lambda>c. c \<noteq> ENV_ATTR_LIST_DELIM) s" and ?rest = "dropWhile (\<lambda>c. c \<noteq> ENV_ATTR_LIST_DELIM) s"
  obtain r st' where cb: "(if ?en = [] then (0, st) else walk_entry cb ?en st) = (r, st')" by fastforce
  then have st': "P st'"
    using walk_entry_keeps [of P cb, OF assms(1) 1(2), of ?en] 1(2) by (auto split: if_splits)
  have "P (snd (env_attr_walk_loop alloc cb s' st'))" if "?rest = c # s'" for c s'
    using 1(1) dropWhile_shorter [OF that] st' by simp
  then show ?case
    using 1(2) st' by (subst env_attr_walk_loop.simps) (simp add: Let_def cb split: list.splits)
qed

lemma env_attr_walk_keeps:
  assumes "\<And>name attr st. P st \<Longrightarrow> P (snd (cb name attr st))" and "P st"
  shows "P (snd (env_attr_walk alloc l cb st))"
  using env_attr_walk_loop_keeps [of P cb, OF assms] assms(2)
  by (simp add: env_attr_walk_def split: option.splits)

definition shape_state :: "hsearch_data \<Rightarrow> hsearch_data option \<Rightarrow> bool" where
  "shape_state h st \<longleftrightarrow> (\<exists>h'. st = Some h' \<and> hinv h' \<and> same_shape h h')"

lemma shape_state_refl: "hinv h \<Longrightarrow> shape_state h (Some h)"
  by (auto simp: shape_state_def hinv_def intro: same_shape_refl)

lemma as_walk_callback_shape:
  assumes "shape_state h st" and "\<And>e. \<exists>e'. f e = Some e' \<and> key e' = key e \<and> data e' = data e"
  shows "shape_state h (snd (as_walk_callback (update_found f name) st))"
proof -
  from assms(1) obtain h1 where h1: "st = Some h1" "hinv h1" "same_shape h h1" by (auto simp: shape_state_def)
  obtain h2 where h2: "update_found f name h1 = Some h2" "same_shape h1 h2"
    using update_found_shape [OF h1(2) assms(2)] by blast
  then have "same_shape h h2" "hinv h2" using h1 same_shape_trans same_shape_inv(1) by blast+
  with h1 h2 show ?thesis by (simp add: as_walk_callback_def shape_state_def)
qed

lemma flags_to_bin_total: "\<exists>b. env_parse_flags_to_bin v = Some b"
  by (rule flags_to_bin [of v]) blast

lemma set_flags_shape: "shape_state h st \<Longrightarrow> shape_state h (snd (set_flags name value st))"
proof -
  assume "shape_state h st"
  moreover obtain b where "env_parse_flags_to_bin (the value) = Some b" using flags_to_bin_total by blast
  ultimately show ?thesis
    unfolding set_flags_def by (intro as_walk_callback_shape) (auto split: option.splits)
qed

lemma set_callback_shape: "shape_state h st \<Longrightarrow> shape_state h (snd (set_callback w name value st))"
  unfolding set_callback_def by (rule as_walk_callback_shape) (auto split: option.splits)

definition same_slots :: "slot list \<Rightarrow> slot list \<Rightarrow> bool" where
  "same_slots t t' \<longleftrightarrow> length t' = length t \<and> (\<forall>i < length t. used (t' ! i) = used (t ! i)
     \<and> key (entry (t' ! i)) = key (entry (t ! i)) \<and> data (entry (t' ! i)) = data (entry (t ! i)))"

lemma same_slots_trans: "same_slots t1 t2 \<Longrightarrow> same_slots t2 t3 \<Longrightarrow> same_slots t1 t3"
  by (simp add: same_slots_def)

lemma hwalk_loop_shape:
  assumes "\<And>e. key (snd (f e)) = key e \<and> data (snd (f e)) = data e"
  shows "same_slots t (snd (hwalk_loop f t is))"
proof (induction "is" arbitrary: t)
  case (Cons i "is")
  obtain r e where e: "f (entry (t ! i)) = (r, e)" by fastforce
  then have "same_slots t (t[i := (t ! i)\<lparr>entry := e\<rparr>])"
    using assms [of "entry (t ! i)"] by (cases "i < length t") (auto simp: same_slots_def nth_list_update)
  with e Cons.IH [of t] Cons.IH [of "t[i := (t ! i)\<lparr>entry := e\<rparr>]"] show ?case
    by (auto simp: Let_def intro: same_slots_trans)
qed (simp add: same_slots_def)

lemma hwalk_shape:
  assumes "hinv h" and "\<And>e. key (snd (f e)) = key e \<and> data (snd (f e)) = data e"
  shows "\<exists>r h'. hwalk_r f h = Some (r, h') \<and> hinv h' \<and> same_shape h h'"
proof -
  from assms(1) obtain t where t: "table h = Some t" by (auto simp: hinv_def)
  obtain r t' where w: "hwalk_loop f t [1..<hsize h + 1] = (r, t')" by fastforce
  then have "same_slots t t'" using hwalk_loop_shape [of f t "[1..<hsize h + 1]", OF assms(2)] by simp
  then have "same_shape h (h\<lparr>table := Some t'\<rparr>)" using t by (auto simp: same_shape_def same_slots_def)
  moreover have "hwalk_r f h = Some (r, h\<lparr>table := Some t'\<rparr>)"
    using t w by (simp add: hwalk_r_def del: upt_Suc)
  ultimately show ?thesis using same_shape_inv(1) [OF _ assms(1)] by blast
qed

text \<open>Clearing, then two walks: the shape of the table is kept.\<close>

lemma rewrite_table_shape:
  assumes "hinv h" and "\<And>e. key (snd (f e)) = key e \<and> data (snd (f e)) = data e"
    and cb: "\<And>h name attr st. shape_state h st \<Longrightarrow> shape_state h (snd (cb name attr st))"
  shows "\<exists>h'. do { (_, h) \<leftarrow> hwalk_r f h;
     h \<leftarrow> snd (env_attr_walk alloc l1 cb (Some h));
     h \<leftarrow> snd (env_attr_walk alloc l2 cb (Some h));
     Some (0 :: int, h) } = Some (0, h') \<and> same_shape h h'"
proof -
  obtain r h1 where h1: "hwalk_r f h = Some (r, h1)" "hinv h1" "same_shape h h1"
    using hwalk_shape [OF assms(1,2)] by blast
  have "shape_state h1 (snd (env_attr_walk alloc l1 cb (Some h1)))"
    by (rule env_attr_walk_keeps [of "shape_state h1"]) (use cb shape_state_refl [OF h1(2)] in auto)
  then obtain h2 where h2: "snd (env_attr_walk alloc l1 cb (Some h1)) = Some h2" "hinv h2" "same_shape h1 h2"
    by (auto simp: shape_state_def)
  have "shape_state h2 (snd (env_attr_walk alloc l2 cb (Some h2)))"
    by (rule env_attr_walk_keeps [of "shape_state h2"]) (use cb shape_state_refl [OF h2(2)] in auto)
  then obtain h3 where h3: "snd (env_attr_walk alloc l2 cb (Some h2)) = Some h3" "same_shape h2 h3"
    by (auto simp: shape_state_def)
  have "same_shape h h3" using same_shape_trans [OF same_shape_trans [OF h1(3) h2(3)] h3(2)] .
  then show ?thesis by (simp add: h1(1) h2(1) h3(1))
qed

lemma run_callback_shape:
  assumes "hinv h"
  shows "\<exists>rc h'. run_callback (env_hooks_of w) c name v op flag h = Some (rc, h') \<and> same_shape h h'"
proof -
  have "\<exists>h'. on_flags w v h = Some (0, h') \<and> same_shape h h'"
    unfolding on_flags_def
    by (rule rewrite_table_shape [OF assms]) (simp_all add: clear_flags_def set_flags_shape)
  moreover have "\<exists>h'. on_callbacks w v h = Some (0, h') \<and> same_shape h h'"
    unfolding on_callbacks_def
    by (rule rewrite_table_shape [OF assms]) (simp_all add: clear_callback_def set_callback_shape)
  moreover have "same_shape h h" using assms by (auto simp: hinv_def intro: same_shape_refl)
  ultimately show ?thesis by (auto simp: env_hooks_of_def)
qed

section \<open>When the initialisation of an entry is safe\<close>

definition attr_fits :: "world \<Rightarrow> string option \<Rightarrow> string \<Rightarrow> nat \<Rightarrow> bool" where
  "attr_fits w dyn name n \<longleftrightarrow> (case dyn of None \<Rightarrow> True
     | Some l \<Rightarrow> (\<forall>fs. env_attr_lookup (before w l) (Some l) name = Some (0, fs) \<longrightarrow> length fs \<le> n))"

text \<open>
  The attribute that the dynamic lists give to the name fits the array it is copied to. Before
  relocation the dynamic lists are those of the early environment.
\<close>

definition init_safe :: "world \<Rightarrow> (string \<Rightarrow> string option) \<Rightarrow> string \<Rightarrow> bool" where
  "init_safe w env name \<longleftrightarrow> (let env = (if env_ready w then env else early_env w) in
     name \<noteq> [] \<and> attr_fits w (env ENV_FLAGS_VAR) name 2 \<and> attr_fits w (env ENV_CALLBACK_VAR) name 255)"

definition readable_before :: "world \<Rightarrow> bool" where
  "readable_before w \<longleftrightarrow> (\<forall>l. \<exists>c \<in> set (before w l). c \<noteq> CHR '' '')"

lemma env_attr_lookup_returns:
  assumes "readable_before w" and "name \<noteq> []"
  obtains rc fs where "env_attr_lookup (before w l) (Some l) name = Some (rc, fs)" "fs = [] \<or> rc = 0 \<and> (\<exists>q. fs = attr_text l q)"
proof -
  obtain m where m: "attr_match_loop (before w l) l name (reverse_strstr l name None) = Some m"
    using attr_match_loop_returns [of "before w l" name l] assms by (auto simp: readable_before_def)
  show ?thesis
  proof (cases m)
    case None
    with m show ?thesis by (intro that [of 2 "[]"]) (simp_all add: env_attr_lookup_def)
  next
    case (Some p)
    with m show ?thesis by (intro that [of 0 "attr_text l (p + length name)"]) (auto simp: env_attr_lookup_def)
  qed
qed

lemma attr_text_length: "length (attr_text l q) \<le> length l"
proof -
  have "length (dropWhile is_sp (drop q l)) \<le> length l"
    by (rule order_trans [OF length_dropWhile_le]) simp
  moreover have "length (takeWhile P (dropWhile is_sp r)) \<le> length r" for P r
    by (rule order_trans [OF length_takeWhile_le length_dropWhile_le])
  ultimately show ?thesis by (auto simp: attr_text_def split: list.splits) (metis Suc_leD le_trans)
qed

lemma static_flags_text: "length (attr_text ENV_FLAGS_LIST_STATIC q) \<le> 2"
proof (cases "q < 11")
  case True
  moreover have "\<forall>q \<in> set [0..<11]. length (attr_text ENV_FLAGS_LIST_STATIC q) \<le> 2"
    by (simp add: upt_rec attr_text_def ENV_FLAGS_LIST_STATIC_def ENV_ATTR_SEP_def ENV_ATTR_LIST_DELIM_def)
  ultimately show ?thesis by simp
next
  case False
  then show ?thesis by (simp add: attr_text_def ENV_FLAGS_LIST_STATIC_def)
qed

lemma static_callback_text: "length (attr_text ENV_CALLBACK_LIST_STATIC q) \<le> 255"
proof (rule order_trans [OF attr_text_length])
  show "length ENV_CALLBACK_LIST_STATIC \<le> 255" by (simp add: ENV_CALLBACK_LIST_STATIC_def)
qed

lemma lookup_lists_fits:
  assumes "readable_before w" and "name \<noteq> []" and "attr_fits w dyn name n"
    and "\<And>q. length (attr_text static q) \<le> n"
  obtains rc fs where "lookup_lists w dyn static name = Some (rc, fs)" "length fs \<le> n"
proof -
  obtain rc1 fs1 where one: "(case dyn of None \<Rightarrow> Some (1, []) | Some l \<Rightarrow> env_attr_lookup (before w l) (Some l) name)
      = Some (rc1, fs1)" "rc1 = 0 \<Longrightarrow> length fs1 \<le> n"
  proof (cases dyn)
    case None
    then show ?thesis by (intro that [of 1 "[]"]) simp_all
  next
    case (Some l)
    obtain rc fs where "env_attr_lookup (before w l) (Some l) name = Some (rc, fs)"
      by (rule env_attr_lookup_returns [OF assms(1,2), of l])
    with Some assms(3) show ?thesis by (intro that [of rc fs]) (auto simp: attr_fits_def)
  qed
  obtain rc fs where two: "env_attr_lookup (before w static) (Some static) name = Some (rc, fs)" "length fs \<le> n"
    by (rule env_attr_lookup_returns [OF assms(1,2), of static]) (use assms(4) in auto)
  show ?thesis
    by (cases "rc1 = 0") (use one two in \<open>auto simp: lookup_lists_def intro: that\<close>)
qed

lemma entry_init_safe:
  assumes "readable_before w" and "hinv h" and "init_safe w (abs_env h) k" and "key e = Some k"
  shows "\<exists>e'. entry_init (env_hooks_of w) h e = Some e' \<and> key e' = key e \<and> data e' = data e"
proof -
  let ?env = "if env_ready w then abs_env h else early_env w"
  have safe: "k \<noteq> []" "attr_fits w (?env ENV_FLAGS_VAR) k 2" "attr_fits w (?env ENV_CALLBACK_VAR) k 255"
    using assms(3) by (simp_all add: init_safe_def Let_def)
  have get: "getenv w h n = Some (?env n)" for n using getenv_spec [OF assms(2)] by simp
  obtain rc cn where cn: "lookup_lists w (?env ENV_CALLBACK_VAR) ENV_CALLBACK_LIST_STATIC k = Some (rc, cn)" "length cn \<le> 255"
    by (rule lookup_lists_fits [OF assms(1) safe(1,3) static_callback_text])
  have cb: "\<exists>e'. env_callback_init w h e = Some e' \<and> key e' = key e \<and> data e' = data e"
    using cn assms(4) get by (auto simp: env_callback_init_def split: option.splits)
  then obtain e1 where e1: "env_callback_init w h e = Some e1" "key e1 = key e" "data e1 = data e" by blast
  obtain rc' fs where fs: "env_flags_lookup w (?env ENV_FLAGS_VAR) k = Some (rc', fs)" "length fs \<le> 2"
    unfolding env_flags_lookup_def
    by (rule lookup_lists_fits [OF assms(1) safe(1,2) static_flags_text])
  obtain b where "env_parse_flags_to_bin fs = Some b" using flags_to_bin_total by blast
  then have "\<exists>e'. env_flags_init w h e1 = Some e' \<and> key e' = key e \<and> data e' = data e"
    using fs e1 assms(4) get by (auto simp: env_flags_init_def)
  with e1 show ?thesis by (auto simp: env_hooks_of_def)
qed

lemma env_hooks_contract:
  assumes "readable_before w" and "\<And>n. malloc_ok w n"
  shows "env_hooks (env_hooks_of w) (init_safe w)"
proof
  show "\<exists>e'. entry_init (env_hooks_of w) h e = Some e' \<and> key e' = key e \<and> data e' = data e"
    if "hinv h" "init_safe w (abs_env h) k" "key e = Some k" for h k e
    using entry_init_safe [OF assms(1) that] .
  show "\<exists>rc h'. run_callback (env_hooks_of w) c name v op flag h = Some (rc, h') \<and> same_shape h h'"
    if "hinv h" for c name v op flag h using run_callback_shape [OF that] .
  show "alloc_ok (env_hooks_of w) n" for n using assms(2) by (simp add: env_hooks_of_def)
qed

section \<open>The environment as an instance of the table\<close>

text \<open>A world in which the bytes in front of every list are readable and memory does not run out.\<close>

locale env_world =
  fixes w :: world
  assumes readable: "readable_before w" and enough_memory: "malloc_ok w n"

sublocale env_world \<subseteq> env_hooks "env_hooks_of w" "init_safe w"
  by (rule env_hooks_contract [OF readable enough_memory])

text \<open>
  The running board: strings live in the heap, where the byte in front of a small block is the
  most significant byte of the block's size, 0; the linker list holds the callbacks named in the
  static list; the callbacks of the other files accept every change.
\<close>

definition board_world :: world where
  "board_world = \<lparr>env_ready = True, early_env = (\<lambda>n. None), before = (\<lambda>l. [NUL]),
     clbk_tbl = [''baudrate'', ''bootfile'', ''callbacks'', ''console'', ''flags'', ''loadaddr''],
     other_callback = (\<lambda>c n v op f. 0), malloc_ok = (\<lambda>n. True)\<rparr>"

lemma board_world_readable: "readable_before board_world"
  by (simp add: readable_before_def board_world_def)

lemma board_world_memory: "malloc_ok board_world n"
  by (simp add: board_world_def)

lemma board_world_ready: "env_ready board_world"
  by (simp add: board_world_def)

interpretation board: env_world board_world
  by unfold_locales (simp_all add: board_world_readable board_world_memory)

lemma next_size_least:
  "isprime p \<Longrightarrow> even p = even n \<Longrightarrow> n \<le> p \<Longrightarrow> next_size n \<le> p"
proof (induction n rule: next_size.induct)
  case (1 n)
  show ?case
  proof (cases "isprime n")
    case True
    with 1 show ?thesis by (simp add: next_size.simps [of n])
  next
    case False
    then have "n \<noteq> p" using 1(2) by blast
    moreover have "Suc n \<noteq> p" using 1(3) by auto
    ultimately have "n + 2 \<le> p" using 1(4) by simp
    with 1 False show ?thesis by (simp add: next_size.simps [of n])
  qed
qed

lemma empty_table_hinv:
  assumes "good_size n"
  shows "hinv \<lparr>table = Some (replicate (n + 1) null_slot), hsize = n, filled = 0, change_ok = f\<rparr>"
    and "abs_env \<lparr>table = Some (replicate (n + 1) null_slot), hsize = n, filled = 0, change_ok = f\<rparr> = Map.empty"
proof -
  let ?t = "replicate (n + 1) null_slot"
  have u: "used (?t ! i) = 0" if "i \<in> {1..n}" for i
    using that nth_replicate [of i "n + 1" null_slot] by (simp add: null_slot_def del: replicate_Suc)
  then have nl: "\<not> live (?t ! i)" if "i \<in> {1..n}" for i using that by (simp add: live_def)
  have "slot_ok n ?t i" if "i \<in> {1..n}" for i using u [OF that] unfolding slot_ok_def by blast
  then have inv: "tinv n ?t" using assms nl by (simp add: tinv_def)
  moreover have "live_set n ?t = {}" unfolding live_set_def using nl by blast
  ultimately show "hinv \<lparr>table = Some ?t, hsize = n, filled = 0, change_ok = f\<rparr>" by (simp add: hinv_def)
  show "abs_env \<lparr>table = Some ?t, hsize = n, filled = 0, change_ok = f\<rparr> = Map.empty"
  proof
    fix k
    have "\<not> holds n ?t k i" for i unfolding holds_def using nl by blast
    then show "abs_env \<lparr>table = Some ?t, hsize = n, filled = 0, change_ok = f\<rparr> k = None"
      by (intro abs_not_holds) (simp_all del: replicate_Suc)
  qed
qed

lemma empty_has_room:
  "0 < n \<Longrightarrow> has_room \<lparr>table = Some (replicate (n + 1) null_slot), hsize = n, filled = 0, change_ok = f\<rparr>"
  using nth_replicate [of 1 "n + 1" null_slot]
  by (auto simp: has_room_def null_slot_def simp del: replicate_Suc intro!: bexI [of _ 1])

lemma hcreate_r_fresh:
  assumes "table h = None" and "\<And>n. alloc_ok hk n" and "4 \<le> nel" and "isprime p" and "odd p" and "nel \<le> p" and "p < 2 ^ 31"
  obtains n where "hcreate_r hk nel h = (1, \<lparr>table = Some (replicate (n + 1) null_slot), hsize = n, filled = 0, change_ok = change_ok h\<rparr>)"
    "good_size n" "nel \<le> n" "n \<le> p"
proof -
  define m where "m = (if even nel then nel + 1 else nel)"
  define n where "n = next_size m"
  have "nel \<noteq> p" if "even nel" using that assms(5) by blast
  then have m: "odd m" "nel \<le> m" "m \<le> p" using assms(6) by (auto simp: m_def)
  then have n: "isprime n" "m \<le> n" "odd n" "n \<le> p"
    using next_size_isprime [of m] next_size_least [of p m] assms(4,5) by (auto simp: n_def)
  have "5 \<le> n"
  proof -
    have "nel \<noteq> n \<or> odd nel" using n(3) by blast
    then show ?thesis using assms(3) m(1,2) n(2,3) by (cases "nel = 4") auto
  qed
  then have g: "good_size n" using n assms(7) isprime_correct [of n] by (simp add: good_size_def)
  have run: "hcreate_r hk nel h = (1, \<lparr>table = Some (replicate (n + 1) null_slot), hsize = n, filled = 0, change_ok = change_ok h\<rparr>)"
    using assms(1,2) by (cases h) (simp add: hcreate_r_def Let_def m_def [symmetric] n_def [symmetric])
  show ?thesis by (rule that [OF run g]) (use m n in simp_all)
qed

text \<open>A table of five buckets without entries and without a change check, for the witnesses.\<close>

definition empty5 :: hsearch_data where
  "empty5 = \<lparr>table = Some (replicate (5 + 1) null_slot), hsize = 5, filled = 0, change_ok = None\<rparr>"

lemma good_size_5: "good_size 5"
proof -
  have "isprime 5" by (simp add: isprime_def isprime_loop.simps)
  then show ?thesis using isprime_correct [of 5] by (simp add: good_size_def)
qed

lemma empty5_facts: "hinv empty5" "abs_env empty5 = Map.empty" "has_room empty5"
  using empty_table_hinv [OF good_size_5, of None] empty_has_room [of 5 None] by (simp_all add: empty5_def)

section \<open>Properties\<close>

text \<open>
  \<open>hcreate_r\<close> ends and makes an empty, well-formed table: whenever an odd prime \<open>p\<close> is not
  below the number of entries asked for, the size is a prime between that number and \<open>p\<close>, every
  name is unbound, and there is room for a new entry.
\<close>

theorem hcreate_r_creates_empty_map:
  assumes "table h = None" and "\<And>n. alloc_ok hk n" and "4 \<le> nel" and "isprime p" and "odd p" and "nel \<le> p" and "p < 2 ^ 31"
  shows "\<exists>h'. hcreate_r hk nel h = (1, h') \<and> hinv h' \<and> abs_env h' = Map.empty \<and> has_room h'
    \<and> prime (hsize h') \<and> nel \<le> hsize h' \<and> hsize h' \<le> p"
proof (rule hcreate_r_fresh [OF assms])
  fix n
  assume run: "hcreate_r hk nel h = (1, \<lparr>table = Some (replicate (n + 1) null_slot), hsize = n, filled = 0, change_ok = change_ok h\<rparr>)"
    and g: "good_size n" and n: "nel \<le> n" "n \<le> p"
  then show ?thesis
    using empty_table_hinv [OF g, of "change_ok h"] empty_has_room [of n "change_ok h"] by (auto simp: good_size_def)
qed

theorem hcreate_r_creates_empty_map_witness:
  "\<exists>h'. hcreate_r (env_hooks_of board_world) 4 \<lparr>table = None, hsize = 0, filled = 0, change_ok = None\<rparr> = (1, h') \<and> hinv h'
    \<and> abs_env h' = Map.empty \<and> has_room h' \<and> prime (hsize h') \<and> 4 \<le> hsize h' \<and> hsize h' \<le> 5"
  by (rule hcreate_r_creates_empty_map)
    (simp_all add: env_hooks_of_def board_world_def isprime_def isprime_loop.simps)

text \<open>
  On a well-formed table \<open>getenv\<close> returns, without an access outside the table, the value
  that the table's map holds for the name, and NULL for a name that is not in it.
\<close>

theorem getenv_is_lookup:
  assumes "hinv h" and "env_ready w"
  shows "getenv w h name = Some (abs_env h name)"
  using getenv_spec [OF assms(1), of w name] assms(2) by simp

theorem getenv_is_lookup_witness: "getenv board_world empty5 ''ipaddr'' = Some (abs_env empty5 ''ipaddr'')"
  by (rule getenv_is_lookup) (simp_all add: empty5_facts board_world_ready)

text \<open>
  \<^bold>\<open>C7.\<close> Entering a value keeps the table well-formed and either changes exactly the binding of
  the name, or reports \<^verbatim>\<open>EPERM\<close> or \<^verbatim>\<open>EINVAL\<close> (the change check or a callback refused) and leaves
  the map as it was. It needs an empty bucket when the name is new, and attributes that fit the
  arrays of the initialisation functions.
\<close>

theorem hsearch_r_enter_is_update:
  assumes "readable_before w" and "\<And>n. malloc_ok w n"
    and "hinv h" and "has_room h \<or> k \<in> dom (abs_env h)" and "init_safe w ((abs_env h)(k \<mapsto> v)) k"
  shows "\<exists>r. hsearch_r (env_hooks_of w) k (Some v) ENTER h flag = Some r \<and> hinv (htab r)
    \<and> (if ret r = 0 then abs_env (htab r) = abs_env h \<and> err r \<in> {Some EPERM, Some EINVAL} \<and> retval r = None
       else abs_env (htab r) = (abs_env h)(k \<mapsto> v) \<and> err r = None \<and> retval r \<noteq> None)"
  using env_hooks.enter_spec [OF env_hooks_contract [OF assms(1,2)] assms(3-5)] .

theorem hsearch_r_enter_is_update_witness:
  "\<exists>r. hsearch_r (env_hooks_of board_world) ''ipaddr'' (Some ''10.0.0.1'') ENTER empty5 0 = Some r \<and> hinv (htab r)
    \<and> (if ret r = 0 then abs_env (htab r) = abs_env empty5 \<and> err r \<in> {Some EPERM, Some EINVAL} \<and> retval r = None
       else abs_env (htab r) = (abs_env empty5)(''ipaddr'' \<mapsto> ''10.0.0.1'') \<and> err r = None \<and> retval r \<noteq> None)"
  by (rule hsearch_r_enter_is_update)
    (simp_all add: board_world_readable board_world_memory empty5_facts init_safe_def attr_fits_def
      ENV_FLAGS_VAR_def ENV_CALLBACK_VAR_def board_world_ready)

text \<open>
  \<^bold>\<open>C17.\<close> Deleting a name keeps the table well-formed and either unbinds exactly this name, or leaves
  the map as it was and reports why: \<^verbatim>\<open>ESRCH\<close> exactly when the name was not bound, \<^verbatim>\<open>EPERM\<close> or
  \<^verbatim>\<open>EINVAL\<close> when the change was refused.
\<close>

theorem hdelete_r_is_remove:
  assumes "readable_before w" and "\<And>n. malloc_ok w n" and "hinv h"
  shows "\<exists>r. hdelete_r (env_hooks_of w) k h flag = Some r \<and> hinv (htab r)
    \<and> (if ret r = 0 then abs_env (htab r) = abs_env h \<and> err r \<in> {Some ESRCH, Some EPERM, Some EINVAL}
          \<and> (err r = Some ESRCH \<longleftrightarrow> k \<notin> dom (abs_env h))
       else abs_env (htab r) = (abs_env h)(k := None) \<and> k \<in> dom (abs_env h))"
  using env_hooks.delete_spec [OF env_hooks_contract [OF assms(1,2)] assms(3)] .

theorem hdelete_r_is_remove_witness:
  "\<exists>r. hdelete_r (env_hooks_of board_world) ''ipaddr'' empty5 0 = Some r \<and> hinv (htab r)
    \<and> (if ret r = 0 then abs_env (htab r) = abs_env empty5 \<and> err r \<in> {Some ESRCH, Some EPERM, Some EINVAL}
          \<and> (err r = Some ESRCH \<longleftrightarrow> ''ipaddr'' \<notin> dom (abs_env empty5))
       else abs_env (htab r) = (abs_env empty5)(''ipaddr'' := None) \<and> ''ipaddr'' \<in> dom (abs_env empty5))"
  by (rule hdelete_r_is_remove) (simp_all add: board_world_readable board_world_memory empty5_facts)

end
