(* ===== verification/Qsort.thy ===== *)
theory Qsort
  imports Cstring "HOL-Library.Multiset"
begin

text \<open>
  The sorting routine \<^verbatim>\<open>lib/qsort.c\<close>, a shell sort. The array is a list of elements and all
  offsets count elements instead of bytes (every offset of the code is a multiple of \<^verbatim>\<open>width\<close>, and
  its innermost loop exchanges two elements byte by byte). The locale \<open>comparator\<close> states what the
  routine expects of the comparison function.
\<close>

section \<open>The routine\<close>

definition exchange :: "'a list \<Rightarrow> nat \<Rightarrow> nat \<Rightarrow> 'a list option" where
  "exchange xs a b = do { x \<leftarrow> rd xs a; y \<leftarrow> rd xs b; xs \<leftarrow> wr xs a y; wr xs b x }"

text \<open>The loop over \<^verbatim>\<open>j\<close>: the element at \<open>j\<close> moves down in steps of \<open>wgap\<close>.\<close>

function sift :: "('a \<Rightarrow> 'a \<Rightarrow> int) \<Rightarrow> nat \<Rightarrow> nat \<Rightarrow> 'a list \<Rightarrow> 'a list option" where
  "sift cmp wgap j xs =
     (if wgap = 0 \<or> j < wgap then None
      else do {
        a \<leftarrow> rd xs (j - wgap);
        b \<leftarrow> rd xs j;
        if cmp a b \<le> 0 then Some xs
        else do {
          xs \<leftarrow> exchange xs (j - wgap) j;
          if wgap \<le> j - wgap then sift cmp wgap (j - wgap) xs else Some xs } })"
  by pat_completeness auto
termination by (relation "measure (\<lambda>(cmp, wgap, j, xs). j)") auto

declare sift.simps [simp del]

text \<open>The loop over \<^verbatim>\<open>i\<close> for one gap.\<close>

function pass :: "('a \<Rightarrow> 'a \<Rightarrow> int) \<Rightarrow> nat \<Rightarrow> nat \<Rightarrow> nat \<Rightarrow> 'a list \<Rightarrow> 'a list option" where
  "pass cmp wgap nel i xs = do {
     xs \<leftarrow> sift cmp wgap i xs;
     if i + 1 < nel then pass cmp wgap nel (i + 1) xs else Some xs }"
  by pat_completeness auto
termination by (relation "measure (\<lambda>(cmp, wgap, nel, i, xs). nel - i)") auto

declare pass.simps [simp del]

function gaps :: "('a \<Rightarrow> 'a \<Rightarrow> int) \<Rightarrow> nat \<Rightarrow> nat \<Rightarrow> 'a list \<Rightarrow> 'a list option" where
  "gaps cmp nel wgap xs = do {
     xs \<leftarrow> pass cmp wgap nel wgap xs;
     if (wgap - 1) div 3 \<noteq> 0 then gaps cmp nel ((wgap - 1) div 3) xs else Some xs }"
  by pat_completeness auto
termination by (relation "measure (\<lambda>(cmp, nel, wgap, xs). wgap)") auto

declare gaps.simps [simp del]

function first_gap :: "nat \<Rightarrow> nat \<Rightarrow> nat" where
  "first_gap nel wgap = (let wgap = 3 * wgap + 1 in if wgap < (nel - 1) div 3 then first_gap nel wgap else wgap)"
  by pat_completeness auto
termination by (relation "measure (\<lambda>(nel, wgap). nel - wgap)") (auto simp: Let_def)

declare first_gap.simps [simp del]

definition qsort :: "('a \<Rightarrow> 'a \<Rightarrow> int) \<Rightarrow> 'a list \<Rightarrow> 'a list option" where
  "qsort cmp xs = (let nel = length xs in
     if nel > 1 then gaps cmp nel (first_gap nel 0) xs else Some xs)"

section \<open>The gaps\<close>

inductive gap_number :: "nat \<Rightarrow> bool" where
  one: "gap_number 1"
| more: "gap_number g \<Longrightarrow> gap_number (3 * g + 1)"

lemma first_gap_spec:
  assumes "1 < nel" and "g = 0 \<or> gap_number g \<and> g < (nel - 1) div 3"
  shows "gap_number (first_gap nel g) \<and> first_gap nel g < nel"
  using assms
proof (induction nel g rule: first_gap.induct)
  case (1 nel g)
  have gn: "gap_number (3 * g + 1)" using 1(3) gap_number.one gap_number.more [of g] by auto
  show ?case
  proof (cases "3 * g + 1 < (nel - 1) div 3")
    case True
    then show ?thesis using 1(1) [OF refl True 1(2)] gn
      by (simp add: first_gap.simps [of nel g] Let_def)
  next
    case False
    have "3 * g + 1 < nel" using 1(2,3) by auto
    then show ?thesis using gn False by (simp add: first_gap.simps [of nel g] Let_def)
  qed
qed

lemma gap_number_step:
  assumes "gap_number g"
  shows "0 < g" and "(g - 1) div 3 \<noteq> 0 \<Longrightarrow> gap_number ((g - 1) div 3)" and "(g - 1) div 3 = 0 \<Longrightarrow> g = 1"
  using assms by (induction rule: gap_number.induct) auto

section \<open>Bounds and permutation\<close>

lemma exchange_spec:
  assumes "a < length xs" and "b < length xs"
  shows "exchange xs a b = Some (xs[a := xs ! b, b := xs ! a])"
  using assms by (simp add: exchange_def rd_def wr_def)

lemma sift_permutes:
  "0 < g \<Longrightarrow> g \<le> j \<Longrightarrow> j < length xs \<Longrightarrow> \<exists>ys. sift cmp g j xs = Some ys \<and> mset ys = mset xs"
proof (induction cmp g j xs rule: sift.induct)
  case (1 cmp g j xs)
  let ?ys = "xs[j - g := xs ! j, j := xs ! (j - g)]"
  have ex: "exchange xs (j - g) j = Some ?ys" using 1(3,4) by (intro exchange_spec) auto
  have ms: "mset ?ys = mset xs" using 1(3,4) by (intro mset_swap) auto
  have rds: "rd xs (j - g) = Some (xs ! (j - g))" "rd xs j = Some (xs ! j)" using 1(3,4) by (auto simp: rd_def)
  have run: "sift cmp g j xs = (if cmp (xs ! (j - g)) (xs ! j) \<le> 0 then Some xs
      else if g \<le> j - g then sift cmp g (j - g) ?ys else Some ?ys)"
    using 1(2,3) rds ex by (subst sift.simps) simp
  show ?case
  proof (cases "cmp (xs ! (j - g)) (xs ! j) \<le> 0 \<or> \<not> g \<le> j - g")
    case True
    then show ?thesis using run ms by auto
  next
    case False
    then have "\<exists>ys. sift cmp g (j - g) ?ys = Some ys \<and> mset ys = mset ?ys"
      using 1(1) [OF _ rds _ ex] 1(2,3,4) by auto
    then show ?thesis using run ms False by auto
  qed
qed

lemma pass_permutes:
  "0 < g \<Longrightarrow> g \<le> i \<Longrightarrow> i < length xs \<Longrightarrow> nel \<le> length xs \<Longrightarrow> \<exists>ys. pass cmp g nel i xs = Some ys \<and> mset ys = mset xs"
proof (induction cmp g nel i xs rule: pass.induct)
  case (1 cmp g nel i xs)
  obtain ys where ys: "sift cmp g i xs = Some ys" "mset ys = mset xs" using sift_permutes 1(2,3,4) by blast
  then have "length ys = length xs" by (metis size_mset)
  with 1(1) [OF ys(1)] 1(2-5) ys show ?case by (subst pass.simps) auto
qed

lemma gaps_permutes:
  "gap_number g \<Longrightarrow> g < length xs \<Longrightarrow> \<exists>ys. gaps cmp (length xs) g xs = Some ys \<and> mset ys = mset xs"
proof (induction g arbitrary: xs rule: less_induct)
  case (less g)
  note g = gap_number_step [OF less(2)]
  obtain ys where ys: "pass cmp g (length xs) g xs = Some ys" "mset ys = mset xs"
    using pass_permutes [OF g(1) order_refl less(3) order_refl] by blast
  then have len: "length ys = length xs" by (metis size_mset)
  show ?case
  proof (cases "(g - 1) div 3 = 0")
    case True
    with ys show ?thesis by (subst gaps.simps) simp
  next
    case False
    have "(g - 1) div 3 < g" using g(1) by auto
    then have "\<exists>zs. gaps cmp (length ys) ((g - 1) div 3) ys = Some zs \<and> mset zs = mset ys"
      using less(1) [OF _ g(2) [OF False], of ys] less(3) len by auto
    with ys False len show ?thesis by (subst gaps.simps) auto
  qed
qed

lemma qsort_returns: "\<exists>ys. qsort cmp xs = Some ys \<and> mset ys = mset xs"
proof (cases "1 < length xs")
  case True
  then have "gap_number (first_gap (length xs) 0)" "first_gap (length xs) 0 < length xs"
    using first_gap_spec [OF True, of 0] by simp_all
  with True show ?thesis using gaps_permutes by (simp add: qsort_def Let_def)
qed (simp add: qsort_def)

section \<open>The last pass sorts\<close>

lemma gaps_last:
  "gap_number g \<Longrightarrow> g < length xs \<Longrightarrow>
   \<exists>zs ys. gaps cmp (length xs) g xs = Some ys \<and> mset zs = mset xs \<and> pass cmp 1 (length zs) 1 zs = Some ys"
proof (induction g arbitrary: xs rule: less_induct)
  case (less g)
  note g = gap_number_step [OF less(2)]
  obtain ys where ys: "pass cmp g (length xs) g xs = Some ys" "mset ys = mset xs"
    using pass_permutes [OF g(1) order_refl less(3) order_refl] by blast
  then have len: "length ys = length xs" by (metis size_mset)
  show ?case
  proof (cases "(g - 1) div 3 = 0")
    case True
    then have "g = 1" by (rule g(3))
    with ys have "gaps cmp (length xs) g xs = Some ys" by (simp add: gaps.simps [of cmp "length xs" "Suc 0"])
    with ys \<open>g = 1\<close> show ?thesis by blast
  next
    case False
    have "(g - 1) div 3 < g" using g(1) by auto
    then obtain zs vs where "gaps cmp (length ys) ((g - 1) div 3) ys = Some vs" "mset zs = mset ys"
      "pass cmp 1 (length zs) 1 zs = Some vs"
      using less(1) [OF _ g(2) [OF False], of ys] less(3) len by auto
    with ys False len have "gaps cmp (length xs) g xs = Some vs" "mset zs = mset xs" "pass cmp 1 (length zs) 1 zs = Some vs"
      by (simp_all add: gaps.simps [of cmp "length xs" g])
    then show ?thesis by blast
  qed
qed

text \<open>What \<^verbatim>\<open>qsort\<close> expects of a comparison function on the values that occur.\<close>

locale comparator =
  fixes cmp :: "'a \<Rightarrow> 'a \<Rightarrow> int" and A :: "'a set"
  assumes total: "x \<in> A \<Longrightarrow> y \<in> A \<Longrightarrow> cmp x y \<le> 0 \<or> cmp y x \<le> 0"
    and trans: "x \<in> A \<Longrightarrow> y \<in> A \<Longrightarrow> z \<in> A \<Longrightarrow> cmp x y \<le> 0 \<Longrightarrow> cmp y z \<le> 0 \<Longrightarrow> cmp x z \<le> 0"
begin

abbreviation le :: "'a \<Rightarrow> 'a \<Rightarrow> bool" where
  "le x y \<equiv> cmp x y \<le> 0"

lemma sift_inserts:
  assumes "as \<noteq> []" and "set (as @ x # bs) \<subseteq> A" and "sorted_wrt le (as @ bs)" and "\<forall>b \<in> set bs. le x b"
  shows "\<exists>ys. sift cmp 1 (length as) (as @ x # bs @ cs) = Some (ys @ cs) \<and> mset ys = mset (as @ x # bs)
    \<and> sorted_wrt le ys"
  using assms
proof (induction as arbitrary: bs rule: rev_induct)
  case (snoc a as)
  let ?xs = "(as @ [a]) @ x # bs @ cs"
  have rds: "rd ?xs (length as) = Some a" "rd ?xs (Suc (length as)) = Some x"
    by (simp_all add: rd_def nth_append)
  have ex: "exchange ?xs (length as) (Suc (length as)) = Some (as @ x # (a # bs) @ cs)"
    by (simp add: exchange_spec nth_append list_update_append)
  have run: "sift cmp 1 (length (as @ [a])) ?xs = (if le a x then Some ?xs
     else if 1 \<le> length as then sift cmp 1 (length as) (as @ x # (a # bs) @ cs) else Some (as @ x # (a # bs) @ cs))"
    using rds ex by (subst sift.simps) simp
  have A: "a \<in> A" "x \<in> A" "set as \<subseteq> A" "set bs \<subseteq> A" using snoc.prems(2) by auto
  show ?case
  proof (cases "le a x")
    case True
    then have "le y x" if "y \<in> set as" for y
      using trans [of y a x] A that snoc.prems(3) by (auto simp: sorted_wrt_append)
    then have "sorted_wrt le ((as @ [a]) @ x # bs)"
      using snoc.prems(3,4) True by (auto simp: sorted_wrt_append)
    with run True show ?thesis by (intro exI [of _ "(as @ [a]) @ x # bs"]) simp
  next
    case False
    then have xa: "le x a" using total A by blast
    have ab: "sorted_wrt le (as @ a # bs)" using snoc.prems(3) by simp
    show ?thesis
    proof (cases "as = []")
      case True
      then have "sorted_wrt le (x # a # bs)" using ab xa snoc.prems(4) by simp
      with run False True show ?thesis by (intro exI [of _ "x # a # bs"]) simp
    next
      case ne: False
      then obtain ys where "sift cmp 1 (length as) (as @ x # (a # bs) @ cs) = Some (ys @ cs)"
        "mset ys = mset (as @ x # a # bs)" "sorted_wrt le ys"
        using snoc.IH [OF ne, of "a # bs"] A ab xa snoc.prems(4) by auto
      moreover have "1 \<le> length as" using ne by (cases as) simp_all
      ultimately show ?thesis using run False by (intro exI [of _ ys]) simp
    qed
  qed
qed simp

lemma pass_sorts:
  assumes "as \<noteq> []" and "bs \<noteq> []" and "set (as @ bs) \<subseteq> A" and "sorted_wrt le as"
  shows "\<exists>ys. pass cmp 1 (length (as @ bs)) (length as) (as @ bs) = Some ys \<and> sorted_wrt le ys"
  using assms
proof (induction bs arbitrary: as)
  case (Cons x bs)
  obtain ys where ys: "sift cmp 1 (length as) (as @ x # bs) = Some (ys @ bs)" "mset ys = mset (as @ [x])"
    "sorted_wrt le ys"
    using sift_inserts [of as x "[]" bs] Cons.prems by auto
  have len: "length ys = Suc (length as)" using arg_cong [OF ys(2), of size] by simp
  have sub: "set ys \<subseteq> A" using arg_cong [OF ys(2), of set_mset] Cons.prems(3) by auto
  have run: "pass cmp 1 (length (as @ x # bs)) (length as) (as @ x # bs)
    = (if bs = [] then Some (ys @ bs) else pass cmp 1 (length (ys @ bs)) (length ys) (ys @ bs))"
    using ys(1) len by (subst pass.simps) auto
  show ?case
  proof (cases "bs = []")
    case True
    with run ys(3) show ?thesis by simp
  next
    case False
    have "\<exists>zs. pass cmp 1 (length (ys @ bs)) (length ys) (ys @ bs) = Some zs \<and> sorted_wrt le zs"
      by (rule Cons.IH) (use False sub ys(3) len Cons.prems(3) in auto)
    with run False show ?thesis by simp
  qed
qed simp

theorem qsort_sorts:
  assumes "set xs \<subseteq> A"
  shows "\<exists>ys. qsort cmp xs = Some ys \<and> mset ys = mset xs \<and> sorted_wrt le ys"
proof (cases "1 < length xs")
  case False
  then have "sorted_wrt le xs" by (cases xs) auto
  with False show ?thesis by (simp add: qsort_def)
next
  case True
  let ?g = "first_gap (length xs) 0"
  have g: "gap_number ?g" "?g < length xs" using first_gap_spec [OF True, of 0] by simp_all
  obtain ys where ys: "gaps cmp (length xs) ?g xs = Some ys" "mset ys = mset xs"
    using gaps_permutes [OF g] by blast
  obtain zs where zs: "mset zs = mset xs" "pass cmp 1 (length zs) 1 zs = Some ys"
    using gaps_last [OF g, of cmp] ys(1) by auto
  have len: "1 < length zs" using True arg_cong [OF zs(1), of size] by simp
  have "set zs \<subseteq> A" using arg_cong [OF zs(1), of set_mset] assms by simp
  moreover obtain z zs' where "zs = [z] @ zs'" "zs' \<noteq> []" using len by (cases zs) auto
  ultimately have "sorted_wrt le ys" using pass_sorts [of "[z]" zs'] zs(2) by auto
  with ys True show ?thesis by (simp add: qsort_def)
qed

end

section \<open>Comparison of strings\<close>

text \<open>\<^verbatim>\<open>strcmp_compar\<close>, and the comparison \<^verbatim>\<open>cmpkey\<close> of the hash table: \<^verbatim>\<open>strcmp\<close> of two C strings, which
  always returns.\<close>

definition strcmp_compar :: "string \<Rightarrow> string \<Rightarrow> int" where
  "strcmp_compar s t = the (strcmp (s @ [NUL]) (t @ [NUL]))"

definition ascii_strings :: "string set" where
  "ascii_strings = {s. \<forall>c \<in> set s. c \<noteq> NUL \<and> (of_char c :: nat) < 128}"

lemma cstring_append: "NUL \<notin> set s \<Longrightarrow> cstring s (s @ [NUL])"
  by (induction s) auto

lemma strcmp_compar_le:
  assumes "s \<in> ascii_strings" and "t \<in> ascii_strings"
  shows "strcmp_compar s t \<le> 0 \<longleftrightarrow> s = t \<or> str_less s t"
proof -
  have "cstring s (s @ [NUL])" "cstring t (t @ [NUL])" "\<forall>c \<in> set (s @ t). (of_char c :: nat) < 128"
    using assms by (auto simp: ascii_strings_def intro!: cstring_append)
  from strcmp_order [OF this] show ?thesis by (auto simp: strcmp_compar_def)
qed

interpretation names: comparator strcmp_compar ascii_strings
proof
  show "strcmp_compar x y \<le> 0 \<or> strcmp_compar y x \<le> 0" if "x \<in> ascii_strings" "y \<in> ascii_strings" for x y
    using that lexordp_linear [of x y] by (auto simp: strcmp_compar_le)
  show "strcmp_compar x z \<le> 0" if "x \<in> ascii_strings" "y \<in> ascii_strings" "z \<in> ascii_strings"
    "strcmp_compar x y \<le> 0" "strcmp_compar y z \<le> 0" for x y z
    using that lexordp_trans [of x y z] by (auto simp: strcmp_compar_le)
qed

section \<open>Properties\<close>

text \<open>
  \<open>qsort\<close> with any comparison function returns, never leaves the array, and permutes it.
\<close>

theorem qsort_permutes: "\<exists>ys. qsort cmp xs = Some ys \<and> mset ys = mset xs"
  by (rule qsort_returns)

text \<open>
  Names of 7-bit characters come out of \<open>qsort\<close> with \<open>strcmp_compar\<close> in ascending
  lexicographic order.
\<close>

theorem qsort_names_sorted:
  assumes "set xs \<subseteq> ascii_strings"
  shows "\<exists>ys. qsort strcmp_compar xs = Some ys \<and> mset ys = mset xs
    \<and> sorted_wrt (\<lambda>s t. s = t \<or> str_less s t) ys"
proof -
  from names.qsort_sorts [OF assms] obtain ys where
    ys: "qsort strcmp_compar xs = Some ys" "mset ys = mset xs" "sorted_wrt (\<lambda>s t. strcmp_compar s t \<le> 0) ys" by blast
  have "set ys \<subseteq> ascii_strings" using arg_cong [OF ys(2), of set_mset] assms by simp
  with ys(3) have "sorted_wrt (\<lambda>s t. s = t \<or> str_less s t) ys"
    by (auto intro: sorted_wrt_mono_rel [rotated] simp: strcmp_compar_le subset_iff)
  with ys show ?thesis by blast
qed

theorem qsort_names_sorted_witness:
  "\<exists>ys. qsort strcmp_compar [''serverip'', ''ethaddr'', ''bootcmd''] = Some ys
    \<and> mset ys = mset [''serverip'', ''ethaddr'', ''bootcmd''] \<and> sorted_wrt (\<lambda>s t. s = t \<or> str_less s t) ys"
  by (rule qsort_names_sorted) (simp add: ascii_strings_def)

end
