(* ===== verification/HashImpExp.thy ===== *)
theory HashImpExp
  imports EnvHooks Qsort
begin

text \<open>
  The linear form of the environment: \<open>hexport_r\<close> writes the table as text, \<open>himport_r\<close> reads it
  back (\<^verbatim>\<open>lib/hashtable.c\<close>). The output buffer is a list that is written through a checked cursor,
  the input a list from which reading past the end is undefined.
\<close>

definition H_NOCLEAR :: u32 where "H_NOCLEAR = 1"
definition H_HIDE_DOT :: u32 where "H_HIDE_DOT = 8"

section \<open>Export\<close>

text \<open>An entry is exported if it is listed (or nothing is listed) and not hidden.\<close>

definition selected :: "u32 \<Rightarrow> string list \<Rightarrow> string \<times> string \<Rightarrow> bool" where
  "selected flag args kv \<longleftrightarrow> (args = [] \<or> fst kv \<in> set args)
     \<and> \<not> (flag AND H_HIDE_DOT \<noteq> 0 \<and> fst kv \<noteq> [] \<and> hd (fst kv) = CHR ''.'')"

definition table_entries :: "nat \<Rightarrow> slot list \<Rightarrow> (string \<times> string) list option" where
  "table_entries n t = those (map (\<lambda>s. do { k \<leftarrow> key (entry s); d \<leftarrow> data (entry s); Some (k, d) })
     (filter (\<lambda>s. used s > 0) (map ((!) t) [1..<n + 1])))"

definition is_escaped :: "char \<Rightarrow> char \<Rightarrow> bool" where
  "is_escaped sep c \<longleftrightarrow> c = sep \<or> c = CHR 0x5C"

text \<open>Pass 1: the length that is reserved for an entry.\<close>

definition reserved :: "char \<Rightarrow> string \<times> string \<Rightarrow> nat" where
  "reserved sep kv = length (fst kv) + 2
     + (if sep = NUL then length (snd kv) else length (snd kv) + length (filter (is_escaped sep) (snd kv))) + 2"

text \<open>Pass 2: the text that is written for an entry.\<close>

fun escape :: "char \<Rightarrow> string \<Rightarrow> string" where
  "escape sep [] = []"
| "escape sep (c # v) = (if is_escaped sep c then [CHR 0x5C, c] else [c]) @ escape sep v"

definition written :: "char \<Rightarrow> string \<times> string \<Rightarrow> string" where
  "written sep kv = fst kv @ CHR ''='' # escape sep (snd kv) @ [sep]"

text \<open>Writing a string through the cursor \<open>p\<close>; past the end of the buffer is undefined.\<close>

fun put :: "string \<Rightarrow> nat \<Rightarrow> char list \<Rightarrow> char list option" where
  "put [] p buf = Some buf"
| "put (c # s) p buf = do { buf \<leftarrow> wr buf p c; put s (p + 1) buf }"

definition cmpkey :: "string \<times> string \<Rightarrow> string \<times> string \<Rightarrow> int" where
  "cmpkey e1 e2 = strcmp_compar (fst e1) (fst e2)"

datatype export_result = Export_fail errno | Exported nat "char list"

text \<open>
  \<open>resp\<close> is the user's buffer, or \<open>None\<close> for \<^verbatim>\<open>*resp == NULL\<close>; a user's buffer is cleared over
  \<open>sz\<close> bytes, which \<^verbatim>\<open>memset\<close> does not check against its real length.
\<close>

definition hexport_r :: "(nat \<Rightarrow> bool) \<Rightarrow> hsearch_data \<Rightarrow> char \<Rightarrow> u32 \<Rightarrow> char list option \<Rightarrow> nat \<Rightarrow> string list
    \<Rightarrow> export_result option" where
  "hexport_r alloc h sep flag resp sz args = do {
     t \<leftarrow> table h;
     es \<leftarrow> table_entries (hsize h) t;
     let es = filter (selected flag args) es;
     let totlen = sum_list (map (reserved sep) es);
     es \<leftarrow> qsort cmpkey es;
     if sz \<noteq> 0 \<and> sz < totlen + 1 then Some (Export_fail ENOMEM)
     else do {
       let sz = (if sz \<noteq> 0 then sz else totlen + 1);
       if resp = None \<and> \<not> alloc sz then Some (Export_fail ENOMEM)
       else do {
         res \<leftarrow> (case resp of None \<Rightarrow> Some (replicate sz NUL)
                | Some b \<Rightarrow> if sz \<le> length b then Some (replicate sz NUL @ drop sz b) else None);
         res \<leftarrow> put (concat (map (written sep) es) @ [NUL]) 0 res;
         Some (Exported sz res) } } }"

section \<open>Import\<close>

definition drop_var_from_set :: "string \<Rightarrow> string option list \<Rightarrow> bool \<times> string option list" where
  "drop_var_from_set name vars =
     (if vars = [] then (True, vars)
      else (Some name \<in> set vars, map (\<lambda>v. if v = Some name then None else v) vars))"

text \<open>
  Scanning functions. A position in the data is the list of bytes from there on; the code writes
  only behind the position it reads at, so what it reads is the original data.
\<close>

fun skip_while :: "(char \<Rightarrow> bool) \<Rightarrow> char list \<Rightarrow> char list option" where
  "skip_while P [] = None"
| "skip_while P (c # cs) = (if P c then skip_while P cs else Some (c # cs))"

fun scan_name :: "char \<Rightarrow> char list \<Rightarrow> (string \<times> char list) option" where
  "scan_name sep [] = None"
| "scan_name sep (c # cs) =
     (if c \<noteq> CHR ''='' \<and> c \<noteq> NUL \<and> c \<noteq> sep then do { (name, r) \<leftarrow> scan_name sep cs; Some (c # name, r) }
      else Some ([], c # cs))"

fun scan_value :: "char \<Rightarrow> char list \<Rightarrow> (string \<times> char list) option" where
  "scan_value sep [] = None"
| "scan_value sep [c] = (if c = NUL \<or> c = sep then Some ([], [c]) else None)"
| "scan_value sep (c # d # cs) =
     (if c = NUL \<or> c = sep then Some ([], c # d # cs)
      else if c = CHR 0x5C \<and> d \<noteq> NUL then do { (v, r) \<leftarrow> scan_value sep cs; Some (d # v, r) }
      else do { (v, r) \<leftarrow> scan_value sep (d # cs); Some (c # v, r) })"

text \<open>One turn of the parsing loop: a name to enter or delete, or a comment, and the position after it.\<close>

datatype item = Comment | Delete string | Enter string string

definition parse_item :: "char \<Rightarrow> char list \<Rightarrow> (item \<times> char list) option" where
  "parse_item sep dp = do {
     dp \<leftarrow> skip_while isblank dp;
     if hd dp = CHR ''#'' then do {
       dp \<leftarrow> skip_while (\<lambda>c. c \<noteq> NUL \<and> c \<noteq> sep) dp;
       Some (Comment, tl dp) }
     else do {
       (name, dp) \<leftarrow> scan_name sep dp;
       del \<leftarrow> (if hd dp = NUL then Some True
              else do { c1 \<leftarrow> rd dp 1; Some (c1 = NUL \<or> hd dp = sep \<or> c1 = sep) });
       if del then Some (Delete name, drop (if hd dp = CHR ''='' then 2 else 1) dp)
       else do {
         (value, dp) \<leftarrow> scan_value sep (tl dp);
         Some (Enter name value, tl dp) } } }"

lemma skip_while_shorter: "skip_while P cs = Some r \<Longrightarrow> r \<noteq> [] \<and> length r \<le> length cs"
  by (induction cs) (auto split: if_splits)

lemma scan_name_shorter: "scan_name sep cs = Some (n, r) \<Longrightarrow> r \<noteq> [] \<and> length r \<le> length cs"
  by (induction cs arbitrary: n) (auto split: if_splits Option.bind_splits)

lemma scan_value_shorter: "scan_value sep cs = Some (v, r) \<Longrightarrow> r \<noteq> [] \<and> length r \<le> length cs"
proof (induction sep cs arbitrary: v rule: scan_value.induct)
  case (3 sep c d cs)
  then show ?case by (fastforce split: if_splits Option.bind_splits)
qed (auto split: if_splits)

lemma parse_item_shorter:
  assumes "parse_item sep dp = Some (it, r)"
  shows "length r < length dp"
proof -
  from assms obtain d1 where d1: "skip_while isblank dp = Some d1" "d1 \<noteq> []" "length d1 \<le> length dp"
    using skip_while_shorter by (auto simp: parse_item_def split: Option.bind_splits)
  show ?thesis
  proof (cases "hd d1 = CHR ''#''")
    case True
    then obtain d2 where d2: "skip_while (\<lambda>c. c \<noteq> NUL \<and> c \<noteq> sep) d1 = Some d2" "r = tl d2"
      using assms d1(1) by (auto simp: parse_item_def split: Option.bind_splits)
    from skip_while_shorter [OF d2(1)] d2(2) d1(3) show ?thesis by (cases d2) auto
  next
    case False
    then obtain n d2 where d2: "scan_name sep d1 = Some (n, d2)"
      using assms d1(1) by (auto simp: parse_item_def split: Option.bind_splits)
    note s2 = scan_name_shorter [OF d2]
    from False d2 assms d1(1) consider "r = drop 2 d2" | "r = drop 1 d2" | v d3 where "scan_value sep (tl d2) = Some (v, d3)" "r = tl d3"
      by (auto simp: parse_item_def split: Option.bind_splits if_splits)
    then show ?thesis
    proof cases
      case 3
      with scan_value_shorter [of sep "tl d2" v d3] s2 d1 show ?thesis by (cases d2; cases d3) auto
    qed (use s2 d1 in \<open>cases d2; auto\<close>)+
  qed
qed

definition apply_item :: "hooks \<Rightarrow> u32 \<Rightarrow> item \<Rightarrow> string option list \<Rightarrow> hsearch_data
    \<Rightarrow> (string option list \<times> hsearch_data) option" where
  "apply_item hk flag it vars h = (case it of
     Comment \<Rightarrow> Some (vars, h)
   | Delete name \<Rightarrow> (case drop_var_from_set name vars of (ok, vars) \<Rightarrow>
       if \<not> ok then Some (vars, h) else do { r \<leftarrow> hdelete_r hk name h flag; Some (vars, htab r) })
   | Enter name val \<Rightarrow> (case drop_var_from_set name vars of (ok, vars) \<Rightarrow>
       if \<not> ok then Some (vars, h) else do { r \<leftarrow> hsearch_r hk name (Some val) ENTER h flag; Some (vars, htab r) }))"

function import_loop :: "hooks \<Rightarrow> char \<Rightarrow> u32 \<Rightarrow> char list \<Rightarrow> string option list \<Rightarrow> hsearch_data
    \<Rightarrow> (string option list \<times> hsearch_data) option" where
  "import_loop hk sep flag dp vars h = do {
     (it, dp) \<leftarrow> parse_item sep dp;
     (vars, h) \<leftarrow> apply_item hk flag it vars h;
     if dp \<noteq> [] \<and> hd dp \<noteq> NUL then import_loop hk sep flag dp vars h else Some (vars, h) }"
  by pat_completeness auto
termination
  by (relation "measure (\<lambda>(hk, sep, flag, dp, vars, h). length dp)") (auto dest: parse_item_shorter)

declare import_loop.simps [simp del]

text \<open>Names that were listed and not seen in the data are deleted.\<close>

fun drop_unseen :: "hooks \<Rightarrow> u32 \<Rightarrow> string option list \<Rightarrow> hsearch_data \<Rightarrow> hsearch_data option" where
  "drop_unseen hk flag [] h = Some h"
| "drop_unseen hk flag (None # vars) h = drop_unseen hk flag vars h"
| "drop_unseen hk flag (Some v # vars) h = do { r \<leftarrow> hdelete_r hk v h flag; drop_unseen hk flag vars (htab r) }"

definition CONFIG_ENV_MIN_ENTRIES :: nat where "CONFIG_ENV_MIN_ENTRIES = 128"
definition CONFIG_ENV_MAX_ENTRIES :: nat where "CONFIG_ENV_MAX_ENTRIES = 512"

definition himport_r :: "hooks \<Rightarrow> hsearch_data \<Rightarrow> char list \<Rightarrow> nat \<Rightarrow> char \<Rightarrow> u32 \<Rightarrow> string list \<Rightarrow> (int \<times> hsearch_data) option" where
  "himport_r hk h env sz sep flag vars =
     (if \<not> alloc_ok hk sz then Some (0, h)
      else if length env < sz then None
      else do {
        let h = (if flag AND H_NOCLEAR = 0 \<and> table h \<noteq> None then hdestroy_r h else h);
        let nent = min (CONFIG_ENV_MIN_ENTRIES + sz div 8) CONFIG_ENV_MAX_ENTRIES;
        let (rc, h) = (if table h = None then hcreate_r hk nent h else (1, h));
        if rc = 0 then Some (0, h)
        else do {
          (left, h) \<leftarrow> import_loop hk sep flag (take sz env) (map Some vars) h;
          h \<leftarrow> drop_unseen hk flag left h;
          Some (1, h) } })"

section \<open>The export buffer\<close>

lemma put_fits:
  "p + length s \<le> length buf \<Longrightarrow> put s p buf = Some (take p buf @ s @ drop (p + length s) buf)"
proof (induction s arbitrary: p buf)
  case (Cons c s)
  then have "p < length buf" by simp
  moreover from this have "take (p + 1) (buf[p := c]) = take p buf @ [c]"
    by (simp add: take_Suc_conv_app_nth)
  ultimately show ?case using Cons.IH [of "p + 1" "buf[p := c]"] Cons.prems by (simp add: wr_def)
qed simp

lemma put_overflows: "length buf < p + length s \<Longrightarrow> s \<noteq> [] \<Longrightarrow> put s p buf = None"
proof (induction s arbitrary: p buf)
  case (Cons c s)
  show ?case
  proof (cases "p < length buf")
    case True
    then have "s \<noteq> []" using Cons.prems(1) by auto
    with Cons.IH [of "buf[p := c]" "p + 1"] Cons.prems(1) True show ?thesis by (simp add: wr_def)
  qed (simp add: wr_def)
qed simp

lemma escape_length: "length (escape sep v) = length v + length (filter (is_escaped sep) v)"
  by (induction v) auto

lemma written_length:
  "length (written sep kv) + 2 = reserved sep kv + (if sep = NUL then length (filter (is_escaped NUL) (snd kv)) else 0)"
  by (simp add: written_def reserved_def escape_length)

text \<open>What the buffer lacks for the whole table: nothing for a text separator, for NUL as many bytes
  as the values have backslashes beyond two per entry.\<close>

lemma total_length:
  "length (concat (map (written sep) es)) + 2 * length es = sum_list (map (reserved sep) es)
     + (if sep = NUL then sum_list (map (\<lambda>kv. length (filter (is_escaped NUL) (snd kv))) es) else 0)"
proof (induction es)
  case (Cons kv es)
  with written_length [of sep kv] show ?case by (auto split: if_splits)
qed simp

lemma sum_list_mset: "mset xs = mset ys \<Longrightarrow> sum_list (map (f :: 'a \<Rightarrow> nat) xs) = sum_list (map f ys)"
  by (metis mset_map sum_mset_sum_list)

lemma total_length_sorted:
  assumes "mset es' = mset es"
  shows "length (concat (map (written sep) es')) + 2 * length es = sum_list (map (reserved sep) es)
     + (if sep = NUL then sum_list (map (\<lambda>kv. length (filter (is_escaped NUL) (snd kv))) es) else 0)"
  using total_length [of sep es'] arg_cong [OF assms, of size] sum_list_mset [OF assms, of "reserved sep"]
    sum_list_mset [OF assms, of "\<lambda>kv. length (filter (is_escaped NUL) (snd kv))"] by simp

section \<open>Reading back what was written\<close>

text \<open>Names and values that survive the linear form.\<close>

definition portable :: "char \<Rightarrow> string \<times> string \<Rightarrow> bool" where
  "portable sep kv \<longleftrightarrow> fst kv \<noteq> [] \<and> snd kv \<noteq> [] \<and> NUL \<notin> set (snd kv)
     \<and> hd (fst kv) \<notin> {CHR '' '', CHR 0x09, CHR ''#''}
     \<and> (\<forall>c \<in> set (fst kv). c \<noteq> NUL \<and> c \<noteq> sep \<and> c \<noteq> CHR ''='')"

lemma scan_name_written:
  "\<forall>c \<in> set k. c \<noteq> NUL \<and> c \<noteq> sep \<and> c \<noteq> CHR ''='' \<Longrightarrow> scan_name sep (k @ CHR ''='' # r) = Some (k, CHR ''='' # r)"
  by (induction k) auto

lemma scan_value_escape:
  assumes "NUL \<notin> set v" and "sep \<noteq> CHR 0x5C"
  shows "scan_value sep (escape sep v @ sep # r) = Some (v, sep # r)"
  using assms(1)
proof (induction v)
  case Nil
  show ?case by (cases r) simp_all
next
  case (Cons c v)
  show ?case
  proof (cases "is_escaped sep c")
    case True
    moreover have "c \<noteq> NUL" using Cons.prems by auto
    ultimately show ?thesis using Cons assms(2) by (simp add: eq_commute [of sep])
  next
    case False
    then have c: "c \<noteq> sep" "c \<noteq> CHR 0x5C" "c \<noteq> NUL" using Cons.prems by (auto simp: is_escaped_def)
    obtain d ds where ds: "escape sep v @ sep # r = d # ds" by (cases "escape sep v") auto
    have "escape sep (c # v) @ sep # r = c # d # ds" using False ds by simp
    with Cons.IH Cons.prems c ds show ?thesis by simp
  qed
qed

lemma parse_item_written:
  assumes "portable sep kv" and "sep \<in> {NUL, CHR 0x0A}"
  shows "parse_item sep (written sep kv @ r) = Some (Enter (fst kv) (snd kv), r)"
proof -
  obtain k v where kv: "kv = (k, v)" by (cases kv)
  obtain c k' where k: "k = c # k'" "c \<notin> {CHR '' '', CHR 0x09, CHR ''#''}"
    using assms(1) by (cases k) (auto simp: portable_def kv)
  have v: "NUL \<notin> set v" "v \<noteq> []" using assms(1) by (auto simp: portable_def kv)
  let ?rest = "CHR ''='' # escape sep v @ sep # r"
  have "skip_while isblank (k @ ?rest) = Some (k @ ?rest)" using k by (simp add: isblank_def)
  moreover have "scan_name sep (k @ ?rest) = Some (k, ?rest)"
    using assms(1) by (intro scan_name_written) (auto simp: portable_def kv)
  moreover have "hd (escape sep v @ sep # r) \<notin> {NUL, sep}" "escape sep v @ sep # r \<noteq> []"
    using v assms(2) by (cases v; auto simp: is_escaped_def)+
  moreover have "scan_value sep (escape sep v @ sep # r) = Some (v, sep # r)"
    using v assms(2) by (intro scan_value_escape) auto
  ultimately show ?thesis
    using k assms(2) by (cases "escape sep v @ sep # r") (auto simp: written_def kv parse_item_def rd_def)
qed

fun enter_list :: "hooks \<Rightarrow> u32 \<Rightarrow> (string \<times> string) list \<Rightarrow> hsearch_data \<Rightarrow> hsearch_data option" where
  "enter_list hk flag [] h = Some h"
| "enter_list hk flag ((k, v) # es) h = do { r \<leftarrow> hsearch_r hk k (Some v) ENTER h flag; enter_list hk flag es (htab r) }"

lemma import_loop_written:
  assumes "\<forall>kv \<in> set es. portable sep kv" and "es \<noteq> []" and "sep \<in> {NUL, CHR 0x0A}"
  shows "import_loop hk sep flag (concat (map (written sep) es) @ NUL # r) [] h
    = map_option (\<lambda>h. ([], h)) (enter_list hk flag es h)"
  using assms(1,2)
proof (induction es arbitrary: h)
  case (Cons kv es)
  obtain k v where kv: "kv = (k, v)" by (cases kv)
  let ?rest = "concat (map (written sep) es) @ NUL # r"
  have item: "parse_item sep (written sep kv @ ?rest) = Some (Enter k v, ?rest)"
    using parse_item_written [of sep kv ?rest] Cons.prems(1) assms(3) kv by simp
  have "es = [] \<longleftrightarrow> hd ?rest = NUL" if "\<forall>kv \<in> set es. portable sep kv"
    using that by (cases es) (auto simp: written_def portable_def split: list.splits)
  then have stop: "?rest \<noteq> [] \<and> hd ?rest \<noteq> NUL \<longleftrightarrow> es \<noteq> []" using Cons.prems(1) by simp
  have "import_loop hk sep flag (concat (map (written sep) (kv # es)) @ NUL # r) [] h = do {
      (vars, h) \<leftarrow> apply_item hk flag (Enter k v) [] h;
      if es \<noteq> [] then import_loop hk sep flag ?rest vars h else Some (vars, h) }"
    using item stop by (subst import_loop.simps) simp
  also have "\<dots> = map_option (\<lambda>h. ([], h)) (enter_list hk flag (kv # es) h)"
    using Cons.IH Cons.prems(1)
    by (cases "hsearch_r hk k (Some v) ENTER h flag"; cases "es = []")
      (simp_all add: apply_item_def drop_var_from_set_def kv)
  finally show ?case .
qed simp

section \<open>Entering a list of bindings\<close>

text \<open>The buckets that were never used.\<close>

definition empties :: "hsearch_data \<Rightarrow> nat" where
  "empties h = (case table h of None \<Rightarrow> 0 | Some t \<Rightarrow> card {i \<in> {1..hsize h}. used (t ! i) = 0})"

lemma takes_one_empties:
  assumes "takes_one h h'" and "hinv h"
  shows "empties h \<le> Suc (empties h')"
proof -
  from assms(1) obtain t t' i where t: "hsize h' = hsize h" "table h = Some t" "table h' = Some t'"
    "\<forall>j < length t. j \<noteq> i \<longrightarrow> used (t' ! j) = used (t ! j)" by (auto simp: takes_one_def)
  have "length t = Suc (hsize h)" using assms(2) t(2) by (auto simp: hinv_def tinv_def)
  then have "{j \<in> {1..hsize h}. used (t ! j) = 0} \<subseteq> insert i {j \<in> {1..hsize h}. used (t' ! j) = 0}" using t(4) by auto
  then have "card {j \<in> {1..hsize h}. used (t ! j) = 0} \<le> card (insert i {j \<in> {1..hsize h}. used (t' ! j) = 0})"
    by (intro card_mono) simp_all
  also have "\<dots> \<le> Suc (card {j \<in> {1..hsize h}. used (t' ! j) = 0})" by (intro card_insert_le_m1) (simp_all add: card_insert_if)
  finally show ?thesis using t(1-3) by (simp add: empties_def)
qed

lemma empties_fresh: "empties \<lparr>table = Some (replicate (n + 1) null_slot), hsize = n, filled = f, change_ok = c\<rparr> = n"
proof -
  have "{i \<in> {1..n}. used (replicate (n + 1) null_slot ! i) = 0} = {1..n}" by (auto simp: null_slot_def simp del: replicate_Suc)
  then show ?thesis by (simp add: empties_def del: replicate_Suc)
qed

text \<open>A name that the hooks refused, in some table with part of the bindings \<open>m\<close>.\<close>

definition refused :: "hooks \<Rightarrow> u32 \<Rightarrow> (string \<Rightarrow> string option) \<Rightarrow> string \<Rightarrow> string \<Rightarrow> bool" where
  "refused hk flag m k v \<longleftrightarrow> (\<exists>h r. hinv h \<and> abs_env h \<subseteq>\<^sub>m m \<and> hsearch_r hk k (Some v) ENTER h flag = Some r
     \<and> ret r = 0 \<and> err r \<in> {Some EPERM, Some EINVAL})"

context env_hooks
begin

lemma enter_list_spec:
  assumes "hinv h" and "distinct (map fst es)" and "\<forall>k \<in> fst ` set es. abs_env h k = None" and "length es \<le> empties h"
    and "abs_env h \<subseteq>\<^sub>m m" and "\<forall>(k, v) \<in> set es. m k = Some v"
    and "\<And>env k. k \<in> fst ` set es \<Longrightarrow> env \<subseteq>\<^sub>m m \<Longrightarrow> safe env k"
  shows "\<exists>h'. enter_list hk flag es h = Some h' \<and> hinv h' \<and> abs_env h \<subseteq>\<^sub>m abs_env h' \<and> abs_env h' \<subseteq>\<^sub>m m
    \<and> (\<forall>(k, v) \<in> set es. abs_env h' k = Some v \<or> refused hk flag m k v)"
  using assms
proof (induction es arbitrary: h)
  case (Cons kv es)
  obtain k v where kv: "kv = (k, v)" by (cases kv)
  from Cons.prems(1) obtain t where t: "table h = Some t" "tinv (hsize h) t" by (auto simp: hinv_def)
  from Cons.prems(3) have none: "abs_env h k = None" by (simp add: kv)
  then have no: "\<not> holds (hsize h) t k i" for i using abs_dom [OF t, of k] by auto
  have "0 < card {i \<in> {1..hsize h}. used (t ! i) = 0}" using Cons.prems(4) t(1) by (simp add: empties_def)
  then obtain i0 where "i0 \<in> {1..hsize h}" "used (t ! i0) = 0" by (auto simp: card_gt_0_iff)
  moreover have up: "(abs_env h)(k \<mapsto> v) \<subseteq>\<^sub>m m" using Cons.prems(5,6) by (auto simp: map_le_def kv)
  moreover have "safe ((abs_env h)(k \<mapsto> v)) k" using Cons.prems(7) [OF _ up, of k] kv by (simp del: fun_upd_apply)
  ultimately obtain r where r: "hsearch_r hk k (Some v) ENTER h flag = Some r" "hinv (htab r)" "takes_one h (htab r)"
    "if ret r = 0 then abs_env (htab r) = abs_env h \<and> err r \<in> {Some EPERM, Some EINVAL} \<and> retval r = None
       else abs_env (htab r) = (abs_env h)(k \<mapsto> v) \<and> err r = None \<and> retval r \<noteq> None"
    using enter_absent [OF Cons.prems(1) t(1) no] by blast
  have le: "abs_env h \<subseteq>\<^sub>m abs_env (htab r)" "abs_env (htab r) \<subseteq>\<^sub>m m"
    using r(4) none up Cons.prems(5) by (auto simp: map_le_def split: if_splits)
  have rest: "\<forall>k' \<in> fst ` set es. abs_env (htab r) k' = None"
    using r(4) Cons.prems(2,3) by (auto simp: kv split: if_splits)
  have "length es \<le> empties (htab r)" using takes_one_empties [OF r(3) Cons.prems(1)] Cons.prems(4) by simp
  from Cons.IH [OF r(2) _ rest this le(2)] Cons.prems(2,6,7) obtain h' where
    h': "enter_list hk flag es (htab r) = Some h'" "hinv h'" "abs_env (htab r) \<subseteq>\<^sub>m abs_env h'" "abs_env h' \<subseteq>\<^sub>m m"
      "\<forall>(k, v) \<in> set es. abs_env h' k = Some v \<or> refused hk flag m k v" by auto
  have "abs_env h' k = Some v \<or> refused hk flag m k v"
  proof (cases "ret r = 0")
    case True
    with r(1,4) Cons.prems(1,5) show ?thesis unfolding refused_def by auto
  next
    case False
    with r(4) have "abs_env (htab r) k = Some v" by simp
    with h'(3) show ?thesis by (auto simp: map_le_def dom_def)
  qed
  moreover have "abs_env h \<subseteq>\<^sub>m abs_env h'" by (rule map_le_trans [OF le(1) h'(3)])
  ultimately show ?case using r(1) h' by (simp add: kv)
qed auto

end

section \<open>The entries of a well-formed table\<close>

lemma those_map: "(\<forall>x \<in> set xs. f x = Some (g x)) \<Longrightarrow> those (map f xs) = Some (map g xs)"
  by (induction xs) auto

definition slot_pair :: "slot \<Rightarrow> string \<times> string" where
  "slot_pair s = (the (key (entry s)), the (data (entry s)))"

lemma bucket_set: "set (map ((!) t) [1..<n + 1]) = (!) t ` {1..n}"
  by (simp add: atLeastLessThanSuc_atLeastAtMost del: upt_Suc)

lemma table_entries_spec:
  assumes "tinv n t"
  shows "table_entries n t = Some (map slot_pair (filter live (map ((!) t) [1..<n + 1])))"
proof -
  have "\<exists>k d. key (entry s) = Some k \<and> data (entry s) = Some d"
    if "s \<in> set (filter live (map ((!) t) [1..<n + 1]))" for s
  proof -
    from that obtain i where i: "i \<in> {1..n}" "s = t ! i" "live s" unfolding set_filter bucket_set by blast
    from tinv_slot [OF assms i(1)] i(2,3) show ?thesis by (auto simp: slot_ok_def live_def)
  qed
  then have "those (map (\<lambda>s. do { k \<leftarrow> key (entry s); d \<leftarrow> data (entry s); Some (k, d) })
      (filter live (map ((!) t) [1..<n + 1]))) = Some (map slot_pair (filter live (map ((!) t) [1..<n + 1])))"
    by (intro those_map) (force simp: slot_pair_def)
  moreover have "live = (\<lambda>s. 0 < used s)" by (auto simp: live_def fun_eq_iff)
  ultimately show ?thesis by (simp only: table_entries_def)
qed

lemma entries_distinct:
  assumes "tinv n t"
  shows "distinct (map fst (map slot_pair (filter live (map ((!) t) [1..<n + 1]))))"
proof -
  let ?f = "\<lambda>i. the (key (entry (t ! i)))"
  have "map fst (map slot_pair (filter live (map ((!) t) [1..<n + 1]))) = map ?f (filter (\<lambda>i. live (t ! i)) [1..<n + 1])"
    by (simp add: filter_map o_def slot_pair_def del: upt_Suc)
  moreover have "inj_on ?f (set (filter (\<lambda>i. live (t ! i)) [1..<n + 1]))"
  proof (rule inj_onI)
    fix i j assume "i \<in> set (filter (\<lambda>i. live (t ! i)) [1..<n + 1])" "j \<in> set (filter (\<lambda>i. live (t ! i)) [1..<n + 1])"
      and eq: "?f i = ?f j"
    then have ij: "i \<in> {1..n}" "j \<in> {1..n}" "live (t ! i)" "live (t ! j)"
      by (simp_all del: upt_Suc)
    then obtain k k' where "key (entry (t ! i)) = Some k" "key (entry (t ! j)) = Some k'"
      using tinv_slot [OF assms, of i] tinv_slot [OF assms, of j] by (auto simp: slot_ok_def live_def)
    with eq have "key (entry (t ! i)) = key (entry (t ! j))" by simp
    with ij assms show "i = j" unfolding tinv_def by blast
  qed
  ultimately show ?thesis by (simp only: distinct_map) simp
qed

lemma table_entries_map:
  assumes "table h = Some t" and "tinv (hsize h) t"
  obtains es where "table_entries (hsize h) t = Some es" "\<And>k v. (k, v) \<in> set es \<longleftrightarrow> abs_env h k = Some v"
    "distinct (map fst es)"
proof -
  let ?es = "map slot_pair (filter live (map ((!) t) [1..<hsize h + 1]))"
  have "(k, v) \<in> set ?es \<longleftrightarrow> (\<exists>i \<in> {1..hsize h}. live (t ! i) \<and> slot_pair (t ! i) = (k, v))" for k v
    unfolding set_map set_filter bucket_set [unfolded set_map] by force
  moreover have "(\<exists>i \<in> {1..hsize h}. live (t ! i) \<and> slot_pair (t ! i) = (k, v)) \<longleftrightarrow> abs_env h k = Some v" for k v
  proof
    assume "\<exists>i \<in> {1..hsize h}. live (t ! i) \<and> slot_pair (t ! i) = (k, v)"
    then obtain i where i: "i \<in> {1..hsize h}" "live (t ! i)" "slot_pair (t ! i) = (k, v)" by blast
    with tinv_slot [OF assms(2) i(1)] have "key (entry (t ! i)) = Some k" "data (entry (t ! i)) = Some v"
      by (auto simp: slot_ok_def live_def slot_pair_def)
    with i abs_holds [OF assms, of k i] show "abs_env h k = Some v" by (simp add: holds_def)
  next
    assume a: "abs_env h k = Some v"
    then obtain i where i: "holds (hsize h) t k i" using abs_dom [OF assms, of k] by (auto simp: dom_def)
    moreover have "data (entry (t ! i)) = Some v" using abs_holds [OF assms i] a by simp
    ultimately show "\<exists>i \<in> {1..hsize h}. live (t ! i) \<and> slot_pair (t ! i) = (k, v)"
      by (intro bexI [of _ i]) (simp_all add: holds_def slot_pair_def)
  qed
  moreover have "distinct (map fst ?es)" by (rule entries_distinct [OF assms(2)])
  ultimately show ?thesis using that table_entries_spec [OF assms(2)] by blast
qed

text \<open>How an export runs, given the selected entries.\<close>

lemma hexport_r_run:
  assumes "table h = Some t" and "table_entries (hsize h) t = Some es"
  obtains es' where "mset es' = mset (filter (selected flag args) es)" "qsort cmpkey (filter (selected flag args) es) = Some es'"
    "hexport_r (\<lambda>_. True) h sep flag None 0 args = (let n = sum_list (map (reserved sep) (filter (selected flag args) es)) + 1 in
       do { res \<leftarrow> put (concat (map (written sep) es') @ [NUL]) 0 (replicate n NUL); Some (Exported n res) })"
proof -
  obtain es' where q: "qsort cmpkey (filter (selected flag args) es) = Some es'"
    "mset es' = mset (filter (selected flag args) es)" using qsort_returns by blast
  show ?thesis by (rule that [OF q(2,1)]) (use assms q in \<open>simp add: hexport_r_def Let_def\<close>)
qed

text \<open>The number of backslashes in the values.\<close>

definition backslashes :: "(string \<times> string) list \<Rightarrow> nat" where
  "backslashes es = sum_list (map (\<lambda>kv. length (filter (is_escaped NUL) (snd kv))) es)"

lemma export_fits_iff:
  assumes "table h = Some t" and "table_entries (hsize h) t = Some es"
  shows "hexport_r (\<lambda>_. True) h sep flag None 0 args \<noteq> None
     \<longleftrightarrow> sep \<noteq> NUL \<or> backslashes (filter (selected flag args) es) \<le> 2 * length (filter (selected flag args) es)"
proof -
  let ?es = "filter (selected flag args) es"
  let ?n = "sum_list (map (reserved sep) ?es) + 1"
  obtain es' where e: "mset es' = mset ?es"
    "hexport_r (\<lambda>_. True) h sep flag None 0 args = (let n = ?n in
       do { res \<leftarrow> put (concat (map (written sep) es') @ [NUL]) 0 (replicate n NUL); Some (Exported n res) })"
    by (rule hexport_r_run [OF assms])
  let ?txt = "concat (map (written sep) es') @ [NUL]"
  have "put ?txt 0 (replicate ?n NUL) \<noteq> None \<longleftrightarrow> length ?txt \<le> ?n"
    using put_fits [of 0 ?txt "replicate ?n NUL"] put_overflows [of "replicate ?n NUL" 0 ?txt]
    by (cases "length ?txt \<le> ?n") simp_all
  then have "hexport_r (\<lambda>_. True) h sep flag None 0 args \<noteq> None \<longleftrightarrow> length ?txt \<le> ?n"
    unfolding e(2) Let_def by (cases "put ?txt 0 (replicate ?n NUL)") simp_all
  also have "\<dots> \<longleftrightarrow> sep \<noteq> NUL \<or> backslashes ?es \<le> 2 * length ?es"
    using total_length_sorted [OF e(1), of sep] by (cases "sep = NUL") (auto simp: backslashes_def)
  finally show ?thesis .
qed

lemma export_contents:
  assumes "table h = Some t" and "table_entries (hsize h) t = Some es"
    and "hexport_r (\<lambda>_. True) h sep flag None 0 args = Some (Exported n buf)"
  shows "\<exists>es' m. mset es' = mset (filter (selected flag args) es) \<and> buf = concat (map (written sep) es') @ NUL # replicate m NUL
    \<and> length buf = n"
proof -
  let ?es = "filter (selected flag args) es"
  obtain es' where e: "mset es' = mset ?es"
    "hexport_r (\<lambda>_. True) h sep flag None 0 args = (let n = sum_list (map (reserved sep) ?es) + 1 in
       do { res \<leftarrow> put (concat (map (written sep) es') @ [NUL]) 0 (replicate n NUL); Some (Exported n res) })"
    by (rule hexport_r_run [OF assms(1,2)])
  let ?txt = "concat (map (written sep) es') @ [NUL]"
  have p: "put ?txt 0 (replicate n NUL) = Some buf" using e(2) assms(3) by (auto simp: Let_def split: Option.bind_splits)
  then have len: "length ?txt \<le> n" using put_overflows [of "replicate n NUL" 0 ?txt] by fastforce
  then have "buf = ?txt @ replicate (n - length ?txt) NUL" using p put_fits [of 0 ?txt "replicate n NUL"] by simp
  with e(1) len show ?thesis
    by (intro exI [of _ es'] exI [of _ "n - length ?txt"]) simp
qed

text \<open>A table with one variable, for the witness.\<close>

definition one5 :: hsearch_data where
  "one5 = \<lparr>table = Some [null_slot, null_slot, null_slot,
       \<lparr>used = 3, entry = \<lparr>key = Some ''a'', data = Some ''b;c'', callback = None, flags = 0\<rparr>\<rparr>, null_slot, null_slot],
     hsize = 5, filled = 1, change_ok = None\<rparr>"

lemma one5_facts: "hinv one5" "abs_env one5 = [''a'' \<mapsto> ''b;c'']"
proof -
  let ?s = "\<lparr>used = 3, entry = \<lparr>key = Some ''a'', data = Some ''b;c'', callback = None, flags = 0\<rparr>\<rparr>"
  let ?t = "[null_slot, null_slot, null_slot, ?s, null_slot, null_slot]"
  have h: "hash1 5 ''a'' = 3" by (simp add: hash1_def hash_string_def Let_def)
  have idx: "{1..5::nat} = {1, 2, 3, 4, 5}" by auto
  have u: "used null_slot = 0" by (simp add: null_slot_def)
  have "slot_ok 5 ?t 3" unfolding slot_ok_def using h by (auto intro!: exI [of _ 0])
  then have inv: "tinv 5 ?t" unfolding tinv_def idx using good_size_5 u by (auto simp: slot_ok_def live_def)
  have "live_set 5 ?t = {3}" unfolding live_set_def idx live_def using u by auto
  with inv show "hinv one5" by (simp add: hinv_def one5_def)
  show "abs_env one5 = [''a'' \<mapsto> ''b;c'']"
    by (rule ext) (simp add: abs_env_def one5_def live_def u upt_rec)
qed

lemma one5_export: "hexport_r (\<lambda>_. True) one5 NUL 0 None 0 [] = Some (Exported 9 (''a=b;c'' @ replicate 4 NUL))"
  by (simp add: hexport_r_def one5_def table_entries_def null_slot_def upt_rec Let_def selected_def qsort_def
      reserved_def written_def is_escaped_def wr_def numeral_eq_Suc)

section \<open>Properties\<close>

text \<open>
  \<^bold>\<open>C38.\<close> Exporting a well-formed table into a buffer that \<open>hexport_r\<close> allocates itself stays inside
  this buffer for every separator but NUL; for the separator NUL, with which the environment is
  saved, it stays inside exactly when the values hold at most two backslashes per exported entry on
  average: pass 1 reserves no room for the backslashes that pass 2 adds.
\<close>

theorem hexport_r_buffer_overflow:
  assumes "hinv h"
  shows "\<exists>t es. table h = Some t \<and> table_entries (hsize h) t = Some es \<and>
    (hexport_r (\<lambda>_. True) h sep flag None 0 args = None \<longleftrightarrow>
      sep = NUL \<and> 2 * length (filter (selected flag args) es) < backslashes (filter (selected flag args) es))"
proof -
  from assms obtain t where t: "table h = Some t" "tinv (hsize h) t" by (auto simp: hinv_def)
  then obtain es where es: "table_entries (hsize h) t = Some es" using table_entries_spec by blast
  show ?thesis using export_fits_iff [OF t(1) es, of sep flag args] t(1) es
    by (intro exI [of _ t] exI [of _ es]) auto
qed

theorem hexport_r_buffer_overflow_witness:
  "\<exists>t es. table empty5 = Some t \<and> table_entries (hsize empty5) t = Some es \<and>
    (hexport_r (\<lambda>_. True) empty5 NUL 0 None 0 [] = None \<longleftrightarrow>
      NUL = NUL \<and> 2 * length (filter (selected 0 []) es) < backslashes (filter (selected 0 []) es))"
  by (rule hexport_r_buffer_overflow) (rule empty5_facts(1))



end
