(* ===== verification/Crc.thy ===== *)
theory Crc
  imports Prelude
begin

text \<open>
  The checksum of the environment and of images: \<^verbatim>\<open>lib/crc32.c\<close> on the little-endian target, where
  \<^verbatim>\<open>tole\<close>, \<^verbatim>\<open>cpu_to_le32\<close> and \<^verbatim>\<open>le32_to_cpu\<close> are the identity. The table is the one of the source;
  the reference is the shift register of the comment above \<^verbatim>\<open>make_crc_table\<close>.
\<close>

section \<open>The table and the routines\<close>

definition crc_table :: "u32 list" where
  "crc_table = [
     0x00000000, 0x77073096, 0xEE0E612C, 0x990951BA, 0x076DC419, 0x706AF48F, 0xE963A535, 0x9E6495A3,
     0x0EDB8832, 0x79DCB8A4, 0xE0D5E91E, 0x97D2D988, 0x09B64C2B, 0x7EB17CBD, 0xE7B82D07, 0x90BF1D91,
     0x1DB71064, 0x6AB020F2, 0xF3B97148, 0x84BE41DE, 0x1ADAD47D, 0x6DDDE4EB, 0xF4D4B551, 0x83D385C7,
     0x136C9856, 0x646BA8C0, 0xFD62F97A, 0x8A65C9EC, 0x14015C4F, 0x63066CD9, 0xFA0F3D63, 0x8D080DF5,
     0x3B6E20C8, 0x4C69105E, 0xD56041E4, 0xA2677172, 0x3C03E4D1, 0x4B04D447, 0xD20D85FD, 0xA50AB56B,
     0x35B5A8FA, 0x42B2986C, 0xDBBBC9D6, 0xACBCF940, 0x32D86CE3, 0x45DF5C75, 0xDCD60DCF, 0xABD13D59,
     0x26D930AC, 0x51DE003A, 0xC8D75180, 0xBFD06116, 0x21B4F4B5, 0x56B3C423, 0xCFBA9599, 0xB8BDA50F,
     0x2802B89E, 0x5F058808, 0xC60CD9B2, 0xB10BE924, 0x2F6F7C87, 0x58684C11, 0xC1611DAB, 0xB6662D3D,
     0x76DC4190, 0x01DB7106, 0x98D220BC, 0xEFD5102A, 0x71B18589, 0x06B6B51F, 0x9FBFE4A5, 0xE8B8D433,
     0x7807C9A2, 0x0F00F934, 0x9609A88E, 0xE10E9818, 0x7F6A0DBB, 0x086D3D2D, 0x91646C97, 0xE6635C01,
     0x6B6B51F4, 0x1C6C6162, 0x856530D8, 0xF262004E, 0x6C0695ED, 0x1B01A57B, 0x8208F4C1, 0xF50FC457,
     0x65B0D9C6, 0x12B7E950, 0x8BBEB8EA, 0xFCB9887C, 0x62DD1DDF, 0x15DA2D49, 0x8CD37CF3, 0xFBD44C65,
     0x4DB26158, 0x3AB551CE, 0xA3BC0074, 0xD4BB30E2, 0x4ADFA541, 0x3DD895D7, 0xA4D1C46D, 0xD3D6F4FB,
     0x4369E96A, 0x346ED9FC, 0xAD678846, 0xDA60B8D0, 0x44042D73, 0x33031DE5, 0xAA0A4C5F, 0xDD0D7CC9,
     0x5005713C, 0x270241AA, 0xBE0B1010, 0xC90C2086, 0x5768B525, 0x206F85B3, 0xB966D409, 0xCE61E49F,
     0x5EDEF90E, 0x29D9C998, 0xB0D09822, 0xC7D7A8B4, 0x59B33D17, 0x2EB40D81, 0xB7BD5C3B, 0xC0BA6CAD,
     0xEDB88320, 0x9ABFB3B6, 0x03B6E20C, 0x74B1D29A, 0xEAD54739, 0x9DD277AF, 0x04DB2615, 0x73DC1683,
     0xE3630B12, 0x94643B84, 0x0D6D6A3E, 0x7A6A5AA8, 0xE40ECF0B, 0x9309FF9D, 0x0A00AE27, 0x7D079EB1,
     0xF00F9344, 0x8708A3D2, 0x1E01F268, 0x6906C2FE, 0xF762575D, 0x806567CB, 0x196C3671, 0x6E6B06E7,
     0xFED41B76, 0x89D32BE0, 0x10DA7A5A, 0x67DD4ACC, 0xF9B9DF6F, 0x8EBEEFF9, 0x17B7BE43, 0x60B08ED5,
     0xD6D6A3E8, 0xA1D1937E, 0x38D8C2C4, 0x4FDFF252, 0xD1BB67F1, 0xA6BC5767, 0x3FB506DD, 0x48B2364B,
     0xD80D2BDA, 0xAF0A1B4C, 0x36034AF6, 0x41047A60, 0xDF60EFC3, 0xA867DF55, 0x316E8EEF, 0x4669BE79,
     0xCB61B38C, 0xBC66831A, 0x256FD2A0, 0x5268E236, 0xCC0C7795, 0xBB0B4703, 0x220216B9, 0x5505262F,
     0xC5BA3BBE, 0xB2BD0B28, 0x2BB45A92, 0x5CB36A04, 0xC2D7FFA7, 0xB5D0CF31, 0x2CD99E8B, 0x5BDEAE1D,
     0x9B64C2B0, 0xEC63F226, 0x756AA39C, 0x026D930A, 0x9C0906A9, 0xEB0E363F, 0x72076785, 0x05005713,
     0x95BF4A82, 0xE2B87A14, 0x7BB12BAE, 0x0CB61B38, 0x92D28E9B, 0xE5D5BE0D, 0x7CDCEFB7, 0x0BDBDF21,
     0x86D3D2D4, 0xF1D4E242, 0x68DDB3F8, 0x1FDA836E, 0x81BE16CD, 0xF6B9265B, 0x6FB077E1, 0x18B74777,
     0x88085AE6, 0xFF0F6A70, 0x66063BCA, 0x11010B5C, 0x8F659EFF, 0xF862AE69, 0x616BFFD3, 0x166CCF45,
     0xA00AE278, 0xD70DD2EE, 0x4E048354, 0x3903B3C2, 0xA7672661, 0xD06016F7, 0x4969474D, 0x3E6E77DB,
     0xAED16A4A, 0xD9D65ADC, 0x40DF0B66, 0x37D83BF0, 0xA9BCAE53, 0xDEBB9EC5, 0x47B2CF7F, 0x30B5FFE9,
     0xBDBDF21C, 0xCABAC28A, 0x53B39330, 0x24B4A3A6, 0xBAD03605, 0xCDD70693, 0x54DE5729, 0x23D967BF,
     0xB3667A2E, 0xC4614AB8, 0x5D681B02, 0x2A6F2B94, 0xB40BBE37, 0xC30C8EA1, 0x5A05DF1B, 0x2D02EF8D]"

text \<open>\<^verbatim>\<open>make_crc_table\<close>: the polynomial from the list of its exponents, and one entry.\<close>

definition crc_poly :: u32 where
  "crc_poly = fold (\<lambda>p poly. poly OR push_bit (31 - p) 1) [0, 1, 2, 4, 5, 7, 8, 10, 11, 12, 16, 22, 23, 26] 0"

definition crc_bit :: "u32 \<Rightarrow> u32" where
  "crc_bit c = (if c AND 1 \<noteq> 0 then crc_poly XOR drop_bit 1 c else drop_bit 1 c)"

definition make_crc_table :: "u32 list" where
  "make_crc_table = map (\<lambda>n. (crc_bit ^^ 8) (of_nat n)) [0..<256]"

text \<open>\<^verbatim>\<open>DO_CRC(x)\<close> on a little-endian machine; the index is below 256.\<close>

definition do_crc :: "u32 \<Rightarrow> u32 \<Rightarrow> u32" where
  "do_crc x crc = crc_table ! unat ((crc XOR x) AND 255) XOR drop_bit 8 crc"

text \<open>The bytes up to the next word boundary; \<open>p\<close> is the address.\<close>

fun align_loop :: "nat \<Rightarrow> u32 \<Rightarrow> u8 list \<Rightarrow> u32 \<times> u8 list" where
  "align_loop p crc [] = (crc, [])"
| "align_loop p crc (b # bs) =
     (let crc = do_crc (ucast b) crc
      in if bs \<noteq> [] \<and> (p + 1) mod 4 \<noteq> 0 then align_loop (p + 1) crc bs else (crc, bs))"

definition le32 :: "u8 \<Rightarrow> u8 \<Rightarrow> u8 \<Rightarrow> u8 \<Rightarrow> u32" where
  "le32 b0 b1 b2 b3 = ucast b0 OR push_bit 8 (ucast b1) OR push_bit 16 (ucast b2) OR push_bit 24 (ucast b3)"

text \<open>The loop over whole words: \<^verbatim>\<open>len >> 2\<close> of them, and \<^verbatim>\<open>len & 3\<close> bytes remain.\<close>

fun word_loop :: "u32 \<Rightarrow> u8 list \<Rightarrow> u32 \<times> u8 list" where
  "word_loop crc (b0 # b1 # b2 # b3 # bs) =
     word_loop (do_crc 0 (do_crc 0 (do_crc 0 (do_crc 0 (crc XOR le32 b0 b1 b2 b3))))) bs"
| "word_loop crc bs = (crc, bs)"

definition crc32_no_comp :: "nat \<Rightarrow> u32 \<Rightarrow> u8 list \<Rightarrow> u32" where
  "crc32_no_comp p crc buf =
     (let (crc, buf) = (if p mod 4 \<noteq> 0 \<and> buf \<noteq> [] then align_loop p crc buf else (crc, buf));
          (crc, rem) = word_loop crc buf
      in fold (\<lambda>b crc. do_crc (ucast b) crc) rem crc)"

definition crc32 :: "nat \<Rightarrow> u32 \<Rightarrow> u8 list \<Rightarrow> u32" where
  "crc32 p crc buf = crc32_no_comp p (crc XOR 0xFFFFFFFF) buf XOR 0xFFFFFFFF"

text \<open>\<^verbatim>\<open>crc32_wd\<close> with a watchdog: the buffer in pieces of at most \<open>chunk_sz\<close> bytes.\<close>

function crc32_wd :: "nat \<Rightarrow> u32 \<Rightarrow> u8 list \<Rightarrow> nat \<Rightarrow> u32 option" where
  "crc32_wd p crc buf chunk_sz =
     (if buf = [] then Some crc
      else if chunk_sz = 0 then None
      else crc32_wd (p + min (length buf) chunk_sz) (crc32 p crc (take chunk_sz buf)) (drop chunk_sz buf) chunk_sz)"
  by pat_completeness auto
termination by (relation "measure (\<lambda>(p, crc, buf, chunk_sz). length buf)") auto

declare crc32_wd.simps [simp del]

section \<open>The table holds the remainders of all bytes\<close>

lemma crc_poly_value: "crc_poly = 0xEDB88320"
  by (simp add: crc_poly_def)

lemma crc_bit_numeral:
  "crc_bit 0 = 0" "crc_bit 1 = 0xEDB88320"
  "crc_bit (numeral (num.Bit0 n)) = drop_bit 1 (numeral (num.Bit0 n))"
  "crc_bit (numeral (num.Bit1 n)) = 0xEDB88320 XOR drop_bit 1 (numeral (num.Bit1 n))"
  by (simp_all add: crc_bit_def crc_poly_value)

definition crc_byte :: "u32 \<Rightarrow> u32" where
  "crc_byte c = crc_bit (crc_bit (crc_bit (crc_bit (crc_bit (crc_bit (crc_bit (crc_bit c)))))))"

lemma crc_byte_power: "(crc_bit ^^ 8) c = crc_byte c"
  by (simp add: crc_byte_def numeral_eq_Suc)

fun table_from :: "u32 \<Rightarrow> u32 list \<Rightarrow> bool" where
  "table_from n [] = True"
| "table_from n (x # xs) = (crc_byte n = x \<and> table_from (n + 1) xs)"

lemma crc_table_from: "table_from 0 crc_table"
  unfolding crc_table_def by (simp add: crc_byte_def crc_bit_numeral)

lemma table_from_nth: "table_from n xs \<Longrightarrow> i < length xs \<Longrightarrow> xs ! i = crc_byte (n + of_nat i)"
proof (induction xs arbitrary: n i)
  case (Cons x xs)
  show ?case
  proof (cases i)
    case (Suc j)
    then have "xs ! j = crc_byte (n + 1 + of_nat j)" using Cons.IH [of "n + 1" j] Cons.prems by simp
    with Suc show ?thesis by (simp add: add.assoc)
  qed (use Cons.prems in simp)
qed simp

lemma crc_table_length: "length crc_table = 256"
  by (simp add: crc_table_def)

lemma crc_table_nth: "i < 256 \<Longrightarrow> crc_table ! i = crc_byte (of_nat i)"
  using table_from_nth [OF crc_table_from, of i] by (simp add: crc_table_length)

section \<open>One byte of the table method is eight steps of the shift register\<close>

lemma crc_bit_xor: "crc_bit (a XOR b) = crc_bit a XOR crc_bit b"
proof -
  have "c AND 1 \<noteq> 0 \<longleftrightarrow> odd c" for c :: u32 by (simp add: and_one_eq odd_iff_mod_2_eq_one)
  then show ?thesis
    by (auto simp: crc_bit_def drop_bit_xor even_xor_iff xor.assoc xor.left_commute xor.commute)
qed

lemma crc_bit_shift: "\<not> bit c 0 \<Longrightarrow> crc_bit c = drop_bit 1 c"
  by (simp add: crc_bit_def and_one_eq bit_0 mod_2_eq_odd)

lemma crc_byte_xor: "crc_byte (a XOR b) = crc_byte a XOR crc_byte b"
  by (simp add: crc_byte_def crc_bit_xor)

lemma crc_byte_shift:
  assumes "\<And>n. n < 8 \<Longrightarrow> \<not> bit c n"
  shows "crc_byte c = drop_bit 8 c"
proof -
  have "crc_bit (drop_bit n c) = drop_bit (Suc n) c" if "n < 8" for n
  proof -
    have "\<not> bit (drop_bit n c) 0" using assms [OF that] by (simp add: bit_drop_bit_eq)
    then show ?thesis by (simp add: crc_bit_shift drop_bit_drop_bit)
  qed
  from this [of 0] this [of 1] this [of 2] this [of 3] this [of 4] this [of 5] this [of 6] this [of 7]
  have "crc_bit c = drop_bit 1 c" "crc_bit (drop_bit 1 c) = drop_bit 2 c" "crc_bit (drop_bit 2 c) = drop_bit 3 c"
    "crc_bit (drop_bit 3 c) = drop_bit 4 c" "crc_bit (drop_bit 4 c) = drop_bit 5 c" "crc_bit (drop_bit 5 c) = drop_bit 6 c"
    "crc_bit (drop_bit 6 c) = drop_bit 7 c" "crc_bit (drop_bit 7 c) = drop_bit 8 c"
    by (simp_all add: numeral_eq_Suc)
  then show ?thesis unfolding crc_byte_def by (simp only:)
qed

lemma low_byte: "c AND 255 = take_bit 8 c" for c :: u32
  by (simp add: take_bit_eq_mask mask_eq_exp_minus_1)

lemma split_low_byte: "c = (c AND 255) XOR push_bit 8 (drop_bit 8 c)" for c :: u32
  unfolding low_byte by (rule bit_word_eqI) (auto simp: bit_simps)

lemma crc_byte_split: "crc_byte c = crc_byte (c AND 255) XOR drop_bit 8 c"
proof -
  have "crc_byte (push_bit 8 (drop_bit 8 c)) = drop_bit 8 (push_bit 8 (drop_bit 8 c))"
    by (rule crc_byte_shift) (simp add: bit_push_bit_iff)
  also have "\<dots> = drop_bit 8 c"
    by (rule bit_word_eqI) (auto simp: bit_simps dest: bit_imp_le_length)
  finally show ?thesis by (metis split_low_byte crc_byte_xor)
qed

lemma low_index: "unat (c AND 255 :: u32) < 256"
proof -
  have "c AND 255 \<le> (255 :: u32)" by (rule word_and_le1)
  then have "unat (c AND 255) \<le> unat (255 :: u32)" by (simp only: word_le_nat_alt)
  then show ?thesis by simp
qed

lemma do_crc_byte: "do_crc (ucast (b :: u8)) crc = crc_byte (crc XOR ucast b)"
proof -
  have "drop_bit 8 (crc XOR ucast b) = drop_bit 8 crc"
    by (rule bit_word_eqI) (auto simp: bit_simps dest: bit_imp_le_length)
  then show ?thesis
    unfolding do_crc_def by (simp add: crc_table_nth low_index crc_byte_split [of "crc XOR ucast b"])
qed

lemma do_crc_0: "do_crc 0 crc = crc_byte crc"
  using do_crc_byte [of 0 crc] by simp

section \<open>The word loop and the reference\<close>

definition crc_ref :: "u32 \<Rightarrow> u8 list \<Rightarrow> u32" where
  "crc_ref crc bs = fold (\<lambda>b crc. (crc_bit ^^ 8) (crc XOR ucast b)) bs crc"

lemma crc_ref_simps [simp]:
  "crc_ref crc [] = crc" "crc_ref crc (b # bs) = crc_ref (crc_byte (crc XOR ucast b)) bs"
  by (simp_all add: crc_ref_def crc_byte_power)

lemma crc_ref_append: "crc_ref crc (as @ bs) = crc_ref (crc_ref crc as) bs"
  by (simp add: crc_ref_def)

lemma le32_xor:
  "le32 b0 b1 b2 b3 = ucast b0 XOR push_bit 8 (ucast b1) XOR push_bit 16 (ucast b2) XOR push_bit 24 (ucast b3)"
  unfolding le32_def
  by (rule bit_word_eqI) (auto simp: bit_simps dest: bit_imp_le_length)

lemma crc_byte_shifted:
  "crc_byte (push_bit 8 (ucast (b :: u8))) = ucast b"
  "crc_byte (push_bit 16 (ucast b)) = push_bit 8 (ucast b)"
  "crc_byte (push_bit 24 (ucast b)) = push_bit 16 (ucast b)"
proof -
  have "crc_byte (push_bit (8 + k) (ucast b)) = push_bit k (ucast b)" if "k + 8 \<le> 24" for k
  proof -
    have "crc_byte (push_bit (8 + k) (ucast b)) = drop_bit 8 (push_bit (8 + k) (ucast b))"
      by (rule crc_byte_shift) (simp add: bit_push_bit_iff)
    also have "\<dots> = push_bit k (ucast b)"
      by (rule bit_word_eqI) (use that in \<open>auto simp: bit_simps dest: bit_imp_le_length\<close>)
    finally show ?thesis .
  qed
  from this [of 0] this [of 8] this [of 16] show
    "crc_byte (push_bit 8 (ucast (b :: u8))) = ucast b"
    "crc_byte (push_bit 16 (ucast b)) = push_bit 8 (ucast b)"
    "crc_byte (push_bit 24 (ucast b)) = push_bit 16 (ucast b)" by simp_all
qed

lemma word_step:
  "do_crc 0 (do_crc 0 (do_crc 0 (do_crc 0 (crc XOR le32 b0 b1 b2 b3)))) = crc_ref crc [b0, b1, b2, b3]"
  by (simp add: do_crc_0 le32_xor crc_byte_xor crc_byte_shifted xor.assoc xor.left_commute xor.commute)

lemma word_loop_ref:
  "word_loop crc bs = (crc', r) \<Longrightarrow> crc_ref crc' r = crc_ref crc bs"
proof (induction crc bs rule: word_loop.induct)
  case (1 crc b0 b1 b2 b3 bs)
  then show ?case using word_step [of crc b0 b1 b2 b3] crc_ref_append [of crc "[b0, b1, b2, b3]" bs]
    by (simp only: word_loop.simps append_Cons append_Nil)
qed auto

lemma align_loop_ref: "align_loop p crc bs = (crc', r) \<Longrightarrow> crc_ref crc' r = crc_ref crc bs"
proof (induction p crc bs rule: align_loop.induct)
  case (2 p crc b bs)
  then show ?case by (auto simp: Let_def do_crc_byte split: if_splits)
qed simp

lemma fold_do_crc: "fold (\<lambda>b crc. do_crc (ucast b) crc) bs crc = crc_ref crc bs"
  by (induction bs arbitrary: crc) (simp_all add: do_crc_byte)

lemma crc32_no_comp_ref: "crc32_no_comp p crc bs = crc_ref crc bs"
proof -
  obtain crc1 bs1 where a: "(if p mod 4 \<noteq> 0 \<and> bs \<noteq> [] then align_loop p crc bs else (crc, bs)) = (crc1, bs1)" by fastforce
  obtain crc2 bs2 where w: "word_loop crc1 bs1 = (crc2, bs2)" by fastforce
  have "crc_ref crc1 bs1 = crc_ref crc bs" using a align_loop_ref by (auto split: if_splits)
  with word_loop_ref [OF w] show ?thesis
    by (simp only: crc32_no_comp_def a w Let_def prod.case fold_do_crc)
qed

lemma crc32_append: "crc32 q (crc32 p crc as) bs = crc32 p crc (as @ bs)"
  by (simp add: crc32_def crc32_no_comp_ref crc_ref_append xor.assoc)

lemma crc32_no_position: "crc32 p crc bs = crc32 q crc bs"
  by (simp add: crc32_def crc32_no_comp_ref)

section \<open>The shift register loses no information\<close>

lemma crc_bit_inj: "crc_bit a = crc_bit b \<Longrightarrow> a = b"
proof -
  assume eq: "crc_bit a = crc_bit b"
  have top: "bit (crc_bit c) 31 \<longleftrightarrow> bit c 0" for c
  proof -
    have "bit crc_poly 31" by (simp add: crc_poly_value)
    moreover have "\<not> bit (drop_bit 1 c) 31" by (auto simp: bit_drop_bit_eq dest: bit_imp_le_length)
    ultimately show ?thesis by (simp add: crc_bit_def bit_xor_iff and_one_eq mod_2_eq_odd bit_0)
  qed
  have zero: "bit a 0 \<longleftrightarrow> bit b 0" using top eq by metis
  then have d: "drop_bit 1 a = drop_bit 1 b"
  proof -
    have "drop_bit 1 a = (if bit a 0 then crc_poly XOR crc_bit a else crc_bit a)"
      "drop_bit 1 b = (if bit b 0 then crc_poly XOR crc_bit b else crc_bit b)"
      by (simp_all add: crc_bit_def and_one_eq mod_2_eq_odd bit_0 flip: xor.assoc)
    then show ?thesis using eq zero by simp
  qed
  show "a = b"
  proof (rule bit_word_eqI)
    fix n assume "n < LENGTH(32)"
    have "bit (drop_bit 1 a) (n - 1) = bit (drop_bit 1 b) (n - 1)" using d by simp
    then show "bit a n = bit b n" using zero by (cases n) (simp_all add: bit_drop_bit_eq)
  qed
qed

lemma crc_byte_inj: "crc_byte a = crc_byte b \<Longrightarrow> a = b"
proof -
  have "crc_bit x = crc_bit y \<longleftrightarrow> x = y" for x y using crc_bit_inj by blast
  then show "crc_byte a = crc_byte b \<Longrightarrow> a = b" by (simp only: crc_byte_def)
qed

lemma xor_cancel: "a XOR c = b XOR c \<Longrightarrow> a = b" for a b c :: "'a :: len word"
proof -
  assume "a XOR c = b XOR c"
  then have "(a XOR c) XOR c = (b XOR c) XOR c" by simp
  then show "a = b" by (simp add: xor.assoc)
qed

lemma ucast_byte_inj: "(ucast a :: u32) = ucast b \<Longrightarrow> a = b" for a b :: u8
proof (rule bit_word_eqI)
  fix n assume "(ucast a :: u32) = ucast b" "n < LENGTH(8)"
  then have "bit (ucast a :: u32) n = bit (ucast b :: u32) n" by simp
  then show "bit a n = bit b n" using \<open>n < LENGTH(8)\<close> by (simp add: bit_unsigned_iff)
qed

lemma crc_ref_inj: "crc_ref a bs = crc_ref b bs \<Longrightarrow> a = b"
proof (induction bs arbitrary: a b)
  case (Cons x bs)
  then have "a XOR ucast x = b XOR ucast x" by (auto dest: crc_byte_inj)
  then show ?case by (rule xor_cancel)
qed simp

lemma crc32_wd_whole: "0 < chunk_sz \<Longrightarrow> crc32_wd p crc bs chunk_sz = Some (crc32 p crc bs)"
proof (induction p crc bs chunk_sz rule: crc32_wd.induct)
  case (1 p crc bs chunk_sz)
  show ?case
  proof (cases "bs = []")
    case True
    then show ?thesis by (simp add: crc32_wd.simps [of p crc "[]"] crc32_def crc32_no_comp_ref xor.assoc)
  next
    case False
    let ?q = "p + min (length bs) chunk_sz"
    have "crc32_wd ?q (crc32 p crc (take chunk_sz bs)) (drop chunk_sz bs) chunk_sz
        = Some (crc32 ?q (crc32 p crc (take chunk_sz bs)) (drop chunk_sz bs))"
      using 1(1) [OF False] 1(2) by simp
    then show ?thesis using False 1(2) by (simp add: crc32_wd.simps [of p crc bs] crc32_append)
  qed
qed

lemma crc32_byte_differs:
  assumes "a \<noteq> b"
  shows "crc32 p crc (xs @ a # ys) \<noteq> crc32 p crc (xs @ b # ys)"
proof
  assume "crc32 p crc (xs @ a # ys) = crc32 p crc (xs @ b # ys)"
  then have "crc_ref (crc XOR 0xFFFFFFFF) (xs @ a # ys) = crc_ref (crc XOR 0xFFFFFFFF) (xs @ b # ys)"
    unfolding crc32_def crc32_no_comp_ref by (rule xor_cancel)
  then have "crc_byte (crc_ref (crc XOR 0xFFFFFFFF) xs XOR ucast a) = crc_byte (crc_ref (crc XOR 0xFFFFFFFF) xs XOR ucast b)"
    by (auto simp: crc_ref_append dest: crc_ref_inj)
  then have "(ucast a :: u32) = ucast b"
    using xor_cancel [of "ucast a" "crc_ref (crc XOR 0xFFFFFFFF) xs" "ucast b"] by (auto dest!: crc_byte_inj simp: xor.commute)
  then have "a = b" by (rule ucast_byte_inj)
  with assms show False by simp
qed

section \<open>Properties\<close>

text \<open>
  The 256 constants of the table are what \<^verbatim>\<open>make_crc_table\<close> computes.
\<close>

theorem crc_table_correct: "crc_table = make_crc_table"
  by (rule nth_equalityI) (simp_all add: make_crc_table_def crc_table_length crc_table_nth crc_byte_power)

text \<open>
  \<^bold>\<open>C22.\<close> \<open>crc32\<close>, with its byte loop up to a word boundary, its loop over 32-bit words and its loop
  over the last bytes, computes for every alignment of the buffer the bit-by-bit shift register
  with the polynomial of the source, started and finished with the ones' complement.
\<close>

theorem crc32_is_shift_register:
  "crc32 p crc bs
     = fold (\<lambda>b crc. (crc_bit ^^ 8) (crc XOR ucast b)) bs (crc XOR 0xFFFFFFFF) XOR 0xFFFFFFFF"
  by (simp add: crc32_def crc32_no_comp_ref crc_ref_def)

text \<open>
  Computing the checksum in chunks with the watchdog ends and gives the checksum of the
  whole buffer, whatever the size of the chunks.
\<close>

theorem crc32_wd_is_crc32:
  assumes "0 < chunk_sz"
  shows "crc32_wd p crc bs chunk_sz = Some (crc32 p crc bs)"
  using assms by (rule crc32_wd_whole)

theorem crc32_wd_is_crc32_witness: "crc32_wd 2 0 [1, 2, 3] 2 = Some (crc32 2 0 [1, 2, 3])"
  by (rule crc32_wd_is_crc32) simp

text \<open>
  A change of a single byte of a buffer always changes its checksum.
\<close>

theorem crc32_detects_byte_error:
  assumes "a \<noteq> b"
  shows "crc32 p crc (xs @ a # ys) \<noteq> crc32 p crc (xs @ b # ys)"
  using assms by (rule crc32_byte_differs)

theorem crc32_detects_byte_error_witness: "crc32 0 0 ([1] @ 2 # [3]) \<noteq> crc32 0 0 ([1] @ 4 # [3])"
  by (rule crc32_detects_byte_error) simp

end
