(* ===== verification/Nvedit.thy ===== *)
theory Nvedit
  imports HashImpExp Crc
begin

text \<open>
  The users of the table: setting, reading and deleting variables (\<^verbatim>\<open>common/cmd_nvedit.c\<close>), and
  loading the environment with its checksum or falling back to the default one
  (\<^verbatim>\<open>common/env_common.c\<close>). The state is the table \<^verbatim>\<open>env_htab\<close>, the counter \<^verbatim>\<open>env_id\<close> and the bit
  \<^verbatim>\<open>GD_FLG_ENV_READY\<close> of \<^verbatim>\<open>gd->flags\<close>; messages to the console are left out.
\<close>

record env_state =
  env_htab :: hsearch_data
  env_id :: int
  env_ready_flag :: bool

definition H_INTERACTIVE :: u32 where "H_INTERACTIVE = 4"
definition CMD_RET_USAGE :: int where "CMD_RET_USAGE = -1"

definition hooks_in :: "world \<Rightarrow> env_state \<Rightarrow> hooks" where
  "hooks_in w st = env_hooks_of (w\<lparr>env_ready := env_ready_flag st\<rparr>)"

definition getenv_in :: "world \<Rightarrow> env_state \<Rightarrow> string \<Rightarrow> string option option" where
  "getenv_in w st name = getenv (w\<lparr>env_ready := env_ready_flag st\<rparr>) (env_htab st) name"

section \<open>Setting and deleting\<close>

text \<open>
  The option loop: leading arguments that start with a minus may contain the letter f only.
  \<open>args\<close> is \<^verbatim>\<open>argv[1]\<close> to \<^verbatim>\<open>argv[argc - 1]\<close>; \<open>None\<close> means that the usage is to be shown.
\<close>

primrec env_options :: "string list \<Rightarrow> u32 \<Rightarrow> (u32 \<times> string list) option" where
  "env_options [] env_flag = Some (env_flag, [])"
| "env_options (a # args) env_flag =
     (if a = [] \<or> hd a \<noteq> CHR ''-'' then Some (env_flag, a # args)
      else if \<exists>c \<in> set (tl a). c \<noteq> CHR ''f'' then None
      else env_options args (if tl a = [] then env_flag else env_flag OR H_FORCE))"

text \<open>Every argument is copied with a space behind it; the last space becomes the terminator.\<close>

fun copy_args :: "string list \<Rightarrow> string" where
  "copy_args [] = []"
| "copy_args (v # vs) = v @ CHR '' '' # copy_args vs"

definition do_env_set_args :: "world \<Rightarrow> string list \<Rightarrow> env_state \<Rightarrow> (int \<times> env_state) option" where
  "do_env_set_args w args st =
     (case env_options args H_INTERACTIVE of
        None \<Rightarrow> Some (CMD_RET_USAGE, st)
      | Some (env_flag, []) \<Rightarrow> None
      | Some (env_flag, name # vals) \<Rightarrow>
          if CHR ''='' \<in> set name then Some (1, st)
          else let st = st\<lparr>env_id := env_id st + 1\<rparr> in
            if vals = [] then do {
              r \<leftarrow> hdelete_r (hooks_in w st) name (env_htab st) env_flag;
              Some (if ret r = 0 then 1 else 0, st\<lparr>env_htab := htab r\<rparr>) }
            else if \<not> malloc_ok w (length (copy_args vals)) then Some (1, st)
            else do {
              r \<leftarrow> hsearch_r (hooks_in w st) name (Some (butlast (copy_args vals))) ENTER (env_htab st) env_flag;
              Some (if retval r = None then 1 else 0, st\<lparr>env_htab := htab r\<rparr>) })"

definition do_env_set :: "world \<Rightarrow> string list \<Rightarrow> env_state \<Rightarrow> (int \<times> env_state) option" where
  "do_env_set w args st = (if args = [] then Some (CMD_RET_USAGE, st) else do_env_set_args w args st)"

definition setenv :: "world \<Rightarrow> string \<Rightarrow> string option \<Rightarrow> env_state \<Rightarrow> (int \<times> env_state) option" where
  "setenv w varname varvalue st =
     (case varvalue of None \<Rightarrow> do_env_set_args w [varname] st
      | Some v \<Rightarrow> if v = [] then do_env_set_args w [varname] st else do_env_set_args w [varname, v] st)"

fun delete_names :: "world \<Rightarrow> u32 \<Rightarrow> string list \<Rightarrow> int \<Rightarrow> env_state \<Rightarrow> (int \<times> env_state) option" where
  "delete_names w env_flag [] rc st = Some (rc, st)"
| "delete_names w env_flag (name # names) rc st = do {
     r \<leftarrow> hdelete_r (hooks_in w st) name (env_htab st) env_flag;
     delete_names w env_flag names (if ret r = 0 then 1 else rc) (st\<lparr>env_htab := htab r\<rparr>) }"

definition do_env_delete :: "world \<Rightarrow> string list \<Rightarrow> env_state \<Rightarrow> (int \<times> env_state) option" where
  "do_env_delete w args st =
     (case env_options args H_INTERACTIVE of
        None \<Rightarrow> Some (CMD_RET_USAGE, st)
      | Some (env_flag, names) \<Rightarrow> delete_names w env_flag names 0 (st\<lparr>env_id := env_id st + 1\<rparr>))"

definition getenv_yesno :: "world \<Rightarrow> env_state \<Rightarrow> string \<Rightarrow> int option" where
  "getenv_yesno w st var = do {
     s \<leftarrow> getenv_in w st var;
     Some (case s of None \<Rightarrow> -1
           | Some v \<Rightarrow> if v \<noteq> [] \<and> hd v \<in> set ''1yYtT'' then 1 else 0) }"

section \<open>Reading before relocation\<close>

text \<open>
  \<^verbatim>\<open>envmatch\<close> compares a name (with its terminator) with the environment at an index, and \<^verbatim>\<open>getenv_f\<close>
  scans the linear environment. \<open>env\<close> are the bytes that \<^verbatim>\<open>env_get_char\<close> reads, \<open>env_size\<close> is
  \<^verbatim>\<open>CONFIG_ENV_SIZE\<close>. \<open>Some None\<close> is the result -1.
\<close>

fun envmatch :: "char list \<Rightarrow> char list \<Rightarrow> nat \<Rightarrow> nat option option" where
  "envmatch env [] i2 = None"
| "envmatch env (c # s1) i2 = do {
     d \<leftarrow> rd env i2;
     if c = d then (if c = CHR ''='' then Some (Some (i2 + 1)) else envmatch env s1 (i2 + 1))
     else if c = NUL \<and> d = CHR ''='' then Some (Some (i2 + 1))
     else Some None }"

function entry_end :: "char list \<Rightarrow> nat \<Rightarrow> nat \<Rightarrow> nat option option" where
  "entry_end env env_size nxt = do {
     c \<leftarrow> rd env nxt;
     if c = NUL then Some (Some nxt)
     else if nxt \<ge> env_size then Some None
     else entry_end env env_size (nxt + 1) }"
  by pat_completeness auto
termination by (relation "measure (\<lambda>(env, env_size, nxt). length env - nxt)") (auto simp: rd_def split: if_splits)

declare entry_end.simps [simp del]

text \<open>Copy out at most \<open>len\<close> bytes: the number of bytes and the string in the buffer.\<close>

fun copy_out :: "char list \<Rightarrow> nat \<Rightarrow> nat \<Rightarrow> string \<Rightarrow> (nat \<times> string) option" where
  "copy_out env val 0 acc = Some (length acc, butlast acc)"
| "copy_out env val (Suc len) acc = do {
     c \<leftarrow> rd env val;
     if c = NUL then Some (length acc, acc) else copy_out env (val + 1) len (acc @ [c]) }"

lemma entry_end_ge: "entry_end env env_size nxt = Some (Some e) \<Longrightarrow> nxt \<le> e \<and> e < length env"
proof (induction env env_size nxt rule: entry_end.induct)
  case (1 env env_size nxt)
  show ?case
  proof (cases "nxt < length env \<and> env ! nxt \<noteq> NUL \<and> nxt < env_size")
    case True
    then have "entry_end env env_size (nxt + 1) = Some (Some e)"
      using 1(2) by (subst (asm) entry_end.simps) (simp add: rd_def)
    with 1(1) [of "env ! nxt"] True show ?thesis by (simp add: rd_def)
  next
    case False
    with 1(2) show ?thesis by (subst (asm) entry_end.simps) (auto simp: rd_def split: if_splits)
  qed
qed

function getenv_f_loop :: "char list \<Rightarrow> nat \<Rightarrow> string \<Rightarrow> nat \<Rightarrow> nat \<Rightarrow> (nat \<times> string) option option" where
  "getenv_f_loop env env_size name len i = do {
     c \<leftarrow> rd env i;
     if c = NUL then Some None
     else do {
       e \<leftarrow> entry_end env env_size i;
       if e = None then Some None
       else do {
         v \<leftarrow> envmatch env (name @ [NUL]) i;
         if v = None then getenv_f_loop env env_size name len (the e + 1)
         else do { r \<leftarrow> copy_out env (the v) len []; Some (Some r) } } } }"
  by pat_completeness auto
termination
proof (relation "measure (\<lambda>(env, env_size, name, len, i). length env - i)", goal_cases)
  case (2 env env_size name len i c e v)
  from 2(3,4) entry_end_ge [of env env_size i "the e"] show ?case by auto
qed simp

declare getenv_f_loop.simps [simp del]

definition getenv_f :: "char list \<Rightarrow> nat \<Rightarrow> string \<Rightarrow> nat \<Rightarrow> (nat \<times> string) option option" where
  "getenv_f env env_size name len = getenv_f_loop env env_size name len 0"

section \<open>Loading the environment\<close>

text \<open>\<open>default_environment\<close> with its size, \<^verbatim>\<open>ENV_SIZE\<close>.\<close>

record env_config =
  default_environment :: "char list"
  ENV_SIZE :: nat

datatype reset_reason = No_message | Bad | Message

definition set_default_env :: "world \<Rightarrow> env_config \<Rightarrow> reset_reason \<Rightarrow> env_state \<Rightarrow> env_state option" where
  "set_default_env w cfg s st =
     (if length (default_environment cfg) > ENV_SIZE cfg then Some st
      else do {
        (rc, h) \<leftarrow> himport_r (hooks_in w st) (env_htab st) (default_environment cfg)
          (length (default_environment cfg)) NUL (if s = Message then H_INTERACTIVE else 0) [];
        Some (st\<lparr>env_htab := h, env_ready_flag := True\<rparr>) })"

definition set_default_vars :: "world \<Rightarrow> env_config \<Rightarrow> string list \<Rightarrow> env_state \<Rightarrow> (int \<times> env_state) option" where
  "set_default_vars w cfg vars st = do {
     (rc, h) \<leftarrow> himport_r (hooks_in w st) (env_htab st) (default_environment cfg)
       (length (default_environment cfg)) NUL (H_NOCLEAR OR H_INTERACTIVE) vars;
     Some (rc, st\<lparr>env_htab := h\<rparr>) }"

text \<open>The stored image \<^verbatim>\<open>env_t\<close>: the checksum and the data.\<close>

record env_t =
  env_crc :: u32
  env_data :: "char list"

definition bytes_of :: "char list \<Rightarrow> u8 list" where
  "bytes_of = map (\<lambda>c. of_nat (of_char c))"

definition env_import :: "world \<Rightarrow> env_config \<Rightarrow> env_t \<Rightarrow> bool \<Rightarrow> env_state \<Rightarrow> (int \<times> env_state) option" where
  "env_import w cfg ep check st =
     (if check \<and> crc32 0 0 (bytes_of (env_data ep)) \<noteq> env_crc ep then do {
        st \<leftarrow> set_default_env w cfg Bad st; Some (0, st) }
      else do {
        (rc, h) \<leftarrow> himport_r (hooks_in w st) (env_htab st) (env_data ep) (ENV_SIZE cfg) NUL 0 [];
        if rc \<noteq> 0 then Some (1, st\<lparr>env_htab := h, env_ready_flag := True\<rparr>)
        else do {
          st \<leftarrow> set_default_env w cfg Bad (st\<lparr>env_htab := h\<rparr>); Some (0, st) } })"

section \<open>Setting a variable, end to end\<close>

lemma getenv_in_spec:
  "hinv (env_htab st) \<Longrightarrow> env_ready_flag st \<Longrightarrow> getenv_in w st n = Some (abs_env (env_htab st) n)"
  by (simp add: getenv_in_def getenv_spec)

definition plain_var :: "string \<Rightarrow> bool" where
  "plain_var name \<longleftrightarrow> name \<noteq> [] \<and> hd name \<noteq> CHR ''-'' \<and> CHR ''='' \<notin> set name"

lemma env_options_plain: "plain_var name \<Longrightarrow> env_options (name # vals) fl = Some (fl, name # vals)"
  by (simp add: plain_var_def)

lemma world_ready_facts:
  assumes "readable_before w" and "\<And>n. malloc_ok w n"
  shows "readable_before (w\<lparr>env_ready := b\<rparr>)" and "\<And>n. malloc_ok (w\<lparr>env_ready := b\<rparr>) n"
  using assms by (simp_all add: readable_before_def)

lemma setenv_value:
  assumes "readable_before w" and "\<And>n. malloc_ok w n" and "hinv (env_htab st)" and "plain_var name" and "v \<noteq> []"
    and "has_room (env_htab st) \<or> name \<in> dom (abs_env (env_htab st))"
    and "init_safe (w\<lparr>env_ready := env_ready_flag st\<rparr>) ((abs_env (env_htab st))(name \<mapsto> v)) name"
  obtains rc st' where "setenv w name (Some v) st = Some (rc, st')" "hinv (env_htab st')" "env_ready_flag st' = env_ready_flag st"
    "rc = 0 \<and> abs_env (env_htab st') = (abs_env (env_htab st))(name \<mapsto> v) \<or> rc = 1 \<and> abs_env (env_htab st') = abs_env (env_htab st)"
proof -
  note wr = world_ready_facts [OF assms(1,2), of "env_ready_flag st"]
  from env_hooks.enter_spec [OF env_hooks_contract [OF wr] assms(3,6,7), of H_INTERACTIVE] obtain r where
    r: "hsearch_r (hooks_in w st) name (Some v) ENTER (env_htab st) H_INTERACTIVE = Some r" "hinv (htab r)"
    "if ret r = 0 then abs_env (htab r) = abs_env (env_htab st) \<and> err r \<in> {Some EPERM, Some EINVAL} \<and> retval r = None
     else abs_env (htab r) = (abs_env (env_htab st))(name \<mapsto> v) \<and> err r = None \<and> retval r \<noteq> None"
    by (auto simp: hooks_in_def)
  have "hooks_in w (st\<lparr>env_id := env_id st + 1\<rparr>) = hooks_in w st" by (simp add: hooks_in_def)
  then have run: "setenv w name (Some v) st
      = Some (if retval r = None then 1 else 0, st\<lparr>env_id := env_id st + 1, env_htab := htab r\<rparr>)"
    using r(1) assms(2,4,5) by (simp add: setenv_def do_env_set_args_def env_options_plain Let_def plain_var_def)
  show ?thesis by (rule that [OF run]) (use r in \<open>auto split: if_splits\<close>)
qed

lemma setenv_remove:
  assumes "readable_before w" and "\<And>n. malloc_ok w n" and "hinv (env_htab st)" and "plain_var name" and "value = None \<or> value = Some []"
  obtains rc st' where "setenv w name value st = Some (rc, st')" "hinv (env_htab st')" "env_ready_flag st' = env_ready_flag st"
    "rc = 0 \<and> name \<in> dom (abs_env (env_htab st)) \<and> abs_env (env_htab st') = (abs_env (env_htab st))(name := None)
     \<or> rc = 1 \<and> abs_env (env_htab st') = abs_env (env_htab st)"
proof -
  note wr = world_ready_facts [OF assms(1,2), of "env_ready_flag st"]
  from env_hooks.delete_spec [OF env_hooks_contract [OF wr] assms(3), of name H_INTERACTIVE] obtain r where
    r: "hdelete_r (hooks_in w st) name (env_htab st) H_INTERACTIVE = Some r" "hinv (htab r)"
    "ret r = 0 \<and> abs_env (htab r) = abs_env (env_htab st)
     \<or> ret r \<noteq> 0 \<and> abs_env (htab r) = (abs_env (env_htab st))(name := None) \<and> name \<in> dom (abs_env (env_htab st))"
    unfolding hooks_in_def by (metis (no_types, lifting))
  have "hooks_in w (st\<lparr>env_id := env_id st + 1\<rparr>) = hooks_in w st" by (simp add: hooks_in_def)
  then have run: "setenv w name value st
      = Some (if ret r = 0 then 1 else 0, st\<lparr>env_id := env_id st + 1, env_htab := htab r\<rparr>)"
    using r(1) assms(4,5) by (auto simp: setenv_def do_env_set_args_def env_options_plain Let_def plain_var_def)
  show ?thesis by (rule that [OF run]) (use r in auto)
qed

section \<open>An empty name\<close>

lemma static_callback_lookup_hangs: "env_attr_lookup pre (Some ENV_CALLBACK_LIST_STATIC) [] = None"
proof -
  obtain s where "ENV_CALLBACK_LIST_STATIC = CHR ''.'' # s" by (simp add: ENV_CALLBACK_LIST_STATIC_def)
  then show ?thesis
    using lookup_of_empty_name [of "CHR ''.''" pre s] by (simp add: ENV_ATTR_SEP_def ENV_ATTR_LIST_DELIM_def)
qed

lemma enter_new_empty_name:
  assumes h: "hinv h" "table h = Some t" and no: "\<And>i. \<not> holds (hsize h) t [] i"
    and j: "j < hsize h" "\<forall>j' < j. used (t ! pos (hsize h) [] j') \<noteq> 0" and free: "\<not> live (t ! pos (hsize h) [] j)"
    and idx: "(if fd \<noteq> 0 then fd else idx) = pos (hsize h) [] j"
    and w: "env_ready w" "\<And>n. malloc_ok w n" "abs_env h ENV_CALLBACK_VAR = None"
  shows "enter_new (env_hooks_of w) [] (Some v) ENTER h flag (hash1 (hsize h) []) fd idx = None"
proof -
  let ?n = "hsize h" and ?i = "pos (hsize h) [] j" and ?hk = "env_hooks_of w"
  have inv: "tinv ?n t" using h by (auto simp: hinv_def)
  have i: "?i < length t" "?i \<in> {1..?n}" using inv pos_range [of ?n "[]" j] by (auto simp: tinv_def)
  have room: "filled h \<noteq> ?n" by (rule board.not_full [OF h i(2) free])
  have dup: "strdup ?hk s = s" for s using w(2) by (simp add: strdup_def env_hooks_of_def split: option.splits)
  define e where "e = (entry (t ! ?i))\<lparr>key := Some [], data := Some v\<rparr>"
  have e: "key e = Some []" "data e = Some v" by (simp_all add: e_def)
  define h1 where "h1 = h\<lparr>filled := Suc (filled h), table := Some (t[?i := \<lparr>used = int (hash1 ?n []), entry = e\<rparr>])\<rparr>"
  have h1: "hinv h1" "abs_env h1 = (abs_env h)([] \<mapsto> v)"
    using board.insert_bucket [OF h no j(1) refl j(2) free e] unfolding h1_def by simp_all
  then have "getenv w h1 ENV_CALLBACK_VAR = Some None"
    using getenv_spec [OF h1(1), of w] w(1,3) by (simp add: ENV_CALLBACK_VAR_def)
  then have "env_callback_init w h1 e = None"
    using static_callback_lookup_hangs e(1) by (simp add: env_callback_init_def lookup_lists_def)
  then have "entry_init ?hk h1 e = None" by (simp add: env_hooks_of_def)
  moreover have "h\<lparr>table := Some (t[?i := \<lparr>used = int (hash1 ?n []), entry = e\<rparr>]), filled := Suc (filled h)\<rparr> = h1"
    by (cases h) (simp add: h1_def)
  ultimately show ?thesis
    using room i(1) h(2) unfolding enter_new_def idx Let_def
    by (simp add: dup slot_access e_def [symmetric])
qed

lemma enter_empty_name:
  assumes "hinv h" and "has_room h" and "[] \<notin> dom (abs_env h)"
    and w: "env_ready w" "\<And>n. malloc_ok w n" "abs_env h ENV_CALLBACK_VAR = None"
  shows "hsearch_r (env_hooks_of w) [] (Some v) ENTER h flag = None"
proof -
  from assms(1) obtain t where t: "table h = Some t" "tinv (hsize h) t" by (auto simp: hinv_def)
  have g: "good_size (hsize h)" using t(2) by (simp add: tinv_def)
  have no: "\<not> holds (hsize h) t [] i" for i using abs_dom [OF t] assms(3) by blast
  from assms(2) t(1) obtain i0 where "i0 \<in> {1..hsize h}" "used (t ! i0) = 0"
    unfolding has_room_def by (simp only: option.case) blast
  then obtain j where j: "j < hsize h" "used (t ! pos (hsize h) [] j) = 0" "\<forall>j' < j. used (t ! pos (hsize h) [] j') \<noteq> 0"
    using first_empty [OF g] by blast
  note run = search_absent [OF t(1) refl t(2) no j, of "env_hooks_of w" "Some v" ENTER flag]
  show ?thesis
  proof (cases "used (t ! hash1 (hsize h) []) = -1")
    case True
    have "0 < hash1 (hsize h) []" using hash1_range [of "hsize h" "[]"] g by (simp add: good_size_def)
    then show ?thesis unfolding run using True g
      by (intro enter_new_empty_name [OF assms(1) t(1) no, of 0]) (simp_all add: first_deleted_def live_def good_size_def w)
  next
    case False
    then show ?thesis unfolding run using j
      by (intro enter_new_empty_name [OF assms(1) t(1) no, of j]) (simp_all add: first_deleted_def live_def w)
  qed
qed

section \<open>Reading a linear environment\<close>

lemma rd_append: "rd (pre @ c # r) (length pre) = Some c"
  by (simp add: rd_def)

lemma entry_end_run:
  assumes "NUL \<notin> set s" and "length pre + length s \<le> env_size"
  shows "entry_end (pre @ s @ NUL # r) env_size (length pre) = Some (Some (length pre + length s))"
  using assms
proof (induction s arbitrary: pre)
  case Nil
  then show ?case by (subst entry_end.simps) (simp add: rd_append)
next
  case (Cons c s)
  with Cons.IH [of "pre @ [c]"] show ?case by (subst entry_end.simps) (auto simp: rd_append)
qed

lemma envmatch_run:
  assumes "\<forall>c \<in> set name. c \<noteq> NUL \<and> c \<noteq> CHR ''=''" and "\<forall>c \<in> set k. c \<noteq> NUL \<and> c \<noteq> CHR ''=''"
  shows "envmatch (pre @ k @ CHR ''='' # r) (name @ [NUL]) (length pre)
    = Some (if name = k then Some (length pre + length k + 1) else None)"
  using assms
proof (induction name arbitrary: pre k)
  case Nil
  then show ?case by (cases k) (auto simp: rd_append)
next
  case (Cons c name)
  show ?case
  proof (cases k)
    case Nil
    with Cons.prems show ?thesis by (auto simp: rd_append)
  next
    case (Cons d k')
    with Cons.IH [of k' "pre @ [d]"] Cons.prems \<open>k = d # k'\<close> show ?thesis by (auto simp: rd_append)
  qed
qed

lemma copy_out_run:
  assumes "NUL \<notin> set v" and "0 < len + length acc"
  shows "copy_out (pre @ v @ NUL # r) (length pre) len acc
    = Some (if length v < len then (length acc + length v, acc @ v) else (length acc + len, butlast (acc @ take len v)))"
  using assms
proof (induction v arbitrary: pre len acc)
  case Nil
  then show ?case by (cases len) (auto simp: rd_append)
next
  case (Cons c v)
  show ?case
  proof (cases len)
    case (Suc l)
    with Cons.IH [of l "acc @ [c]" "pre @ [c]"] Cons.prems show ?thesis by (auto simp: rd_append)
  qed simp
qed

definition raw_entry :: "string \<times> string \<Rightarrow> string" where
  "raw_entry kv = fst kv @ CHR ''='' # snd kv @ [NUL]"

definition raw_ok :: "string \<times> string \<Rightarrow> bool" where
  "raw_ok kv \<longleftrightarrow> fst kv \<noteq> [] \<and> (\<forall>c \<in> set (fst kv). c \<noteq> NUL \<and> c \<noteq> CHR ''='') \<and> NUL \<notin> set (snd kv)"

lemma getenv_f_loop_run:
  assumes "\<forall>kv \<in> set es. raw_ok kv" and "\<forall>c \<in> set name. c \<noteq> NUL \<and> c \<noteq> CHR ''=''" and "0 < len"
    and "length pre + length (concat (map raw_entry es)) \<le> env_size"
  shows "getenv_f_loop (pre @ concat (map raw_entry es) @ NUL # r) env_size name len (length pre)
    = Some (case map_of es name of None \<Rightarrow> None
        | Some v \<Rightarrow> Some (if length v < len then (length v, v) else (len, butlast (take len v))))"
  using assms(1,4)
proof (induction es arbitrary: pre)
  case Nil
  then show ?case by (subst getenv_f_loop.simps) (simp add: rd_append)
next
  case (Cons kv es)
  obtain k v where kv: "kv = (k, v)" by (cases kv)
  let ?tail = "concat (map raw_entry es) @ NUL # r"
  have ok: "k \<noteq> []" "\<forall>c \<in> set k. c \<noteq> NUL \<and> c \<noteq> CHR ''=''" "NUL \<notin> set v" using Cons.prems(1) by (auto simp: raw_ok_def kv)
  let ?env = "pre @ k @ CHR ''='' # v @ NUL # ?tail"
  have rk: "raw_entry kv = k @ CHR ''='' # v @ [NUL]" by (simp add: raw_entry_def kv)
  have env: "pre @ concat (map raw_entry (kv # es)) @ NUL # r = ?env" by (simp add: rk)
  have c: "\<exists>c. rd ?env (length pre) = Some c \<and> c \<noteq> NUL" using ok(1,2) by (cases k) (simp_all add: rd_append)
  have ee: "entry_end ?env env_size (length pre) = Some (Some (length (pre @ k @ CHR ''='' # v)))"
    using entry_end_run [of "k @ CHR ''='' # v" pre env_size ?tail] ok Cons.prems(2) by (auto simp: rk)
  have em: "envmatch ?env (name @ [NUL]) (length pre) = Some (if name = k then Some (length (pre @ k @ [CHR ''=''])) else None)"
    using envmatch_run [OF assms(2) ok(2), of pre "v @ NUL # ?tail"] by simp
  show ?case
  proof (cases "name = k")
    case True
    have "copy_out ?env (length (pre @ k @ [CHR ''=''])) len []
        = Some (if length v < len then (length v, v) else (len, butlast (take len v)))"
      using copy_out_run [OF ok(3), of len "[]" "pre @ k @ [CHR ''='']" ?tail] assms(3) by simp
    with True c ee em show ?thesis unfolding env by (subst getenv_f_loop.simps) (auto simp: kv)
  next
    case False
    have "getenv_f_loop ?env env_size name len (length (pre @ k @ CHR ''='' # v @ [NUL]))
      = Some (case map_of es name of None \<Rightarrow> None
          | Some v \<Rightarrow> Some (if length v < len then (length v, v) else (len, butlast (take len v))))"
      using Cons.IH [of "pre @ raw_entry kv"] Cons.prems by (simp add: rk)
    with False c ee em show ?thesis unfolding env by (subst getenv_f_loop.simps) (auto simp: kv)
  qed
qed

section \<open>Properties\<close>


definition empty_state :: env_state where
  "empty_state = \<lparr>env_htab = empty5, env_id = 1, env_ready_flag = True\<rparr>"


text \<open>
  Setting a variable to nothing deletes it: \<open>setenv\<close> of a plain name to NULL or to the empty
  string returns; with 0 the name was bound and now \<open>getenv\<close> gives NULL for it, with 1 \<open>getenv\<close> is
  unchanged; other names are never affected.
\<close>

theorem setenv_empty_deletes:
  assumes "readable_before w" and "\<And>n. malloc_ok w n" and "hinv (env_htab st)" and "plain_var name"
    and "value = None \<or> value = Some []" and "env_ready_flag st"
  shows "\<exists>rc st'. setenv w name value st = Some (rc, st') \<and> hinv (env_htab st')
    \<and> (rc = 0 \<and> getenv_in w st name \<noteq> Some None \<and> (\<forall>n. getenv_in w st' n = (if n = name then Some None else getenv_in w st n))
       \<or> rc = 1 \<and> (\<forall>n. getenv_in w st' n = getenv_in w st n))"
proof -
  obtain rc st' where s: "setenv w name value st = Some (rc, st')" "hinv (env_htab st')" "env_ready_flag st' = env_ready_flag st"
    "rc = 0 \<and> name \<in> dom (abs_env (env_htab st)) \<and> abs_env (env_htab st') = (abs_env (env_htab st))(name := None)
     \<or> rc = 1 \<and> abs_env (env_htab st') = abs_env (env_htab st)"
    by (rule setenv_remove [OF assms(1,2,3,4,5)])
  then show ?thesis using assms(3,6) by (auto simp: getenv_in_spec)
qed

theorem setenv_empty_deletes_witness:
  "\<exists>rc st'. setenv board_world ''ipaddr'' None empty_state = Some (rc, st') \<and> hinv (env_htab st')
    \<and> (rc = 0 \<and> getenv_in board_world empty_state ''ipaddr'' \<noteq> Some None
         \<and> (\<forall>n. getenv_in board_world st' n = (if n = ''ipaddr'' then Some None else getenv_in board_world empty_state n))
       \<or> rc = 1 \<and> (\<forall>n. getenv_in board_world st' n = getenv_in board_world empty_state n))"
  by (rule setenv_empty_deletes)
    (simp_all add: board_world_readable board_world_memory empty5_facts empty_state_def plain_var_def)

text \<open>
  Setting the empty name to a value does not return: the name passes the check of
  \<^verbatim>\<open>_do_env_set\<close>, a bucket is filled, and the initialisation of the new entry searches the static
  callback list for an empty name, which never ends.
\<close>

theorem setenv_empty_name_hangs:
  assumes "\<And>n. malloc_ok w n" and "hinv (env_htab st)" and "has_room (env_htab st)" and "[] \<notin> dom (abs_env (env_htab st))"
    and "env_ready_flag st" and "abs_env (env_htab st) ENV_CALLBACK_VAR = None" and "v \<noteq> []"
  shows "setenv w [] (Some v) st = None"
proof -
  have "hsearch_r (env_hooks_of (w\<lparr>env_ready := env_ready_flag st\<rparr>)) [] (Some v) ENTER (env_htab st) H_INTERACTIVE = None"
    by (rule enter_empty_name) (use assms in simp_all)
  then show ?thesis using assms(1,7) by (simp add: setenv_def do_env_set_args_def Let_def hooks_in_def)
qed

theorem setenv_empty_name_hangs_witness: "setenv board_world [] (Some ''1'') empty_state = None"
  by (rule setenv_empty_name_hangs) (simp_all add: board_world_memory empty5_facts empty_state_def)

text \<open>
  \<^bold>\<open>C31.\<close> An image whose checksum was right and of which one byte was changed is not imported: the
  default environment is used and the result is 0.
\<close>

theorem env_import_rejects_byte_error:
  assumes "env_crc ep = crc32 0 0 (bytes_of (xs @ a # ys))" and "a \<noteq> b"
  shows "env_import w cfg (ep\<lparr>env_data := xs @ b # ys\<rparr>) True st
    = do { st \<leftarrow> set_default_env w cfg Bad st; Some (0, st) }"
proof -
  have "(of_nat (of_char a) :: u8) \<noteq> of_nat (of_char b)"
  proof
    assume "(of_nat (of_char a) :: u8) = of_nat (of_char b)"
    then have "unat (of_nat (of_char a) :: u8) = unat (of_nat (of_char b) :: u8)" by simp
    then have "(of_char a :: nat) = of_char b" by (simp add: unat_of_nat)
    with assms(2) show False by simp
  qed
  then have "crc32 0 0 (bytes_of (xs @ b # ys)) \<noteq> env_crc ep"
    using assms(1) crc32_byte_differs [of "of_nat (of_char b)" "of_nat (of_char a)" 0 0 "bytes_of xs" "bytes_of ys"]
    by (simp add: bytes_of_def)
  then show ?thesis by (simp add: env_import_def)
qed

theorem env_import_rejects_byte_error_witness:
  "env_import board_world \<lparr>default_environment = [NUL, NUL], ENV_SIZE = 3\<rparr>
      (\<lparr>env_crc = crc32 0 0 (bytes_of (''a'' @ CHR ''='' # ''b'')), env_data = []\<rparr>\<lparr>env_data := ''a'' @ CHR ''?'' # ''b''\<rparr>) True empty_state
    = do { st \<leftarrow> set_default_env board_world \<lparr>default_environment = [NUL, NUL], ENV_SIZE = 3\<rparr> Bad empty_state; Some (0, st) }"
  by (rule env_import_rejects_byte_error [of _ "''a''" "CHR ''=''" "''b''" "CHR ''?''"]) simp_all

text \<open>
  Before relocation \<open>getenv_f\<close> reads a linear environment correctly: it stays inside the
  environment, finds the first entry of the name, and copies its value, cut to one byte less than
  the buffer when it does not fit.
\<close>

theorem getenv_f_correct:
  assumes "\<forall>kv \<in> set es. raw_ok kv" and "\<forall>c \<in> set name. c \<noteq> NUL \<and> c \<noteq> CHR ''=''" and "0 < len"
    and "length (concat (map raw_entry es)) \<le> env_size"
  shows "getenv_f (concat (map raw_entry es) @ NUL # r) env_size name len
    = Some (case map_of es name of None \<Rightarrow> None
        | Some v \<Rightarrow> Some (if length v < len then (length v, v) else (len, butlast (take len v))))"
  using getenv_f_loop_run [OF assms(1-3), of "[]" env_size r] assms(4) by (simp add: getenv_f_def)

theorem getenv_f_correct_witness:
  "getenv_f (concat (map raw_entry [(''a'', ''1''), (''baudrate'', ''115200'')]) @ NUL # []) 64 ''baudrate'' 32
    = Some (case map_of [(''a'', ''1''), (''baudrate'', ''115200'')] ''baudrate'' of None \<Rightarrow> None
        | Some v \<Rightarrow> Some (if length v < 32 then (length v, v) else (32, butlast (take 32 v))))"
  by (rule getenv_f_correct) (simp_all add: raw_ok_def raw_entry_def)

end
