(* ===== verification/Strtoul.thy ===== *)
theory Strtoul
  imports Cstring
begin

text \<open>
  Reading and writing numbers (the first part of \<^verbatim>\<open>lib/vsprintf.c\<close>): \<^verbatim>\<open>simple_strtoul\<close>,
  \<^verbatim>\<open>simple_strtoull\<close>, \<^verbatim>\<open>strict_strtoul\<close>, \<^verbatim>\<open>simple_strtol\<close>, \<^verbatim>\<open>ustrtoul\<close> and
  \<^verbatim>\<open>simple_itoa\<close>. A pointer into the text is the list of bytes from there on, so \<^verbatim>\<open>*endp\<close> is the
  unread rest. \<^verbatim>\<open>long\<close> has 32 bits.
\<close>

section \<open>Operations\<close>

definition digit_value :: "char \<Rightarrow> nat" where
  "digit_value c = (if isdigit c then of_char c - 48 else of_char (if islower c then toupper c else c) - 65 + 10)"

text \<open>Prefix and base: the text after the prefix, and the base of the digits.\<close>

definition strto_prefix :: "char list \<Rightarrow> nat \<Rightarrow> (char list \<times> nat) option" where
  "strto_prefix cp base = do {
     c \<leftarrow> rd cp 0;
     (cp, base) \<leftarrow>
       (if c = CHR ''0'' then do {
          c1 \<leftarrow> rd cp 1;
          hex \<leftarrow> (if c1 = CHR ''x'' then map_option isxdigit (rd cp 2) else Some False);
          let (cp, base) = (if hex then (drop 2 cp, 16) else (drop 1 cp, base)) in
          Some (cp, if base = 0 then 8 else base) }
        else Some (cp, base));
     Some (cp, if base = 0 then 10 else base) }"

fun strto_loop :: "char list \<Rightarrow> nat \<Rightarrow> 'a::len word \<Rightarrow> ('a word \<times> char list) option" where
  "strto_loop [] base result = None"
| "strto_loop (c # cs) base result =
     (if isxdigit c \<and> digit_value c < base then strto_loop cs base (result * of_nat base + of_nat (digit_value c))
      else Some (result, c # cs))"

definition simple_strtoul :: "char list \<Rightarrow> nat \<Rightarrow> (u32 \<times> char list) option" where
  "simple_strtoul cp base = do { (cp, base) \<leftarrow> strto_prefix cp base; strto_loop cp base 0 }"

definition simple_strtoull :: "char list \<Rightarrow> nat \<Rightarrow> (u64 \<times> char list) option" where
  "simple_strtoull cp base = do { (cp, base) \<leftarrow> strto_prefix cp base; strto_loop cp base 0 }"

definition EINVAL :: int where "EINVAL = 22"

definition strict_strtoul :: "char list \<Rightarrow> nat \<Rightarrow> (int \<times> u32) option" where
  "strict_strtoul cp base = do {
     len \<leftarrow> strlen cp;
     if len = 0 then Some (- EINVAL, 0)
     else do {
       (val, tail) \<leftarrow> simple_strtoul cp base;
       if length tail = length cp then Some (- EINVAL, 0)
       else do {
         c \<leftarrow> rd tail 0;
         if c = NUL \<or> len = length cp - length tail + 1 \<and> c = CHR 0x0A then Some (0, val)
         else Some (- EINVAL, 0) } } }"

definition simple_strtol :: "char list \<Rightarrow> nat \<Rightarrow> (int \<times> char list) option" where
  "simple_strtol cp base = do {
     c \<leftarrow> rd cp 0;
     if c = CHR ''-'' then map_option (\<lambda>(v, tail). (sint (- v), tail)) (simple_strtoul (drop 1 cp) base)
     else map_option (\<lambda>(v, tail). (sint v, tail)) (simple_strtoul cp base) }"

definition ustrtoul :: "char list \<Rightarrow> nat \<Rightarrow> (u32 \<times> char list) option" where
  "ustrtoul cp base = do {
     (result, tail) \<leftarrow> simple_strtoul cp base;
     c \<leftarrow> rd tail 0;
     let result = (if c = CHR ''G'' then result * 1024 else result);
         result = (if c \<in> {CHR ''G'', CHR ''M''} then result * 1024 else result) in
     if c \<in> {CHR ''G'', CHR ''M'', CHR ''K'', CHR ''k''} then do {
       c1 \<leftarrow> rd tail 1;
       tail \<leftarrow> (if c1 = CHR ''i'' then do { c2 \<leftarrow> rd tail 2; Some (drop (if c2 = CHR ''B'' then 3 else 2) tail) } else Some tail);
       Some (result * 1024, tail) }
     else Some (result, tail) }"

text \<open>
  \<^verbatim>\<open>simple_itoa\<close> fills a static buffer of 22 bytes from its end. The pointer \<^verbatim>\<open>p\<close> may be moved to one
  before the buffer, so it is kept as \<open>q = p + 1\<close>.
\<close>

function itoa_loop :: "char list \<Rightarrow> nat \<Rightarrow> u32 \<Rightarrow> (char list \<times> nat) option" where
  "itoa_loop local q i =
     (if q = 0 then None
      else do {
        local \<leftarrow> wr local (q - 1) (char_of (48 + unat (i mod 10)));
        if 0 < i div 10 then itoa_loop local (q - 1) (i div 10) else Some (local, q - 1) })"
  by pat_completeness auto
termination by (relation "measure (\<lambda>(local, q, i). q)") auto

declare itoa_loop.simps [simp del]

definition simple_itoa :: "char list \<Rightarrow> u32 \<Rightarrow> (char list \<times> nat) option" where
  "simple_itoa local i = do { local \<leftarrow> wr local 21 NUL; itoa_loop local 21 i }"

section \<open>What the digits mean\<close>

definition valid_digit :: "nat \<Rightarrow> char \<Rightarrow> bool" where
  "valid_digit base c \<longleftrightarrow> isxdigit c \<and> digit_value c < base"

definition value_of :: "nat \<Rightarrow> string \<Rightarrow> nat" where
  "value_of base ds = foldl (\<lambda>v c. v * base + digit_value c) 0 ds"

text \<open>The grammar of a number: an optional prefix \<open>0x\<close>, and the base of what follows.\<close>

definition hex_prefixed :: "string \<Rightarrow> bool" where
  "hex_prefixed s \<longleftrightarrow> (\<exists>c r. s = CHR ''0'' # CHR ''x'' # c # r \<and> isxdigit c)"

definition number_base :: "nat \<Rightarrow> string \<Rightarrow> nat" where
  "number_base base s =
     (if hex_prefixed s then 16 else if base \<noteq> 0 then base
      else if s \<noteq> [] \<and> hd s = CHR ''0'' then 8 else 10)"

definition number_body :: "string \<Rightarrow> string" where
  "number_body s = (if hex_prefixed s then drop 2 s else s)"

lemma isxdigit_iff:
  "isxdigit c \<longleftrightarrow> (let n = of_char c :: nat in 48 \<le> n \<and> n \<le> 57 \<or> 65 \<le> n \<and> n \<le> 70 \<or> 97 \<le> n \<and> n \<le> 102)"
  by (simp add: isxdigit_def ismask_range Let_def ctype_masks)

lemma isxdigit_NUL [simp]: "\<not> isxdigit NUL"
  by (simp add: isxdigit_iff)

lemma isxdigit_x [simp]: "\<not> isxdigit CHR ''x''"
  by (simp add: isxdigit_iff)

lemma strto_loop_spec:
  assumes "NUL \<notin> set s"
  shows "strto_loop (s @ NUL # r) base res =
     Some (foldl (\<lambda>v c. v * of_nat base + of_nat (digit_value c)) res (takeWhile (valid_digit base) s),
           dropWhile (valid_digit base) s @ NUL # r)"
  using assms by (induction s arbitrary: res) (auto simp: valid_digit_def)

lemma fold_of_nat:
  "foldl (\<lambda>v c. v * of_nat base + of_nat (digit_value c)) (of_nat n :: 'a::len word) ds
     = of_nat (foldl (\<lambda>v c. v * base + digit_value c) n ds)"
proof (induction ds arbitrary: n)
  case (Cons c ds)
  have "(of_nat n :: 'a word) * of_nat base + of_nat (digit_value c) = of_nat (n * base + digit_value c)"
    by (simp only: of_nat_mult of_nat_add)
  then show ?case by (simp only: foldl_Cons Cons.IH)
qed simp

text \<open>A leading 0 adds nothing to the value, so skipping it while the prefix is read is harmless.\<close>

lemma value_of_zero: "value_of base (CHR ''0'' # ds) = value_of base ds"
  by (simp add: value_of_def digit_value_def isdigit_iff)

lemma strto_generic:
  assumes "cstring s bs"
  shows "\<exists>r. bs = s @ NUL # r \<and> Option.bind (strto_prefix bs base) (\<lambda>(cp, b). strto_loop cp b (0 :: 'a::len word))
    = Some (of_nat (value_of (number_base base s) (takeWhile (valid_digit (number_base base s)) (number_body s))),
            dropWhile (valid_digit (number_base base s)) (number_body s) @ NUL # r)"
proof -
  obtain r where bs: "bs = s @ NUL # r" and s: "NUL \<notin> set s" using assms by (auto simp: cstring_def prefix_def)
  have loop: "strto_loop (t @ NUL # r) b (0 :: 'a word) = Some (of_nat (value_of b (takeWhile (valid_digit b) t)),
      dropWhile (valid_digit b) t @ NUL # r)" if "NUL \<notin> set t" for t b
    using strto_loop_spec [OF that, where res = "of_nat 0 :: 'a word"] unfolding fold_of_nat by (simp add: value_of_def)
  show ?thesis
  proof (cases s)
    case Nil
    have "\<not> hex_prefixed []" by (simp add: hex_prefixed_def)
    then show ?thesis using loop [of "[]"] bs Nil by (simp add: strto_prefix_def rd_def number_base_def number_body_def)
  next
    case (Cons c t)
    show ?thesis
    proof (cases "c = CHR ''0''")
      case False
      then have "\<not> hex_prefixed s" using Cons by (simp add: hex_prefixed_def)
      then show ?thesis using loop [of s] bs s Cons False
        by (simp add: strto_prefix_def rd_def number_base_def number_body_def)
    next
      case zero: True
      show ?thesis
      proof (cases "hex_prefixed s")
        case True
        then obtain d u where u: "s = CHR ''0'' # CHR ''x'' # d # u" "isxdigit d" by (auto simp: hex_prefixed_def)
        then have "strto_prefix bs base = Some ((d # u) @ NUL # r, 16)" using bs by (simp add: strto_prefix_def rd_def)
        then show ?thesis using loop [of "d # u" 16] bs s u True by (simp add: number_base_def number_body_def)
      next
        case False
        let ?b = "if base = 0 then 8 else base"
        have hex: "\<not> (t \<noteq> [] \<and> hd t = CHR ''x'' \<and> tl t \<noteq> [] \<and> isxdigit (hd (tl t)))"
        proof
          assume "t \<noteq> [] \<and> hd t = CHR ''x'' \<and> tl t \<noteq> [] \<and> isxdigit (hd (tl t))"
          then obtain d u where "t = CHR ''x'' # d # u" "isxdigit d" by (cases t; cases "tl t") auto
          with False Cons zero show False by (simp add: hex_prefixed_def)
        qed
        have "strto_prefix bs base = Some (t @ NUL # r, ?b)"
          using hex bs Cons zero by (cases t; cases "tl t") (auto simp: strto_prefix_def rd_def Let_def)
        moreover have "valid_digit ?b CHR ''0''" by (simp add: valid_digit_def isxdigit_iff digit_value_def isdigit_iff)
        ultimately show ?thesis using loop [of t ?b] bs s Cons zero False
          by (cases "base = 0") (simp_all add: number_base_def number_body_def value_of_zero)
      qed
    qed
  qed
qed

section \<open>Digits of a number\<close>

text \<open>The digits of \<open>n\<close> from the least significant one on, written with \<open>f\<close>.\<close>

function rev_digits :: "nat \<Rightarrow> (nat \<Rightarrow> char) \<Rightarrow> nat \<Rightarrow> string" where
  "rev_digits base f n = (if base < 2 \<or> n < base then [f n] else f (n mod base) # rev_digits base f (n div base))"
  by pat_completeness auto
termination by (relation "measure (\<lambda>(base, f, n). n)") (auto intro!: div_less_dividend)

declare rev_digits.simps [simp del]

definition writes_digits :: "nat \<Rightarrow> (nat \<Rightarrow> char) \<Rightarrow> bool" where
  "writes_digits base f \<longleftrightarrow> 2 \<le> base \<and> base \<le> 16 \<and> (\<forall>k < base. isxdigit (f k) \<and> digit_value (f k) = k)"

lemma value_of_snoc: "value_of base (ds @ [c]) = value_of base ds * base + digit_value c"
  by (simp add: value_of_def)

lemma rev_digits_value:
  assumes "writes_digits base f"
  shows "value_of base (rev (rev_digits base f n)) = n \<and> (\<forall>c \<in> set (rev_digits base f n). valid_digit base c)"
  using assms
proof (induction base f n rule: rev_digits.induct)
  case (1 base f n)
  have b: "2 \<le> base" "\<And>k. k < base \<Longrightarrow> isxdigit (f k) \<and> digit_value (f k) = k" using 1(2) by (auto simp: writes_digits_def)
  show ?case
  proof (cases "n < base")
    case True
    then show ?thesis using b by (subst (1 2) rev_digits.simps) (simp add: value_of_def valid_digit_def)
  next
    case False
    have "n mod base < base" using b(1) by simp
    with False show ?thesis using 1 b by (subst (1 2) rev_digits.simps) (simp add: value_of_snoc valid_digit_def)
  qed
qed

text \<open>Written in its own base, a number reads back, provided that no prefix \<open>0x\<close> arises.\<close>

lemma read_back:
  assumes "writes_digits base f"
  shows "number_base base (rev (rev_digits base f n)) = base" and "number_body (rev (rev_digits base f n)) = rev (rev_digits base f n)"
    and "takeWhile (valid_digit base) (rev (rev_digits base f n)) = rev (rev_digits base f n)"
proof -
  have v: "\<forall>c \<in> set (rev (rev_digits base f n)). valid_digit base c" using rev_digits_value [OF assms] by simp
  then have "CHR ''x'' \<notin> set (rev (rev_digits base f n))" by (auto simp: valid_digit_def)
  then have "\<not> hex_prefixed (rev (rev_digits base f n))" unfolding hex_prefixed_def by (metis list.set_intros(1,2))
  then show "number_base base (rev (rev_digits base f n)) = base" and "number_body (rev (rev_digits base f n)) = rev (rev_digits base f n)"
    using assms by (simp_all add: number_base_def number_body_def writes_digits_def)
  show "takeWhile (valid_digit base) (rev (rev_digits base f n)) = rev (rev_digits base f n)"
    using v by (simp add: takeWhile_eq_all_conv)
qed

lemma rev_digits_length:
  assumes "2 \<le> base" and "n < base ^ Suc k"
  shows "length (rev_digits base f n) \<le> Suc k"
  using assms(2)
proof (induction k arbitrary: n)
  case 0
  then show ?case by (subst rev_digits.simps) simp
next
  case (Suc k)
  have "n div base < base ^ Suc k" using Suc.prems by (simp add: less_mult_imp_div_less mult.commute)
  then show ?case using Suc.IH by (subst rev_digits.simps) simp
qed

section \<open>Writing decimal numbers\<close>

definition dec_digit :: "nat \<Rightarrow> char" where
  "dec_digit k = char_of (48 + k)"

definition decimal :: "nat \<Rightarrow> string" where
  "decimal n = rev (rev_digits 10 dec_digit n)"

lemma writes_decimal: "writes_digits 10 dec_digit"
proof -
  have "of_char (dec_digit k) = 48 + k" if "k < 10" for k using that by (simp add: dec_digit_def)
  then show ?thesis by (simp add: writes_digits_def isxdigit_iff digit_value_def isdigit_iff Let_def)
qed

lemma decimal_length: "length (decimal (unat (i :: u32))) \<le> 10"
proof -
  have "unat i < 10 ^ Suc 9" using u32_less [of i] by simp
  then show ?thesis unfolding decimal_def using rev_digits_length [of 10 "unat i" 9] by simp
qed

lemma itoa_loop_spec:
  assumes "q \<le> length loc" and "length (decimal (unat i)) \<le> q"
  shows "itoa_loop loc q i = Some (take (q - length (decimal (unat i))) loc @ decimal (unat i) @ drop q loc, q - length (decimal (unat i)))"
  using assms
proof (induction loc q i rule: itoa_loop.induct)
  case (1 loc q i)
  have q: "0 < q" using 1(3) by (cases q) (simp_all add: decimal_def rev_digits.simps [of 10] split: if_splits)
  let ?c = "char_of (48 + unat (i mod 10)) :: char"
  have w: "wr loc (q - 1) ?c = Some (loc[q - 1 := ?c])" using q 1(2) by (simp add: wr_def)
  have m: "unat (i mod 10) = unat i mod 10" "unat (i div 10) = unat i div 10" by (simp_all add: unat_mod unat_div)
  have upd: "drop (q - 1) (loc[q - 1 := ?c]) = ?c # drop q loc" using q 1(2) by (simp add: Cons_nth_drop_Suc [symmetric])
  show ?case
  proof (cases "0 < i div 10")
    case True
    have "unat i div 10 \<noteq> 0" using True unfolding m(2) [symmetric] by (simp only: word_gt_0 unat_eq_zero not_False_eq_True)
    then have dec: "decimal (unat i) = decimal (unat (i div 10)) @ [?c]"
      unfolding decimal_def m by (subst rev_digits.simps) (simp add: dec_digit_def not_less div_eq_0_iff)
    have "itoa_loop loc q i = itoa_loop (loc[q - 1 := ?c]) (q - 1) (i div 10)"
      using q w True by (subst itoa_loop.simps) simp
    moreover note 1(1) [OF _ w True]
    ultimately show ?thesis using 1(2,3) q upd by (simp add: dec)
  next
    case False
    then have "unat i div 10 = 0" unfolding m(2) [symmetric] by (simp only: word_gt_0 unat_eq_zero simp_thms)
    then have "decimal (unat i) = [?c]" unfolding decimal_def m by (subst rev_digits.simps) (simp add: dec_digit_def div_eq_0_iff)
    then show ?thesis using False q w 1(2) upd by (subst itoa_loop.simps) (simp add: upd_conv_take_nth_drop)
  qed
qed

lemma decimal_no_NUL: "NUL \<notin> set (decimal n)"
  using rev_digits_value [OF writes_decimal, of n] by (auto simp: decimal_def valid_digit_def)

lemma simple_itoa_spec:
  assumes "length loc = 22"
  shows "\<exists>loc' p. simple_itoa loc i = Some (loc', p) \<and> length loc' = 22 \<and> drop p loc' = decimal (unat i) @ [NUL]"
proof -
  have w: "wr loc 21 NUL = Some (loc[21 := NUL])" using assms by (simp add: wr_def)
  have "drop 21 (loc[21 := NUL]) = [NUL]" using assms by (subst Cons_nth_drop_Suc [symmetric]) simp_all
  then show ?thesis unfolding simple_itoa_def w using assms decimal_length [of i] by (simp add: itoa_loop_spec)
qed

lemma strtoul_decimal:
  assumes "cstring (decimal (unat i)) bs"
  shows "\<exists>tail. simple_strtoul bs 10 = Some (i, tail)"
proof -
  obtain r where "simple_strtoul bs 10 = Some (of_nat (value_of 10 (decimal (unat i))), r)"
    using strto_generic [OF assms, of 10, where 'a = 32] read_back [OF writes_decimal, of "unat i"]
    by (auto simp: simple_strtoul_def decimal_def)
  moreover have "value_of 10 (decimal (unat i)) = unat i" using rev_digits_value [OF writes_decimal] by (simp add: decimal_def)
  ultimately show ?thesis by simp
qed

section \<open>Properties\<close>

text \<open>
  Reading a number, complete: on any NUL-terminated text and for any base, \<^verbatim>\<open>simple_strtoul\<close> stays inside
  the text and returns; the base is 16 after the prefix \<open>0x\<close>, else the one given, else 8 or 10 by the
  first character; the result is the value of the longest run of digits, modulo \<open>2 ^ 32\<close>, and
  \<^verbatim>\<open>*endp\<close> is the text after that run.
\<close>

theorem simple_strtoul_correct:
  assumes "cstring s bs"
  shows "\<exists>r. bs = s @ NUL # r \<and> simple_strtoul bs base
    = Some (of_nat (value_of (number_base base s) (takeWhile (valid_digit (number_base base s)) (number_body s))),
            dropWhile (valid_digit (number_base base s)) (number_body s) @ NUL # r)"
  unfolding simple_strtoul_def by (rule strto_generic [OF assms])

theorem simple_strtoul_correct_witness:
  "\<exists>r. ''0x1F ok'' @ [NUL] = ''0x1F ok'' @ NUL # r \<and> simple_strtoul (''0x1F ok'' @ [NUL]) 10
    = Some (of_nat (value_of (number_base 10 ''0x1F ok'') (takeWhile (valid_digit (number_base 10 ''0x1F ok'')) (number_body ''0x1F ok''))),
            dropWhile (valid_digit (number_base 10 ''0x1F ok'')) (number_body ''0x1F ok'') @ NUL # r)"
  by (rule simple_strtoul_correct) simp

text \<open>
  Decimal round trip: \<^verbatim>\<open>simple_itoa\<close> writes inside its static buffer for every 32-bit number, the text
  it returns is terminated, and \<^verbatim>\<open>simple_strtoul\<close> with base 10 reads the same number from it.
\<close>

theorem itoa_strtoul_roundtrip:
  assumes "length loc = 22"
  shows "\<exists>loc' p tail. simple_itoa loc i = Some (loc', p) \<and> length loc' = 22
    \<and> cstring (decimal (unat i)) (drop p loc') \<and> simple_strtoul (drop p loc') 10 = Some (i, tail)"
proof -
  obtain loc' p where p: "simple_itoa loc i = Some (loc', p)" "length loc' = 22" "drop p loc' = decimal (unat i) @ [NUL]"
    using simple_itoa_spec [OF assms] by blast
  then have c: "cstring (decimal (unat i)) (drop p loc')" by (simp add: cstring_def decimal_no_NUL)
  with p strtoul_decimal [OF c] show ?thesis by blast
qed

theorem itoa_strtoul_roundtrip_witness:
  "\<exists>loc' p tail. simple_itoa (replicate 22 NUL) 4294967295 = Some (loc', p) \<and> length loc' = 22
    \<and> cstring (decimal (unat (4294967295 :: u32))) (drop p loc') \<and> simple_strtoul (drop p loc') 10 = Some (4294967295, tail)"
  by (rule itoa_strtoul_roundtrip) simp

end
