(* ===== verification/Div64.thy ===== *)
theory Div64
  imports Prelude
begin

text \<open>
  64-bit division by a 32-bit number (\<^verbatim>\<open>lib/div64.c\<close> and the macro \<^verbatim>\<open>do_div\<close> of
  \<^verbatim>\<open>include/div64.h\<close>), which the formatting routines use. An operation returns the quotient, which
  the code stores through its argument, and the remainder; division by 0 is \<open>None\<close>.
\<close>

section \<open>Doubling and halving\<close>

lemma unat_double:
  assumes "0 < sint (b :: u64)"
  shows "unat b < 2 ^ 63" "unat (b + b) = 2 * unat b" "0 < unat b"
proof -
  have "sint b < 2 ^ 63" using sint_lt [of b] by simp
  then have "uint b = sint b" unfolding uint_sint [of b] using assms by (intro take_bit_int_eq_self) simp_all
  then have "int (unat b) < int (2 ^ 63)" "int 0 < int (unat b)" using assms \<open>sint b < 2 ^ 63\<close> by simp_all
  then show "unat b < 2 ^ 63" "0 < unat b" by (simp_all only: of_nat_less_iff)
  then show "unat (b + b) = 2 * unat b" by (simp only: unat_word_ariths) simp
qed

lemma unat_halve: "unat (drop_bit 1 (d :: u64)) = unat d div 2"
  by (simp only: unat_drop_bit power_one_right)

section \<open>Operations\<close>

text \<open>The first loop doubles divisor and digit while the divisor is positive as a signed number.\<close>

function double_loop :: "u64 \<Rightarrow> u64 \<Rightarrow> u64 \<Rightarrow> u64 \<times> u64" where
  "double_loop rem b d = (if 0 < sint b \<and> b < rem then double_loop rem (b + b) (d + d) else (b, d))"
  by pat_completeness auto

termination
proof (relation "measure (\<lambda>(rem, b, d). 2 ^ 64 - unat b)")
  fix rem b d :: u64
  assume "0 < sint b \<and> b < rem"
  then show "((rem, b + b, d + d), rem, b, d) \<in> measure (\<lambda>(rem, b, d). 2 ^ 64 - unat b)"
    using unat_double [of b] by simp
qed simp

declare double_loop.simps [simp del]

function subtract_loop :: "u64 \<Rightarrow> u64 \<Rightarrow> u64 \<Rightarrow> u64 \<Rightarrow> u64 \<times> u64" where
  "subtract_loop rem res b d =
     (let (rem, res) = (if b \<le> rem then (rem - b, res + d) else (rem, res));
          b = drop_bit 1 b; d = drop_bit 1 d
      in if d \<noteq> 0 then subtract_loop rem res b d else (rem, res))"
  by pat_completeness auto
termination
proof (relation "measure (\<lambda>(rem, res, b, d). unat d)")
  fix rem res b d x xa y :: u64 and b' d' :: u64
  assume "d' = drop_bit 1 d" "d' \<noteq> 0"
  then have "unat d' = unat d div 2" by (simp only: unat_halve)
  moreover have "unat d' \<noteq> 0" using \<open>d' \<noteq> 0\<close> by (simp only: unsigned_eq_0_iff not_False_eq_True)
  ultimately show "((xa, y, b', d'), rem, res, b, d) \<in> measure (\<lambda>(rem, res, b, d). unat d)" by simp
qed simp

declare subtract_loop.simps [simp del]

definition div64_32 :: "u64 \<Rightarrow> u32 \<Rightarrow> (u64 \<times> u32) option" where
  "div64_32 n base =
     (let high = (ucast (drop_bit 32 n) :: u32) in
      if base \<le> high \<and> base = 0 then None
      else let q = high div base;
               (rem, res) = (if base \<le> high then (n - push_bit 32 (ucast (q * base)), push_bit 32 (ucast q)) else (n, 0));
               (b, d) = double_loop rem (ucast base) 1;
               (rem, res) = subtract_loop rem res b d
           in Some (res, ucast rem))"

definition do_div :: "u64 \<Rightarrow> u32 \<Rightarrow> (u64 \<times> u32) option" where
  "do_div n base =
     (if drop_bit 32 n = 0 then
        (if base = 0 then None else Some (ucast ((ucast n :: u32) div base), (ucast n :: u32) mod base))
      else div64_32 n base)"

definition lldiv :: "u64 \<Rightarrow> u32 \<Rightarrow> u64 option" where
  "lldiv dividend divisor = map_option fst (do_div dividend divisor)"

section \<open>Correctness of the loops\<close>

lemma unat_push32: "unat (push_bit 32 (ucast (x :: u32)) :: u64) = unat x * 2 ^ 32"
proof -
  have "unat (push_bit 32 (ucast x) :: u64) = unat ((ucast x :: u64) * 2 ^ 32)" by (simp only: push_bit_eq_mult)
  also have "\<dots> = unat (ucast x :: u64) * unat (2 ^ 32 :: u64)"
    using u32_less [of x] by (intro unat_mult_small) (simp add: unat_widen)
  finally show ?thesis by (simp add: unat_widen)
qed

lemma sint_not_positive:
  assumes "\<not> 0 < sint (b :: u64)" and "0 < unat b"
  shows "2 ^ 63 \<le> unat b"
proof (rule ccontr)
  assume "\<not> ?thesis"
  then have "int (unat b) < int (2 ^ 63)" by (simp only: of_nat_less_iff not_le)
  then have "uint b < 2 ^ 63" by simp
  moreover have "- (2 ^ 63) \<le> uint b" by (rule order.trans [of _ 0]) simp_all
  ultimately have "sint b = uint b" unfolding sint_uint [of b] by (intro signed_take_bit_int_eq_self) simp_all
  moreover have "int 0 < int (unat b)" using assms(2) by (simp only: of_nat_less_iff)
  ultimately show False using assms(1) by simp
qed

lemma double_loop_spec:
  assumes "0 < base" and "unat d = 2 ^ k" and "unat b = base * 2 ^ k"
  shows "\<exists>k' b' d'. double_loop rem b d = (b', d') \<and> unat d' = 2 ^ k' \<and> unat b' = base * 2 ^ k' \<and> unat rem < 2 * unat b'"
  using assms(2,3)
proof (induction rem b d arbitrary: k rule: double_loop.induct)
  case (1 rem b d)
  show ?case
  proof (cases "0 < sint b \<and> b < rem")
    case True
    have "unat d \<le> unat b" using 1(2,3) assms(1) by simp
    then have "unat (d + d) = 2 ^ Suc k" using unat_double(1) [of b] True 1(2) by (subst unat_add_small) simp_all
    moreover have "unat (b + b) = base * 2 ^ Suc k" using unat_double(2) [of b] True 1(3) by simp
    moreover have "double_loop rem b d = double_loop rem (b + b) (d + d)"
      using True by (subst double_loop.simps) (simp only: if_True simp_thms)
    ultimately show ?thesis using 1(1) [OF True, of "Suc k"] by (simp only:)
  next
    case False
    have "0 < unat b" using 1(3) assms(1) by simp
    then have "unat rem < 2 * unat b" using False sint_not_positive [of b] u64_less [of rem]
      by (cases "b < rem") (auto simp: word_less_nat_alt not_less)
    with False 1(2,3) show ?thesis by (subst double_loop.simps) auto
  qed
qed

lemma subtract_step:
  fixes rem res b d :: u64
  assumes "0 < base" and "unat b = base * unat d" and "unat rem < 2 * unat b" and "unat res * base + unat rem = N" and "N < 2 ^ 64"
  shows "\<exists>rem1 res1. (if b \<le> rem then (rem - b, res + d) else (rem, res)) = (rem1, res1)
    \<and> unat rem1 < unat b \<and> unat res1 * base + unat rem1 = N"
proof (cases "b \<le> rem")
  case True
  then have sub: "unat (rem - b) = unat rem - unat b" "unat b \<le> unat rem" by (simp_all add: unat_sub word_le_nat_alt)
  have N: "(unat res + unat d) * base + (unat rem - unat b) = N" using assms(2,4) sub(2) by (simp add: algebra_simps)
  have "unat res + unat d \<le> (unat res + unat d) * base" using assms(1) by simp
  then have "unat res + unat d \<le> N" using N by linarith
  then have "unat (res + d) = unat res + unat d" using assms(5) by (intro unat_add_small) simp
  then show ?thesis using True sub N assms(3) by auto
next
  case False
  then show ?thesis using assms(4) by (auto simp: word_le_nat_alt)
qed

lemma subtract_loop_spec:
  assumes "0 < base" and "unat d = 2 ^ k" and "unat b = base * 2 ^ k" and "unat rem < 2 * unat b"
    and "unat res * base + unat rem = N" and "N < 2 ^ 64"
  shows "\<exists>rem' res'. subtract_loop rem res b d = (rem', res') \<and> unat rem' < base \<and> unat res' * base + unat rem' = N"
  using assms(2-5)
proof (induction k arbitrary: rem res b d)
  case (0 rem res b d)
  have "unat (drop_bit 1 d) = 0" by (simp only: unat_halve 0(1)) simp
  then have d: "drop_bit 1 d = 0" by (simp only: unat_eq_zero)
  obtain rem1 res1 where "(if b \<le> rem then (rem - b, res + d) else (rem, res)) = (rem1, res1)" "unat rem1 < unat b"
    "unat res1 * base + unat rem1 = N"
    using subtract_step [OF assms(1) _ 0(3,4) assms(6), of d] 0(1,2) by auto
  with d show ?case using 0(2) by (subst subtract_loop.simps) (simp only: Let_def prod.case, simp)
next
  case (Suc k rem res b d)
  obtain rem1 res1 where s: "(if b \<le> rem then (rem - b, res + d) else (rem, res)) = (rem1, res1)" "unat rem1 < unat b"
    "unat res1 * base + unat rem1 = N"
    using subtract_step [OF assms(1) _ Suc.prems(3,4) assms(6), of d] Suc.prems(1,2) by auto
  have half: "unat (drop_bit 1 d) = 2 ^ k" "unat (drop_bit 1 b) = base * 2 ^ k"
    using Suc.prems(1,2) by (simp_all only: unat_halve) simp_all
  then have "drop_bit 1 d \<noteq> 0" by (metis power_not_zero unsigned_0 zero_neq_numeral)
  then have "subtract_loop rem res b d = subtract_loop rem1 res1 (drop_bit 1 b) (drop_bit 1 d)"
    by (subst subtract_loop.simps) (simp only: s(1) Let_def prod.case if_True not_False_eq_True)
  moreover have "unat rem1 < 2 * unat (drop_bit 1 b)" using s(2) Suc.prems(2) half(2) by simp
  ultimately show ?case using Suc.IH [OF half _ s(3)] by simp
qed

lemma quotient_unique:
  assumes "q * b + r = (N :: nat)" and "r < b"
  shows "q = N div b" and "r = N mod b"
  using assms by auto

lemma long_division:
  assumes "0 < unat base" and "unat res * unat base + unat rem = N" and "N < 2 ^ 64"
  shows "\<exists>rem' res'. (case double_loop rem (ucast (base :: u32)) 1 of (b, d) \<Rightarrow> subtract_loop rem res b d) = (rem', res')
    \<and> unat rem' = N mod unat base \<and> unat res' = N div unat base"
proof -
  have "unat (1 :: u64) = 2 ^ 0" "unat (ucast base :: u64) = unat base * 2 ^ 0" by (simp_all add: unat_widen)
  from double_loop_spec [OF assms(1) this, of rem]
  obtain k b d where l: "double_loop rem (ucast base) 1 = (b, d)" "unat d = 2 ^ k" "unat b = unat base * 2 ^ k" "unat rem < 2 * unat b"
    by blast
  obtain rem' res' where "subtract_loop rem res b d = (rem', res')" "unat rem' < unat base" "unat res' * unat base + unat rem' = N"
    using subtract_loop_spec [OF assms(1) l(2-4) assms(2,3)] by blast
  then show ?thesis using l(1) quotient_unique [of "unat res'" "unat base" "unat rem'" N] by simp
qed

lemma div64_32_spec:
  assumes "base \<noteq> 0"
  shows "\<exists>q r. div64_32 n base = Some (q, r) \<and> unat q = unat n div unat base \<and> unat r = unat n mod unat base"
proof -
  let ?high = "ucast (drop_bit 32 n) :: u32"
  let ?q = "?high div base"
  let ?st = "if base \<le> ?high then (n - push_bit 32 (ucast (?q * base)), push_bit 32 (ucast ?q)) else (n, 0 :: u64)"
  have b: "0 < unat base" using assms by (simp add: unat_gt_0)
  have "unat (snd ?st) * unat base + unat (fst ?st) = unat n"
  proof (cases "base \<le> ?high")
    case True
    let ?Q = "unat ?high div unat base"
    have h: "unat ?high = unat n div 2 ^ 32"
    proof -
      have "unat (drop_bit 32 n) < 2 ^ 32" using u64_less [of n] by (simp only: unat_drop_bit) (simp add: div_less_iff_less_mult)
      then have "unat ?high = unat (drop_bit 32 n)" by (simp add: unsigned_ucast_eq take_bit_nat_eq_self)
      then show ?thesis by (simp only: unat_drop_bit)
    qed
    have le: "?Q * unat base \<le> unat ?high" by (rule div_times_less_eq_dividend)
    have "?Q * unat base < 2 ^ 32" by (rule le_less_trans [OF le u32_less])
    then have qb: "unat (?q * base) = ?Q * unat base"
      by (subst unat_mult_small) (simp_all add: unat_div)
    have "?Q * unat base * 2 ^ 32 \<le> unat ?high * 2 ^ 32" using le by (rule mult_le_mono1)
    also have "\<dots> \<le> unat n" unfolding h by (rule div_times_less_eq_dividend)
    finally have sub: "?Q * unat base * 2 ^ 32 \<le> unat n" .
    have "unat (n - push_bit 32 (ucast (?q * base))) = unat n - ?Q * unat base * 2 ^ 32"
      using sub by (subst unat_sub) (simp_all only: word_le_nat_alt unat_push32 qb)
    moreover have "unat (push_bit 32 (ucast ?q) :: u64) = ?Q * 2 ^ 32" by (simp only: unat_push32 unat_div)
    ultimately show ?thesis using True sub by (simp add: ac_simps)
  next
    case False
    then show ?thesis by simp
  qed
  from long_division [OF b this u64_less]
  obtain rem res where l: "(case double_loop (fst ?st) (ucast base) 1 of (b, d) \<Rightarrow> subtract_loop (fst ?st) (snd ?st) b d) = (rem, res)"
    "unat rem = unat n mod unat base" "unat res = unat n div unat base" by blast
  have "unat rem < 2 ^ 32" using b u32_less [of base] l(2) by (metis less_trans mod_less_divisor)
  then have "unat (ucast rem :: u32) = unat rem" by (simp add: unsigned_ucast_eq take_bit_nat_eq_self)
  then show ?thesis using assms l by (simp add: div64_32_def Let_def case_prod_beta)
qed

lemma do_div_spec:
  assumes "base \<noteq> 0"
  shows "\<exists>q r. do_div n base = Some (q, r) \<and> unat q = unat n div unat base \<and> unat r = unat n mod unat base"
proof (cases "drop_bit 32 n = 0")
  case True
  then have "unat n div 2 ^ 32 = 0" using unat_drop_bit [of 32 n] by (simp only: unsigned_0)
  then have "unat n < 2 ^ 32" by (simp add: div_eq_0_iff)
  then have n: "unat (ucast n :: u32) = unat n" by (simp add: unsigned_ucast_eq take_bit_nat_eq_self)
  have "unat ((ucast n :: u32) div base) = unat n div unat base" "unat ((ucast n :: u32) mod base) = unat n mod unat base"
    by (simp_all add: unat_div unat_mod n)
  then show ?thesis using True assms by (simp add: do_div_def unat_widen)
next
  case False
  then show ?thesis using div64_32_spec [OF assms] by (simp add: do_div_def)
qed

section \<open>Property\<close>

text \<open>
  \<^verbatim>\<open>do_div\<close> on any 64-bit dividend and any 32-bit divisor other than 0, through the 32-bit fast path
  or the shift-and-subtract loops of \<^verbatim>\<open>__div64_32\<close>, which always end, gives the quotient and the
  remainder of the division; no intermediate addition or doubling overflows into a wrong result.
\<close>

theorem do_div_correct:
  assumes "base \<noteq> 0"
  shows "\<exists>q r. do_div n base = Some (q, r) \<and> unat q = unat n div unat base \<and> unat r = unat n mod unat base"
  using assms by (rule do_div_spec)

theorem do_div_correct_witness:
  "(100000 :: u32) \<noteq> 0 \<and> (\<exists>q r. do_div 0xFFFFFFFFFFFFFFFF 100000 = Some (q, r)
     \<and> unat q = unat (0xFFFFFFFFFFFFFFFF :: u64) div unat (100000 :: u32) \<and> unat r = unat (0xFFFFFFFFFFFFFFFF :: u64) mod unat (100000 :: u32))"
  using do_div_correct [of 100000 "0xFFFFFFFFFFFFFFFF"] by simp

end
