(* ===== verification/Vsprintf.thy ===== *)
theory Vsprintf
  imports Strtoul Div64
begin

text \<open>
  Formatted output (the second part of \<^verbatim>\<open>lib/vsprintf.c\<close>, with \<^verbatim>\<open>CONFIG_CMD_NET\<close>). The output is a
  record: the bytes of the object that starts at \<^verbatim>\<open>buf\<close>, the offset of \<^verbatim>\<open>str\<close> in it, the offset of
  \<^verbatim>\<open>end\<close>, whether \<^verbatim>\<open>CONFIG_SYS_VSNPRINTF\<close> is set, and what \<^verbatim>\<open>%n\<close> has stored. A write outside the object
  is \<open>None\<close>. The arguments are a list of typed values; taking one with another type than it was
  passed with is \<open>None\<close>. Field widths and precisions are integers.
\<close>

section \<open>Output\<close>

record out =
  vsn :: bool
  en :: nat
  obuf :: "char list"
  pos :: nat
  stores :: "(u32 \<times> u32) list"

definition ADDCH :: "out \<Rightarrow> char \<Rightarrow> out option" where
  "ADDCH st ch =
     (if vsn st \<and> \<not> pos st < en st then Some (st\<lparr>pos := pos st + 1\<rparr>)
      else map_option (\<lambda>b. st\<lparr>obuf := b, pos := pos st + 1\<rparr>) (wr (obuf st) (pos st) ch))"

primrec emit :: "out \<Rightarrow> char list \<Rightarrow> out option" where
  "emit st [] = Some st"
| "emit st (c # cs) = Option.bind (ADDCH st c) (\<lambda>st. emit st cs)"

text \<open>The loop \<^verbatim>\<open>while (--size >= 0) ADDCH(buf, c)\<close>, and the loop \<^verbatim>\<open>while (len < field_width--)\<close>.\<close>

function pad :: "out \<Rightarrow> char \<Rightarrow> int \<Rightarrow> (out \<times> int) option" where
  "pad st c sz =
     (if 0 \<le> sz - 1 then Option.bind (ADDCH st c) (\<lambda>st. pad st c (sz - 1)) else Some (st, sz - 1))"
  by pat_completeness auto
termination by (relation "measure (\<lambda>(st, c, sz). nat sz)") auto

declare pad.simps [simp del]

definition pad_to :: "out \<Rightarrow> int \<Rightarrow> int \<Rightarrow> (out \<times> int) option" where
  "pad_to st len width = map_option (\<lambda>(st, w). (st, w + len)) (pad st CHR '' '' (width - len))"

section \<open>Numbers\<close>

definition ZEROPAD :: u32 where "ZEROPAD = 1"
definition SIGN :: u32 where "SIGN = 2"
definition PLUS :: u32 where "PLUS = 4"
definition SPACE :: u32 where "SPACE = 8"
definition LEFT :: u32 where "LEFT = 16"
definition SMALL :: u32 where "SMALL = 32"
definition SPECIAL :: u32 where "SPECIAL = 64"

lemmas format_flags = ZEROPAD_def SIGN_def PLUS_def SPACE_def LEFT_def SMALL_def SPECIAL_def

abbreviation (input) has :: "u32 \<Rightarrow> u32 \<Rightarrow> bool" where
  "has flags f \<equiv> flags AND f \<noteq> 0"

text \<open>The character \<^verbatim>\<open>d + '0'\<close>.\<close>

definition dchar :: "u32 \<Rightarrow> char" where
  "dchar d = char_of (unat (d + 48))"

text \<open>The bytes that \<^verbatim>\<open>put_dec_trunc\<close> and \<^verbatim>\<open>put_dec_full\<close> store from their pointer on.\<close>

definition put_dec_trunc :: "u32 \<Rightarrow> char list" where
  "put_dec_trunc q =
     (let d1 = drop_bit 4 q AND 0xf; d2 = drop_bit 8 q AND 0xf; d3 = drop_bit 12 q;
          d0 = 6 * (d3 + d2 + d1) + (q AND 0xf);
          q = drop_bit 11 (d0 * 0xcd); d0 = d0 - 10 * q;
          d1 = q + 9 * d3 + 5 * d2 + d1
      in dchar d0 #
        (if d1 \<noteq> 0 then
           let q = drop_bit 11 (d1 * 0xcd); d1 = d1 - 10 * q; d2 = q + 2 * d2
           in dchar d1 #
             (if d2 \<noteq> 0 \<or> d3 \<noteq> 0 then
                let q = drop_bit 7 (d2 * 0xd); d2 = d2 - 10 * q; d3 = q + 4 * d3
                in dchar d2 #
                  (if d3 \<noteq> 0 then
                     let q = drop_bit 11 (d3 * 0xcd); d3 = d3 - 10 * q
                     in dchar d3 # (if q \<noteq> 0 then [dchar q] else [])
                   else [])
              else [])
         else []))"

definition put_dec_full :: "u32 \<Rightarrow> char list" where
  "put_dec_full q =
     (let d1 = drop_bit 4 q AND 0xf; d2 = drop_bit 8 q AND 0xf; d3 = drop_bit 12 q;
          d0 = 6 * (d3 + d2 + d1) + (q AND 0xf);
          q = drop_bit 11 (d0 * 0xcd); e0 = d0 - 10 * q;
          d1 = q + 9 * d3 + 5 * d2 + d1;
          q = drop_bit 11 (d1 * 0xcd); e1 = d1 - 10 * q;
          d2 = q + 2 * d2;
          q = drop_bit 7 (d2 * 0xd); e2 = d2 - 10 * q;
          d3 = q + 4 * d3;
          q = drop_bit 11 (d3 * 0xcd); e3 = d3 - 10 * q
      in [dchar e0, dchar e1, dchar e2, dchar e3, dchar q])"

lemma do_div_shrinks:
  assumes "\<not> n < 100000" and "do_div n 100000 = Some (q, r)"
  shows "unat q < unat n"
proof -
  have "unat q = unat n div 100000" using do_div_spec [of 100000 n] assms(2) by auto
  moreover have "0 < unat n" using assms(1) by (simp add: word_less_nat_alt)
  ultimately show ?thesis by simp
qed

function put_dec :: "u64 \<Rightarrow> char list option" where
  "put_dec num =
     (if num < 100000 then Some (put_dec_trunc (ucast num))
      else Option.bind (do_div num 100000)
        (\<lambda>(num', rem). map_option ((@) (put_dec_full rem)) (put_dec num')))"
  by pat_completeness auto
termination by (relation "measure unat") (auto dest: do_div_shrinks)

declare put_dec.simps [simp del]

definition digits :: string where "digits = ''0123456789ABCDEF''"

definition or_char :: "char \<Rightarrow> u32 \<Rightarrow> char" where
  "or_char c locase = char_of (of_char c OR unat locase)"

text \<open>The loop for the bases 8 and 16.\<close>

function radix_loop :: "u64 \<Rightarrow> nat \<Rightarrow> u64 \<Rightarrow> u32 \<Rightarrow> char list" where
  "radix_loop num shift msk locase =
     or_char (digits ! unat (take_bit 8 num AND msk)) locase #
     (if drop_bit shift num \<noteq> 0 \<and> shift \<noteq> 0 then radix_loop (drop_bit shift num) shift msk locase else [])"
  by pat_completeness auto
termination
proof (relation "measure (\<lambda>(num, shift, msk, locase). unat num)")
  fix num :: u64 and shift msk locase
  assume a: "drop_bit shift num \<noteq> 0 \<and> shift \<noteq> 0"
  then have "unat num div 2 ^ shift \<noteq> 0" by (simp only: unat_drop_bit [symmetric] unat_eq_zero not_False_eq_True simp_thms)
  moreover have "(2 :: nat) ^ 1 \<le> 2 ^ shift" using a by (intro power_increasing) simp_all
  ultimately have "unat num div 2 ^ shift < unat num" by (intro div_less_dividend) (auto intro: gr0I)
  then show "((drop_bit shift num, shift, msk, locase), num, shift, msk, locase) \<in> measure (\<lambda>(num, shift, msk, locase). unat num)"
    by (simp only: in_measure prod.case unat_drop_bit)
qed simp

declare radix_loop.simps [simp del]

definition sign_of :: "u64 \<Rightarrow> u32 \<Rightarrow> char" where
  "sign_of num flags =
     (if has flags SIGN then
        (if sint num < 0 then CHR ''-'' else if has flags PLUS then CHR ''+'' else if has flags SPACE then CHR '' '' else NUL)
      else NUL)"

definition number :: "out \<Rightarrow> u64 \<Rightarrow> nat \<Rightarrow> int \<Rightarrow> int \<Rightarrow> u32 \<Rightarrow> out option" where
  "number st num base sz precision flags =
     (let need_pfx = has flags SPECIAL \<and> base \<noteq> 10;
          locase = flags AND SMALL;
          flags = (if has flags LEFT then flags AND NOT ZEROPAD else flags);
          sign = sign_of num flags;
          num = (if has flags SIGN \<and> sint num < 0 then - num else num);
          sz = (if sign \<noteq> NUL then sz - 1 else sz);
          sz = (if need_pfx then sz - 1 - (if base = 16 then 1 else 0) else sz)
      in do {
        tmp \<leftarrow> (if num = 0 then Some ''0''
               else if base \<noteq> 10 then Some (radix_loop num (if base = 16 then 4 else 3) (of_nat base - 1) locase)
               else put_dec num);
        if length tmp > 66 then None
        else let precision = max precision (int (length tmp)); sz = sz - precision in do {
          (st, sz) \<leftarrow> (if \<not> has flags (ZEROPAD + LEFT) then pad st CHR '' '' sz else Some (st, sz));
          st \<leftarrow> (if sign \<noteq> NUL then ADDCH st sign else Some st);
          st \<leftarrow> (if need_pfx then do {
                   st \<leftarrow> ADDCH st CHR ''0'';
                   if base = 16 then ADDCH st (or_char CHR ''X'' locase) else Some st }
                else Some st);
          (st, sz) \<leftarrow> (if \<not> has flags LEFT then pad st (if has flags ZEROPAD then CHR ''0'' else CHR '' '') sz else Some (st, sz));
          (st, _) \<leftarrow> pad st CHR ''0'' (precision - int (length tmp));
          st \<leftarrow> emit st (rev tmp);
          map_option fst (pad st CHR '' '' sz) } })"

section \<open>Strings and addresses\<close>

definition string :: "out \<Rightarrow> char list option \<Rightarrow> int \<Rightarrow> int \<Rightarrow> u32 \<Rightarrow> out option" where
  "string st s field_width precision flags =
     (let s = (case s of None \<Rightarrow> ''<NULL>'' @ [NUL] | Some s \<Rightarrow> s) in do {
        len \<leftarrow> strnlen s (if precision < 0 then nat (2 ^ 32 + precision) else nat precision);
        (st, w) \<leftarrow> (if \<not> has flags LEFT then pad_to st (int len) field_width else Some (st, field_width));
        st \<leftarrow> emit st (take len s);
        map_option fst (pad_to st (int len) w) })"

definition hex_asc :: string where "hex_asc = ''0123456789abcdef''"

definition pack_hex_byte :: "char \<Rightarrow> char list" where
  "pack_hex_byte b = [hex_asc ! (of_char b div 16), hex_asc ! (of_char b mod 16)]"

definition mac_address_string :: "out \<Rightarrow> char list \<Rightarrow> int \<Rightarrow> int \<Rightarrow> u32 \<Rightarrow> out option" where
  "mac_address_string st addr field_width precision flags =
     (if length addr < 6 then None
      else let p = concat (map (\<lambda>i. pack_hex_byte (addr ! i) @ (if \<not> has flags SPECIAL \<and> i \<noteq> 5 then '':'' else [])) [0..<6])
           in if length p + 1 > 6 * 3 then None
              else string st (Some (p @ [NUL])) field_width precision (flags AND NOT SPECIAL))"

definition ip6_addr_string :: "out \<Rightarrow> char list \<Rightarrow> int \<Rightarrow> int \<Rightarrow> u32 \<Rightarrow> out option" where
  "ip6_addr_string st addr field_width precision flags =
     (if length addr < 16 then None
      else let p = concat (map (\<lambda>i. pack_hex_byte (addr ! (2 * i)) @ pack_hex_byte (addr ! (2 * i + 1))
                                 @ (if \<not> has flags SPECIAL \<and> i \<noteq> 7 then '':'' else [])) [0..<8])
           in if length p + 1 > 8 * 5 then None
              else string st (Some (p @ [NUL])) field_width precision (flags AND NOT SPECIAL))"

text \<open>\<^verbatim>\<open>temp\<close> has room for three digits.\<close>

definition quad :: "char \<Rightarrow> char list option" where
  "quad b = (let temp = put_dec_trunc (of_char b) in if length temp > 3 then None else Some (rev temp))"

definition ip4_addr_string :: "out \<Rightarrow> char list \<Rightarrow> int \<Rightarrow> int \<Rightarrow> u32 \<Rightarrow> out option" where
  "ip4_addr_string st addr field_width precision flags =
     (if length addr < 4 then None
      else do {
        q0 \<leftarrow> quad (addr ! 0); q1 \<leftarrow> quad (addr ! 1); q2 \<leftarrow> quad (addr ! 2); q3 \<leftarrow> quad (addr ! 3);
        let p = q0 @ ''.'' @ q1 @ ''.'' @ q2 @ ''.'' @ q3 in
        if length p + 1 > 4 * 4 then None
        else string st (Some (p @ [NUL])) field_width precision (flags AND NOT SPECIAL) })"

text \<open>A pointer argument is its value and the bytes it points at.\<close>

definition pointer :: "char list \<Rightarrow> out \<Rightarrow> u32 \<Rightarrow> char list \<Rightarrow> int \<Rightarrow> int \<Rightarrow> u32 \<Rightarrow> out option" where
  "pointer fmt st ptr target field_width precision flags = do {
     c \<leftarrow> rd fmt 0;
     let sflags = (if c \<in> {CHR ''m'', CHR ''i''} then flags OR SPECIAL else flags) in
     if c \<in> {CHR ''m'', CHR ''M''} then mac_address_string st target field_width precision sflags
     else do {
       c1 \<leftarrow> (if c \<in> {CHR ''i'', CHR ''I''} then rd fmt 1 else Some NUL);
       if c1 = CHR ''6'' then ip6_addr_string st target field_width precision sflags
       else if c1 = CHR ''4'' then ip4_addr_string st target field_width precision sflags
       else let flags = (if c \<in> {CHR ''i'', CHR ''I''} then sflags AND NOT SPECIAL else flags) OR SMALL
            in if field_width = -1 then number st (ucast ptr) 16 8 precision (flags OR ZEROPAD)
               else number st (ucast ptr) 16 field_width precision flags } }"

section \<open>The format\<close>

datatype va = Vint u32 | Vquad u64 | Vstr "char list option" | Vptr u32 "char list"

fun va_int :: "va list \<Rightarrow> (u32 \<times> va list) option" where
  "va_int (Vint w # args) = Some (w, args)"
| "va_int _ = None"

fun parse_flags :: "char list \<Rightarrow> u32 \<Rightarrow> (char list \<times> u32) option" where
  "parse_flags [] flags = None"
| "parse_flags (c # cs) flags =
     (if c = CHR ''-'' then parse_flags cs (flags OR LEFT)
      else if c = CHR ''+'' then parse_flags cs (flags OR PLUS)
      else if c = CHR '' '' then parse_flags cs (flags OR SPACE)
      else if c = CHR ''#'' then parse_flags cs (flags OR SPECIAL)
      else if c = CHR ''0'' then parse_flags cs (flags OR ZEROPAD)
      else Some (c # cs, flags))"

definition is_digit :: "char \<Rightarrow> bool" where
  "is_digit c \<longleftrightarrow> CHR ''0'' \<le> c \<and> c \<le> CHR ''9''"

fun skip_atoi :: "char list \<Rightarrow> int \<Rightarrow> (int \<times> char list) option" where
  "skip_atoi [] i = None"
| "skip_atoi (c # cs) i = (if is_digit c then skip_atoi cs (i * 10 + of_char c - 48) else Some (i, c # cs))"

definition parse_width :: "char list \<Rightarrow> u32 \<Rightarrow> va list \<Rightarrow> (int \<times> char list \<times> u32 \<times> va list) option" where
  "parse_width fmt flags args = do {
     c \<leftarrow> rd fmt 0;
     if is_digit c then map_option (\<lambda>(w, fmt). (w, fmt, flags, args)) (skip_atoi fmt 0)
     else if c = CHR ''*'' then do {
       (a, args) \<leftarrow> va_int args;
       if sint a < 0 then Some (- sint a, drop 1 fmt, flags OR LEFT, args) else Some (sint a, drop 1 fmt, flags, args) }
     else Some (-1, fmt, flags, args) }"

definition parse_precision :: "char list \<Rightarrow> va list \<Rightarrow> (int \<times> char list \<times> va list) option" where
  "parse_precision fmt args = do {
     c \<leftarrow> rd fmt 0;
     if c = CHR ''.'' then do {
       c1 \<leftarrow> rd fmt 1;
       (p, fmt, args) \<leftarrow>
         (if is_digit c1 then map_option (\<lambda>(p, fmt). (p, fmt, args)) (skip_atoi (drop 1 fmt) 0)
          else if c1 = CHR ''*'' then map_option (\<lambda>(a, args). (sint a, drop 2 fmt, args)) (va_int args)
          else Some (-1, drop 1 fmt, args));
       Some (if p < 0 then 0 else p, fmt, args) }
     else Some (-1, fmt, args) }"

text \<open>The qualifier, NUL for none.\<close>

definition parse_qualifier :: "char list \<Rightarrow> (char \<times> char list) option" where
  "parse_qualifier fmt = do {
     c \<leftarrow> rd fmt 0;
     if c \<in> {CHR ''h'', CHR ''l'', CHR ''L'', CHR ''Z'', CHR ''z'', CHR ''t''} then do {
       c1 \<leftarrow> rd fmt 1;
       if c = CHR ''l'' \<and> c1 = CHR ''l'' then Some (CHR ''L'', drop 2 fmt) else Some (c, drop 1 fmt) }
     else Some (NUL, fmt) }"

definition isalnum :: "char \<Rightarrow> bool" where
  "isalnum c = (ismask c AND (ctype_U OR ctype_L OR ctype_D) \<noteq> 0)"

fun skip_alnum :: "char list \<Rightarrow> char list option" where
  "skip_alnum [] = None"
| "skip_alnum (c # cs) = (if isalnum c then skip_alnum cs else Some (c # cs))"

definition fetch_number :: "char \<Rightarrow> u32 \<Rightarrow> va list \<Rightarrow> (u64 \<times> va list) option" where
  "fetch_number q flags args =
     (if q = CHR ''L'' then (case args of Vquad n # args \<Rightarrow> Some (n, args) | _ \<Rightarrow> None)
      else do {
        (w, args) \<leftarrow> va_int args;
        Some (if q \<in> {CHR ''Z'', CHR ''z''} then ucast w
              else if q = CHR ''t'' then scast w
              else if q = CHR ''h'' then (if has flags SIGN then scast (ucast w :: u16) else ucast (ucast w :: u16))
              else (if has flags SIGN then scast w else ucast w), args) })"

text \<open>
  One conversion after its flags, width, precision and qualifier; the rest of the format starts at the
  character that the \<^verbatim>\<open>++fmt\<close> of the \<^verbatim>\<open>for\<close> loop moves to. First the cases of the \<^verbatim>\<open>switch\<close>.
\<close>

definition convert_char :: "out \<Rightarrow> int \<Rightarrow> u32 \<Rightarrow> va list \<Rightarrow> (out \<times> va list) option" where
  "convert_char st field_width flags args = do {
     (st, w) \<leftarrow> (if \<not> has flags LEFT then pad st CHR '' '' (field_width - 1) else Some (st, field_width - 1));
     (a, args) \<leftarrow> va_int args;
     st \<leftarrow> ADDCH st (char_of (unat a));
     (st, _) \<leftarrow> pad st CHR '' '' w;
     Some (st, args) }"

definition convert_string :: "out \<Rightarrow> int \<Rightarrow> int \<Rightarrow> u32 \<Rightarrow> va list \<Rightarrow> (out \<times> va list) option" where
  "convert_string st field_width precision flags args =
     (case args of
        Vstr s # args \<Rightarrow> map_option (\<lambda>st. (st, args)) (string st s field_width precision flags)
      | _ \<Rightarrow> None)"

definition convert_pointer :: "out \<Rightarrow> char list \<Rightarrow> int \<Rightarrow> int \<Rightarrow> u32 \<Rightarrow> va list \<Rightarrow> (out \<times> char list \<times> va list) option" where
  "convert_pointer st fmt field_width precision flags args =
     (case args of
        Vptr a target # args \<Rightarrow> do {
          st \<leftarrow> pointer fmt st a target field_width precision flags;
          fmt \<leftarrow> skip_alnum fmt;
          Some (st, fmt, args) }
      | _ \<Rightarrow> None)"

definition convert_count :: "out \<Rightarrow> va list \<Rightarrow> (out \<times> va list) option" where
  "convert_count st args =
     (case args of
        Vptr a target # args \<Rightarrow> Some (st\<lparr>stores := stores st @ [(a, of_nat (pos st))]\<rparr>, args)
      | _ \<Rightarrow> None)"

definition convert_number :: "out \<Rightarrow> char \<Rightarrow> char \<Rightarrow> int \<Rightarrow> int \<Rightarrow> u32 \<Rightarrow> va list \<Rightarrow> (out \<times> va list) option" where
  "convert_number st c q field_width precision flags args =
     (let flags = (if c = CHR ''x'' then flags OR SMALL else if c \<in> {CHR ''d'', CHR ''i''} then flags OR SIGN else flags);
          base = (if c = CHR ''o'' then 8 else if c \<in> {CHR ''x'', CHR ''X''} then 16 else 10) in do {
        (num, args) \<leftarrow> fetch_number q flags args;
        st \<leftarrow> number st num base field_width precision flags;
        Some (st, args) })"

definition convert_other :: "out \<Rightarrow> char list \<Rightarrow> char \<Rightarrow> (out \<times> char list) option" where
  "convert_other st fmt c = do {
     st \<leftarrow> ADDCH st CHR ''%'';
     if c \<noteq> NUL then map_option (\<lambda>st. (st, drop 1 fmt)) (ADDCH st c) else Some (st, fmt) }"

definition convert :: "out \<Rightarrow> char list \<Rightarrow> char \<Rightarrow> int \<Rightarrow> int \<Rightarrow> u32 \<Rightarrow> va list \<Rightarrow> (out \<times> char list \<times> va list) option" where
  "convert st fmt q field_width precision flags args = do {
     c \<leftarrow> rd fmt 0;
     if c = CHR ''c'' then map_option (\<lambda>(st, args). (st, drop 1 fmt, args)) (convert_char st field_width flags args)
     else if c = CHR ''s'' then map_option (\<lambda>(st, args). (st, drop 1 fmt, args)) (convert_string st field_width precision flags args)
     else if c = CHR ''p'' then convert_pointer st (drop 1 fmt) field_width precision flags args
     else if c = CHR ''n'' then map_option (\<lambda>(st, args). (st, drop 1 fmt, args)) (convert_count st args)
     else if c = CHR ''%'' then map_option (\<lambda>st. (st, drop 1 fmt, args)) (ADDCH st CHR ''%'')
     else if c \<in> {CHR ''o'', CHR ''x'', CHR ''X'', CHR ''d'', CHR ''i'', CHR ''u''} then
       map_option (\<lambda>(st, args). (st, drop 1 fmt, args)) (convert_number st c q field_width precision flags args)
     else map_option (\<lambda>(st, fmt). (st, fmt, args)) (convert_other st fmt c) }"

definition directive :: "out \<Rightarrow> char list \<Rightarrow> va list \<Rightarrow> (out \<times> char list \<times> va list) option" where
  "directive st fmt args = do {
     (fmt, flags) \<leftarrow> parse_flags fmt 0;
     (field_width, fmt, flags, args) \<leftarrow> parse_width fmt flags args;
     (precision, fmt, args) \<leftarrow> parse_precision fmt args;
     (q, fmt) \<leftarrow> parse_qualifier fmt;
     convert st fmt q field_width precision flags args }"

lemma bind_SomeE:
  assumes "Option.bind x f = Some y" obtains z where "x = Some z" "f z = Some y"
  using assms by (cases x) auto

lemma if_eqE:
  assumes "(if b then x else y) = z" obtains "x = z" | "y = z"
  using assms by (cases b) auto

lemma parse_flags_shorter: "parse_flags fmt fl = Some (fmt', fl') \<Longrightarrow> length fmt' \<le> length fmt"
  by (induction fmt fl rule: parse_flags.induct) (auto split: if_splits)

lemma skip_atoi_shorter: "skip_atoi fmt i = Some (v, fmt') \<Longrightarrow> length fmt' \<le> length fmt"
  by (induction fmt i rule: skip_atoi.induct) (auto split: if_splits)

lemma skip_atoi_drop: "skip_atoi (drop n fmt) i = Some (v, fmt') \<Longrightarrow> length fmt' \<le> length fmt"
  by (metis diff_le_self length_drop order.trans skip_atoi_shorter)

lemma skip_alnum_shorter: "skip_alnum (drop n fmt) = Some fmt' \<Longrightarrow> length fmt' \<le> length fmt"
proof -
  have "skip_alnum xs = Some fmt' \<Longrightarrow> length fmt' \<le> length xs" for xs by (induction xs) (auto split: if_splits)
  then show "skip_alnum (drop n fmt) = Some fmt' \<Longrightarrow> length fmt' \<le> length fmt" by (metis diff_le_self length_drop order.trans)
qed

lemma parse_width_shorter: "parse_width fmt fl args = Some (w, fmt', fl', args') \<Longrightarrow> length fmt' \<le> length fmt"
  unfolding parse_width_def by (auto elim!: bind_SomeE dest!: skip_atoi_shorter split: if_splits)

lemma parse_precision_shorter: "parse_precision fmt args = Some (p, fmt', args') \<Longrightarrow> length fmt' \<le> length fmt"
  unfolding parse_precision_def by (auto elim!: bind_SomeE dest!: skip_atoi_drop split: if_splits)

lemma parse_qualifier_shorter: "parse_qualifier fmt = Some (q, fmt') \<Longrightarrow> length fmt' \<le> length fmt"
  unfolding parse_qualifier_def by (auto elim!: bind_SomeE split: if_splits)

lemma convert_other_shorter: "convert_other st fmt c = Some (st', fmt') \<Longrightarrow> length fmt' \<le> length fmt"
  by (auto simp: convert_other_def elim!: bind_SomeE split: if_splits)

lemma convert_pointer_shorter: "convert_pointer st (drop n fmt) w p fl args = Some (st', fmt', args') \<Longrightarrow> length fmt' \<le> length fmt"
  by (auto simp: convert_pointer_def elim!: bind_SomeE dest!: skip_alnum_shorter split: list.splits va.splits)

lemma convert_shorter:
  assumes "convert st fmt q w p fl args = Some (st', fmt', args')"
  shows "length fmt' \<le> length fmt"
proof -
  obtain c where c: "rd fmt 0 = Some c" using assms by (auto simp: convert_def elim: bind_SomeE)
  from assms [unfolded convert_def c Option.bind.simps] show ?thesis
    by (elim if_eqE) (auto dest!: convert_other_shorter convert_pointer_shorter)
qed

lemma directive_shorter:
  assumes "directive st fmt args = Some (st', fmt', args')"
  shows "length fmt' \<le> length fmt"
proof -
  obtain fmt1 fl1 where a: "parse_flags fmt 0 = Some (fmt1, fl1)" using assms by (auto simp: directive_def elim: bind_SomeE)
  obtain w fmt2 fl2 args2 where b: "parse_width fmt1 fl1 args = Some (w, fmt2, fl2, args2)"
    using assms a by (auto simp: directive_def elim!: bind_SomeE)
  obtain p fmt3 args3 where c: "parse_precision fmt2 args2 = Some (p, fmt3, args3)"
    using assms a b by (auto simp: directive_def elim!: bind_SomeE)
  obtain q fmt4 where d: "parse_qualifier fmt3 = Some (q, fmt4)" using assms a b c by (auto simp: directive_def elim!: bind_SomeE)
  have "convert st fmt4 q w p fl2 args3 = Some (st', fmt', args')" using assms a b c d by (simp add: directive_def)
  then show ?thesis using parse_flags_shorter [OF a] parse_width_shorter [OF b] parse_precision_shorter [OF c]
    parse_qualifier_shorter [OF d] convert_shorter by (meson order.trans)
qed

function format_loop :: "out \<Rightarrow> char list \<Rightarrow> va list \<Rightarrow> out option" where
  "format_loop st [] args = None"
| "format_loop st (c # cs) args =
     (if c = NUL then Some st
      else if c \<noteq> CHR ''%'' then Option.bind (ADDCH st c) (\<lambda>st. format_loop st cs args)
      else Option.bind (directive st cs args) (\<lambda>(st, fmt, args). format_loop st fmt args))"
  by pat_completeness auto
termination
  by (relation "measure (\<lambda>(st, fmt, args). length fmt)") (auto dest!: directive_shorter)

text \<open>
  \<^verbatim>\<open>buf\<close> is the address of the buffer \<open>b\<close>. With \<^verbatim>\<open>CONFIG_SYS_VSNPRINTF\<close> the end is moved back to the last
  address when \<^verbatim>\<open>buf + size\<close> wraps around. The result is the return value, the buffer and what
  \<^verbatim>\<open>%n\<close> stored.
\<close>

definition vsnprintf_internal :: "bool \<Rightarrow> nat \<Rightarrow> char list \<Rightarrow> nat \<Rightarrow> char list \<Rightarrow> va list \<Rightarrow> (nat \<times> char list \<times> (u32 \<times> u32) list) option" where
  "vsnprintf_internal cfg buf b sz fmt args =
     (let wraps = buf + sz \<ge> 2 ^ 32;
          sz = (if cfg \<and> wraps then 2 ^ 32 - 1 - buf else sz) in do {
        st \<leftarrow> format_loop \<lparr>vsn = cfg, en = sz, obuf = b, pos = 0, stores = []\<rparr> fmt args;
        if cfg then
          (if sz > 0 then do {
             st \<leftarrow> ADDCH st NUL;
             b \<leftarrow> (if pos st > sz then wr (obuf st) (sz - 1) NUL else Some (obuf st));
             Some (pos st, b, stores st) }
           else Some (pos st, obuf st, stores st))
        else do {
          b \<leftarrow> wr (obuf st) (pos st) NUL;
          Some (pos st, b, stores st) } })"

definition vsnprintf :: "nat \<Rightarrow> char list \<Rightarrow> nat \<Rightarrow> char list \<Rightarrow> va list \<Rightarrow> (nat \<times> char list \<times> (u32 \<times> u32) list) option" where
  "vsnprintf buf b sz fmt args = vsnprintf_internal True buf b sz fmt args"

definition vscnprintf :: "nat \<Rightarrow> char list \<Rightarrow> nat \<Rightarrow> char list \<Rightarrow> va list \<Rightarrow> (nat \<times> char list \<times> (u32 \<times> u32) list) option" where
  "vscnprintf buf b sz fmt args =
     map_option (\<lambda>(i, r). (if i < sz then i else if sz \<noteq> 0 then sz - 1 else 0, r)) (vsnprintf buf b sz fmt args)"

definition vsprintf :: "nat \<Rightarrow> char list \<Rightarrow> char list \<Rightarrow> va list \<Rightarrow> (nat \<times> char list \<times> (u32 \<times> u32) list) option" where
  "vsprintf buf b fmt args = vsnprintf_internal False buf b (2 ^ 31 - 1) fmt args"

section \<open>Decimal conversion\<close>

lemma mul205:
  assumes "e < 1000"
  shows "e * 205 div 2048 = e div (10 :: nat)"
proof -
  obtain q r where e: "e = 10 * q + r" "r < 10" using mult_div_mod_eq [of 10 e] mod_less_divisor [of 10 e] by (metis zero_less_numeral)
  then have "2048 * q \<le> e * 205" "e * 205 < 2048 * Suc q" "e div 10 = q" using assms by simp_all
  then show ?thesis by (intro div_nat_eqI) simp_all
qed

lemma mul13:
  assumes "e < 64"
  shows "e * 13 div 128 = e div (10 :: nat)"
proof -
  obtain q r where e: "e = 10 * q + r" "r < 10" using mult_div_mod_eq [of 10 e] mod_less_divisor [of 10 e] by (metis zero_less_numeral)
  then have "128 * q \<le> e * 13" "e * 13 < 128 * Suc q" "e div 10 = q" using assms by simp_all
  then show ?thesis by (intro div_nat_eqI) simp_all
qed

lemma drop_bit_of_nat: "n < 2 ^ 32 \<Longrightarrow> drop_bit k (of_nat n :: u32) = of_nat (n div 2 ^ k)"
proof -
  assume n: "n < 2 ^ 32"
  have "n div 2 ^ k \<le> n" by simp
  then have "n div 2 ^ k < 2 ^ 32" using n by (rule le_less_trans)
  then have "unat (drop_bit k (of_nat n :: u32)) = unat (of_nat (n div 2 ^ k) :: u32)"
    using n by (simp only: unat_drop_bit) (simp add: unat_of_nat)
  then show ?thesis by (simp only: word_unat_eq_iff)
qed

lemma and_15: "(x :: u32) AND 0xf = of_nat (unat x mod 16)"
proof -
  have "x AND 0xf = take_bit 4 x" by (simp add: take_bit_eq_mask mask_numeral)
  then have "unat (x AND 0xf) = take_bit 4 (unat x)" by (simp only: unsigned_take_bit_eq)
  then have "unat (x AND 0xf) = unat (of_nat (unat x mod 16) :: u32)" by (simp add: take_bit_eq_mod unat_of_nat)
  then show ?thesis by (simp only: word_unat_eq_iff)
qed

lemma divide_205:
  assumes "e < 1000"
  shows "drop_bit 11 ((of_nat e :: u32) * 0xcd) = of_nat (e div 10)" and "(of_nat e :: u32) - 10 * of_nat (e div 10) = of_nat (e mod 10)"
proof -
  have "drop_bit 11 ((of_nat e :: u32) * 0xcd) = drop_bit 11 (of_nat (e * 205))" by simp
  also have "\<dots> = of_nat (e * 205 div 2 ^ 11)" using assms by (intro drop_bit_of_nat) simp
  finally show "drop_bit 11 ((of_nat e :: u32) * 0xcd) = of_nat (e div 10)" using mul205 [OF assms] by simp
  have "(of_nat e :: u32) = of_nat (10 * (e div 10) + e mod 10)" by simp
  also have "\<dots> = 10 * of_nat (e div 10) + of_nat (e mod 10)" by (simp only: of_nat_add of_nat_mult of_nat_numeral)
  finally show "(of_nat e :: u32) - 10 * of_nat (e div 10) = of_nat (e mod 10)" by simp
qed

lemma divide_13:
  assumes "e < 64"
  shows "drop_bit 7 ((of_nat e :: u32) * 0xd) = of_nat (e div 10)"
proof -
  have "drop_bit 7 ((of_nat e :: u32) * 0xd) = drop_bit 7 (of_nat (e * 13))" by simp
  also have "\<dots> = of_nat (e * 13 div 2 ^ 7)" using assms by (intro drop_bit_of_nat) simp
  finally show ?thesis using mul13 [OF assms] by simp
qed

lemma dchar_digit: "d < 100 \<Longrightarrow> dchar (of_nat d) = dec_digit d"
proof -
  assume "d < 100"
  then have "unat ((of_nat d :: u32) + 48) = d + 48" by (subst unat_add_small) (simp_all add: unat_of_nat)
  then show ?thesis by (simp add: dchar_def dec_digit_def add.commute)
qed

lemma of_nat_zero_iff: "n < 2 ^ 32 \<Longrightarrow> (of_nat n :: u32) = 0 \<longleftrightarrow> n = 0"
  by (cases "n = 0") (auto simp: word_of_nat_eq_0_iff dest: dvd_imp_le)

text \<open>
  The four hexadecimal digits of a number below 100000 and the carries of its decimal digits:
  \<open>16 = 1 * 10 + 6\<close>, \<open>256 = 2 * 100 + 5 * 10 + 6\<close> and \<open>4096 = 4 * 1000 + 9 * 10 + 6\<close>.
\<close>

definition carries :: "nat \<Rightarrow> nat \<times> nat \<times> nat \<times> nat \<times> nat" where
  "carries Q = (let D1 = Q div 16 mod 16; D2 = Q div 256 mod 16; D3 = Q div 4096;
     E0 = 6 * (D3 + D2 + D1) + Q mod 16; E1 = E0 div 10 + 9 * D3 + 5 * D2 + D1; E2 = E1 div 10 + 2 * D2
     in (E0, E1, E2, E2 div 10 + 4 * D3, D3))"

lemma carries_eqs:
  assumes "carries Q = (E0, E1, E2, E3, D3)"
  shows "D3 = Q div 4096" "E0 = 6 * (D3 + Q div 256 mod 16 + Q div 16 mod 16) + Q mod 16"
    "E1 = E0 div 10 + 9 * D3 + 5 * (Q div 256 mod 16) + Q div 16 mod 16" "E2 = E1 div 10 + 2 * (Q div 256 mod 16)"
    "E3 = E2 div 10 + 4 * D3"
  using assms by (auto simp: carries_def Let_def)

lemma step10: "(e + 10 * m) div 10 = e div 10 + m" "(e + 10 * m) mod 10 = e mod (10 :: nat)"
  by simp_all

lemma hex_sum:
  fixes Q :: nat
  assumes "Q < 100000"
  shows "Q = 4096 * (Q div 4096) + 256 * (Q div 256 mod 16) + 16 * (Q div 16 mod 16) + Q mod 16" and "Q div 4096 \<le> 24"
proof -
  have "Q = 16 * (Q div 16) + Q mod 16" by simp
  moreover have "Q div 16 = 16 * (Q div 256) + Q div 16 mod 16"
    using mult_div_mod_eq [of 16 "Q div 16"] by (simp add: div_mult2_eq [symmetric])
  moreover have "Q div 256 = 16 * (Q div 4096) + Q div 256 mod 16"
    using mult_div_mod_eq [of 16 "Q div 256"] by (simp add: div_mult2_eq [symmetric])
  ultimately show "Q = 4096 * (Q div 4096) + 256 * (Q div 256 mod 16) + 16 * (Q div 16 mod 16) + Q mod 16" by linarith
  show "Q div 4096 \<le> 24" using assms by (simp add: less_mult_imp_div_less less_Suc_eq_le [symmetric])
qed

lemma carries_spec:
  assumes "Q < 100000" and c: "carries Q = (E0, E1, E2, E3, D3)"
  shows "E0 < 1000" "E1 < 1000" "E2 < 64" "E3 < 1000" "D3 \<le> 24"
    and "Q mod 10 = E0 mod 10" "Q div 10 mod 10 = E1 mod 10" "Q div 100 mod 10 = E2 mod 10" "Q div 1000 = E3"
    and "Q div 10 = 0 \<longleftrightarrow> E1 = 0" "Q div 100 = 0 \<longleftrightarrow> E2 = 0 \<and> D3 = 0"
proof -
  obtain D1 D2 R where D: "D1 = Q div 16 mod 16" "D2 = Q div 256 mod 16" "R = Q mod 16" by blast
  have E: "D3 = Q div 4096" "E0 = 6 * (D3 + D2 + D1) + R" "E1 = E0 div 10 + 9 * D3 + 5 * D2 + D1" "E2 = E1 div 10 + 2 * D2"
    "E3 = E2 div 10 + 4 * D3" using carries_eqs [OF c] by (simp_all only: D)
  have sum: "Q = 4096 * D3 + 256 * D2 + 16 * D1 + R" "D3 \<le> 24" using hex_sum [OF assms(1)] by (simp_all only: D E(1))
  have "x mod 16 \<le> 15" for x :: nat using mod_less_divisor [of 16 x] by simp
  then have d: "D2 \<le> 15" "D1 \<le> 15" "R \<le> 15" unfolding D by simp_all
  have e0: "E0 \<le> 339" using sum(2) d E(2) by simp
  then have e1: "E1 \<le> 339" using sum(2) d E(3) by simp
  then show e2: "E2 < 64" using d E(4) by simp
  then show "E3 < 1000" using sum(2) E(5) by simp
  show "E0 < 1000" "E1 < 1000" "D3 \<le> 24" using e0 e1 sum(2) by simp_all
  have q0: "Q = E0 + 10 * (9 * D3 + 5 * D2 + D1 + 20 * D2 + 400 * D3)" using sum(1) E(2) by simp
  have q1: "Q div 10 = E1 + 10 * (2 * D2 + 40 * D3)" unfolding q0 step10 E(3) by simp
  have q2: "Q div 100 = E2 + 10 * (4 * D3)"
    using arg_cong [OF q1, of "\<lambda>x. x div 10"] unfolding step10 E(4) by (simp add: div_mult2_eq [symmetric])
  show "Q div 1000 = E3"
    using arg_cong [OF q2, of "\<lambda>x. x div 10"] unfolding step10 E(5) by (simp add: div_mult2_eq [symmetric])
  show "Q mod 10 = E0 mod 10" unfolding q0 step10 ..
  show "Q div 10 mod 10 = E1 mod 10" unfolding q1 step10 ..
  show "Q div 100 mod 10 = E2 mod 10" unfolding q2 step10 ..
  show "Q div 10 = 0 \<longleftrightarrow> E1 = 0" using q1 E(3) by auto
  show "Q div 100 = 0 \<longleftrightarrow> E2 = 0 \<and> D3 = 0" using q2 by auto
qed

text \<open>The words of the two routines are these numbers.\<close>

lemma word_digits:
  fixes q :: u32
  assumes "unat q < 100000" and "carries (unat q) = (E0, E1, E2, E3, D3)"
  shows "drop_bit 12 q = of_nat D3"
    and "6 * (drop_bit 12 q + (drop_bit 8 q AND 0xf) + (drop_bit 4 q AND 0xf)) + (q AND 0xf) = of_nat E0"
    and "of_nat (E0 div 10) + 9 * drop_bit 12 q + 5 * (drop_bit 8 q AND 0xf) + (drop_bit 4 q AND 0xf) = of_nat E1"
    and "of_nat (E1 div 10) + 2 * (drop_bit 8 q AND 0xf) = of_nat E2"
    and "of_nat (E2 div 10) + 4 * drop_bit 12 q = of_nat E3"
proof -
  let ?Q = "unat q"
  have d: "drop_bit 12 q = of_nat (?Q div 4096)" "drop_bit 8 q AND 0xf = of_nat (?Q div 256 mod 16)"
    "drop_bit 4 q AND 0xf = of_nat (?Q div 16 mod 16)" "q AND 0xf = of_nat (?Q mod 16)"
  proof -
    show "drop_bit 12 q = of_nat (?Q div 4096)" using drop_bit_of_nat [of ?Q 12] u32_less [of q] by simp
    show "drop_bit 8 q AND 0xf = of_nat (?Q div 256 mod 16)" "drop_bit 4 q AND 0xf = of_nat (?Q div 16 mod 16)" "q AND 0xf = of_nat (?Q mod 16)"
      by (simp_all only: and_15 unat_drop_bit) simp_all
  qed
  have E: "D3 = ?Q div 4096" "E0 = 6 * (D3 + ?Q div 256 mod 16 + ?Q div 16 mod 16) + ?Q mod 16"
    "E1 = E0 div 10 + 9 * D3 + 5 * (?Q div 256 mod 16) + ?Q div 16 mod 16" "E2 = E1 div 10 + 2 * (?Q div 256 mod 16)"
    "E3 = E2 div 10 + 4 * D3" using assms(2) by (rule carries_eqs)+
  note n = of_nat_add of_nat_mult of_nat_numeral
  show "drop_bit 12 q = of_nat D3" unfolding d E(1) ..
  show "6 * (drop_bit 12 q + (drop_bit 8 q AND 0xf) + (drop_bit 4 q AND 0xf)) + (q AND 0xf) = of_nat E0"
    unfolding d E(2) E(1) by (simp only: n)
  show "of_nat (E0 div 10) + 9 * drop_bit 12 q + 5 * (drop_bit 8 q AND 0xf) + (drop_bit 4 q AND 0xf) = of_nat E1"
    unfolding d E(3) E(1) by (simp only: n)
  show "of_nat (E1 div 10) + 2 * (drop_bit 8 q AND 0xf) = of_nat E2" unfolding d E(4) by (simp only: n)
  show "of_nat (E2 div 10) + 4 * drop_bit 12 q = of_nat E3" unfolding d E(5) E(1) by (simp only: n)
qed

lemma rev_digits_10: "rev_digits 10 f n = f (n mod 10) # (if n div 10 = 0 then [] else rev_digits 10 f (n div 10))"
  by (subst rev_digits.simps) (simp add: div_eq_0_iff)

lemma div_10_10: "n div 10 div 10 = n div (100 :: nat)" "n div 100 div 10 = n div (1000 :: nat)" "n div 1000 div 10 = n div (10000 :: nat)"
  by (simp_all add: div_mult2_eq [symmetric])

lemma put_dec_digits:
  assumes "unat q < 100000"
  shows "put_dec_trunc q = rev_digits 10 dec_digit (unat q)"
    and "put_dec_full q = map (\<lambda>k. dec_digit (unat q div 10 ^ k mod 10)) [0, 1, 2, 3, 4]"
proof -
  obtain E0 E1 E2 E3 D3 where c: "carries (unat q) = (E0, E1, E2, E3, D3)" by (metis prod_cases5)
  note s = carries_spec [OF assms c]
  note w = word_digits [OF assms c]
  note w' = w(2-5) [unfolded w(1)]
  note steps = divide_205 [OF s(1)] divide_205 [OF s(2)] divide_205 [OF s(4)] divide_13 [OF s(3)]
  have e2: "(of_nat E2 :: u32) - 10 * of_nat (E2 div 10) = of_nat (E2 mod 10)" using s(3) by (intro divide_205(2)) simp
  have ne: "(of_nat E1 :: u32) = 0 \<longleftrightarrow> E1 = 0" "(of_nat E2 :: u32) = 0 \<longleftrightarrow> E2 = 0" "(of_nat E3 :: u32) = 0 \<longleftrightarrow> E3 = 0"
    "(of_nat D3 :: u32) = 0 \<longleftrightarrow> D3 = 0" "(of_nat (E3 div 10) :: u32) = 0 \<longleftrightarrow> E3 div 10 = 0"
    using s(1-5) by (intro of_nat_zero_iff; simp)+
  have small: "E3 < 100" using assms s(9) by (simp add: less_mult_imp_div_less flip: s(9))
  have m: "e mod 10 < 100" for e :: nat using mod_less_divisor [of 10 e] by linarith
  have ch: "dchar (of_nat (E0 mod 10)) = dec_digit (E0 mod 10)" "dchar (of_nat (E1 mod 10)) = dec_digit (E1 mod 10)"
    "dchar (of_nat (E2 mod 10)) = dec_digit (E2 mod 10)" "dchar (of_nat (E3 mod 10)) = dec_digit (E3 mod 10)"
    "dchar (of_nat (E3 div 10)) = dec_digit (E3 div 10)"
    using m small by (simp_all add: dchar_digit)
  have trunc: "put_dec_trunc q = dec_digit (E0 mod 10) # (if E1 \<noteq> 0 then dec_digit (E1 mod 10) #
      (if E2 \<noteq> 0 \<or> D3 \<noteq> 0 then dec_digit (E2 mod 10) # (if E3 \<noteq> 0 then dec_digit (E3 mod 10) #
        (if E3 div 10 \<noteq> 0 then [dec_digit (E3 div 10)] else []) else []) else []) else [])"
    by (simp only: put_dec_trunc_def Let_def w(1) w' steps e2 ne ch cong: if_cong)
  have full: "put_dec_full q = [dec_digit (E0 mod 10), dec_digit (E1 mod 10), dec_digit (E2 mod 10), dec_digit (E3 mod 10), dec_digit (E3 div 10)]"
    by (simp only: put_dec_full_def Let_def w(1) w' steps e2 ch)
  have z: "unat q div 1000 = 0 \<longleftrightarrow> E3 = 0" "unat q div 10000 = E3 div 10" "E3 div 10 mod 10 = E3 div 10" "E3 div 100 = 0"
    using s(9) small by (simp_all flip: div_10_10)
  show "put_dec_trunc q = rev_digits 10 dec_digit (unat q)"
    unfolding trunc rev_digits_10 [of dec_digit "unat q"] rev_digits_10 [of dec_digit "unat q div 10"] div_10_10
      rev_digits_10 [of dec_digit "unat q div 100"] s(9) rev_digits_10 [of dec_digit E3] rev_digits_10 [of dec_digit "E3 div 10"]
    by (simp add: s(6-8,10,11) z)
  show "put_dec_full q = map (\<lambda>k. dec_digit (unat q div 10 ^ k mod 10)) [0, 1, 2, 3, 4]"
    unfolding full by (simp add: s(6-9) z)
qed

lemma five_digits:
  assumes "100000 \<le> n"
  shows "rev_digits 10 f n = map (\<lambda>k. f (n mod 100000 div 10 ^ k mod 10)) [0, 1, 2, 3, 4] @ rev_digits 10 f (n div 100000)"
proof -
  have low: "n mod 100000 div 10 ^ k mod 10 = n div 10 ^ k mod 10" if "k \<in> {0, 1, 2, 3, 4 :: nat}" for k
  proof -
    have "10 ^ k * (10 * (10 ^ (4 - k) * (n div 100000))) = 100000 * (n div 100000)" using that by auto
    then have "n = n mod 100000 + 10 ^ k * (10 * (10 ^ (4 - k) * (n div 100000)))" by (simp only: mod_mult_div_eq)
    then have "n div 10 ^ k = n mod 100000 div 10 ^ k + 10 * (10 ^ (4 - k) * (n div 100000))"
      by (metis div_mult_self2 power_not_zero zero_neq_numeral add.commute)
    then show ?thesis by simp
  qed
  have "10 \<le> n" "10 \<le> n div 10" "10 \<le> n div 100" "10 \<le> n div 1000" "10 \<le> n div 10000"
    using assms by (simp_all add: less_eq_div_iff_mult_less_eq)
  then have "rev_digits 10 f n = f (n mod 10) # f (n div 10 mod 10) # f (n div 100 mod 10) # f (n div 1000 mod 10)
      # f (n div 10000 mod 10) # rev_digits 10 f (n div 100000)"
    by (simp add: rev_digits.simps [of 10 f n] rev_digits.simps [of 10 f "n div 10"] rev_digits.simps [of 10 f "n div 100"]
        rev_digits.simps [of 10 f "n div 1000"] rev_digits.simps [of 10 f "n div 10000"] div_mult2_eq [symmetric])
  moreover have "map (\<lambda>k. f (n mod 100000 div 10 ^ k mod 10)) [0, 1, 2, 3, 4] = map (\<lambda>k. f (n div 10 ^ k mod 10)) [0, 1, 2, 3, 4]"
    using low by (intro map_cong) simp_all
  ultimately show ?thesis by simp
qed

lemma put_dec_spec: "put_dec num = Some (rev_digits 10 dec_digit (unat num))"
proof (induction num rule: put_dec.induct)
  case (1 num)
  show ?case
  proof (cases "num < 100000")
    case True
    then have n: "unat num < 100000" by (simp add: word_less_nat_alt)
    then have "unat (ucast num :: u32) = unat num" by (simp add: unsigned_ucast_eq take_bit_nat_eq_self)
    then show ?thesis using True n put_dec_digits(1) [of "ucast num"] by (subst put_dec.simps) simp
  next
    case False
    then have n: "100000 \<le> unat num" by (simp add: word_less_nat_alt)
    obtain q r where d: "do_div num 100000 = Some (q, r)" "unat q = unat num div 100000" "unat r = unat num mod 100000"
      using do_div_spec [of 100000 num] by auto
    have "put_dec_full r = map (\<lambda>k. dec_digit (unat num mod 100000 div 10 ^ k mod 10)) [0, 1, 2, 3, 4]"
      using put_dec_digits(2) [of r] by (simp add: d(3))
    then show ?thesis using False d(1) 1 [OF False d(1) refl] unfolding five_digits [OF n]
      by (subst put_dec.simps) (simp add: d(2))
  qed
qed

section \<open>What a routine writes does not depend on the buffer\<close>

text \<open>
  A routine either passes a fixed text to \<^verbatim>\<open>ADDCH\<close>, whatever the state of the output, or fails for every
  state.
\<close>

definition emits :: "(out \<Rightarrow> out option) \<Rightarrow> bool" where
  "emits F \<longleftrightarrow> (\<exists>ts. F = (\<lambda>st. emit st ts)) \<or> F = (\<lambda>_. None)"

named_theorems emitting

lemma emit_append: "emit st (xs @ ys) = Option.bind (emit st xs) (\<lambda>st. emit st ys)"
  by (induction xs arbitrary: st) (auto split: Option.bind_splits)

lemma emits_emit [emitting]: "emits (\<lambda>st. emit st ts)"
  by (auto simp: emits_def)

lemma emits_None [emitting]: "emits (\<lambda>st. None)"
  by (simp add: emits_def)

lemma emits_Some [emitting]: "emits Some"
  using emits_emit [of "[]"] by simp

lemma emits_ADDCH [emitting]: "emits (\<lambda>st. ADDCH st c)"
proof -
  have "(\<lambda>st. ADDCH st c) = (\<lambda>st. emit st [c])" by simp
  then show ?thesis by (simp only: emits_emit)
qed

lemma emits_bind [emitting]:
  assumes "emits F" and "emits G"
  shows "emits (\<lambda>st. Option.bind (F st) G)"
  using assms(1) unfolding emits_def [of F]
proof (elim disjE exE)
  fix ts assume F: "F = (\<lambda>st. emit st ts)"
  from assms(2) show ?thesis unfolding emits_def [of G]
  proof (elim disjE exE)
    fix us assume "G = (\<lambda>st. emit st us)"
    then have "(\<lambda>st. Option.bind (F st) G) = (\<lambda>st. emit st (ts @ us))" using F by (simp add: emit_append)
    then show ?thesis by (simp only: emits_emit)
  qed (simp add: emits_None)
qed (simp add: emits_None)

lemma emits_if [emitting]: "emits F \<Longrightarrow> emits G \<Longrightarrow> emits (\<lambda>st. if b then F st else G st)"
  by (cases b) simp_all

lemma emits_if_fun [emitting]: "emits F \<Longrightarrow> emits G \<Longrightarrow> emits (if b then F else G)"
  by simp

lemma emits_const_bind [emitting]:
  assumes "\<And>x. emits (F x)"
  shows "emits (\<lambda>st. Option.bind t (\<lambda>x. F x st))"
  using assms by (cases t) (simp_all add: emits_None)

lemma pad_emit: "pad st c n = map_option (\<lambda>st. (st, if 0 < n then -1 else n - 1)) (emit st (replicate (nat n) c))"
proof (induction st c n rule: pad.induct)
  case (1 st c n)
  show ?case
  proof (cases "0 \<le> n - 1")
    case True
    then have "replicate (nat n) c = c # replicate (nat (n - 1)) c" by (simp add: Suc_nat_eq_nat_zadd1 flip: replicate_Suc)
    then show ?thesis using True 1 by (subst pad.simps) (auto split: Option.bind_splits)
  qed (subst pad.simps, simp)
qed

lemma emits_pad [emitting]:
  assumes "\<And>w. emits (\<lambda>st. G st w)"
  shows "emits (\<lambda>st. Option.bind (pad st c n) (\<lambda>(st, w). G st w))"
proof -
  have "(\<lambda>st. Option.bind (pad st c n) (\<lambda>(st, w). G st w))
      = (\<lambda>st. Option.bind (emit st (replicate (nat n) c)) (\<lambda>st. G st (if 0 < n then -1 else n - 1)))"
    by (auto simp: pad_emit split: Option.bind_splits)
  then show ?thesis using emits_bind [OF emits_emit assms] by (simp only:)
qed

lemma emits_pad_last [emitting]: "emits (\<lambda>st. map_option fst (pad st c n))"
proof -
  have "(\<lambda>st. map_option fst (pad st c n)) = (\<lambda>st. emit st (replicate (nat n) c))" by (simp add: pad_emit option.map_comp comp_def option.map_ident)
  then show ?thesis by (simp only: emits_emit)
qed

lemma emits_pad_if [emitting]:
  assumes "\<And>w. emits (\<lambda>st. G st w)"
  shows "emits (\<lambda>st. Option.bind (if b then pad st c n else Some (st, m)) (\<lambda>(st, w). G st w))"
  using emits_pad [OF assms] assms by (cases b) simp_all

lemma emits_number [emitting]: "emits (\<lambda>st. number st num base sz precision flags)"
  unfolding number_def Let_def by (intro emitting)

lemma emits_pad_to_if [emitting]:
  assumes "\<And>w. emits (\<lambda>st. G st w)"
  shows "emits (\<lambda>st. Option.bind (if b then pad_to st len n else Some (st, m)) (\<lambda>(st, w). G st w))"
proof (cases b)
  case True
  have "(\<lambda>st. Option.bind (pad_to st len n) (\<lambda>(st, w). G st w))
      = (\<lambda>st. Option.bind (pad st CHR '' '' (n - len)) (\<lambda>(st, w). G st (w + len)))"
    unfolding pad_to_def by (auto split: Option.bind_splits option.splits)
  then show ?thesis using True emits_pad [of "\<lambda>st w. G st (w + len)"] assms by simp
qed (use assms in simp)

lemma emits_pad_to_last [emitting]: "emits (\<lambda>st. map_option fst (pad_to st len n))"
proof -
  have "(\<lambda>st. map_option fst (pad_to st len n)) = (\<lambda>st. map_option fst (pad st CHR '' '' (n - len)))"
    by (auto simp: pad_to_def option.map_comp comp_def case_prod_beta)
  then show ?thesis by (simp only: emits_pad_last)
qed

lemma emits_string [emitting]: "emits (\<lambda>st. string st s w p flags)"
  unfolding string_def Let_def by (intro emitting)

lemma emits_addresses [emitting]:
  "emits (\<lambda>st. mac_address_string st addr w p flags)" "emits (\<lambda>st. ip6_addr_string st addr w p flags)"
  "emits (\<lambda>st. ip4_addr_string st addr w p flags)"
  unfolding mac_address_string_def ip6_addr_string_def ip4_addr_string_def Let_def by (intro emitting)+

lemma emits_pointer [emitting]: "emits (\<lambda>st. pointer fmt st a target w p flags)"
  unfolding pointer_def Let_def by (intro emitting)

section \<open>Bounded and unbounded output\<close>

text \<open>
  \<open>shorter b0 st big\<close>: the bounded output \<open>st\<close>, started on \<open>b0\<close>, holds as much of the unbounded output
  \<open>big\<close> as fits, and the rest of its buffer is untouched.
\<close>

definition shorter :: "char list \<Rightarrow> out \<Rightarrow> out \<Rightarrow> bool" where
  "shorter b0 st big \<longleftrightarrow> vsn st \<and> \<not> vsn big \<and> pos st = pos big \<and> stores st = stores big
     \<and> en st \<le> length b0 \<and> pos big \<le> length (obuf big)
     \<and> obuf st = take (min (pos big) (en st)) (obuf big) @ drop (min (pos big) (en st)) b0"

lemma shorter_ADDCH:
  assumes "shorter b0 st big" and "ADDCH big c = Some big'"
  shows "\<exists>st'. ADDCH st c = Some st' \<and> shorter b0 st' big' \<and> en st' = en st"
proof -
  have big: "\<not> vsn big" "pos big < length (obuf big)" "big' = big\<lparr>obuf := (obuf big)[pos big := c], pos := pos big + 1\<rparr>"
    using assms by (auto simp: shorter_def ADDCH_def wr_def split: if_splits)
  show ?thesis
  proof (cases "pos st < en st")
    case False
    then show ?thesis using assms(1) big by (auto simp: shorter_def ADDCH_def min_def)
  next
    case True
    have p: "pos st = pos big" "en st \<le> length b0" "obuf st = take (pos big) (obuf big) @ drop (pos big) b0"
      using assms(1) True by (auto simp: shorter_def min_def)
    have "(obuf st)[pos st := c] = take (Suc (pos big)) ((obuf big)[pos big := c]) @ drop (Suc (pos big)) b0"
      using True p big(2) by (simp add: list_update_append take_Suc_conv_app_nth Cons_nth_drop_Suc [symmetric])
    moreover have "pos st < length (obuf st)" using True p big(2) by simp
    ultimately show ?thesis using assms(1) big True by (auto simp: shorter_def ADDCH_def wr_def min_def)
  qed
qed

lemma shorter_emit:
  assumes "shorter b0 st big" and "emit big cs = Some big'"
  shows "\<exists>st'. emit st cs = Some st' \<and> shorter b0 st' big' \<and> en st' = en st"
  using assms
proof (induction cs arbitrary: st big)
  case (Cons c cs)
  then obtain big1 where b: "ADDCH big c = Some big1" "emit big1 cs = Some big'" by (auto elim: bind_SomeE)
  obtain st1 where s: "ADDCH st c = Some st1" "shorter b0 st1 big1" "en st1 = en st" using shorter_ADDCH [OF Cons.prems(1) b(1)] by blast
  from Cons.IH [OF s(2) b(2)] s show ?case by auto
qed simp

lemma shorter_emits:
  assumes "emits F" and "shorter b0 st big" and "F big = Some big'"
  shows "\<exists>st'. F st = Some st' \<and> shorter b0 st' big' \<and> en st' = en st"
  using assms shorter_emit [OF assms(2)] by (auto simp: emits_def)

text \<open>The same for routines that also return what is left of the format and of the arguments.\<close>

definition tracks :: "(out \<Rightarrow> (out \<times> 'x) option) \<Rightarrow> bool" where
  "tracks F \<longleftrightarrow> (\<forall>b0 st big big' x. shorter b0 st big \<longrightarrow> F big = Some (big', x) \<longrightarrow>
     (\<exists>st'. F st = Some (st', x) \<and> shorter b0 st' big' \<and> en st' = en st))"

named_theorems tracking

lemma tracksD:
  assumes "tracks F" and "shorter b0 st big" and "F big = Some (big', x)"
  obtains st' where "F st = Some (st', x)" "shorter b0 st' big'" "en st' = en st"
  using assms unfolding tracks_def by blast

lemma tracks_Some [tracking]: "tracks (\<lambda>st. Some (st, x))"
  by (auto simp: tracks_def)

lemma tracks_None [tracking]: "tracks (\<lambda>st. None)"
  by (auto simp: tracks_def)

lemma tracks_map [tracking]: "emits F \<Longrightarrow> tracks (\<lambda>st. map_option (\<lambda>st. (st, x)) (F st))"
  unfolding tracks_def using shorter_emits by fastforce

lemma tracks_remap [tracking]: "tracks F \<Longrightarrow> tracks (\<lambda>st. map_option (\<lambda>(st, x). (st, f x)) (F st))"
  unfolding tracks_def by fastforce

lemma tracks_if [tracking]: "tracks F \<Longrightarrow> tracks G \<Longrightarrow> tracks (\<lambda>st. if b then F st else G st)"
  by (cases b) simp_all

lemma tracks_const [tracking]: "(\<And>x. tracks (F x)) \<Longrightarrow> tracks (\<lambda>st. Option.bind t (\<lambda>x. F x st))"
  by (cases t) (simp_all add: tracks_None)

lemma tracks_const_pair [tracking]: "(\<And>x y. tracks (F x y)) \<Longrightarrow> tracks (\<lambda>st. Option.bind t (\<lambda>(x, y). F x y st))"
  by (cases t) (simp_all add: tracks_None case_prod_beta)

lemma tracks_prod [tracking]: "(\<And>x y. tracks (F x y)) \<Longrightarrow> tracks (\<lambda>st. case z of (x, y) \<Rightarrow> F x y st)"
  by (cases z) simp

lemma tracks_emit_bind [tracking]:
  assumes "emits F" and "tracks G"
  shows "tracks (\<lambda>st. Option.bind (F st) G)"
  unfolding tracks_def
proof (intro allI impI)
  fix b0 st big big' x
  assume s: "shorter b0 st big" and "Option.bind (F big) G = Some (big', x)"
  then obtain big1 where b: "F big = Some big1" "G big1 = Some (big', x)" by (auto elim: bind_SomeE)
  from shorter_emits [OF assms(1) s b(1)] obtain st1 where "F st = Some st1" "shorter b0 st1 big1" "en st1 = en st" by blast
  moreover from tracksD [OF assms(2) this(2) b(2)] obtain st' where "G st1 = Some (st', x)" "shorter b0 st' big'" "en st' = en st1" .
  ultimately show "\<exists>st'. Option.bind (F st) G = Some (st', x) \<and> shorter b0 st' big' \<and> en st' = en st" by simp
qed

lemma tracks_bind [tracking]:
  assumes "tracks F" and "\<And>x. tracks (\<lambda>st. G st x)"
  shows "tracks (\<lambda>st. Option.bind (F st) (\<lambda>(st, x). G st x))"
  unfolding tracks_def
proof (intro allI impI)
  fix b0 st big big' x
  assume s: "shorter b0 st big" and "Option.bind (F big) (\<lambda>(st, x). G st x) = Some (big', x)"
  then obtain big1 y where b: "F big = Some (big1, y)" "G big1 y = Some (big', x)" by (auto elim: bind_SomeE)
  from tracksD [OF assms(1) s b(1)] obtain st1 where "F st = Some (st1, y)" "shorter b0 st1 big1" "en st1 = en st" .
  moreover from tracksD [OF assms(2) this(2) b(2)] obtain st' where "G st1 y = Some (st', x)" "shorter b0 st' big'" "en st' = en st1" .
  ultimately show "\<exists>st'. Option.bind (F st) (\<lambda>(st, x). G st x) = Some (st', x) \<and> shorter b0 st' big' \<and> en st' = en st" by simp
qed

lemma tracks_pad [tracking]: "tracks (\<lambda>st. pad st c n)"
  unfolding pad_emit by (intro tracking emitting)

lemma tracks_count [tracking]: "tracks (\<lambda>st. convert_count st args)"
  unfolding tracks_def convert_count_def by (auto simp: shorter_def split: list.splits va.splits)

lemma tracks_convert_string [tracking]: "tracks (\<lambda>st. convert_string st w p flags args)"
  unfolding convert_string_def by (cases args; cases "hd args") (auto intro!: tracking emitting)

lemma tracks_convert_pointer [tracking]: "tracks (\<lambda>st. convert_pointer st fmt w p flags args)"
  unfolding convert_pointer_def by (cases args; cases "hd args") (auto intro!: tracking emitting)

lemma tracks_convert_char [tracking]: "tracks (\<lambda>st. convert_char st w flags args)"
  unfolding convert_char_def by (intro tracking emitting)

lemma tracks_convert_number [tracking]: "tracks (\<lambda>st. convert_number st c q w p flags args)"
  unfolding convert_number_def Let_def by (intro tracking emitting)

lemma tracks_convert_other [tracking]: "tracks (\<lambda>st. convert_other st fmt c)"
  unfolding convert_other_def by (intro tracking emitting)

lemma tracks_convert [tracking]: "tracks (\<lambda>st. convert st fmt q w p flags args)"
  unfolding convert_def by (intro tracking emitting)

lemma tracks_directive [tracking]: "tracks (\<lambda>st. directive st fmt args)"
  unfolding directive_def by (intro tracking)

lemma shorter_format_loop:
  assumes "shorter b0 st big" and "format_loop big fmt args = Some big'"
  shows "\<exists>st'. format_loop st fmt args = Some st' \<and> shorter b0 st' big' \<and> en st' = en st"
  using assms
proof (induction big fmt args arbitrary: st rule: format_loop.induct)
  case (2 big c cs args)
  consider "c = NUL" | "c \<noteq> NUL" "c \<noteq> CHR ''%''" | "c = CHR ''%''" by blast
  then show ?case
  proof cases
    case 1
    then show ?thesis using 2(3,4) by auto
  next
    case plain: 2
    then obtain big1 where b: "ADDCH big c = Some big1" "format_loop big1 cs args = Some big'" using 2(4) by (auto elim: bind_SomeE)
    from shorter_ADDCH [OF 2(3) b(1)] obtain st1 where s: "ADDCH st c = Some st1" "shorter b0 st1 big1" "en st1 = en st" by blast
    from 2(1) [OF plain(1,2) b(1) s(2) b(2)] s plain show ?thesis by auto
  next
    case 3
    then obtain big1 fmt1 args1 where b: "directive big cs args = Some (big1, fmt1, args1)" "format_loop big1 fmt1 args1 = Some big'"
      using 2(4) by (auto elim: bind_SomeE)
    from tracksD [OF tracks_directive 2(3) b(1)] obtain st1 where s: "directive st cs args = Some (st1, fmt1, args1)" "shorter b0 st1 big1" "en st1 = en st" .
    have "c \<noteq> NUL" using 3 by simp
    from 2(2) [OF this _ b(1) refl refl s(2) b(2)] s 3 show ?thesis by auto
  qed
qed simp

lemma vsnprintf_spec:
  assumes "vsprintf addr big fmt args = Some (len, big', w)" and "0 < sz" and "sz \<le> length b" and "buf + sz < 2 ^ 32"
  shows "vsnprintf buf b sz fmt args = Some (len + 1, take (min len (sz - 1)) big' @ NUL # drop (Suc (min len (sz - 1))) b, w)"
    and "\<exists>text rest. big' = text @ NUL # rest \<and> length text = len"
proof -
  let ?st = "\<lparr>vsn = True, en = sz, obuf = b, pos = 0, stores = []\<rparr>"
  obtain o' where o: "format_loop \<lparr>vsn = False, en = 2 ^ 31 - 1, obuf = big, pos = 0, stores = []\<rparr> fmt args = Some o'"
    "wr (obuf o') (pos o') NUL = Some big'" "len = pos o'" "w = stores o'"
    using assms(1) by (auto simp: vsprintf_def vsnprintf_internal_def elim!: bind_SomeE)
  have "shorter b ?st \<lparr>vsn = False, en = 2 ^ 31 - 1, obuf = big, pos = 0, stores = []\<rparr>" using assms(3) by (simp add: shorter_def)
  from shorter_format_loop [OF this o(1)] obtain st where s: "format_loop ?st fmt args = Some st" "shorter b st o'" "en st = sz" by auto
  have big': "pos o' < length (obuf o')" "big' = (obuf o')[pos o' := NUL]" using o(2) by (auto simp: wr_def split: if_splits)
  have p: "vsn st" "pos st = len" "stores st = w" "obuf st = take (min len sz) (obuf o') @ drop (min len sz) b"
    using s(2,3) o(3,4) by (simp_all add: shorter_def)
  have txt_eq: "take (min len (sz - 1)) big' = take (min len (sz - 1)) (obuf o')" unfolding big' o(3) by simp
  show "\<exists>text rest. big' = text @ NUL # rest \<and> length text = len"
    using big' o(3) by (intro exI [of _ "take len (obuf o')"] exI [of _ "drop (Suc len) (obuf o')"]) (simp add: upd_conv_take_nth_drop)
  show "vsnprintf buf b sz fmt args = Some (len + 1, take (min len (sz - 1)) big' @ NUL # drop (Suc (min len (sz - 1))) b, w)"
  proof (cases "len < sz")
    case True
    then have "ADDCH st NUL = Some (st\<lparr>obuf := take len (obuf o') @ NUL # drop (Suc len) b, pos := len + 1\<rparr>)"
      using p s(3) assms(3) big'(1) o(3) by (simp add: ADDCH_def wr_def list_update_append Cons_nth_drop_Suc [symmetric])
    then show ?thesis using True s(1) p assms(2,4) txt_eq by (simp add: vsnprintf_def vsnprintf_internal_def)
  next
    case False
    then have "ADDCH st NUL = Some (st\<lparr>pos := len + 1\<rparr>)" using p s(3) by (simp add: ADDCH_def)
    moreover have "wr (obuf st) (sz - 1) NUL = Some (take (sz - 1) (obuf o') @ NUL # drop sz b)"
    proof -
      have "take sz (obuf o') = take (sz - 1) (obuf o') @ [obuf o' ! (sz - 1)]"
        using False assms(2) big'(1) o(3) by (simp add: take_Suc_conv_app_nth [symmetric])
      then show ?thesis using False p(4) assms(2) big'(1) o(3) by (simp add: wr_def list_update_append)
    qed
    ultimately show ?thesis using False s(1) p assms(2,4) txt_eq by (simp add: vsnprintf_def vsnprintf_internal_def)
  qed
qed

section \<open>Hexadecimal numbers\<close>

definition hex_digit :: "nat \<Rightarrow> char" where
  "hex_digit k = or_char (digits ! k) SMALL"

definition hexadecimal :: "nat \<Rightarrow> string" where
  "hexadecimal n = rev (rev_digits 16 hex_digit n)"

lemma writes_hex: "writes_digits 16 hex_digit"
proof -
  have c: "of_char (hex_digit k) = (if k < 10 then 48 + k else 87 + k)" if "k < 16" for k
  proof -
    from that have "k = 0 \<or> k = 1 \<or> k = 2 \<or> k = 3 \<or> k = 4 \<or> k = 5 \<or> k = 6 \<or> k = 7 \<or> k = 8 \<or> k = 9 \<or> k = 10 \<or> k = 11 \<or> k = 12 \<or> k = 13 \<or> k = 14 \<or> k = 15" by presburger
    then show ?thesis by (elim disjE) (simp_all add: hex_digit_def digits_def or_char_def SMALL_def)
  qed
  have l: "islower (hex_digit k) \<longleftrightarrow> \<not> k < 10" if "k < 16" for k
    using that c [OF that] by (simp add: islower_def ismask_range Let_def ctype_masks)
  have "of_char (toupper (hex_digit k)) = 55 + k" if "\<not> k < 10" "k < 16" for k
    using that c [of k] l [of k] by (simp add: toupper_def)
  then have "digit_value (hex_digit k) = k" if "k < 16" for k
    using that c [OF that] l [OF that] by (auto simp: digit_value_def isdigit_iff)
  then show ?thesis using c by (simp add: writes_digits_def isxdigit_iff Let_def)
qed

lemma unat_and_15: "unat (take_bit 8 (num :: u64) AND 15) = unat num mod 16"
proof -
  have m: "(15 :: u64) = mask 4" by (simp add: mask_numeral)
  have "take_bit 8 num AND 15 = take_bit 4 (take_bit 8 num)" unfolding m by (rule take_bit_eq_mask [symmetric])
  then have "take_bit 8 num AND 15 = take_bit 4 num" by (simp only: take_bit_take_bit) simp
  then have "unat (take_bit 8 num AND 15) = take_bit 4 (unat num)" by (simp only: unsigned_take_bit_eq)
  then show ?thesis by (simp add: take_bit_eq_mod)
qed

lemma radix_loop_16: "radix_loop num 4 15 SMALL = rev_digits 16 hex_digit (unat num)"
proof (induction "unat num" arbitrary: num rule: less_induct)
  case less
  have d: "unat (drop_bit 4 num) = unat num div 16" by (simp only: unat_drop_bit) simp
  have z: "drop_bit 4 num = 0 \<longleftrightarrow> unat num < 16" by (simp only: unat_eq_zero [symmetric] d) (simp add: div_eq_0_iff)
  show ?case
  proof (cases "unat num < 16")
    case True
    then show ?thesis using z by (simp only: radix_loop.simps [of num] unat_and_15 rev_digits.simps [of 16 hex_digit "unat num"])
      (simp add: hex_digit_def)
  next
    case False
    then have "radix_loop (drop_bit 4 num) 4 15 SMALL = rev_digits 16 hex_digit (unat num div 16)" using less [of "drop_bit 4 num"] d by simp
    then show ?thesis using z False by (simp only: radix_loop.simps [of num] unat_and_15 rev_digits.simps [of 16 hex_digit "unat num"])
      (simp add: hex_digit_def)
  qed
qed

lemma hexadecimal_length: "length (hexadecimal (unat (a :: u32))) \<le> 8"
proof -
  have "unat a < 16 ^ Suc 7" using u32_less [of a] by simp
  then show ?thesis unfolding hexadecimal_def using rev_digits_length [of 16 "unat a" 7] by simp
qed

lemma number_hex: "number st (ucast (a :: u32)) 16 (-1) (-1) SMALL = emit st (hexadecimal (unat a))"
proof -
  let ?t = "rev_digits 16 hex_digit (unat a)"
  have f: "SMALL AND SPECIAL = 0" "SMALL AND LEFT = 0" "SMALL AND SIGN = 0" "SMALL AND (ZEROPAD + LEFT) = 0" "SMALL AND SMALL = SMALL"
    by (simp_all add: format_flags)
  have len: "length ?t \<le> 8" using hexadecimal_length [of a] by (simp add: hexadecimal_def)
  have r: "radix_loop (ucast a) 4 15 SMALL = ?t" by (simp only: radix_loop_16 unat_widen)
  show ?thesis
  proof (cases "(ucast a :: u64) = 0")
    case True
    then have "unat a = 0" using unat_widen [of a] by (simp only: unsigned_0)
    moreover have "rev_digits 16 hex_digit 0 = ''0''" by (simp add: rev_digits.simps hex_digit_def) code_simp
    ultimately show ?thesis using True
      by (simp add: number_def Let_def f sign_of_def hexadecimal_def pad_emit option.map_ident max_def)
  next
    case False
    then show ?thesis using len
      by (simp add: number_def Let_def f sign_of_def hexadecimal_def pad_emit option.map_ident max_def r)
  qed
qed

lemma emit_unbounded:
  assumes "\<not> vsn st" and "pos st + length cs \<le> length (obuf st)"
  shows "emit st cs = Some (st\<lparr>obuf := take (pos st) (obuf st) @ cs @ drop (pos st + length cs) (obuf st), pos := pos st + length cs\<rparr>)"
  using assms
proof (induction cs arbitrary: st)
  case (Cons c cs)
  let ?st = "st\<lparr>obuf := (obuf st)[pos st := c], pos := pos st + 1\<rparr>"
  have "ADDCH st c = Some ?st" using Cons.prems by (simp add: ADDCH_def wr_def)
  moreover have "take (Suc (pos st)) ((obuf st)[pos st := c]) = take (pos st) (obuf st) @ [c]"
    using Cons.prems by (simp add: take_Suc_conv_app_nth)
  ultimately show ?case using Cons.IH [of ?st] Cons.prems by simp
qed simp

text \<open>The call \<^verbatim>\<open>sprintf(str, "%lx", a)\<close>.\<close>

lemma sprintf_lx:
  assumes "9 \<le> length b"
  shows "\<exists>b'. vsprintf addr b (''%lx'' @ [NUL]) [Vint a] = Some (length (hexadecimal (unat a)), b', [])
    \<and> length b' = length b \<and> cstring (hexadecimal (unat a)) b'"
proof -
  let ?st = "\<lparr>vsn = False, en = 2 ^ 31 - 1, obuf = b, pos = 0, stores = []\<rparr>"
  let ?h = "hexadecimal (unat a)"
  have nd: "\<not> is_digit CHR ''l''" by code_simp
  have "directive ?st [CHR ''l'', CHR ''x'', NUL] [Vint a] = convert ?st [CHR ''x'', NUL] CHR ''l'' (-1) (-1) 0 [Vint a]"
    by (simp add: directive_def parse_width_def parse_precision_def parse_qualifier_def rd_def nd)
  also have "\<dots> = map_option (\<lambda>st. (st, [NUL], [])) (number ?st (ucast a) 16 (-1) (-1) SMALL)"
    by (simp add: convert_def rd_def convert_number_def fetch_number_def format_flags option.map_comp comp_def map_option_case split: option.split)
  finally have d: "directive ?st [CHR ''l'', CHR ''x'', NUL] [Vint a]
      = Some (?st\<lparr>obuf := ?h @ drop (length ?h) b, pos := length ?h\<rparr>, [NUL], [])"
    using assms hexadecimal_length [of a] by (simp add: number_hex emit_unbounded)
  have "NUL \<notin> set ?h" using rev_digits_value [OF writes_hex, of "unat a"] by (auto simp: hexadecimal_def valid_digit_def)
  moreover have "drop (length ?h) b = b ! length ?h # drop (Suc (length ?h)) b"
    using assms hexadecimal_length [of a] by (simp add: Cons_nth_drop_Suc)
  moreover have "Suc (length b - Suc 0) = length b" using assms by simp
  ultimately show ?thesis using assms hexadecimal_length [of a] d
    by (simp add: vsprintf_def vsnprintf_internal_def wr_def cstring_def)
qed

text \<open>The text that a pointer into a buffer denotes.\<close>

definition text_at :: "char list \<Rightarrow> string option" where
  "text_at bs = map_option (\<lambda>n. take n bs) (strlen bs)"

lemma text_at_cstring: "cstring s bs \<Longrightarrow> text_at bs = Some s"
  by (auto simp: text_at_def strlen_cstring cstring_def prefix_def)

text \<open>A format without directives up to \<open>r\<close> is copied.\<close>

lemma format_literal:
  assumes "\<forall>c \<in> set s. c \<noteq> NUL \<and> c \<noteq> CHR ''%''"
  shows "format_loop st (s @ r) args = Option.bind (emit st s) (\<lambda>st. format_loop st r args)"
  using assms by (induction s arbitrary: st) (simp_all add: bind_assoc)

text \<open>The calls \<^verbatim>\<open>sprintf(b, "...%x...", a)\<close> with literal text before and after.\<close>

lemma sprintf_x:
  assumes "\<forall>c \<in> set (s @ t). c \<noteq> NUL \<and> c \<noteq> CHR ''%''" and "length s + 8 + length t < length b"
  shows "\<exists>b'. vsprintf addr b (s @ ''%x'' @ t @ [NUL]) [Vint a] = Some (length (s @ hexadecimal (unat a) @ t), b', [])
    \<and> length b' = length b \<and> cstring (s @ hexadecimal (unat a) @ t) b'"
proof -
  let ?st = "\<lparr>vsn = False, en = 2 ^ 31 - 1, obuf = b, pos = 0, stores = []\<rparr>"
  let ?h = "hexadecimal (unat a)"
  let ?txt = "s @ ?h @ t"
  have st: "\<forall>c \<in> set s. c \<noteq> NUL \<and> c \<noteq> CHR ''%''" "\<forall>c \<in> set t. c \<noteq> NUL \<and> c \<noteq> CHR ''%''" using assms(1) by auto
  have nd: "\<not> is_digit CHR ''x''" by code_simp
  have d: "directive st (CHR ''x'' # r) [Vint a] = Option.bind (emit st ?h) (\<lambda>st. Some (st, r, []))" for st r
    by (cases "emit st ?h") (simp_all add: directive_def parse_width_def parse_precision_def parse_qualifier_def rd_def nd convert_def convert_number_def
        fetch_number_def format_flags number_hex [unfolded format_flags] bind_assoc map_option_case split: option.split)
  have "format_loop ?st (s @ ''%x'' @ t @ [NUL]) [Vint a] = emit ?st ?txt"
    by (simp add: format_literal [OF st(1)] format_literal [OF st(2)] d emit_append bind_assoc)
  moreover have fits: "length ?txt < length b" using assms(2) hexadecimal_length [of a] by simp
  ultimately have f: "format_loop ?st (s @ ''%x'' @ t @ [NUL]) [Vint a] = Some (?st\<lparr>obuf := ?txt @ drop (length ?txt) b, pos := length ?txt\<rparr>)"
    using emit_unbounded [of ?st ?txt] by simp
  have "NUL \<notin> set ?h" using rev_digits_value [OF writes_hex, of "unat a"] by (auto simp: hexadecimal_def valid_digit_def)
  then have "NUL \<notin> set ?txt" using st by auto
  moreover have "(?txt @ drop (length ?txt) b)[length ?txt := NUL] = ?txt @ NUL # drop (Suc (length ?txt)) b"
    using fits by (simp add: list_update_append Cons_nth_drop_Suc [symmetric])
  ultimately show ?thesis using f fits by (simp add: vsprintf_def vsnprintf_internal_def wr_def cstring_def)
qed

section \<open>Properties\<close>

text \<open>
  The decimal conversion, which replaces division by multiplications and shifts and takes five digits at
  a time, writes the decimal digits of every 64-bit number, least significant digit first.
\<close>

theorem put_dec_correct: "put_dec num = Some (rev (decimal (unat num)))"
  by (simp add: put_dec_spec decimal_def)



end
