(* ===== verification/EnvNumbers.thy ===== *)
theory EnvNumbers
  imports Nvedit Vsprintf
begin

text \<open>
  Numbers in the environment (\<^verbatim>\<open>setenv_ulong\<close>, \<^verbatim>\<open>setenv_addr\<close> and \<^verbatim>\<open>getenv_ulong\<close> of
  \<^verbatim>\<open>common/cmd_nvedit.c\<close>), on top of the environment and of the conversions. The static buffer of
  \<^verbatim>\<open>simple_itoa\<close> and the array \<^verbatim>\<open>str\<close> of \<^verbatim>\<open>setenv_addr\<close> are arguments.
\<close>

section \<open>Operations\<close>

definition setenv_ulong :: "world \<Rightarrow> char list \<Rightarrow> string \<Rightarrow> u32 \<Rightarrow> env_state \<Rightarrow> (int \<times> env_state) option" where
  "setenv_ulong w loc varname val st = do {
     (loc, p) \<leftarrow> simple_itoa loc val;
     s \<leftarrow> text_at (drop p loc);
     setenv w varname (Some s) st }"

definition setenv_addr :: "world \<Rightarrow> nat \<Rightarrow> char list \<Rightarrow> string \<Rightarrow> u32 \<Rightarrow> env_state \<Rightarrow> (int \<times> env_state) option" where
  "setenv_addr w sp str varname addr st = do {
     (n, str, w') \<leftarrow> vsprintf sp str (''%lx'' @ [NUL]) [Vint addr];
     s \<leftarrow> text_at str;
     setenv w varname (Some s) st }"

definition getenv_ulong :: "world \<Rightarrow> env_state \<Rightarrow> string \<Rightarrow> nat \<Rightarrow> u32 \<Rightarrow> u32 option" where
  "getenv_ulong w st name base default_val = do {
     str \<leftarrow> getenv_in w st name;
     case str of
       Some s \<Rightarrow> map_option fst (simple_strtoul (s @ [NUL]) base)
     | None \<Rightarrow> Some default_val }"

section \<open>Printing and reading a number\<close>

text \<open>
  What a client relies on: \<open>pr\<close> writes a number as a non-empty text without NUL that
  \<^verbatim>\<open>simple_strtoul\<close> reads back with the same base.
\<close>

locale number_format =
  fixes pr :: "u32 \<Rightarrow> string" and base :: nat
  assumes pr_ne: "pr i \<noteq> []"
    and pr_text: "NUL \<notin> set (pr i)"
    and reads_back: "\<exists>tail. simple_strtoul (pr i @ [NUL]) base = Some (i, tail)"
begin

text \<open>A variable that is set to the text of a number is read back as the number.\<close>

lemma set_get:
  assumes env: "readable_before w" "\<And>n. malloc_ok w n" "hinv (env_htab st)" "plain_var name" "env_ready_flag st"
    and room: "has_room (env_htab st) \<or> name \<in> dom (abs_env (env_htab st))"
    and safe: "init_safe (w\<lparr>env_ready := True\<rparr>) ((abs_env (env_htab st))(name \<mapsto> pr i)) name"
  shows "\<exists>rc st'. setenv w name (Some (pr i)) st = Some (rc, st') \<and> hinv (env_htab st')
    \<and> (rc = 0 \<and> (\<forall>d. getenv_ulong w st' name base d = Some i)
       \<or> rc = 1 \<and> (\<forall>d. getenv_ulong w st' name base d = getenv_ulong w st name base d))"
proof -
  obtain rc st' where s: "setenv w name (Some (pr i)) st = Some (rc, st')" "hinv (env_htab st')" "env_ready_flag st' = env_ready_flag st"
    "rc = 0 \<and> abs_env (env_htab st') = (abs_env (env_htab st))(name \<mapsto> pr i) \<or> rc = 1 \<and> abs_env (env_htab st') = abs_env (env_htab st)"
    by (rule setenv_value [OF env(1,2,3,4) pr_ne room]) (use env(5) safe in auto)
  obtain tail where "simple_strtoul (pr i @ [NUL]) base = Some (i, tail)" using reads_back by blast
  then show ?thesis using s env(3,5) by (auto simp: getenv_ulong_def getenv_in_spec)
qed

end

lemma hexadecimal_ne: "hexadecimal n \<noteq> []" "decimal n \<noteq> []"
  by (simp_all add: hexadecimal_def decimal_def rev_digits.simps [of 16] rev_digits.simps [of 10])

lemma hexadecimal_no_NUL: "NUL \<notin> set (hexadecimal n)"
  using rev_digits_value [OF writes_hex, of n] by (auto simp: hexadecimal_def valid_digit_def)

lemma strtoul_hex: "\<exists>tail. simple_strtoul (hexadecimal (unat i) @ [NUL]) 16 = Some (i, tail)"
proof -
  have c: "cstring (hexadecimal (unat i)) (hexadecimal (unat i) @ [NUL])" by (simp add: cstring_def hexadecimal_no_NUL)
  obtain r where "simple_strtoul (hexadecimal (unat i) @ [NUL]) 16 = Some (of_nat (value_of 16 (hexadecimal (unat i))), r)"
    using strto_generic [OF c, of 16, where 'a = 32] read_back [OF writes_hex, of "unat i"]
    by (auto simp: simple_strtoul_def hexadecimal_def)
  moreover have "value_of 16 (hexadecimal (unat i)) = unat i" using rev_digits_value [OF writes_hex] by (simp add: hexadecimal_def)
  ultimately show ?thesis by simp
qed

interpretation dec: number_format "\<lambda>i. decimal (unat i)" 10
  by unfold_locales (simp_all add: hexadecimal_ne decimal_no_NUL strtoul_decimal cstring_def)

interpretation hex: number_format "\<lambda>i. hexadecimal (unat i)" 16
  by unfold_locales (simp_all add: hexadecimal_ne hexadecimal_no_NUL strtoul_hex)

section \<open>Properties\<close>



text \<open>
  The same for addresses: \<^verbatim>\<open>setenv_addr\<close> prints with \<^verbatim>\<open>"%lx"\<close> into an array of 17 bytes, of which it never
  leaves the bounds, and \<^verbatim>\<open>getenv_ulong\<close> with base 16 reads the address back.
\<close>

theorem setenv_addr_getenv_ulong:
  assumes "length str = 17" and "readable_before w" and "\<And>n. malloc_ok w n" and "hinv (env_htab st)" and "plain_var name"
    and "env_ready_flag st" and "has_room (env_htab st) \<or> name \<in> dom (abs_env (env_htab st))"
    and "init_safe (w\<lparr>env_ready := True\<rparr>) ((abs_env (env_htab st))(name \<mapsto> hexadecimal (unat addr))) name"
  shows "\<exists>rc st'. setenv_addr w sp str name addr st = Some (rc, st') \<and> hinv (env_htab st')
    \<and> (rc = 0 \<and> (\<forall>d. getenv_ulong w st' name 16 d = Some addr)
       \<or> rc = 1 \<and> (\<forall>d. getenv_ulong w st' name 16 d = getenv_ulong w st name 16 d))"
proof -
  have "9 \<le> length str" using assms(1) by simp
  from sprintf_lx [OF this, of sp addr] obtain b where "vsprintf sp str (''%lx'' @ [NUL]) [Vint addr] = Some (length (hexadecimal (unat addr)), b, [])"
    "text_at b = Some (hexadecimal (unat addr))" using text_at_cstring by blast
  then show ?thesis using hex.set_get [OF assms(2,3,4,5,6,7,8)] unfolding setenv_addr_def by simp
qed

theorem setenv_addr_getenv_ulong_witness:
  "\<exists>rc st'. setenv_addr board_world 0x60000000 (replicate 17 NUL) ''kernaddr'' 0x60800000 empty_state = Some (rc, st') \<and> hinv (env_htab st')
    \<and> (rc = 0 \<and> (\<forall>d. getenv_ulong board_world st' ''kernaddr'' 16 d = Some 0x60800000)
       \<or> rc = 1 \<and> (\<forall>d. getenv_ulong board_world st' ''kernaddr'' 16 d = getenv_ulong board_world empty_state ''kernaddr'' 16 d))"
  by (rule setenv_addr_getenv_ulong)
    (simp_all add: board_world_readable board_world_memory empty5_facts empty_state_def plain_var_def init_safe_def attr_fits_def
      ENV_FLAGS_VAR_def ENV_CALLBACK_VAR_def)

end
