(* ===== verification/EnvImage.thy ===== *)
theory EnvImage
  imports Nvedit
begin

text \<open>
  The image of the environment that the storage drivers save and load, the \<^verbatim>\<open>env_t\<close> of
  \<^verbatim>\<open>include/environment.h\<close>: its checksum field in memory, what \<open>hexport_r\<close> puts into its data, and what
  \<open>env_import\<close> makes of such data at boot. The lemmas are shared by the drivers.
\<close>

text \<open>A 32-bit field of \<^verbatim>\<open>env_t\<close> as it lies in memory, least byte first.\<close>

definition bytes32 :: "u32 \<Rightarrow> char list" where
  "bytes32 w = map (\<lambda>i. char_of (unat w div 256 ^ i)) [0, 1, 2, 3]"

definition word32 :: "char list \<Rightarrow> u32" where
  "word32 cs = of_nat (of_char (cs ! 0) + 256 * (of_char (cs ! 1) + 256 * (of_char (cs ! 2) + 256 * of_char (cs ! 3))))"

section \<open>The data\<close>

lemma length_bytes32 [simp]: "length (bytes32 w) = 4"
  by (simp add: bytes32_def)

lemma word32_bytes32: "word32 (bytes32 w @ r) = w"
proof -
  have *: "n mod 256 + 256 * (n div 256 mod 256 + 256 * (n div 65536 mod 256 + 256 * (n div 16777216 mod 256))) = n"
    if "n < 2 ^ 32" for n :: nat
  proof -
    have "n div 16777216 mod 256 = n div 16777216" using that by simp
    moreover have "n div 16777216 = n div 65536 div 256" "n div 65536 = n div 256 div 256" by (simp_all flip: div_mult2_eq)
    ultimately show ?thesis by (metis add.commute mult_div_mod_eq)
  qed
  have "word32 (bytes32 w @ r) = of_nat (unat w mod 256 + 256 * (unat w div 256 mod 256
      + 256 * (unat w div 65536 mod 256 + 256 * (unat w div 16777216 mod 256))))"
    by (simp add: word32_def bytes32_def del: of_nat_add of_nat_mult)
  then show ?thesis unfolding * [OF u32_less [of w]] by simp
qed

lemma export_into_buffer:
  assumes h: "hinv h" and stale: "length stale = sz" "0 < sz"
    and slashes: "\<And>k v. abs_env h k = Some v \<Longrightarrow> length (filter (is_escaped NUL) v) \<le> 2"
  obtains e where "hexport_r (\<lambda>_. True) h NUL 0 (Some stale) sz [] = Some (Export_fail e)"
  | es m dat where "hexport_r (\<lambda>_. True) h NUL 0 (Some stale) sz [] = Some (Exported sz dat)" "length dat = sz"
      "dat = concat (map (written NUL) es) @ NUL # replicate m NUL" "distinct (map fst es)"
      "\<And>k v. (k, v) \<in> set es \<longleftrightarrow> abs_env h k = Some v"
proof -
  from h obtain t where t: "table h = Some t" "tinv (hsize h) t" by (auto simp: hinv_def)
  obtain es where es: "table_entries (hsize h) t = Some es" "\<And>k v. (k, v) \<in> set es \<longleftrightarrow> abs_env h k = Some v"
    "distinct (map fst es)" by (rule table_entries_map [OF t]) blast
  have sel: "filter (selected 0 []) es = es" by (simp add: selected_def)
  obtain es' where q: "qsort cmpkey es = Some es'" "mset es' = mset es" using qsort_returns by blast
  let ?tot = "sum_list (map (reserved NUL) es)" and ?txt = "concat (map (written NUL) es') @ [NUL]"
  show ?thesis
  proof (cases "sz < ?tot + 1")
    case True
    then show ?thesis using stale t es q by (intro that(1) [of ENOMEM]) (simp add: hexport_r_def sel Let_def)
  next
    case False
    have "sum_list (map (\<lambda>kv. length (filter (is_escaped NUL) (snd kv))) es) \<le> sum_list (map (\<lambda>_. 2) es)"
      using slashes es(2) by (intro sum_list_mono) force
    then have fits: "length ?txt \<le> sz" using total_length_sorted [OF q(2), of NUL] False by (simp add: sum_list_triv)
    have "hexport_r (\<lambda>_. True) h NUL 0 (Some stale) sz [] = Some (Exported sz (?txt @ replicate (sz - length ?txt) NUL))"
      using put_fits [of 0 ?txt "replicate sz NUL"] fits False stale t es q by (simp add: hexport_r_def sel Let_def)
    moreover have "length (?txt @ replicate (sz - length ?txt) NUL) = sz" using fits by simp
    moreover have "distinct (map fst es')" using es(3) q(2) by (metis mset_eq_imp_distinct_iff mset_map)
    moreover have "(k, v) \<in> set es' \<longleftrightarrow> abs_env h k = Some v" for k v using es(2) arg_cong [OF q(2), of set_mset] by simp
    ultimately show ?thesis by (intro that(2) [of _ es' "sz - length ?txt"]) simp_all
  qed
qed


lemma put_length: "put s p buf = Some buf' \<Longrightarrow> length buf' = length buf"
  by (induction s arbitrary: p buf) (auto simp: wr_def split: if_splits)

lemma export_length:
  assumes "hexport_r al h sep flag (Some stale) sz args = Some (Exported n dat)" and "length stale = sz"
  shows "length dat = sz"
proof (cases "sz = 0")
  case True
  with assms show ?thesis by (auto simp: hexport_r_def Let_def dest!: put_length split: Option.bind_splits if_splits)
next
  case False
  with assms show ?thesis by (auto simp: hexport_r_def Let_def dest!: put_length split: Option.bind_splits if_splits)
qed

lemma init_safe_before_ready:
  "\<not> env_ready w \<Longrightarrow> init_safe w env name = init_safe w env' name"
  by (simp add: init_safe_def)

text \<open>Loading an image that \<open>hexport_r\<close> wrote, at boot.\<close>

lemma env_import_exported:
  assumes w: "readable_before w" "\<And>n. malloc_ok w n" and st: "\<not> env_ready_flag st" "table (env_htab st) = None"
    and es: "distinct (map fst es)" "\<And>k v. (k, v) \<in> set es \<longleftrightarrow> m k = Some v" "es \<noteq> []"
    and ok: "\<And>k v. m k = Some v \<Longrightarrow> portable NUL (k, v) \<and> init_safe (w\<lparr>env_ready := False\<rparr>) Map.empty k"
    and dat: "dat = concat (map (written NUL) es) @ NUL # replicate r NUL" "length dat = ENV_SIZE cfg"
      "length es \<le> min (128 + ENV_SIZE cfg div 8) 512"
  shows "\<exists>st'. env_import w cfg \<lparr>env_crc = crc32 0 0 (bytes_of dat), env_data = dat\<rparr> check st = Some (1, st')
    \<and> env_ready_flag st' \<and> hinv (env_htab st') \<and> abs_env (env_htab st') \<subseteq>\<^sub>m m
    \<and> (\<forall>k v. m k = Some v \<longrightarrow> abs_env (env_htab st') k = Some v \<or> refused (env_hooks_of (w\<lparr>env_ready := False\<rparr>)) 0 m k v)"
proof -
  let ?w = "w\<lparr>env_ready := False\<rparr>" and ?n = "min (CONFIG_ENV_MIN_ENTRIES + ENV_SIZE cfg div 8) CONFIG_ENV_MAX_ENTRIES"
  let ?hk = "env_hooks_of ?w"
  note ctr = env_hooks_contract [OF world_ready_facts [OF w, of False]]
  have hk: "hooks_in w st = ?hk" using st(1) by (simp add: hooks_in_def)
  have mem: "alloc_ok ?hk n" for n using w(2) by (simp add: env_hooks_of_def)
  have p: "isprime 521" by (simp add: isprime_def isprime_loop.simps)
  have b: "4 \<le> ?n" "odd (521 :: nat)" "?n \<le> 521" "(521 :: nat) < 2 ^ 31"
    by (simp_all add: CONFIG_ENV_MIN_ENTRIES_def CONFIG_ENV_MAX_ENTRIES_def)
  obtain n where n: "hcreate_r ?hk ?n (env_htab st)
      = (1, \<lparr>table = Some (replicate (n + 1) null_slot), hsize = n, filled = 0, change_ok = change_ok (env_htab st)\<rparr>)"
    "good_size n" "?n \<le> n"
    by (rule hcreate_r_fresh [OF st(2) mem b(1) p b(2-4)])
  define h0 where "h0 = \<lparr>table = Some (replicate (n + 1) null_slot), hsize = n, filled = 0, change_ok = change_ok (env_htab st)\<rparr>"
  have h0: "hinv h0" "abs_env h0 = Map.empty" "empties h0 = n"
    unfolding h0_def using empty_table_hinv [OF n(2)] empties_fresh by blast+
  have "\<forall>(k, v) \<in> set es. m k = Some v" using es(2) by auto
  moreover have "init_safe ?w env k" if "k \<in> fst ` set es" for env k
    using that es(2) ok init_safe_before_ready [of ?w env k Map.empty] by fastforce
  moreover have "length es \<le> empties h0"
    using le_trans [OF dat(3) n(3) [unfolded CONFIG_ENV_MIN_ENTRIES_def CONFIG_ENV_MAX_ENTRIES_def]] h0(3) by simp
  ultimately obtain h' where h': "enter_list ?hk 0 es h0 = Some h'" "hinv h'" "abs_env h' \<subseteq>\<^sub>m m"
    "\<forall>(k, v) \<in> set es. abs_env h' k = Some v \<or> refused ?hk 0 m k v"
    using env_hooks.enter_list_spec [OF ctr h0(1) es(1), of m 0] h0(2) by auto
  have "\<forall>kv \<in> set es. portable NUL kv" using es(2) ok by force
  then have "import_loop ?hk NUL 0 dat [] h0 = Some ([], h')"
    using import_loop_written [of es NUL ?hk 0 "replicate r NUL" h0] es(3) h'(1) dat(1) by simp
  then have "himport_r ?hk (env_htab st) dat (ENV_SIZE cfg) NUL 0 [] = Some (1, h')"
    using st(2) mem n(1) dat(2) by (simp add: himport_r_def Let_def h0_def)
  moreover have "\<forall>k v. m k = Some v \<longrightarrow> abs_env h' k = Some v \<or> refused ?hk 0 m k v" using h'(4) es(2) by fastforce
  ultimately show ?thesis using h'(2,3) by (simp add: env_import_def hk)
qed


lemma backslashes_escaped:
  assumes "portable NUL (k, v)"
  shows "filter (is_escaped NUL) v = filter (\<lambda>c. c = CHR 0x5C) v"
proof (rule filter_cong [OF refl])
  fix c assume "c \<in> set v"
  then have "c \<noteq> NUL" using assms by (auto simp: portable_def)
  then show "is_escaped NUL c = (c = CHR 0x5C)" by (simp add: is_escaped_def)
qed

text \<open>A state before the first import, and the export of an empty table, for the witnesses.\<close>

definition boot_state :: env_state where
  "boot_state = \<lparr>env_htab = \<lparr>table = None, hsize = 0, filled = 0, change_ok = None\<rparr>, env_id = 1, env_ready_flag = False\<rparr>"

lemma empty5_export: "hexport_r (\<lambda>_. True) empty5 NUL 0 (Some (replicate 11 NUL)) 11 [] = Some (Exported 11 (replicate 11 NUL))"
  by (simp add: hexport_r_def empty5_def table_entries_def null_slot_def upt_rec Let_def qsort_def wr_def numeral_eq_Suc)

end
