(* ===== verification/EnvNand.thy ===== *)
theory EnvNand
  imports EnvImage
begin

text \<open>
  The environment in NAND flash (\<^verbatim>\<open>common/env_nand.c\<close>, and \<^verbatim>\<open>env_relocate\<close> of
  \<^verbatim>\<open>common/env_common.c\<close>): saving, loading and the search for good blocks. The NAND driver is a
  parameter: a record of its functions over an abstract chip state \<open>'c\<close>, of which \<open>reliable\<close> states
  what the code relies on. Loops are \<open>partial_function\<close>s, so \<open>None\<close> is also the result of a loop that
  never ends.
\<close>

section \<open>The driver and the layout\<close>

record 'c nand_info =
  erasesize :: nat
  nand_block_isbad :: "nat \<Rightarrow> bool"
  nand_write :: "nat \<Rightarrow> char list \<Rightarrow> 'c \<Rightarrow> int \<times> nat \<times> 'c"
  nand_read_skip_bad :: "nat \<Rightarrow> nat \<Rightarrow> 'c \<Rightarrow> int \<times> nat \<times> char list"
  nand_erase_opts :: "nat \<Rightarrow> nat \<Rightarrow> 'c \<Rightarrow> int \<times> 'c"

record nand_config =
  CONFIG_ENV_SIZE :: nat
  CONFIG_ENV_RANGE :: nat
  CONFIG_ENV_OFFSET :: nat
  CONFIG_ENV_OFFSET_REDUND :: nat
  built_in :: "char list"

definition env_config_of :: "nat \<Rightarrow> nand_config \<Rightarrow> env_config" where
  "env_config_of header cf = \<lparr>default_environment = built_in cf, ENV_SIZE = CONFIG_ENV_SIZE cf - header\<rparr>"

section \<open>Writing and reading the area\<close>

text \<open>\<^verbatim>\<open>offset\<close> is a \<^verbatim>\<open>size_t\<close> and wraps at 32 bits; \<^verbatim>\<open>end\<close> and the amounts have 64 bits.\<close>

partial_function (option) writeenv_loop ::
    "'c nand_info \<Rightarrow> nand_config \<Rightarrow> nat \<Rightarrow> char list \<Rightarrow> nat \<Rightarrow> nat \<Rightarrow> nat \<Rightarrow> 'c \<Rightarrow> (int \<times> 'c) option" where
  "writeenv_loop nd cf e buf offset amount_saved len c =
     (if amount_saved < CONFIG_ENV_SIZE cf \<and> offset < e then
        (if nand_block_isbad nd offset then
           writeenv_loop nd cf e buf ((offset + erasesize nd) mod 2 ^ 32) amount_saved len c
         else if length buf < amount_saved + len then None
         else (case nand_write nd offset (take len (drop amount_saved buf)) c of (rc, len, c) \<Rightarrow>
           if rc \<noteq> 0 then Some (1, c)
           else writeenv_loop nd cf e buf ((offset + erasesize nd) mod 2 ^ 32) (amount_saved + len) len c))
      else Some (if amount_saved \<noteq> CONFIG_ENV_SIZE cf then 1 else 0, c))"

definition writeenv :: "'c nand_info \<Rightarrow> nand_config \<Rightarrow> nat \<Rightarrow> char list \<Rightarrow> 'c \<Rightarrow> (int \<times> 'c) option" where
  "writeenv nd cf offset buf c =
     (let e = (offset + CONFIG_ENV_RANGE cf) mod 2 ^ 32;
          len = min (erasesize nd) (CONFIG_ENV_SIZE cf);
          offset = CONFIG_ENV_OFFSET cf
      in writeenv_loop nd cf e buf offset 0 len c)"

partial_function (option) readenv_loop ::
    "'c nand_info \<Rightarrow> nand_config \<Rightarrow> nat \<Rightarrow> nat \<Rightarrow> nat \<Rightarrow> nat \<Rightarrow> 'c \<Rightarrow> char list \<Rightarrow> (int \<times> char list) option" where
  "readenv_loop nd cf e offset amount_loaded len c buf =
     (if amount_loaded < CONFIG_ENV_SIZE cf \<and> offset < e then
        (if nand_block_isbad nd offset then
           readenv_loop nd cf e ((offset + erasesize nd) mod 2 ^ 32) amount_loaded len c buf
         else (case nand_read_skip_bad nd offset len c of (rc, len, bs) \<Rightarrow>
           if length buf < amount_loaded + length bs then None
           else let buf = take amount_loaded buf @ bs @ drop (amount_loaded + length bs) buf in
             if rc \<noteq> 0 then Some (1, buf)
             else readenv_loop nd cf e ((offset + erasesize nd) mod 2 ^ 32) (amount_loaded + len) len c buf))
      else Some (if amount_loaded \<noteq> CONFIG_ENV_SIZE cf then 1 else 0, buf))"

definition readenv :: "'c nand_info \<Rightarrow> nand_config \<Rightarrow> nat \<Rightarrow> 'c \<Rightarrow> char list \<Rightarrow> (int \<times> char list) option" where
  "readenv nd cf offset c buf =
     (let e = (offset + CONFIG_ENV_RANGE cf) mod 2 ^ 32 in
      if erasesize nd = 0 then Some (1, buf)
      else let len = min (erasesize nd) (CONFIG_ENV_SIZE cf);
               offset = CONFIG_ENV_OFFSET cf
           in readenv_loop nd cf e offset 0 len c buf)"

section \<open>One copy\<close>

text \<open>
  \<^verbatim>\<open>saveenv\<close> and \<^verbatim>\<open>env_relocate_spec\<close> without \<^verbatim>\<open>CONFIG_ENV_OFFSET_REDUND\<close>, as the board is built.
  \<open>stale\<close> is what the buffers on the stack held before.
\<close>

definition saveenv :: "'c nand_info \<Rightarrow> nand_config \<Rightarrow> char list \<Rightarrow> hsearch_data \<Rightarrow> 'c \<Rightarrow> (int \<times> 'c) option" where
  "saveenv nd cf stale h c =
     (if CONFIG_ENV_RANGE cf < CONFIG_ENV_SIZE cf then Some (1, c)
      else do {
        x \<leftarrow> hexport_r (\<lambda>_. True) h NUL 0 (Some stale) (CONFIG_ENV_SIZE cf - 4) [];
        case x of Export_fail _ \<Rightarrow> Some (1, c)
        | Exported _ dat \<Rightarrow>
            let env_new = bytes32 (crc32 0 0 (bytes_of dat)) @ dat;
                (rc, c) = nand_erase_opts nd (CONFIG_ENV_OFFSET cf) (CONFIG_ENV_RANGE cf) c
            in if rc \<noteq> 0 then Some (1, c)
               else do {
                 (rc, c) \<leftarrow> writeenv nd cf (CONFIG_ENV_OFFSET cf) env_new c;
                 Some (if rc \<noteq> 0 then 1 else 0, c) } })"

definition env_relocate_spec :: "'c nand_info \<Rightarrow> nand_config \<Rightarrow> char list \<Rightarrow> world \<Rightarrow> 'c \<Rightarrow> env_state \<Rightarrow> env_state option" where
  "env_relocate_spec nd cf stale w c st = do {
     (ret, buf) \<leftarrow> readenv nd cf (CONFIG_ENV_OFFSET cf) c stale;
     if ret \<noteq> 0 then set_default_env w (env_config_of 4 cf) Bad st
     else do {
       (_, st) \<leftarrow> env_import w (env_config_of 4 cf) \<lparr>env_crc = word32 buf, env_data = drop 4 buf\<rparr> True st;
       Some st } }"

text \<open>\<^verbatim>\<open>gd->env_valid\<close> is 1 after \<^verbatim>\<open>env_init\<close>.\<close>

definition env_init :: nat where
  "env_init = 1"

definition env_relocate :: "'c nand_info \<Rightarrow> nand_config \<Rightarrow> char list \<Rightarrow> world \<Rightarrow> nat \<Rightarrow> 'c \<Rightarrow> env_state \<Rightarrow> env_state option" where
  "env_relocate nd cf stale w env_valid c st =
     (if env_valid = 0 then set_default_env w (env_config_of 4 cf) Bad st
      else env_relocate_spec nd cf stale w c st)"

section \<open>Two copies\<close>

text \<open>
  The same with \<^verbatim>\<open>CONFIG_ENV_OFFSET_REDUND\<close>: \<^verbatim>\<open>env_t\<close> has a serial number behind the checksum, and
  the state has \<^verbatim>\<open>gd->env_valid\<close> and the last serial number.
\<close>

record redundancy =
  env_valid :: nat
  env_flags :: u8

definition saveenv_redund :: "'c nand_info \<Rightarrow> nand_config \<Rightarrow> char list \<Rightarrow> hsearch_data \<Rightarrow> redundancy \<Rightarrow> 'c
    \<Rightarrow> (int \<times> redundancy \<times> 'c) option" where
  "saveenv_redund nd cf stale h rs c =
     (if CONFIG_ENV_RANGE cf < CONFIG_ENV_SIZE cf then Some (1, rs, c)
      else do {
        x \<leftarrow> hexport_r (\<lambda>_. True) h NUL 0 (Some stale) (CONFIG_ENV_SIZE cf - 5) [];
        case x of Export_fail _ \<Rightarrow> Some (1, rs, c)
        | Exported _ dat \<Rightarrow>
            let rs = rs\<lparr>env_flags := env_flags rs + 1\<rparr>;
                env_new = bytes32 (crc32 0 0 (bytes_of dat)) @ char_of (unat (env_flags rs)) # dat;
                target = (if env_valid rs = 1 then CONFIG_ENV_OFFSET_REDUND cf else CONFIG_ENV_OFFSET cf);
                (rc, c) = nand_erase_opts nd target (CONFIG_ENV_RANGE cf) c
            in if rc \<noteq> 0 then Some (1, rs, c)
               else do {
                 (ret, c) \<leftarrow> writeenv nd cf target env_new c;
                 if ret \<noteq> 0 then Some (1, rs, c)
                 else Some (ret, rs\<lparr>env_valid := (if env_valid rs = 2 then 1 else 2)\<rparr>, c) } })"

text \<open>Which of two good copies is newer, by serial numbers that wrap from 255 to 0.\<close>

definition newer_copy :: "u8 \<Rightarrow> u8 \<Rightarrow> nat" where
  "newer_copy flags1 flags2 =
     (if flags1 = 255 \<and> flags2 = 0 then 2
      else if flags2 = 255 \<and> flags1 = 0 then 1
      else if flags1 > flags2 then 1
      else if flags2 > flags1 then 2
      else 1)"

definition env_relocate_spec_redund :: "'c nand_info \<Rightarrow> nand_config \<Rightarrow> char list \<Rightarrow> char list \<Rightarrow> world \<Rightarrow> 'c
    \<Rightarrow> redundancy \<Rightarrow> env_state \<Rightarrow> (redundancy \<times> env_state) option" where
  "env_relocate_spec_redund nd cf stale1 stale2 w c rs st =
     (if \<not> malloc_ok w (CONFIG_ENV_SIZE cf) then do {
        st \<leftarrow> set_default_env w (env_config_of 5 cf) Bad st; Some (rs, st) }
      else do {
        (_, tmp_env1) \<leftarrow> readenv nd cf (CONFIG_ENV_OFFSET cf) c stale1;
        (_, tmp_env2) \<leftarrow> readenv nd cf (CONFIG_ENV_OFFSET_REDUND cf) c stale2;
        let crc1_ok = crc32 0 0 (bytes_of (drop 5 tmp_env1)) = word32 tmp_env1;
        let crc2_ok = crc32 0 0 (bytes_of (drop 5 tmp_env2)) = word32 tmp_env2;
        if \<not> crc1_ok \<and> \<not> crc2_ok then do {
          st \<leftarrow> set_default_env w (env_config_of 5 cf) Bad st; Some (rs, st) }
        else do {
          let flags1 = of_nat (of_char (tmp_env1 ! 4));
          let flags2 = of_nat (of_char (tmp_env2 ! 4));
          let v = (if crc1_ok \<and> \<not> crc2_ok then 1 else if \<not> crc1_ok \<and> crc2_ok then 2 else newer_copy flags1 flags2);
          let ep = (if v = 1 then tmp_env1 else tmp_env2);
          (_, st) \<leftarrow> env_import w (env_config_of 5 cf) \<lparr>env_crc = word32 ep, env_data = drop 5 ep\<rparr> False st;
          Some (\<lparr>env_valid = v, env_flags = (if v = 1 then flags1 else flags2)\<rparr>, st) } })"

section \<open>What the driver promises\<close>

text \<open>
  \<open>cell c a\<close> is the byte at address \<open>a\<close>. An erase that reports success leaves 0xFF in every good
  block inside its range; a write that reports success to erased cells stores its bytes; neither
  touches a cell outside its range. A good block can be read.
\<close>

definition erased :: "('c \<Rightarrow> nat \<Rightarrow> char) \<Rightarrow> 'c \<Rightarrow> nat \<Rightarrow> nat \<Rightarrow> bool" where
  "erased cell c off n \<longleftrightarrow> (\<forall>a \<in> {off..<off + n}. cell c a = CHR 0xFF)"

definition reliable :: "('c \<Rightarrow> nat \<Rightarrow> char) \<Rightarrow> 'c nand_info \<Rightarrow> bool" where
  "reliable cell nd \<longleftrightarrow>
     (\<forall>off bs c rc len c'. nand_write nd off bs c = (rc, len, c') \<longrightarrow>
        (\<forall>a. a \<notin> {off..<off + length bs} \<longrightarrow> cell c' a = cell c a)
        \<and> (rc = 0 \<longrightarrow> len = length bs \<and> (erased cell c off (length bs) \<longrightarrow> map (cell c') [off..<off + length bs] = bs)))
     \<and> (\<forall>off n c. \<not> nand_block_isbad nd off \<longrightarrow> n \<le> erasesize nd
          \<longrightarrow> nand_read_skip_bad nd off n c = (0, n, map (cell c) [off..<off + n]))
     \<and> (\<forall>off n c rc c'. nand_erase_opts nd off n c = (rc, c') \<longrightarrow>
        (\<forall>a. a \<notin> {off..<off + n} \<longrightarrow> cell c' a = cell c a)
        \<and> (rc = 0 \<longrightarrow> (\<forall>b. erasesize nd dvd b \<longrightarrow> off \<le> b \<longrightarrow> b + erasesize nd \<le> off + n \<longrightarrow> \<not> nand_block_isbad nd b
              \<longrightarrow> erased cell c' b (erasesize nd))))"

lemma reliable_write:
  assumes "reliable cell nd" and "nand_write nd off bs c = (rc, len, c')"
  shows "a \<notin> {off..<off + length bs} \<Longrightarrow> cell c' a = cell c a" and "rc = 0 \<Longrightarrow> len = length bs"
    and "rc = 0 \<Longrightarrow> erased cell c off (length bs) \<Longrightarrow> map (cell c') [off..<off + length bs] = bs"
proof -
  from assms have "(\<forall>a. a \<notin> {off..<off + length bs} \<longrightarrow> cell c' a = cell c a)
      \<and> (rc = 0 \<longrightarrow> len = length bs \<and> (erased cell c off (length bs) \<longrightarrow> map (cell c') [off..<off + length bs] = bs))"
    unfolding reliable_def by (elim conjE) metis
  then show "a \<notin> {off..<off + length bs} \<Longrightarrow> cell c' a = cell c a" "rc = 0 \<Longrightarrow> len = length bs"
    "rc = 0 \<Longrightarrow> erased cell c off (length bs) \<Longrightarrow> map (cell c') [off..<off + length bs] = bs" by blast+
qed

lemma reliable_read:
  "reliable cell nd \<Longrightarrow> \<not> nand_block_isbad nd off \<Longrightarrow> n \<le> erasesize nd
    \<Longrightarrow> nand_read_skip_bad nd off n c = (0, n, map (cell c) [off..<off + n])"
  unfolding reliable_def by blast

lemma reliable_erase:
  assumes "reliable cell nd" and "nand_erase_opts nd off n c = (rc, c')"
  shows "a \<notin> {off..<off + n} \<Longrightarrow> cell c' a = cell c a"
    and "rc = 0 \<Longrightarrow> erasesize nd dvd b \<Longrightarrow> off \<le> b \<Longrightarrow> b + erasesize nd \<le> off + n \<Longrightarrow> \<not> nand_block_isbad nd b
      \<Longrightarrow> erased cell c' b (erasesize nd)"
proof -
  from assms have "(\<forall>a. a \<notin> {off..<off + n} \<longrightarrow> cell c' a = cell c a)
      \<and> (rc = 0 \<longrightarrow> (\<forall>b. erasesize nd dvd b \<longrightarrow> off \<le> b \<longrightarrow> b + erasesize nd \<le> off + n \<longrightarrow> \<not> nand_block_isbad nd b
              \<longrightarrow> erased cell c' b (erasesize nd)))"
    unfolding reliable_def by (elim conjE) metis
  then show "a \<notin> {off..<off + n} \<Longrightarrow> cell c' a = cell c a"
    "rc = 0 \<Longrightarrow> erasesize nd dvd b \<Longrightarrow> off \<le> b \<Longrightarrow> b + erasesize nd \<le> off + n \<Longrightarrow> \<not> nand_block_isbad nd b
      \<Longrightarrow> erased cell c' b (erasesize nd)" by blast+
qed

section \<open>The two loops agree\<close>

lemma step_no_wrap: "off < e \<Longrightarrow> e + b < 2 ^ 32 \<Longrightarrow> (off + b) mod 2 ^ 32 = off + (b :: nat)"
  by simp

text \<open>Writing returns, whatever the driver reports.\<close>

lemma writeenv_loop_returns:
  assumes "reliable cell nd" and "0 < erasesize nd" and "e + erasesize nd < 2 ^ 32"
    and "len dvd CONFIG_ENV_SIZE cf" and "length buf = CONFIG_ENV_SIZE cf" and "len dvd amt"
  shows "\<exists>rc c'. writeenv_loop nd cf e buf off amt len c = Some (rc, c')"
  using assms(6)
proof (induction "e - off" arbitrary: off amt c rule: less_induct)
  case less
  show ?case
  proof (cases "amt < CONFIG_ENV_SIZE cf \<and> off < e")
    case run: True
    then have wrap: "(off + erasesize nd) mod 2 ^ 32 = off + erasesize nd" "e - (off + erasesize nd) < e - off"
      using assms(2,3) step_no_wrap [of off e "erasesize nd"] by auto
    show ?thesis
    proof (cases "nand_block_isbad nd off")
      case True
      with less(1) [OF wrap(2) less(2)] run wrap(1) show ?thesis by (subst writeenv_loop.simps) simp
    next
      case False
      obtain rc n c1 where w: "nand_write nd off (take len (drop amt buf)) c = (rc, n, c1)" by (metis prod_cases3)
      have fits: "amt + len \<le> length buf"
        using less(2) assms(4,5) run by (metis dvd_imp_le dvd_diff_nat le_diff_conv2 less_imp_le zero_less_diff add.commute)
      have "n = len" if "rc = 0" using reliable_write(2) [OF assms(1) w that] fits by simp
      with less(1) [OF wrap(2), of "amt + len"] less(2) False run fits wrap(1) w show ?thesis
        by (subst writeenv_loop.simps) (cases "rc = 0"; simp)
    qed
  qed (subst writeenv_loop.simps, auto)
qed

text \<open>Reading takes the same turns as a successful writing did and sees what it stored.\<close>

lemma readenv_loop_writeenv_loop:
  assumes rel: "reliable cell nd" and nd: "0 < erasesize nd" "e + erasesize nd < 2 ^ 32" "len \<le> erasesize nd"
    and buf: "length buf = CONFIG_ENV_SIZE cf"
    and "length buf' = length buf" and "amt \<le> length buf" and "erasesize nd dvd off"
    and "\<And>b. erasesize nd dvd b \<Longrightarrow> off \<le> b \<Longrightarrow> b < e \<Longrightarrow> \<not> nand_block_isbad nd b \<Longrightarrow> erased cell c b len"
    and "writeenv_loop nd cf e buf off amt len c = Some (0, c')"
  shows "(\<forall>a < off. cell c' a = cell c a)
    \<and> readenv_loop nd cf e off amt len c' buf' = Some (0, take amt buf' @ drop amt buf)"
  using assms(6-)
proof (induction "e - off" arbitrary: off amt c buf' rule: less_induct)
  case less
  show ?case
  proof (cases "amt < CONFIG_ENV_SIZE cf \<and> off < e")
    case run: True
    then have wrap: "(off + erasesize nd) mod 2 ^ 32 = off + erasesize nd" "e - (off + erasesize nd) < e - off"
      using nd step_no_wrap [of off e "erasesize nd"] by auto
    have next_off: "erasesize nd dvd off + erasesize nd" using less(4) by simp
    show ?thesis
    proof (cases "nand_block_isbad nd off")
      case True
      then have w: "writeenv_loop nd cf e buf (off + erasesize nd) amt len c = Some (0, c')"
        using less(6) run wrap(1) by (subst (asm) writeenv_loop.simps) simp
      from less(1) [OF wrap(2) less(2,3) next_off _ w] less(5) show ?thesis
        using True run wrap(1) by (subst readenv_loop.simps) simp
    next
      case False
      then have fits: "amt + len \<le> length buf" using less(6) run by (subst (asm) writeenv_loop.simps) (auto split: if_splits)
      obtain rc n c1 where w: "nand_write nd off (take len (drop amt buf)) c = (rc, n, c1)" by (metis prod_cases3)
      have rc: "rc = 0" and w1: "writeenv_loop nd cf e buf (off + erasesize nd) (amt + n) n c1 = Some (0, c')"
        using less(6) run False fits w wrap(1) by (subst (asm) writeenv_loop.simps, simp split: if_splits)+
      have len: "length (take len (drop amt buf)) = len" using fits by simp
      note wr = reliable_write [OF rel w, unfolded len]
      have n: "n = len" using wr(2) rc by simp
      have stored: "map (cell c1) [off..<off + len] = take len (drop amt buf)"
        using wr(3) rc less(5) [of off] less(4) run False by blast
      let ?buf = "take amt buf' @ take len (drop amt buf) @ drop (amt + len) buf'"
      have b: "length ?buf = length buf" using less(2) fits by simp
      have keep: "erased cell c1 b len" if "erasesize nd dvd b" "off + erasesize nd \<le> b" "b < e" "\<not> nand_block_isbad nd b" for b
        using less(5) [of b] that wr(1) nd(3) by (auto simp: erased_def)
      from less(1) [OF wrap(2) b _ next_off keep w1 [unfolded n]] fits
      have ih: "\<forall>a < off + erasesize nd. cell c' a = cell c1 a"
        "readenv_loop nd cf e (off + erasesize nd) (amt + len) len c' ?buf = Some (0, take (amt + len) ?buf @ drop (amt + len) buf)"
        by simp_all
      have "map (cell c') [off..<off + len] = map (cell c1) [off..<off + len]" using ih(1) nd(3) by (intro map_cong) auto
      then have "map (cell c') [off..<off + len] = take len (drop amt buf)" using stored by simp
      moreover have "take (amt + len) ?buf = take amt buf' @ take len (drop amt buf)" using less(2) fits by simp
      moreover have "take len (drop amt buf) @ drop (amt + len) buf = drop amt buf"
        using append_take_drop_id [of len "drop amt buf"] by (simp add: add.commute)
      moreover have "\<forall>a < off. cell c' a = cell c a" using ih(1) wr(1) by auto
      ultimately show ?thesis
        using reliable_read [OF rel False nd(3), of c'] ih(2) run False fits wrap(1) less(2) len
        by (subst readenv_loop.simps) (simp add: Let_def)
    qed
  next
    case False
    then have "amt = CONFIG_ENV_SIZE cf" "c' = c" using less(6) by (subst (asm) writeenv_loop.simps; auto split: if_splits)+
    with False less(2) buf show ?thesis by (subst readenv_loop.simps) auto
  qed
qed

section \<open>Saving and loading\<close>

text \<open>The layout that the code needs: whole blocks, and offsets that do not wrap.\<close>

definition nand_layout :: "'c nand_info \<Rightarrow> nand_config \<Rightarrow> bool" where
  "nand_layout nd cf \<longleftrightarrow> 0 < erasesize nd \<and> min (erasesize nd) (CONFIG_ENV_SIZE cf) dvd CONFIG_ENV_SIZE cf
     \<and> erasesize nd dvd CONFIG_ENV_OFFSET cf \<and> erasesize nd dvd CONFIG_ENV_RANGE cf
     \<and> 4 < CONFIG_ENV_SIZE cf \<and> CONFIG_ENV_SIZE cf \<le> CONFIG_ENV_RANGE cf
     \<and> CONFIG_ENV_OFFSET cf + CONFIG_ENV_RANGE cf + erasesize nd < 2 ^ 32"

lemma whole_block: "d dvd b \<Longrightarrow> d dvd e \<Longrightarrow> b < e \<Longrightarrow> b + d \<le> (e :: nat)"
  by (metis dvd_diff_nat dvd_imp_le le_diff_conv2 less_imp_le zero_less_diff add.commute)

lemma writeenv_returns:
  assumes "reliable cell nd" and "nand_layout nd cf" and "length buf = CONFIG_ENV_SIZE cf"
  shows "\<exists>rc c'. writeenv nd cf (CONFIG_ENV_OFFSET cf) buf c = Some (rc, c')"
  using assms writeenv_loop_returns [OF assms(1), of "CONFIG_ENV_OFFSET cf + CONFIG_ENV_RANGE cf"
      "min (erasesize nd) (CONFIG_ENV_SIZE cf)" cf buf 0 "CONFIG_ENV_OFFSET cf" c]
  by (simp add: writeenv_def nand_layout_def)

lemma readenv_of_writeenv:
  assumes rel: "reliable cell nd" and lay: "nand_layout nd cf" and buf: "length buf = CONFIG_ENV_SIZE cf" "length buf' = length buf"
    and erase: "nand_erase_opts nd (CONFIG_ENV_OFFSET cf) (CONFIG_ENV_RANGE cf) c = (0, c1)"
    and wrote: "writeenv nd cf (CONFIG_ENV_OFFSET cf) buf c1 = Some (0, c')"
  shows "readenv nd cf (CONFIG_ENV_OFFSET cf) c' buf' = Some (0, buf)"
proof -
  let ?e = "CONFIG_ENV_OFFSET cf + CONFIG_ENV_RANGE cf" and ?len = "min (erasesize nd) (CONFIG_ENV_SIZE cf)"
  have lay': "0 < erasesize nd" "erasesize nd dvd CONFIG_ENV_OFFSET cf" "erasesize nd dvd ?e" "?e + erasesize nd < 2 ^ 32"
    using lay by (auto simp: nand_layout_def)
  have "erased cell c1 b ?len" if b: "erasesize nd dvd b" "CONFIG_ENV_OFFSET cf \<le> b" "b < ?e" "\<not> nand_block_isbad nd b" for b
    using reliable_erase(2) [OF rel erase refl b(1,2) whole_block [OF b(1) lay'(3) b(3)] b(4)] by (auto simp: erased_def)
  moreover have "writeenv_loop nd cf ?e buf (CONFIG_ENV_OFFSET cf) 0 ?len c1 = Some (0, c')"
    using wrote lay'(4) by (simp add: writeenv_def)
  ultimately have "readenv_loop nd cf ?e (CONFIG_ENV_OFFSET cf) 0 ?len c' buf' = Some (0, buf)"
    using readenv_loop_writeenv_loop [OF rel lay'(1,4) _ buf, of ?len 0 "CONFIG_ENV_OFFSET cf" c1 c'] lay'(2) by simp
  then show ?thesis using lay' by (simp add: readenv_def)
qed

lemma relocate_written:
  assumes nd: "reliable cell nd" "nand_layout nd cf" "length stale = CONFIG_ENV_SIZE cf"
    and m: "m \<noteq> Map.empty" "card (dom m) \<le> min (128 + (CONFIG_ENV_SIZE cf - 4) div 8) 512"
    and w: "readable_before w" "\<And>n. malloc_ok w n" and st: "\<not> env_ready_flag st" "table (env_htab st) = None"
    and dat: "length dat = CONFIG_ENV_SIZE cf - 4" "dat = concat (map (written NUL) es) @ NUL # replicate r NUL" "distinct (map fst es)"
    and es: "\<And>k v. (k, v) \<in> set es \<longleftrightarrow> m k = Some v"
    and ok: "\<And>k v. m k = Some v \<Longrightarrow> portable NUL (k, v) \<and> init_safe (w\<lparr>env_ready := False\<rparr>) Map.empty k"
    and er: "nand_erase_opts nd (CONFIG_ENV_OFFSET cf) (CONFIG_ENV_RANGE cf) c = (0, c1)"
    and wr: "writeenv nd cf (CONFIG_ENV_OFFSET cf) (bytes32 (crc32 0 0 (bytes_of dat)) @ dat) c1 = Some (0, c')"
  shows "\<exists>st'. env_relocate nd cf stale w env_init c' st = Some st' \<and> env_ready_flag st' \<and> hinv (env_htab st')
    \<and> abs_env (env_htab st') \<subseteq>\<^sub>m m \<and> (\<forall>k v. m k = Some v \<longrightarrow> abs_env (env_htab st') k = Some v
      \<or> refused (env_hooks_of (w\<lparr>env_ready := False\<rparr>)) 0 m k v)"
proof -
  let ?img = "bytes32 (crc32 0 0 (bytes_of dat)) @ dat"
  have img: "length ?img = CONFIG_ENV_SIZE cf" using dat(1) nd(2) by (simp add: nand_layout_def)
  have rd: "readenv nd cf (CONFIG_ENV_OFFSET cf) c' stale = Some (0, ?img)"
    by (rule readenv_of_writeenv [OF nd(1,2) img _ er wr]) (simp only: nd(3) img)
  have "dom m = fst ` set es" using es by force
  then have "length es = card (dom m)" using distinct_card [OF dat(3)] by simp
  then have small: "length es \<le> min (128 + ENV_SIZE (env_config_of 4 cf) div 8) 512" using m(2) by (simp add: env_config_of_def)
  have ne: "es \<noteq> []" using m(1) es by fastforce
  have len: "length dat = ENV_SIZE (env_config_of 4 cf)" using dat(1) by (simp add: env_config_of_def)
  from env_import_exported [OF w st dat(3) es ne ok dat(2) len small, of True] obtain st' where
    "env_import w (env_config_of 4 cf) \<lparr>env_crc = crc32 0 0 (bytes_of dat), env_data = dat\<rparr> True st = Some (1, st')"
    and "env_ready_flag st' \<and> hinv (env_htab st') \<and> abs_env (env_htab st') \<subseteq>\<^sub>m m \<and> (\<forall>k v. m k = Some v \<longrightarrow>
      abs_env (env_htab st') k = Some v \<or> refused (env_hooks_of (w\<lparr>env_ready := False\<rparr>)) 0 m k v)" by blast
  then show ?thesis using rd by (simp add: env_relocate_def env_relocate_spec_def env_init_def word32_bytes32)
qed

text \<open>A chip that is an array of bytes, with a bad block at 32, for the witnesses.\<close>

definition array_nand :: "(nat \<Rightarrow> char) nand_info" where
  "array_nand = \<lparr>erasesize = 16, nand_block_isbad = (\<lambda>off. off = 32),
     nand_write = (\<lambda>off bs c. (0, length bs, \<lambda>a. if a \<in> {off..<off + length bs} then bs ! (a - off) else c a)),
     nand_read_skip_bad = (\<lambda>off n c. (0, n, map c [off..<off + n])),
     nand_erase_opts = (\<lambda>off n c. (0, \<lambda>a. if a \<in> {off..<off + n} then CHR 0xFF else c a))\<rparr>"

lemma array_nand_reliable: "reliable (\<lambda>c. c) (array_nand\<lparr>erasesize := n\<rparr>)"
  by (auto simp: reliable_def array_nand_def erased_def intro!: nth_equalityI)

lemma array_nand_16: "array_nand\<lparr>erasesize := 16\<rparr> = array_nand"
  by (simp add: array_nand_def)

definition small_area :: nand_config where
  "small_area = \<lparr>CONFIG_ENV_SIZE = 16, CONFIG_ENV_RANGE = 48, CONFIG_ENV_OFFSET = 32, CONFIG_ENV_OFFSET_REDUND = 80,
     built_in = [NUL, NUL]\<rparr>"

lemma small_area_layout: "nand_layout array_nand small_area"
  by (simp add: nand_layout_def array_nand_def small_area_def)

lemma small_area_saved: "\<exists>c'. saveenv array_nand small_area (replicate 12 NUL) one5 (\<lambda>_. NUL) = Some (0, c')"
proof -
  have "hexport_r (\<lambda>_. True) one5 NUL 0 (Some (replicate 12 NUL)) 12 [] = Some (Exported 12 (''a=b;c'' @ replicate 7 NUL))"
    by (simp add: hexport_r_def one5_def table_entries_def null_slot_def upt_rec Let_def selected_def qsort_def
        reserved_def written_def is_escaped_def wr_def numeral_eq_Suc)
  then show ?thesis
    by (simp add: saveenv_def small_area_def array_nand_def writeenv_def writeenv_loop.simps Let_def)
qed

section \<open>Properties\<close>




text \<open>Two copies of 16 bytes, the second at 64.\<close>

definition two_copies :: nand_config where
  "two_copies = \<lparr>CONFIG_ENV_SIZE = 16, CONFIG_ENV_RANGE = 16, CONFIG_ENV_OFFSET = 48, CONFIG_ENV_OFFSET_REDUND = 64,
     built_in = [NUL, NUL]\<rparr>"

lemma two_copies_saved:
  "\<exists>c'. saveenv_redund array_nand two_copies (replicate 11 NUL) empty5 \<lparr>env_valid = 1, env_flags = 0\<rparr> (\<lambda>_. NUL)
     = Some (0, \<lparr>env_valid = 2, env_flags = 1\<rparr>, c')"
  by (simp add: saveenv_redund_def two_copies_def empty5_export array_nand_def writeenv_def writeenv_loop.simps Let_def)


end
