(* ===== verification/EnvSf.thy ===== *)
theory EnvSf
  imports EnvImage
begin

text \<open>
  The environment in SPI flash with two copies (\<^verbatim>\<open>common/env_sf.c\<close> with
  \<^verbatim>\<open>CONFIG_ENV_OFFSET_REDUND\<close>). The driver is a parameter over an abstract chip state \<open>'c\<close>. A chip may
  lose its power: from then on it ignores every command, so what it holds at the end of \<^verbatim>\<open>saveenv\<close> is
  what it held when the power failed. The theorems show that whatever the point of failure, the next
  boot loads a complete environment.
\<close>

section \<open>The driver and the layout\<close>

record 'c spi_flash =
  spi_flash_probe :: "'c \<Rightarrow> bool"
  spi_flash_read :: "nat \<Rightarrow> nat \<Rightarrow> 'c \<Rightarrow> int \<times> char list"
  spi_flash_erase :: "nat \<Rightarrow> nat \<Rightarrow> 'c \<Rightarrow> int \<times> 'c"
  spi_flash_write :: "nat \<Rightarrow> char list \<Rightarrow> 'c \<Rightarrow> int \<times> 'c"

record sf_config =
  CONFIG_ENV_SIZE :: nat
  CONFIG_ENV_SECT_SIZE :: nat
  CONFIG_ENV_OFFSET :: nat
  CONFIG_ENV_OFFSET_REDUND :: nat
  built_in :: "char list"

definition env_config_of :: "sf_config \<Rightarrow> env_config" where
  "env_config_of cf = \<lparr>default_environment = built_in cf, ENV_SIZE = CONFIG_ENV_SIZE cf - 5\<rparr>"

definition ACTIVE_FLAG :: char where "ACTIVE_FLAG = CHR 0x01"
definition OBSOLETE_FLAG :: char where "OBSOLETE_FLAG = NUL"

text \<open>The fields of \<^verbatim>\<open>env_t\<close>: the checksum, the flags at offset 4, the data.\<close>

definition crc_ok :: "char list \<Rightarrow> bool" where
  "crc_ok ep \<longleftrightarrow> crc32 0 0 (bytes_of (drop 5 ep)) = word32 ep"

section \<open>Saving\<close>

definition sectors :: "sf_config \<Rightarrow> nat" where
  "sectors cf =
     (if CONFIG_ENV_SIZE cf > CONFIG_ENV_SECT_SIZE cf then
        CONFIG_ENV_SIZE cf div CONFIG_ENV_SECT_SIZE cf
          + (if CONFIG_ENV_SIZE cf mod CONFIG_ENV_SECT_SIZE cf \<noteq> 0 then 1 else 0)
      else 1)"

text \<open>Erasing, writing the copy and the rest of its sector, and marking the other copy; stops at the first error.\<close>

definition write_copy :: "'c spi_flash \<Rightarrow> sf_config \<Rightarrow> nat \<Rightarrow> nat \<Rightarrow> char list \<Rightarrow> char list option \<Rightarrow> 'c \<Rightarrow> int \<times> 'c" where
  "write_copy fl cf env_new_offset env_offset env_new saved_buffer c =
     (let (ret, c) = spi_flash_erase fl env_new_offset (sectors cf * CONFIG_ENV_SECT_SIZE cf) c in
      if ret \<noteq> 0 then (ret, c)
      else let (ret, c) = spi_flash_write fl env_new_offset env_new c in
        if ret \<noteq> 0 then (ret, c)
        else let (ret, c) = (case saved_buffer of None \<Rightarrow> (0, c)
               | Some b \<Rightarrow> spi_flash_write fl (env_new_offset + CONFIG_ENV_SIZE cf) b c) in
          if ret \<noteq> 0 then (ret, c)
          else spi_flash_write fl (env_offset + 4) [OBSOLETE_FLAG] c)"

record sf_state =
  env :: env_state
  env_valid :: nat
  env_flash :: bool

definition saveenv :: "'c spi_flash \<Rightarrow> sf_config \<Rightarrow> char list \<Rightarrow> world \<Rightarrow> sf_state \<Rightarrow> 'c \<Rightarrow> (int \<times> sf_state \<times> 'c) option" where
  "saveenv fl cf stale w st c =
     (if \<not> env_flash st \<and> \<not> spi_flash_probe fl c then do {
        e \<leftarrow> set_default_env w (env_config_of cf) Bad (env st);
        Some (1, st\<lparr>env := e\<rparr>, c) }
      else let st = st\<lparr>env_flash := True\<rparr> in do {
        x \<leftarrow> hexport_r (\<lambda>_. True) (env_htab (env st)) NUL 0 (Some stale) (CONFIG_ENV_SIZE cf - 5) [];
        case x of Export_fail _ \<Rightarrow> Some (1, st, c)
        | Exported _ dat \<Rightarrow>
            let env_new = bytes32 (crc32 0 0 (bytes_of dat)) @ ACTIVE_FLAG # dat;
                (env_new_offset, env_offset) =
                  (if env_valid st = 1 then (CONFIG_ENV_OFFSET_REDUND cf, CONFIG_ENV_OFFSET cf)
                   else (CONFIG_ENV_OFFSET cf, CONFIG_ENV_OFFSET_REDUND cf));
                big = CONFIG_ENV_SECT_SIZE cf > CONFIG_ENV_SIZE cf;
                saved_size = CONFIG_ENV_SECT_SIZE cf - CONFIG_ENV_SIZE cf
            in if big \<and> \<not> malloc_ok w saved_size then Some (1, st, c)
               else let (ret, b) = (if big then spi_flash_read fl (env_new_offset + CONFIG_ENV_SIZE cf) saved_size c else (0, []))
                 in if ret \<noteq> 0 then Some (ret, st, c)
                    else let (ret, c) = write_copy fl cf env_new_offset env_offset env_new (if big then Some b else None) c
                      in if ret \<noteq> 0 then Some (ret, st, c)
                         else Some (0, st\<lparr>env_valid := (if env_valid st = 2 then 1 else 2)\<rparr>, c) })"

section \<open>Loading\<close>

definition choose_copy :: "bool \<Rightarrow> bool \<Rightarrow> char \<Rightarrow> char \<Rightarrow> nat" where
  "choose_copy crc1_ok crc2_ok flags1 flags2 =
     (if crc1_ok \<and> \<not> crc2_ok then 1
      else if \<not> crc1_ok \<and> crc2_ok then 2
      else if flags1 = ACTIVE_FLAG \<and> flags2 = OBSOLETE_FLAG then 1
      else if flags1 = OBSOLETE_FLAG \<and> flags2 = ACTIVE_FLAG then 2
      else if flags1 = flags2 then 2
      else if flags1 = CHR 0xFF then 2
      else 2)"

definition env_relocate_spec :: "'c spi_flash \<Rightarrow> sf_config \<Rightarrow> world \<Rightarrow> 'c \<Rightarrow> sf_state \<Rightarrow> sf_state option" where
  "env_relocate_spec fl cf w c st =
     (let use_default = (do { e \<leftarrow> set_default_env w (env_config_of cf) Bad (env st); Some (st\<lparr>env := e\<rparr>) }) in
      if \<not> malloc_ok w (CONFIG_ENV_SIZE cf) then use_default
      else if \<not> spi_flash_probe fl c then do { st \<leftarrow> use_default; Some (st\<lparr>env_flash := False\<rparr>) }
      else let (ret1, tmp_env1) = spi_flash_read fl (CONFIG_ENV_OFFSET cf) (CONFIG_ENV_SIZE cf) c;
               (ret2, tmp_env2) = spi_flash_read fl (CONFIG_ENV_OFFSET_REDUND cf) (CONFIG_ENV_SIZE cf) c;
               crc1_ok = crc_ok tmp_env1;
               crc2_ok = (ret2 = 0 \<and> crc_ok tmp_env2)
           in if ret1 \<noteq> 0 \<or> \<not> crc1_ok \<and> \<not> crc2_ok then do { st \<leftarrow> use_default; Some (st\<lparr>env_flash := False\<rparr>) }
              else do {
                let v = choose_copy crc1_ok crc2_ok (tmp_env1 ! 4) (tmp_env2 ! 4);
                let ep = (if v = 1 then tmp_env1 else tmp_env2);
                (ret, e) \<leftarrow> env_import w (env_config_of cf) \<lparr>env_crc = word32 ep, env_data = drop 5 ep\<rparr> False (env st);
                e \<leftarrow> (if ret = 0 then set_default_env w (env_config_of cf) Message e else Some e);
                Some \<lparr>env = e, env_valid = v, env_flash = False\<rparr> })"

section \<open>What the chip promises\<close>

text \<open>
  Programming clears bits. While the chip has power, an operation that reports success has had its
  effect; an operation changes nothing outside its range, and nothing at all without power. Power does
  not come back during \<^verbatim>\<open>saveenv\<close>.
\<close>

definition program :: "char \<Rightarrow> char \<Rightarrow> char" where
  "program old b = char_of ((of_char old :: nat) AND of_char b)"

definition spi_chip :: "('c \<Rightarrow> nat \<Rightarrow> char) \<Rightarrow> ('c \<Rightarrow> bool) \<Rightarrow> 'c spi_flash \<Rightarrow> bool" where
  "spi_chip cell powered fl \<longleftrightarrow>
     (\<forall>off bs c rc c'. spi_flash_write fl off bs c = (rc, c') \<longrightarrow>
        (\<forall>a. a \<notin> {off..<off + length bs} \<longrightarrow> cell c' a = cell c a)
        \<and> (\<not> powered c \<longrightarrow> cell c' = cell c \<and> \<not> powered c')
        \<and> (powered c' \<and> rc = 0 \<longrightarrow> (\<forall>i < length bs. cell c' (off + i) = program (cell c (off + i)) (bs ! i))))
     \<and> (\<forall>off n c rc c'. spi_flash_erase fl off n c = (rc, c') \<longrightarrow>
        (\<forall>a. a \<notin> {off..<off + n} \<longrightarrow> cell c' a = cell c a)
        \<and> (\<not> powered c \<longrightarrow> cell c' = cell c \<and> \<not> powered c')
        \<and> (powered c' \<and> rc = 0 \<longrightarrow> (\<forall>a \<in> {off..<off + n}. cell c' a = CHR 0xFF)))
     \<and> (\<forall>c. powered c \<longrightarrow> spi_flash_probe fl c)
     \<and> (\<forall>off n c. powered c \<longrightarrow> spi_flash_read fl off n c = (0, map (cell c) [off..<off + n]))
     \<and> (\<forall>off n c rc bs. spi_flash_read fl off n c = (rc, bs) \<longrightarrow> length bs = n)"

lemma program_erased: "program (CHR 0xFF) b = b"
proof -
  have "(255 :: nat) = mask 8" by (simp add: mask_eq_exp_minus_1)
  then have "(of_char (CHR 0xFF) :: nat) AND of_char b = take_bit 8 (of_char b)" by (simp add: take_bit_eq_mask and.commute)
  also have "\<dots> = (of_char b :: nat)" using nat_of_char_less_256 [of b] by (simp add: take_bit_nat_eq_self)
  finally show ?thesis by (simp add: program_def)
qed

lemma program_NUL: "program a NUL = NUL"
  by (simp add: program_def char_of_def)

lemma chip_write:
  assumes "spi_chip cell powered fl" and "spi_flash_write fl off bs c = (rc, c')"
  shows "a \<notin> {off..<off + length bs} \<Longrightarrow> cell c' a = cell c a" and "\<not> powered c \<Longrightarrow> cell c' = cell c"
    and "powered c' \<Longrightarrow> powered c"
    and "powered c' \<Longrightarrow> rc = 0 \<Longrightarrow> i < length bs \<Longrightarrow> cell c' (off + i) = program (cell c (off + i)) (bs ! i)"
proof -
  from assms have "(\<forall>a. a \<notin> {off..<off + length bs} \<longrightarrow> cell c' a = cell c a)
        \<and> (\<not> powered c \<longrightarrow> cell c' = cell c \<and> \<not> powered c')
        \<and> (powered c' \<and> rc = 0 \<longrightarrow> (\<forall>i < length bs. cell c' (off + i) = program (cell c (off + i)) (bs ! i)))"
    unfolding spi_chip_def by (elim conjE) metis
  then show "a \<notin> {off..<off + length bs} \<Longrightarrow> cell c' a = cell c a" "\<not> powered c \<Longrightarrow> cell c' = cell c"
    "powered c' \<Longrightarrow> powered c"
    "powered c' \<Longrightarrow> rc = 0 \<Longrightarrow> i < length bs \<Longrightarrow> cell c' (off + i) = program (cell c (off + i)) (bs ! i)" by blast+
qed

lemma chip_erase:
  assumes "spi_chip cell powered fl" and "spi_flash_erase fl off n c = (rc, c')"
  shows "a \<notin> {off..<off + n} \<Longrightarrow> cell c' a = cell c a" and "\<not> powered c \<Longrightarrow> cell c' = cell c"
    and "powered c' \<Longrightarrow> powered c" and "powered c' \<Longrightarrow> rc = 0 \<Longrightarrow> a \<in> {off..<off + n} \<Longrightarrow> cell c' a = CHR 0xFF"
proof -
  from assms have "(\<forall>a. a \<notin> {off..<off + n} \<longrightarrow> cell c' a = cell c a)
        \<and> (\<not> powered c \<longrightarrow> cell c' = cell c \<and> \<not> powered c')
        \<and> (powered c' \<and> rc = 0 \<longrightarrow> (\<forall>a \<in> {off..<off + n}. cell c' a = CHR 0xFF))"
    unfolding spi_chip_def by (elim conjE) metis
  then show "a \<notin> {off..<off + n} \<Longrightarrow> cell c' a = cell c a" "\<not> powered c \<Longrightarrow> cell c' = cell c"
    "powered c' \<Longrightarrow> powered c" "powered c' \<Longrightarrow> rc = 0 \<Longrightarrow> a \<in> {off..<off + n} \<Longrightarrow> cell c' a = CHR 0xFF" by blast+
qed

section \<open>One save\<close>

definition copy_at :: "('c \<Rightarrow> nat \<Rightarrow> char) \<Rightarrow> sf_config \<Rightarrow> 'c \<Rightarrow> nat \<Rightarrow> char list" where
  "copy_at cell cf c off = map (cell c) [off..<off + CONFIG_ENV_SIZE cf]"

text \<open>The layout: a header and data in each copy, and the sectors of one copy apart from the other copy.\<close>

definition apart :: "sf_config \<Rightarrow> nat \<Rightarrow> nat \<Rightarrow> bool" where
  "apart cf new old \<longleftrightarrow> old + CONFIG_ENV_SIZE cf \<le> new \<or> new + sectors cf * CONFIG_ENV_SECT_SIZE cf \<le> old"

definition sf_layout :: "sf_config \<Rightarrow> bool" where
  "sf_layout cf \<longleftrightarrow> 5 < CONFIG_ENV_SIZE cf \<and> 0 < CONFIG_ENV_SECT_SIZE cf
     \<and> apart cf (CONFIG_ENV_OFFSET cf) (CONFIG_ENV_OFFSET_REDUND cf) \<and> apart cf (CONFIG_ENV_OFFSET_REDUND cf) (CONFIG_ENV_OFFSET cf)"

lemma sectors_cover: "0 < CONFIG_ENV_SECT_SIZE cf \<Longrightarrow> CONFIG_ENV_SIZE cf \<le> sectors cf * CONFIG_ENV_SECT_SIZE cf"
  using dividend_less_div_times [of "CONFIG_ENV_SECT_SIZE cf" "CONFIG_ENV_SIZE cf"] by (auto simp: sectors_def)

lemma write_copy_effect:
  assumes chip: "spi_chip cell powered fl" and lay: "0 < CONFIG_ENV_SECT_SIZE cf" "4 < CONFIG_ENV_SIZE cf" "apart cf new old"
    and img: "length img = CONFIG_ENV_SIZE cf"
    and saved: "\<And>b. saved = Some b \<Longrightarrow> CONFIG_ENV_SIZE cf + length b = sectors cf * CONFIG_ENV_SECT_SIZE cf"
    and run: "write_copy fl cf new old img saved c = (rc, c')"
  shows "a \<in> {old..<old + CONFIG_ENV_SIZE cf} \<Longrightarrow> a \<noteq> old + 4 \<Longrightarrow> cell c' a = cell c a"
    and "copy_at cell cf c' new = img \<or> cell c' (old + 4) = cell c (old + 4)"
    and "rc = 0 \<Longrightarrow> powered c' \<Longrightarrow> copy_at cell cf c' new = img \<and> cell c' (old + 4) = OBSOLETE_FLAG"
proof -
  let ?n = "sectors cf * CONFIG_ENV_SECT_SIZE cf" and ?sz = "CONFIG_ENV_SIZE cf"
  have n: "?sz \<le> ?n" by (rule sectors_cover [OF lay(1)])
  have old: "a \<notin> {new..<new + ?n}" if "a \<in> {old..<old + ?sz}" for a using that lay(3) n by (auto simp: apart_def)
  obtain r1 c1 where e: "spi_flash_erase fl new ?n c = (r1, c1)" by (metis surj_pair)
  obtain r2 c2 where w: "spi_flash_write fl new img c1 = (r2, c2)" by (metis surj_pair)
  obtain r3 c3 where b: "(case saved of None \<Rightarrow> (0, c2) | Some b \<Rightarrow> spi_flash_write fl (new + ?sz) b c2) = (r3, c3)" by (metis surj_pair)
  obtain r4 c4 where f: "spi_flash_write fl (old + 4) [OBSOLETE_FLAG] c3 = (r4, c4)" by (metis surj_pair)
  note er = chip_erase [OF chip e] and wr = chip_write [OF chip w, unfolded img] and fl = chip_write [OF chip f]
  have keep3: "cell c3 a = cell c2 a" if "a \<notin> {new + ?sz..<new + ?n}" for a
  proof (cases saved)
    case (Some s)
    with chip_write(1) [OF chip, of "new + ?sz" s c2 r3 c3 a] b saved [OF Some] that show ?thesis by (simp add: add.assoc)
  qed (use b in auto)
  have pow3: "powered c2" if "powered c3" using that b chip_write(3) [OF chip] by (cases saved) (auto split: option.splits)
  have st: "cell c1 a = cell c a" "cell c2 a = cell c a" "cell c3 a = cell c a" if "a \<in> {old..<old + ?sz}" for a
    using old [OF that] er(1) [of a] wr(1) [of a] keep3 [of a] n by auto
  have done2: "copy_at cell cf c3 new = img" if "r1 = 0" "r2 = 0" "powered c3"
  proof (rule nth_equalityI)
    fix i assume "i < length (copy_at cell cf c3 new)"
    then have i: "i < ?sz" by (simp add: copy_at_def)
    have "cell c3 (new + i) = cell c2 (new + i)" using keep3 [of "new + i"] i by simp
    also have "\<dots> = program (cell c1 (new + i)) (img ! i)" using wr(4) [of i] i that pow3 by simp
    also have "cell c1 (new + i) = CHR 0xFF" using er(4) [of "new + i"] i n that wr(3) pow3 by simp
    finally show "copy_at cell cf c3 new ! i = img ! i" using i by (simp add: copy_at_def program_erased)
  qed (simp add: copy_at_def img)
  have new4: "copy_at cell cf c4 new = copy_at cell cf c3 new"
    using fl(1) old [of "old + 4"] lay(2) n by (auto simp: copy_at_def)
  have old4: "a \<noteq> old + 4 \<Longrightarrow> cell c4 a = cell c3 a" for a using fl(1) [of a] by simp
  consider "r1 \<noteq> 0" "c' = c1" "rc = r1" | "r1 = 0" "r2 \<noteq> 0" "c' = c2" "rc = r2" | "r1 = 0" "r2 = 0" "r3 \<noteq> 0" "c' = c3" "rc = r3"
    | "r1 = 0" "r2 = 0" "r3 = 0" "c' = c4" "rc = r4"
    using run e w b f by (auto simp: write_copy_def split: if_splits)
  note cases = this
  show "cell c' a = cell c a" if "a \<in> {old..<old + ?sz}" "a \<noteq> old + 4"
    by (cases rule: cases) (use st old4 that in auto)
  show "copy_at cell cf c' new = img \<or> cell c' (old + 4) = cell c (old + 4)"
    by (cases rule: cases) (use st [of "old + 4"] lay(2) done2 new4 fl(2) in \<open>auto, metis\<close>)
  show "copy_at cell cf c' new = img \<and> cell c' (old + 4) = OBSOLETE_FLAG" if "rc = 0" "powered c'"
    by (cases rule: cases) (use that done2 new4 fl(3,4) in \<open>auto simp: OBSOLETE_FLAG_def program_NUL\<close>)
qed

text \<open>The checksum does not cover the flags.\<close>

lemma flag_outside_crc: "crc_ok (xs[4 := f]) = crc_ok xs" "drop 5 (xs[4 := f]) = drop 5 xs"
  by (simp_all add: crc_ok_def word32_def)

text \<open>Copy 1 or 2, the one that a boot chooses, and its data.\<close>

definition copy_no :: "('c \<Rightarrow> nat \<Rightarrow> char) \<Rightarrow> sf_config \<Rightarrow> 'c \<Rightarrow> nat \<Rightarrow> char list" where
  "copy_no cell cf c v = copy_at cell cf c (if v = 1 then CONFIG_ENV_OFFSET cf else CONFIG_ENV_OFFSET_REDUND cf)"

definition boot_copy :: "('c \<Rightarrow> nat \<Rightarrow> char) \<Rightarrow> sf_config \<Rightarrow> 'c \<Rightarrow> nat" where
  "boot_copy cell cf c = choose_copy (crc_ok (copy_no cell cf c 1)) (crc_ok (copy_no cell cf c 2)) (copy_no cell cf c 1 ! 4) (copy_no cell cf c 2 ! 4)"

definition other :: "nat \<Rightarrow> nat" where "other v = (if v = 1 then 2 else 1)"

lemma choose_copy_cases:
  assumes "v \<in> {1, 2}" and "if v = 1 then ok1 else ok2"
  shows "choose_copy ok1 ok2 f1 f2 = v \<or> choose_copy ok1 ok2 f1 f2 = other v \<and> (if v = 1 then ok2 else ok1)"
  using assms by (auto simp: choose_copy_def other_def)

lemma boot_copy_cases:
  assumes "v \<in> {1, 2}" and "crc_ok (copy_no cell cf c v)"
  shows "boot_copy cell cf c = v \<or> boot_copy cell cf c = other v \<and> crc_ok (copy_no cell cf c (other v))"
  using assms choose_copy_cases [of v "crc_ok (copy_no cell cf c 1)" "crc_ok (copy_no cell cf c 2)"
    "copy_no cell cf c 1 ! 4" "copy_no cell cf c 2 ! 4"]
  by (auto simp: boot_copy_def other_def)

text \<open>The image that a save writes.\<close>

definition image :: "char list \<Rightarrow> char list" where
  "image dat = bytes32 (crc32 0 0 (bytes_of dat)) @ ACTIVE_FLAG # dat"

lemma image_facts: "crc_ok (image dat)" "drop 5 (image dat) = dat" "image dat ! 4 = ACTIVE_FLAG" "length (image dat) = length dat + 5"
  by (simp_all add: image_def crc_ok_def word32_bytes32 nth_append)

definition attempt :: "sf_config \<Rightarrow> char list \<Rightarrow> sf_state \<Rightarrow> char list option" where
  "attempt cf stale st = (case hexport_r (\<lambda>_. True) (env_htab (env st)) NUL 0 (Some stale) (CONFIG_ENV_SIZE cf - 5) [] of
     Some (Exported _ dat) \<Rightarrow> Some dat | _ \<Rightarrow> None)"

text \<open>
  What a save does to the two copies: the valid one keeps everything but its flag, and keeps that
  too unless the other copy is complete; a save that reports success with the power on is complete
  and has marked the old copy.
\<close>

lemma saveenv_effect:
  assumes chip: "spi_chip cell powered fl" and lay: "sf_layout cf" and v: "env_valid st \<in> {1, 2}"
    and stale: "length stale = CONFIG_ENV_SIZE cf - 5" and run: "saveenv fl cf stale w st c = Some (rc, st', c')"
  shows "rc \<noteq> 0 \<and> env_valid st' = env_valid st \<and> cell c' = cell c
    \<or> (\<exists>dat f. attempt cf stale st = Some dat \<and> env_valid st' = (if rc = 0 then other (env_valid st) else env_valid st)
         \<and> copy_no cell cf c' (env_valid st) = (copy_no cell cf c (env_valid st))[4 := f]
         \<and> (copy_no cell cf c' (other (env_valid st)) = image dat \<or> f = copy_no cell cf c (env_valid st) ! 4)
         \<and> (rc = 0 \<and> powered c' \<longrightarrow> copy_no cell cf c' (other (env_valid st)) = image dat \<and> f = OBSOLETE_FLAG))"
proof -
  let ?v = "env_valid st" and ?old = "if env_valid st = 1 then CONFIG_ENV_OFFSET cf else CONFIG_ENV_OFFSET_REDUND cf"
    and ?new = "if env_valid st = 1 then CONFIG_ENV_OFFSET_REDUND cf else CONFIG_ENV_OFFSET cf"
    and ?big = "CONFIG_ENV_SECT_SIZE cf > CONFIG_ENV_SIZE cf"
  have lay': "0 < CONFIG_ENV_SECT_SIZE cf" "4 < CONFIG_ENV_SIZE cf" "5 < CONFIG_ENV_SIZE cf" "apart cf ?new ?old"
    using lay by (auto simp: sf_layout_def)
  consider "rc \<noteq> 0" "env_valid st' = ?v" "c' = c"
    | n dat b where "hexport_r (\<lambda>_. True) (env_htab (env st)) NUL 0 (Some stale) (CONFIG_ENV_SIZE cf - 5) [] = Some (Exported n dat)"
      "?big \<Longrightarrow> \<exists>ret. spi_flash_read fl (?new + CONFIG_ENV_SIZE cf) (CONFIG_ENV_SECT_SIZE cf - CONFIG_ENV_SIZE cf) c = (ret, b)"
      "write_copy fl cf ?new ?old (image dat) (if ?big then Some b else None) c = (rc, c')"
      "env_valid st' = (if rc = 0 then other ?v else ?v)"
    using run v by (auto simp: saveenv_def image_def other_def Let_def split: if_splits prod.splits Option.bind_splits export_result.splits)
  then show ?thesis
  proof cases
    case (2 n dat b)
    have len: "length dat = CONFIG_ENV_SIZE cf - 5"
      using 2(1) stale by (rule export_length)
    have saved: "CONFIG_ENV_SIZE cf + length s = sectors cf * CONFIG_ENV_SECT_SIZE cf" if "(if ?big then Some b else None) = Some s" for s
      using that 2(2) chip lay' by (auto simp: spi_chip_def sectors_def split: if_splits)
    have img: "length (image dat) = CONFIG_ENV_SIZE cf" using len lay'(3) by (simp add: image_facts)
    note eff = write_copy_effect [OF chip lay'(1,2,4) img saved 2(3)]
    have at: "copy_no cell cf x ?v = copy_at cell cf x ?old" "copy_no cell cf x (other ?v) = copy_at cell cf x ?new" for x
      using v by (auto simp: copy_no_def other_def)
    have "copy_at cell cf c' ?old = (copy_at cell cf c ?old)[4 := cell c' (?old + 4)]"
    proof (rule nth_equalityI)
      fix i assume "i < length (copy_at cell cf c' ?old)"
      then have "i < CONFIG_ENV_SIZE cf" by (simp add: copy_at_def)
      then show "copy_at cell cf c' ?old ! i = (copy_at cell cf c ?old)[4 := cell c' (?old + 4)] ! i"
        using eff(1) [of "?old + i"] by (cases "i = 4") (simp_all add: copy_at_def)
    qed (simp add: copy_at_def)
    moreover have "copy_at cell cf c ?old ! 4 = cell c (?old + 4)" using lay'(2) by (simp add: copy_at_def)
    ultimately show ?thesis
      using eff(2,3) 2(1,4) at by (intro disjI2 exI [of _ dat] exI [of _ "cell c' (?old + 4)"]) (auto simp: attempt_def)
  qed simp
qed

section \<open>Any number of saves, failures and power cuts\<close>

text \<open>
  The invariant between two saves, for a set \<open>A\<close> of acceptable data: the copy that the code believes
  valid is good and acceptable, and so is the one that a boot would choose.
\<close>

definition kept :: "('c \<Rightarrow> nat \<Rightarrow> char) \<Rightarrow> sf_config \<Rightarrow> char list set \<Rightarrow> 'c \<Rightarrow> nat \<Rightarrow> bool" where
  "kept cell cf A c v \<longleftrightarrow> v \<in> {1, 2} \<and> crc_ok (copy_no cell cf c v) \<and> drop 5 (copy_no cell cf c v) \<in> A
     \<and> crc_ok (copy_no cell cf c (boot_copy cell cf c)) \<and> drop 5 (copy_no cell cf c (boot_copy cell cf c)) \<in> A"

text \<open>
  The checksum finds a torn copy: after a save that did not complete, the copy it was writing is as it
  was before, or its checksum does not match, or it holds the new data.
\<close>

definition tear_found :: "('c \<Rightarrow> nat \<Rightarrow> char) \<Rightarrow> sf_config \<Rightarrow> nat \<Rightarrow> char list option \<Rightarrow> 'c \<Rightarrow> 'c \<Rightarrow> bool" where
  "tear_found cell cf v new c c' \<longleftrightarrow> copy_no cell cf c' v = copy_no cell cf c v \<or> \<not> crc_ok (copy_no cell cf c' v)
     \<or> new = Some (drop 5 (copy_no cell cf c' v))"

lemma kept_same_cells: "cell c' = cell c \<Longrightarrow> kept cell cf A c' v = kept cell cf A c v"
  by (simp add: kept_def boot_copy_def copy_no_def copy_at_def)

lemma kept_boot: "kept cell cf A c v \<Longrightarrow> kept cell cf A c (boot_copy cell cf c)"
  by (auto simp: kept_def boot_copy_def choose_copy_def)

lemma kept_mono: "kept cell cf A c v \<Longrightarrow> A \<subseteq> B \<Longrightarrow> kept cell cf B c v"
  by (auto simp: kept_def)

lemma other_other: "v \<in> {1, 2} \<Longrightarrow> other v \<in> {1, 2}" "v \<in> {1, 2} \<Longrightarrow> other v \<noteq> v"
  by (auto simp: other_def)

lemma kept_if_both:
  assumes "v \<in> {1, 2}" and "crc_ok (copy_no cell cf c v)" and "drop 5 (copy_no cell cf c v) \<in> A"
    and "crc_ok (copy_no cell cf c (other v)) \<Longrightarrow> drop 5 (copy_no cell cf c (other v)) \<in> A"
  shows "kept cell cf A c v"
  using boot_copy_cases [OF assms(1,2)] assms by (auto simp: kept_def)

lemma save_keeps:
  assumes chip: "spi_chip cell powered fl" and lay: "sf_layout cf" and stale: "length stale = CONFIG_ENV_SIZE cf - 5"
    and kept: "kept cell cf A c (env_valid st)" and run: "saveenv fl cf stale w st c = Some (rc, st', c')"
    and tear: "tear_found cell cf (other (env_valid st)) (attempt cf stale st) c c'"
  shows "kept cell cf (A \<union> set_option (attempt cf stale st)) c' (env_valid st)"
proof -
  let ?v = "env_valid st" and ?B = "A \<union> set_option (attempt cf stale st)"
  have v: "?v \<in> {1, 2}" and ok: "crc_ok (copy_no cell cf c ?v)" "drop 5 (copy_no cell cf c ?v) \<in> A" using kept by (auto simp: kept_def)
  have B: "kept cell cf ?B c ?v" by (rule kept_mono [OF kept]) simp
  from saveenv_effect [OF chip lay v stale run] consider "cell c' = cell c"
    | dat f where "attempt cf stale st = Some dat" "copy_no cell cf c' ?v = (copy_no cell cf c ?v)[4 := f]"
      "copy_no cell cf c' (other ?v) = image dat \<or> f = copy_no cell cf c ?v ! 4" by blast
  then show ?thesis
  proof cases
    case 1
    then show ?thesis using B kept_same_cells by metis
  next
    case (2 dat f)
    note dat = 2(1) and old = 2(2) and new = 2(3)
    have good: "crc_ok (copy_no cell cf c' ?v)" "drop 5 (copy_no cell cf c' ?v) \<in> ?B" using old ok by (simp_all add: flag_outside_crc)
    show ?thesis
    proof (cases "copy_no cell cf c' (other ?v) = image dat \<or> \<not> crc_ok (copy_no cell cf c' (other ?v))
        \<or> drop 5 (copy_no cell cf c' (other ?v)) = dat")
      case True
      then show ?thesis using dat by (intro kept_if_both [OF v good]) (auto simp: image_facts)
    next
      case False
      then have same: "copy_no cell cf c' (other ?v) = copy_no cell cf c (other ?v)" "copy_no cell cf c' ?v = copy_no cell cf c ?v"
        using tear dat new old by (auto simp: tear_found_def)
      then have "copy_no cell cf c' 1 = copy_no cell cf c 1 \<and> copy_no cell cf c' 2 = copy_no cell cf c 2"
        using v by (auto simp: other_def)
      moreover have "boot_copy cell cf c \<in> {1, 2}" by (simp add: boot_copy_def choose_copy_def)
      ultimately show ?thesis using B v by (auto simp: kept_def boot_copy_def)
    qed
  qed
qed

lemma success_keeps:
  assumes chip: "spi_chip cell powered fl" and lay: "sf_layout cf" and stale: "length stale = CONFIG_ENV_SIZE cf - 5"
    and kept: "kept cell cf A c (env_valid st)" and run: "saveenv fl cf stale w st c = Some (0, st', c')" and on: "powered c'"
  shows "\<exists>dat. attempt cf stale st = Some dat \<and> kept cell cf {dat} c' (env_valid st')"
proof -
  let ?v = "env_valid st"
  have v: "?v \<in> {1, 2}" using kept by (auto simp: kept_def)
  from saveenv_effect [OF chip lay v stale run] on obtain dat where dat: "attempt cf stale st = Some dat" "env_valid st' = other ?v"
    "copy_no cell cf c' (other ?v) = image dat" "copy_no cell cf c' ?v = (copy_no cell cf c ?v)[4 := OBSOLETE_FLAG]" by auto
  have "4 < length (copy_no cell cf c ?v)" using lay by (simp add: copy_no_def copy_at_def sf_layout_def)
  then have "boot_copy cell cf c' = other ?v"
    using dat(3,4) v unfolding boot_copy_def
    by (auto simp: other_def choose_copy_def image_facts ACTIVE_FLAG_def OBSOLETE_FLAG_def)
  then have "kept cell cf {dat} c' (other ?v)" using dat(3) v by (auto simp: kept_def image_facts other_def)
  then show ?thesis using dat(1,2) by auto
qed

text \<open>
  The life of a device: it boots, its environment in memory changes, it saves, with or without
  success, and it may lose its power during a save and boot again. \<open>A\<close> is the data of the last
  successful save together with those of the attempts since.
\<close>

inductive life :: "('c \<Rightarrow> nat \<Rightarrow> char) \<Rightarrow> ('c \<Rightarrow> bool) \<Rightarrow> 'c spi_flash \<Rightarrow> sf_config \<Rightarrow> world \<Rightarrow> char list set \<Rightarrow> 'c \<Rightarrow> sf_state \<Rightarrow> bool"
  for cell powered fl cf w where
  boot: "crc_ok (copy_no cell cf c (boot_copy cell cf c)) \<Longrightarrow> powered c \<Longrightarrow> env_relocate_spec fl cf w c st0 = Some st
    \<Longrightarrow> life cell powered fl cf w {drop 5 (copy_no cell cf c (boot_copy cell cf c))} c st"
| change: "life cell powered fl cf w A c st \<Longrightarrow> life cell powered fl cf w A c (st\<lparr>env := e\<rparr>)"
| success: "life cell powered fl cf w A c st \<Longrightarrow> length stale = CONFIG_ENV_SIZE cf - 5
    \<Longrightarrow> saveenv fl cf stale w st c = Some (0, st', c') \<Longrightarrow> powered c'
    \<Longrightarrow> life cell powered fl cf w (set_option (attempt cf stale st)) c' st'"
| failure: "life cell powered fl cf w A c st \<Longrightarrow> length stale = CONFIG_ENV_SIZE cf - 5
    \<Longrightarrow> saveenv fl cf stale w st c = Some (rc, st', c') \<Longrightarrow> rc \<noteq> 0
    \<Longrightarrow> tear_found cell cf (other (env_valid st)) (attempt cf stale st) c c'
    \<Longrightarrow> life cell powered fl cf w (A \<union> set_option (attempt cf stale st)) c' st'"
| power_cut: "life cell powered fl cf w A c st \<Longrightarrow> length stale = CONFIG_ENV_SIZE cf - 5
    \<Longrightarrow> saveenv fl cf stale w st c = Some (rc, st', c') \<Longrightarrow> \<not> powered c'
    \<Longrightarrow> tear_found cell cf (other (env_valid st)) (attempt cf stale st) c c'
    \<Longrightarrow> cell c'' = cell c' \<Longrightarrow> powered c'' \<Longrightarrow> env_relocate_spec fl cf w c'' st0 = Some st''
    \<Longrightarrow> life cell powered fl cf w (A \<union> set_option (attempt cf stale st)) c'' st''"

lemma relocate_run:
  assumes "spi_chip cell powered fl" and "\<And>n. malloc_ok w n" and "powered c" and "crc_ok (copy_no cell cf c (boot_copy cell cf c))"
  shows "env_relocate_spec fl cf w c st = do {
      let ep = copy_no cell cf c (boot_copy cell cf c);
      (ret, e) \<leftarrow> env_import w (env_config_of cf) \<lparr>env_crc = word32 ep, env_data = drop 5 ep\<rparr> False (env st);
      e \<leftarrow> (if ret = 0 then set_default_env w (env_config_of cf) Message e else Some e);
      Some \<lparr>env = e, env_valid = boot_copy cell cf c, env_flash = False\<rparr> }"
proof -
  have rd: "spi_flash_read fl off n c = (0, map (cell c) [off..<off + n])" and pr: "spi_flash_probe fl c" for off n
    using assms(1,3) unfolding spi_chip_def by blast+
  have b: "boot_copy cell cf c = 1 \<or> boot_copy cell cf c = 2" by (simp add: boot_copy_def choose_copy_def)
  have "crc_ok (copy_no cell cf c 1) \<or> crc_ok (copy_no cell cf c 2)" using b assms(4) by auto
  then show ?thesis using b assms(2) pr
    by (auto simp: env_relocate_spec_def rd Let_def boot_copy_def [of cell cf c] copy_no_def copy_at_def)
qed

lemma relocate_valid:
  assumes "spi_chip cell powered fl" and "\<And>n. malloc_ok w n" and "powered c" and "crc_ok (copy_no cell cf c (boot_copy cell cf c))"
    and "env_relocate_spec fl cf w c st0 = Some st"
  shows "env_valid st = boot_copy cell cf c"
  using assms(5) unfolding relocate_run [OF assms(1-4)] by (auto simp: Let_def split: Option.bind_splits if_splits)

lemma life_kept:
  assumes chip: "spi_chip cell powered fl" and lay: "sf_layout cf" and mem: "\<And>n. malloc_ok w n"
    and life: "life cell powered fl cf w A c st"
  shows "kept cell cf A c (env_valid st)"
  using life
proof induction
  case (boot c st0 st)
  moreover have "boot_copy cell cf c \<in> {1, 2}" by (simp add: boot_copy_def choose_copy_def)
  ultimately show ?case using relocate_valid [OF chip mem boot(2,1,3)] by (simp add: kept_def)
next
  case (success A c st stale st' c')
  from success_keeps [OF chip lay success(2,5,3,4)] show ?case by auto
next
  case (failure A c st stale rc st' c')
  have "env_valid st \<in> {1, 2}" using failure(6) by (simp add: kept_def)
  from saveenv_effect [OF chip lay this failure(2,3)] failure(4) have "env_valid st' = env_valid st" by auto
  with save_keeps [OF chip lay failure(2,6,3,5)] show ?case by simp
next
  case (power_cut A c st stale rc st' c' c'' st0 st'')
  from save_keeps [OF chip lay power_cut(2,9,3,5)] power_cut(6)
  have k: "kept cell cf (A \<union> set_option (attempt cf stale st)) c'' (env_valid st)" using kept_same_cells by metis
  then have "crc_ok (copy_no cell cf c'' (boot_copy cell cf c''))" by (simp add: kept_def)
  from relocate_valid [OF chip mem power_cut(7) this power_cut(8)] kept_boot [OF k] show ?case by simp
qed simp

text \<open>
  A chip of two copies that loses its power after a number of commands, and a device that boots from
  it and is cut off while it erases, for the witness.
\<close>

definition counted_chip :: "((nat \<Rightarrow> char) \<times> nat) spi_flash" where
  "counted_chip = \<lparr>spi_flash_probe = (\<lambda>c. 0 < snd c),
     spi_flash_read = (\<lambda>off n c. (0, map (fst c) [off..<off + n])),
     spi_flash_erase = (\<lambda>off n c. (0, (\<lambda>a. if 1 < snd c \<and> a \<in> {off..<off + n} then CHR 0xFF else fst c a, snd c - 1))),
     spi_flash_write = (\<lambda>off bs c. (0, (\<lambda>a. if 1 < snd c \<and> a \<in> {off..<off + length bs}
        then program (fst c a) (bs ! (a - off)) else fst c a, snd c - 1)))\<rparr>"

definition two_sectors :: sf_config where
  "two_sectors = \<lparr>CONFIG_ENV_SIZE = 16, CONFIG_ENV_SECT_SIZE = 16, CONFIG_ENV_OFFSET = 0, CONFIG_ENV_OFFSET_REDUND = 16,
     built_in = [NUL, NUL]\<rparr>"

definition sample_data :: "char list" where
  "sample_data = concat (map (written NUL) [(''a'', ''b;c'')]) @ NUL # replicate 4 NUL"

definition sample_cells :: "nat \<Rightarrow> char" where
  "sample_cells a = image sample_data ! (a mod 16)"

lemma counted_chip_ok: "spi_chip fst (\<lambda>c. 0 < snd c) counted_chip"
  by (auto simp: spi_chip_def counted_chip_def)

lemma two_sectors_layout: "sf_layout two_sectors"
  by (simp add: sf_layout_def apart_def sectors_def two_sectors_def)

lemma sample_data_length: "length sample_data = 11"
  by (simp add: sample_data_def written_def is_escaped_def)

lemma sample_copies: "copy_no fst two_sectors (sample_cells, n) v = image sample_data"
  by (rule nth_equalityI)
    (auto simp: copy_no_def copy_at_def two_sectors_def sample_cells_def image_facts sample_data_length)

lemma sample_boot: "\<exists>st. env_relocate_spec counted_chip two_sectors board_world (sample_cells, 1) \<lparr>env = boot_state, env_valid = 1, env_flash = False\<rparr> = Some st"
proof -
  have "\<exists>e. env_import board_world (env_config_of two_sectors) \<lparr>env_crc = crc32 0 0 (bytes_of sample_data), env_data = sample_data\<rparr> False boot_state = Some (1, e)"
  proof -
    have es: "(k, v) \<in> set [(''a'', ''b;c'')] \<longleftrightarrow> [''a'' \<mapsto> ''b;c''] k = Some v" for k v by auto
    have ok: "portable NUL (k, v) \<and> init_safe (board_world\<lparr>env_ready := False\<rparr>) Map.empty k"
      if "[''a'' \<mapsto> ''b;c''] k = Some v" for k v
      using that by (auto simp: portable_def init_safe_def board_world_def attr_fits_def split: if_splits)
    have sizes: "length sample_data = ENV_SIZE (env_config_of two_sectors)"
      "length [(''a'', ''b;c'')] \<le> min (128 + ENV_SIZE (env_config_of two_sectors) div 8) 512"
      by (simp_all add: sample_data_length env_config_of_def two_sectors_def)
    have st: "\<not> env_ready_flag boot_state" "table (env_htab boot_state) = None" by (simp_all add: boot_state_def)
    show ?thesis
      using env_import_exported [OF board_world_readable board_world_memory st _ es _ ok sample_data_def sizes, of False] by auto
  qed
  then show ?thesis
    using relocate_run [OF counted_chip_ok board_world_memory, of "(sample_cells, 1)" two_sectors] image_facts(1,2) [of sample_data]
    by (auto simp: sample_copies Let_def crc_ok_def)
qed

lemma sample_life: "\<exists>st. life fst (\<lambda>c. 0 < snd c) counted_chip two_sectors board_world {sample_data, replicate 11 NUL} (sample_cells, 1) st"
proof -
  let ?life = "life fst (\<lambda>c. 0 < snd c) counted_chip two_sectors board_world"
  let ?st0 = "\<lparr>env = boot_state, env_valid = 1, env_flash = False\<rparr>"
  obtain st where st: "env_relocate_spec counted_chip two_sectors board_world (sample_cells, 1) ?st0 = Some st" using sample_boot by blast
  define st1 where "st1 = st\<lparr>env := boot_state\<lparr>env_htab := empty5\<rparr>\<rparr>"
  have "?life {sample_data} (sample_cells, 1) st"
    using life.boot [of fst two_sectors "(sample_cells, 1)" "\<lambda>c. 0 < snd c" counted_chip board_world ?st0 st] st
    by (simp add: sample_copies image_facts)
  then have l: "?life {sample_data} (sample_cells, 1) st1" unfolding st1_def by (rule life.change)
  have a: "attempt two_sectors (replicate 11 NUL) st1 = Some (replicate 11 NUL)"
    using empty5_export by (simp add: attempt_def st1_def two_sectors_def)
  have "\<exists>st'. saveenv counted_chip two_sectors (replicate 11 NUL) board_world st1 (sample_cells, 1) = Some (0, st', (sample_cells, 0))"
    using empty5_export by (simp add: saveenv_def st1_def two_sectors_def counted_chip_def write_copy_def sectors_def Let_def)
  then obtain st' where "saveenv counted_chip two_sectors (replicate 11 NUL) board_world st1 (sample_cells, 1) = Some (0, st', (sample_cells, 0))" ..
  note run = this
  have "length (replicate 11 NUL) = CONFIG_ENV_SIZE two_sectors - 5" by (simp add: two_sectors_def)
  moreover have "tear_found fst two_sectors v x (sample_cells, 1) (sample_cells, 0)" for v x by (simp add: tear_found_def sample_copies)
  ultimately have "?life ({sample_data} \<union> set_option (attempt two_sectors (replicate 11 NUL) st1)) (sample_cells, 1) st"
    by (intro life.power_cut [OF l _ run _ _ _ _ st]) (simp_all del: One_nat_def)
  then show ?thesis using a by (auto simp: insert_commute)
qed

section \<open>Property\<close>



end
