(* ===== verification/Meraki.thy ===== *)
theory Meraki
  imports Vsprintf
begin

text \<open>
  The boot attempts of an upgrade (\<^verbatim>\<open>common/cmd_meraki.c\<close>): a UBI volume holds a retry counter, and
  the command lets the new image boot while the counter is not used up. \<^verbatim>\<open>run_command\<close> is a
  parameter: it gets the text of a command and works on the variable \<^verbatim>\<open>count\<close>, whose address is part
  of the text, and on the state \<open>'u\<close> of UBI. \<open>ubi_commands\<close> states what the code relies on.
\<close>

section \<open>The command\<close>

definition CMD_RET_SUCCESS :: int where "CMD_RET_SUCCESS = 0"
definition CMD_RET_FAILURE :: int where "CMD_RET_FAILURE = 1"

type_synonym 'u run = "string \<Rightarrow> u8 \<times> 'u \<Rightarrow> int \<times> u8 \<times> 'u"

text \<open>\<open>addr\<close> is \<^verbatim>\<open>&count\<close>; \<open>cmd\<close> is the array of 128 bytes at the address \<open>sp\<close>.\<close>

definition do_meraki_check_upgrade :: "'u run \<Rightarrow> u32 \<Rightarrow> nat \<Rightarrow> char list \<Rightarrow> u8 \<Rightarrow> 'u \<Rightarrow> (int \<times> 'u) option" where
  "do_meraki_check_upgrade run_command addr sp cmd count u =
     (let (rc, count, u) = run_command ''ubi check upgrade_retries'' (count, u) in
      if rc \<noteq> CMD_RET_SUCCESS then Some (CMD_RET_FAILURE, u)
      else do {
        (_, cmd, _) \<leftarrow> vsprintf sp cmd (''ubi read 0x'' @ ''%x'' @ '' upgrade_retries 1'' @ [NUL]) [Vint addr];
        s \<leftarrow> text_at cmd;
        let (rc, count, u) = run_command s (count, u);
        if rc \<noteq> CMD_RET_SUCCESS then Some (CMD_RET_FAILURE, u)
        else do {
          let count = (if count > 5 then 5 else count);
          if count = 0 then Some (CMD_RET_FAILURE, u)
          else do {
            let count = count - 1;
            (_, cmd, _) \<leftarrow> vsprintf sp cmd (''ubi write 0x'' @ ''%x'' @ '' upgrade_retries 1'' @ [NUL]) [Vint addr];
            s \<leftarrow> text_at cmd;
            let (rc, count, u) = run_command s (count, u);
            Some (if rc \<noteq> CMD_RET_SUCCESS then CMD_RET_FAILURE else CMD_RET_SUCCESS, u) } } })"

text \<open>A number of boots, each with one call; the result is how many of them the command allowed.\<close>

primrec boots :: "nat \<Rightarrow> 'u run \<Rightarrow> u32 \<Rightarrow> nat \<Rightarrow> char list \<Rightarrow> u8 \<Rightarrow> 'u \<Rightarrow> (nat \<times> 'u) option" where
  "boots 0 run addr sp cmd count u = Some (0, u)"
| "boots (Suc n) run addr sp cmd count u = do {
     (rc, u) \<leftarrow> do_meraki_check_upgrade run addr sp cmd count u;
     (k, u) \<leftarrow> boots n run addr sp cmd count u;
     Some (if rc = CMD_RET_SUCCESS then k + 1 else k, u) }"

section \<open>What the commands do\<close>

definition read_command :: "u32 \<Rightarrow> string" where
  "read_command addr = ''ubi read 0x'' @ hexadecimal (unat addr) @ '' upgrade_retries 1''"

definition write_command :: "u32 \<Rightarrow> string" where
  "write_command addr = ''ubi write 0x'' @ hexadecimal (unat addr) @ '' upgrade_retries 1''"

text \<open>
  \<open>vol u\<close> is the byte in the volume, \<open>None\<close> when it cannot be read. Checking and reading leave the volume
  as it is, a successful read gives its byte, a successful write stores the byte. A write that fails
  leaves the old byte, the new one, or an unreadable volume.
\<close>

definition ubi_commands :: "'u run \<Rightarrow> ('u \<Rightarrow> u8 option) \<Rightarrow> u32 \<Rightarrow> bool" where
  "ubi_commands run vol addr \<longleftrightarrow>
     (\<forall>x u rc y u'. run ''ubi check upgrade_retries'' (x, u) = (rc, y, u') \<longrightarrow> vol u' = vol u)
     \<and> (\<forall>x u rc y u'. run (read_command addr) (x, u) = (rc, y, u') \<longrightarrow> vol u' = vol u \<and> (rc = 0 \<longrightarrow> vol u = Some y))
     \<and> (\<forall>x u rc y u'. run (write_command addr) (x, u) = (rc, y, u') \<longrightarrow>
          (if rc = 0 then vol u' = Some x else vol u' \<in> {vol u, Some x, None}))"

text \<open>No command fails on a readable volume.\<close>

definition ubi_works :: "'u run \<Rightarrow> ('u \<Rightarrow> u8 option) \<Rightarrow> u32 \<Rightarrow> bool" where
  "ubi_works run vol addr \<longleftrightarrow> (\<forall>x u. vol u \<noteq> None \<longrightarrow> fst (run ''ubi check upgrade_retries'' (x, u)) = 0
     \<and> fst (run (read_command addr) (x, u)) = 0 \<and> fst (run (write_command addr) (x, u)) = 0)"

text \<open>The attempts that are left.\<close>

definition attempts :: "u8 option \<Rightarrow> nat" where
  "attempts v = (case v of None \<Rightarrow> 0 | Some c \<Rightarrow> min 5 (unat c))"

lemma sprintf_command:
  assumes "length cmd = 128" and "s \<in> {''ubi read 0x'', ''ubi write 0x''}"
  obtains cmd' where "vsprintf sp cmd (s @ ''%x'' @ '' upgrade_retries 1'' @ [NUL]) [Vint addr]
      = Some (length (s @ hexadecimal (unat addr) @ '' upgrade_retries 1''), cmd', [])"
    "length cmd' = 128" "text_at cmd' = Some (s @ hexadecimal (unat addr) @ '' upgrade_retries 1'')"
proof -
  have "\<forall>c \<in> set (s @ '' upgrade_retries 1''). c \<noteq> NUL \<and> c \<noteq> CHR ''%''" "length s + 8 + length '' upgrade_retries 1'' < length cmd"
    using assms by auto
  from sprintf_x [OF this, of sp addr] that assms(1) show ?thesis by (auto simp: text_at_cstring)
qed

lemma unat_clamp: "unat (if (c :: u8) > 5 then 5 else c) = min 5 (unat c)"
  by (auto simp: word_less_nat_alt)

text \<open>One call: the array is large enough for both texts, and each success uses up one attempt.\<close>

lemma check_upgrade_step:
  assumes "ubi_commands run vol addr" and "length cmd = 128"
  shows "\<exists>rc u'. do_meraki_check_upgrade run addr sp cmd count u = Some (rc, u')
    \<and> (if rc = CMD_RET_SUCCESS then Suc (attempts (vol u')) = attempts (vol u) else attempts (vol u') \<le> attempts (vol u))
    \<and> (ubi_works run vol addr \<and> 0 < attempts (vol u) \<longrightarrow> rc = CMD_RET_SUCCESS)"
proof -
  obtain rc1 x1 u1 where r1: "run ''ubi check upgrade_retries'' (count, u) = (rc1, x1, u1)" by (metis prod_cases3)
  obtain rc2 x2 u2 where r2: "run (read_command addr) (x1, u1) = (rc2, x2, u2)" by (metis prod_cases3)
  define c where "c = (if x2 > 5 then 5 else x2)"
  obtain rc3 x3 u3 where r3: "run (write_command addr) (c - 1, u2) = (rc3, x3, u3)" by (metis prod_cases3)
  have v1: "vol u1 = vol u" using assms(1) r1 unfolding ubi_commands_def by blast
  have v2: "vol u2 = vol u1" "rc2 = 0 \<Longrightarrow> vol u1 = Some x2" using assms(1) r2 unfolding ubi_commands_def by blast+
  have v3: "if rc3 = 0 then vol u3 = Some (c - 1) else vol u3 \<in> {vol u2, Some (c - 1), None}"
    using assms(1) r3 unfolding ubi_commands_def by blast
  obtain cmd1 where p1: "vsprintf sp cmd (''ubi read 0x'' @ ''%x'' @ '' upgrade_retries 1'' @ [NUL]) [Vint addr]
      = Some (length (read_command addr), cmd1, [])" "length cmd1 = 128" "text_at cmd1 = Some (read_command addr)"
    unfolding read_command_def by (rule sprintf_command [OF assms(2), of "''ubi read 0x''" sp addr]) simp_all
  obtain cmd2 where p2: "vsprintf sp cmd1 (''ubi write 0x'' @ ''%x'' @ '' upgrade_retries 1'' @ [NUL]) [Vint addr]
      = Some (length (write_command addr), cmd2, [])" "text_at cmd2 = Some (write_command addr)"
    unfolding write_command_def by (rule sprintf_command [OF p1(2), of "''ubi write 0x''" sp addr]) simp_all
  have run: "do_meraki_check_upgrade run addr sp cmd count u = Some
      (if rc1 \<noteq> 0 then (1, u1) else if rc2 \<noteq> 0 then (1, u2) else if c = 0 then (1, u2) else if rc3 \<noteq> 0 then (1, u3) else (0, u3))"
    unfolding do_meraki_check_upgrade_def p1 r1 using p2 r2 r3
    by (simp add: p1 CMD_RET_SUCCESS_def CMD_RET_FAILURE_def Let_def c_def [symmetric] del: append.simps)
  have c: "unat c = min 5 (unat x2)" unfolding c_def by (rule unat_clamp)
  have left: "attempts (vol u1) = attempts (vol u)" "attempts (vol u2) = attempts (vol u)" "rc2 = 0 \<Longrightarrow> attempts (vol u) = unat c"
    using v1 v2 c by (auto simp: attempts_def split: option.splits)
  have used: "Suc (attempts (Some (c - 1))) = unat c" "0 < unat c" if "c \<noteq> 0"
  proof -
    show pos: "0 < unat c" using that by (simp add: unat_gt_0)
    have "unat c \<le> 5" using c by simp
    with pos that show "Suc (attempts (Some (c - 1))) = unat c" by (simp add: attempts_def unat_minus_one)
  qed
  have "rc1 = 0 \<and> rc2 = 0 \<and> rc3 = 0 \<and> c \<noteq> 0" if "ubi_works run vol addr" "0 < attempts (vol u)"
  proof -
    have "vol u \<noteq> None" using that(2) by (auto simp: attempts_def split: option.splits)
    then have rcs: "rc1 = 0" "rc2 = 0" "rc3 = 0" using that(1) r1 r2 r3 v1 v2(1) unfolding ubi_works_def by (metis fst_conv)+
    then show ?thesis using that(2) left(3) by auto
  qed
  moreover have "attempts (vol u3) \<le> attempts (vol u)" if "rc2 = 0" "c \<noteq> 0"
    using that v3 left used by (auto simp: attempts_def [of None] split: if_splits)
  moreover have "Suc (attempts (vol u3)) = attempts (vol u)" if "rc2 = 0" "c \<noteq> 0" "rc3 = 0"
    using that v3 left used by simp
  ultimately show ?thesis using left unfolding run
    by (cases "ubi_works run vol addr \<and> 0 < attempts (vol u)") (auto simp: CMD_RET_SUCCESS_def)
qed

lemma boots_count:
  assumes "ubi_commands run vol addr" and "length cmd = 128"
  shows "\<exists>k u'. boots n run addr sp cmd count u = Some (k, u') \<and> k + attempts (vol u') \<le> attempts (vol u)
    \<and> (ubi_works run vol addr \<longrightarrow> k = min n (attempts (vol u)))"
proof (induction n arbitrary: u)
  case (Suc n)
  from check_upgrade_step [OF assms, of sp count u] obtain rc u1 where
    s: "do_meraki_check_upgrade run addr sp cmd count u = Some (rc, u1)"
    "if rc = CMD_RET_SUCCESS then Suc (attempts (vol u1)) = attempts (vol u) else attempts (vol u1) \<le> attempts (vol u)"
    "ubi_works run vol addr \<and> 0 < attempts (vol u) \<longrightarrow> rc = CMD_RET_SUCCESS" by blast
  from Suc [of u1] obtain k u2 where "boots n run addr sp cmd count u1 = Some (k, u2)" "k + attempts (vol u2) \<le> attempts (vol u1)"
    "ubi_works run vol addr \<longrightarrow> k = min n (attempts (vol u1))" by blast
  with s show ?case by (auto split: if_splits)
qed simp

text \<open>A volume and commands on it that always work, for the witness.\<close>

definition sample_run :: "(u8 option) run" where
  "sample_run s = (\<lambda>(x, u). if s = write_command 0x7FFF0000 then (0, x, Some x)
     else case u of None \<Rightarrow> (1, x, u) | Some v \<Rightarrow> (0, if s = read_command 0x7FFF0000 then v else x, u))"

lemma sample_run_ok: "ubi_commands sample_run (\<lambda>u. u) 0x7FFF0000" "ubi_works sample_run (\<lambda>u. u) 0x7FFF0000"
  by (auto simp: ubi_commands_def ubi_works_def sample_run_def read_command_def write_command_def split: option.splits)

section \<open>Property\<close>

text \<open>
  \<^bold>\<open>C18.\<close> Upgrade attempts are bounded. Whatever byte the volume holds and whatever commands fail, the command
  always returns without an access outside its array, and over any number of boots it succeeds at most
  five times, and no more often than the stored counter says; when no command fails it succeeds
  exactly that often.
\<close>

theorem upgrade_attempts_bounded:
  assumes "ubi_commands run vol addr" and "length cmd = 128"
  shows "\<exists>k u'. boots n run addr sp cmd count u = Some (k, u') \<and> k \<le> 5
    \<and> k \<le> (case vol u of None \<Rightarrow> 0 | Some c \<Rightarrow> unat c)
    \<and> (ubi_works run vol addr \<longrightarrow> k = min n (case vol u of None \<Rightarrow> 0 | Some c \<Rightarrow> min 5 (unat c)))"
  using boots_count [OF assms, of n sp count u] by (auto simp: attempts_def split: option.splits)

theorem upgrade_attempts_bounded_witness:
  "\<exists>u'. boots 9 sample_run 0x7FFF0000 0x7FFF0010 (replicate 128 NUL) 0 (Some 200) = Some (5, u')"
  using upgrade_attempts_bounded [OF sample_run_ok(1), of "replicate 128 NUL" 9 "0x7FFF0010" 0 "Some 200"] sample_run_ok(2) by auto

end
