(* ===== verification/Aes.thy ===== *)
theory Aes
  imports AesTables
begin

text \<open>
  The block cipher of \<^verbatim>\<open>lib/aes.c\<close> (AES with 128-bit keys, driven by tables). A block and a key
  schedule are lists of bytes; the casts to \<^verbatim>\<open>u32 *\<close> in \<^verbatim>\<open>add_round_key\<close> are little-endian loads
  and stores. The key schedule is read and written with checked accesses.
\<close>

section \<open>Rounds\<close>

type_synonym block = "u8 list"

definition shift_rows :: "block \<Rightarrow> block" where
  "shift_rows s =
     (let s = s[0 := S (s ! 0)];
          s = s[4 := S (s ! 4)];
          s = s[8 := S (s ! 8)];
          s = s[12 := S (s ! 12)];
          tmp = S (s ! 1);
          s = s[1 := S (s ! 5)];
          s = s[5 := S (s ! 9)];
          s = s[9 := S (s ! 13)];
          s = s[13 := tmp];
          tmp = S (s ! 2);
          s = s[2 := S (s ! 10)];
          s = s[10 := tmp];
          tmp = S (s ! 6);
          s = s[6 := S (s ! 14)];
          s = s[14 := tmp];
          tmp = S (s ! 15);
          s = s[15 := S (s ! 11)];
          s = s[11 := S (s ! 7)];
          s = s[7 := S (s ! 3)];
          s = s[3 := tmp]
      in s)"

definition inv_shift_rows :: "block \<Rightarrow> block" where
  "inv_shift_rows s =
     (let s = s[0 := IS (s ! 0)];
          s = s[4 := IS (s ! 4)];
          s = s[8 := IS (s ! 8)];
          s = s[12 := IS (s ! 12)];
          tmp = IS (s ! 13);
          s = s[13 := IS (s ! 9)];
          s = s[9 := IS (s ! 5)];
          s = s[5 := IS (s ! 1)];
          s = s[1 := tmp];
          tmp = IS (s ! 2);
          s = s[2 := IS (s ! 10)];
          s = s[10 := tmp];
          tmp = IS (s ! 6);
          s = s[6 := IS (s ! 14)];
          s = s[14 := tmp];
          tmp = IS (s ! 3);
          s = s[3 := IS (s ! 7)];
          s = s[7 := IS (s ! 11)];
          s = s[11 := IS (s ! 15)];
          s = s[15 := tmp]
      in s)"

definition mix_sub_columns :: "block \<Rightarrow> block" where
  "mix_sub_columns s =
     [X2 (s ! 0) XOR X3 (s ! 5) XOR S (s ! 10) XOR S (s ! 15),
      S (s ! 0) XOR X2 (s ! 5) XOR X3 (s ! 10) XOR S (s ! 15),
      S (s ! 0) XOR S (s ! 5) XOR X2 (s ! 10) XOR X3 (s ! 15),
      X3 (s ! 0) XOR S (s ! 5) XOR S (s ! 10) XOR X2 (s ! 15),
      X2 (s ! 4) XOR X3 (s ! 9) XOR S (s ! 14) XOR S (s ! 3),
      S (s ! 4) XOR X2 (s ! 9) XOR X3 (s ! 14) XOR S (s ! 3),
      S (s ! 4) XOR S (s ! 9) XOR X2 (s ! 14) XOR X3 (s ! 3),
      X3 (s ! 4) XOR S (s ! 9) XOR S (s ! 14) XOR X2 (s ! 3),
      X2 (s ! 8) XOR X3 (s ! 13) XOR S (s ! 2) XOR S (s ! 7),
      S (s ! 8) XOR X2 (s ! 13) XOR X3 (s ! 2) XOR S (s ! 7),
      S (s ! 8) XOR S (s ! 13) XOR X2 (s ! 2) XOR X3 (s ! 7),
      X3 (s ! 8) XOR S (s ! 13) XOR S (s ! 2) XOR X2 (s ! 7),
      X2 (s ! 12) XOR X3 (s ! 1) XOR S (s ! 6) XOR S (s ! 11),
      S (s ! 12) XOR X2 (s ! 1) XOR X3 (s ! 6) XOR S (s ! 11),
      S (s ! 12) XOR S (s ! 1) XOR X2 (s ! 6) XOR X3 (s ! 11),
      X3 (s ! 12) XOR S (s ! 1) XOR S (s ! 6) XOR X2 (s ! 11)]"

definition inv_mix_sub_columns :: "block \<Rightarrow> block" where
  "inv_mix_sub_columns s = map (\<lambda>t. IS t)
     [TE (s ! 0) XOR TB (s ! 1) XOR TD (s ! 2) XOR T9 (s ! 3),
      T9 (s ! 12) XOR TE (s ! 13) XOR TB (s ! 14) XOR TD (s ! 15),
      TD (s ! 8) XOR T9 (s ! 9) XOR TE (s ! 10) XOR TB (s ! 11),
      TB (s ! 4) XOR TD (s ! 5) XOR T9 (s ! 6) XOR TE (s ! 7),
      TE (s ! 4) XOR TB (s ! 5) XOR TD (s ! 6) XOR T9 (s ! 7),
      T9 (s ! 0) XOR TE (s ! 1) XOR TB (s ! 2) XOR TD (s ! 3),
      TD (s ! 12) XOR T9 (s ! 13) XOR TE (s ! 14) XOR TB (s ! 15),
      TB (s ! 8) XOR TD (s ! 9) XOR T9 (s ! 10) XOR TE (s ! 11),
      TE (s ! 8) XOR TB (s ! 9) XOR TD (s ! 10) XOR T9 (s ! 11),
      T9 (s ! 4) XOR TE (s ! 5) XOR TB (s ! 6) XOR TD (s ! 7),
      TD (s ! 0) XOR T9 (s ! 1) XOR TE (s ! 2) XOR TB (s ! 3),
      TB (s ! 12) XOR TD (s ! 13) XOR T9 (s ! 14) XOR TE (s ! 15),
      TE (s ! 12) XOR TB (s ! 13) XOR TD (s ! 14) XOR T9 (s ! 15),
      T9 (s ! 8) XOR TE (s ! 9) XOR TB (s ! 10) XOR TD (s ! 11),
      TD (s ! 4) XOR T9 (s ! 5) XOR TE (s ! 6) XOR TB (s ! 7),
      TB (s ! 0) XOR TD (s ! 1) XOR T9 (s ! 2) XOR TE (s ! 3)]"

text \<open>Little-endian words of a byte array.\<close>

definition load32 :: "u8 list \<Rightarrow> nat \<Rightarrow> u32" where
  "load32 bs i = ucast (bs ! i) OR push_bit 8 (ucast (bs ! (i + 1))) OR push_bit 16 (ucast (bs ! (i + 2)))
     OR push_bit 24 (ucast (bs ! (i + 3)))"

definition store32 :: "u32 \<Rightarrow> u8 list" where
  "store32 w = [ucast w, ucast (drop_bit 8 w), ucast (drop_bit 16 w), ucast (drop_bit 24 w)]"

text \<open>\<open>off\<close> is the offset of the key words in the schedule, in bytes.\<close>

definition add_round_key :: "block \<Rightarrow> u8 list \<Rightarrow> nat \<Rightarrow> block" where
  "add_round_key s key off =
     concat (map (\<lambda>idx. store32 (load32 s (4 * idx) XOR load32 key (off + 4 * idx))) [0, 1, 2, 3])"

section \<open>Key schedule\<close>

definition rcon :: "u8 list" where
  "rcon = [0x00, 0x01, 0x02, 0x04, 0x08, 0x10, 0x20, 0x40, 0x80, 0x1b, 0x36]"

definition AES_KEYCOLS :: nat where "AES_KEYCOLS = 4"
definition AES_STATECOLS :: nat where "AES_STATECOLS = 4"
definition AES_ROUNDS :: nat where "AES_ROUNDS = 10"

lemmas aes_sizes = AES_KEYCOLS_def AES_STATECOLS_def AES_ROUNDS_def

text \<open>The new column before it is added to the one \<^verbatim>\<open>AES_KEYCOLS\<close> before.\<close>

definition key_core :: "nat \<Rightarrow> u8 \<times> u8 \<times> u8 \<times> u8 \<Rightarrow> (u8 \<times> u8 \<times> u8 \<times> u8) option" where
  "key_core idx = (\<lambda>(tmp0, tmp1, tmp2, tmp3).
     if idx mod AES_KEYCOLS = 0 then do {
       r \<leftarrow> rd rcon (idx div AES_KEYCOLS);
       Some (S tmp1 XOR r, S tmp2, S tmp3, S tmp0) }
     else if AES_KEYCOLS > 6 \<and> idx mod AES_KEYCOLS = 4 then Some (S tmp0, S tmp1, S tmp2, S tmp3)
     else Some (tmp0, tmp1, tmp2, tmp3))"

definition expand_step :: "nat \<Rightarrow> u8 list \<Rightarrow> u8 list option" where
  "expand_step idx k = do {
     tmp0 \<leftarrow> rd k (4 * idx - 4);
     tmp1 \<leftarrow> rd k (4 * idx - 3);
     tmp2 \<leftarrow> rd k (4 * idx - 2);
     tmp3 \<leftarrow> rd k (4 * idx - 1);
     (tmp0, tmp1, tmp2, tmp3) \<leftarrow> key_core idx (tmp0, tmp1, tmp2, tmp3);
     p \<leftarrow> rd k (4 * idx - 4 * AES_KEYCOLS + 0); k \<leftarrow> wr k (4 * idx + 0) (p XOR tmp0);
     p \<leftarrow> rd k (4 * idx - 4 * AES_KEYCOLS + 1); k \<leftarrow> wr k (4 * idx + 1) (p XOR tmp1);
     p \<leftarrow> rd k (4 * idx - 4 * AES_KEYCOLS + 2); k \<leftarrow> wr k (4 * idx + 2) (p XOR tmp2);
     p \<leftarrow> rd k (4 * idx - 4 * AES_KEYCOLS + 3); wr k (4 * idx + 3) (p XOR tmp3) }"

function expand_loop :: "nat \<Rightarrow> u8 list \<Rightarrow> u8 list option" where
  "expand_loop idx k =
     (if idx < AES_STATECOLS * (AES_ROUNDS + 1) then Option.bind (expand_step idx k) (expand_loop (idx + 1)) else Some k)"
  by pat_completeness auto
termination by (relation "measure (\<lambda>(idx, k). AES_STATECOLS * (AES_ROUNDS + 1) - idx)") auto

declare expand_loop.simps [simp del]

definition aes_expand_key :: "u8 list \<Rightarrow> u8 list \<Rightarrow> u8 list option" where
  "aes_expand_key key expkey =
     (if length key < AES_KEYCOLS * 4 \<or> length expkey < AES_KEYCOLS * 4 then None
      else expand_loop AES_KEYCOLS (take (AES_KEYCOLS * 4) key @ drop (AES_KEYCOLS * 4) expkey))"

section \<open>Encryption and decryption of a block\<close>

function encrypt_rounds :: "nat \<Rightarrow> u8 list \<Rightarrow> block \<Rightarrow> block" where
  "encrypt_rounds r expkey s =
     (if r < AES_ROUNDS + 1 then
        encrypt_rounds (r + 1) expkey
          (add_round_key (if r < AES_ROUNDS then mix_sub_columns s else shift_rows s) expkey (4 * (r * AES_STATECOLS)))
      else s)"
  by pat_completeness auto
termination by (relation "measure (\<lambda>(r, expkey, s). AES_ROUNDS + 1 - r)") auto

declare encrypt_rounds.simps [simp del]

definition aes_encrypt :: "block \<Rightarrow> u8 list \<Rightarrow> block" where
  "aes_encrypt inp expkey = encrypt_rounds 1 expkey (add_round_key (take (AES_STATECOLS * 4) inp) expkey 0)"

text \<open>The loop \<^verbatim>\<open>for (round = AES_ROUNDS; round--; )\<close>; its argument is the value before the decrement.\<close>

fun decrypt_rounds :: "nat \<Rightarrow> u8 list \<Rightarrow> block \<Rightarrow> block" where
  "decrypt_rounds 0 expkey s = s"
| "decrypt_rounds (Suc r) expkey s =
     (let s = add_round_key s expkey (4 * (r * AES_STATECOLS))
      in decrypt_rounds r expkey (if r \<noteq> 0 then inv_mix_sub_columns s else s))"

definition aes_decrypt :: "block \<Rightarrow> u8 list \<Rightarrow> block" where
  "aes_decrypt inp expkey =
     decrypt_rounds AES_ROUNDS expkey
       (inv_shift_rows (add_round_key (take (AES_STATECOLS * 4) inp) expkey (4 * (AES_ROUNDS * AES_STATECOLS))))"

section \<open>Inverse rounds\<close>

lemma block_cases:
  assumes "length s = 16"
  obtains s0 s1 s2 s3 s4 s5 s6 s7 s8 s9 s10 s11 s12 s13 s14 s15 where "s = [s0, s1, s2, s3, s4, s5, s6, s7, s8, s9, s10, s11, s12, s13, s14, s15]"
  using assms by (auto simp: length_Suc_conv numeral_eq_Suc)

lemma shift_rows_block:
  "shift_rows [s0, s1, s2, s3, s4, s5, s6, s7, s8, s9, s10, s11, s12, s13, s14, s15] = [S s0, S s5, S s10, S s15, S s4, S s9, S s14, S s3, S s8, S s13, S s2, S s7, S s12, S s1, S s6, S s11]"
  by (simp add: shift_rows_def)

lemma inv_shift_rows_shift_rows: "length s = 16 \<Longrightarrow> inv_shift_rows (shift_rows s) = s"
  by (erule block_cases) (simp add: shift_rows_block inv_shift_rows_def inv_sbox_sbox)

lemma xor_left_cancel: "(x :: u8) XOR (x XOR y) = y"
  by (simp flip: xor.assoc)

lemmas xor_sort = xor.assoc xor.commute xor.left_commute xor_self_eq xor_left_cancel

text \<open>
  One column: mixing multiplies by the matrix of 2, 3, 1, 1 and un-mixing by that of 14, 11, 13, 9. The two
  are inverse, since the multiples are sums of powers of \<open>xtime\<close>, which is additive.
\<close>

lemma unmix_column:
  fixes a b c d :: u8
  defines "m0 \<equiv> xtime a XOR (xtime b XOR b) XOR c XOR d" and "m1 \<equiv> a XOR xtime b XOR (xtime c XOR c) XOR d"
    and "m2 \<equiv> a XOR b XOR xtime c XOR (xtime d XOR d)" and "m3 \<equiv> (xtime a XOR a) XOR b XOR c XOR xtime d"
  shows "TE m0 XOR TB m1 XOR TD m2 XOR T9 m3 = a" and "T9 m0 XOR TE m1 XOR TB m2 XOR TD m3 = b"
    and "TD m0 XOR T9 m1 XOR TE m2 XOR TB m3 = c" and "TB m0 XOR TD m1 XOR T9 m2 XOR TE m3 = d"
  unfolding m0_def m1_def m2_def m3_def multiples xtime_xor by (simp_all only: xor_sort) simp_all

lemma inv_mix_mix: "length s = 16 \<Longrightarrow> inv_mix_sub_columns (mix_sub_columns s) = s"
  by (erule block_cases)
    (simp add: mix_sub_columns_def inv_mix_sub_columns_def multiples_of_sbox unmix_column inv_sbox_sbox)

section \<open>Round keys\<close>

lemma store_load_xor:
  "store32 (load32 s i XOR load32 k j) = [s ! i XOR k ! j, s ! (i + 1) XOR k ! (j + 1), s ! (i + 2) XOR k ! (j + 2), s ! (i + 3) XOR k ! (j + 3)]"
proof -
  have b: "bit (load32 bs i) n \<longleftrightarrow> n < 8 \<and> bit (bs ! i) n \<or> 8 \<le> n \<and> bit (bs ! (i + 1)) (n - 8)
      \<or> 16 \<le> n \<and> bit (bs ! (i + 2)) (n - 16) \<or> 24 \<le> n \<and> bit (bs ! (i + 3)) (n - 24)" if "n < 32" for bs i n
    using that by (auto simp: load32_def bit_simps dest: bit_imp_le_length)
  have high: "\<not> bit (x :: u8) n" if "8 \<le> n" for x n using that bit_imp_le_length [of x n] by auto
  show ?thesis unfolding store32_def
    by (auto intro!: bit_word_eqI simp: bit_simps b high)
qed

lemma add_round_key_nth:
  assumes "i < 16"
  shows "add_round_key s k off ! i = s ! i XOR k ! (off + i)"
proof -
  have "i \<in> {0, 1, 2, 3, 4, 5, 6, 7, 8, 9, 10, 11, 12, 13, 14, 15}" using assms by (simp only: insert_iff empty_iff) presburger
  then show ?thesis
    by (elim insertE emptyE) (simp_all add: add_round_key_def store_load_xor add.commute [of off] numeral_2_eq_2)
qed

lemma add_round_key_length [simp]: "length (add_round_key s k off) = 16"
  by (simp add: add_round_key_def store32_def)

lemma add_round_key_twice: "length s = 16 \<Longrightarrow> add_round_key (add_round_key s k off) k off = s"
  by (rule nth_equalityI) (simp_all add: add_round_key_nth xor.assoc)

lemma round_length [simp]: "length (mix_sub_columns s) = 16" "length (shift_rows s) = length s"
  by (simp_all add: mix_sub_columns_def shift_rows_def Let_def)

section \<open>Encryption and decryption\<close>

text \<open>The state after the first \<open>r\<close> rounds of the encryption.\<close>

primrec mixed :: "nat \<Rightarrow> u8 list \<Rightarrow> block \<Rightarrow> block" where
  "mixed 0 k s = s"
| "mixed (Suc r) k s = add_round_key (mix_sub_columns (mixed r k s)) k (4 * (Suc r * AES_STATECOLS))"

lemma mixed_length: "length s = 16 \<Longrightarrow> length (mixed r k s) = 16"
  by (cases r) simp_all

lemma encrypt_rounds_mixed:
  assumes "r < AES_ROUNDS"
  shows "encrypt_rounds (r + 1) k (mixed r k s) = add_round_key (shift_rows (mixed (AES_ROUNDS - 1) k s)) k (4 * (AES_ROUNDS * AES_STATECOLS))"
  using assms
proof (induction "AES_ROUNDS - 1 - r" arbitrary: r)
  case 0
  then have "r = AES_ROUNDS - 1" by simp
  then show ?case by (simp add: encrypt_rounds.simps [of _ k] aes_sizes)
next
  case (Suc n)
  then have r: "r + 1 < AES_ROUNDS" by simp
  then have "encrypt_rounds (r + 1) k (mixed r k s) = encrypt_rounds (Suc r + 1) k (mixed (Suc r) k s)"
    by (subst encrypt_rounds.simps) simp
  also have "\<dots> = add_round_key (shift_rows (mixed (AES_ROUNDS - 1) k s)) k (4 * (AES_ROUNDS * AES_STATECOLS))"
    using Suc r by (intro Suc(1)) simp_all
  finally show ?case .
qed

lemma decrypt_rounds_mixed:
  assumes "length s = 16"
  shows "decrypt_rounds (Suc r) k (mixed r k (add_round_key s k 0)) = s"
proof (induction r)
  case 0
  then show ?case using assms by (simp add: add_round_key_twice)
next
  case (Suc r)
  have l: "length (mixed r k (add_round_key s k 0)) = 16" by (simp add: mixed_length)
  have "add_round_key (mixed (Suc r) k (add_round_key s k 0)) k (4 * (Suc r * AES_STATECOLS)) = mix_sub_columns (mixed r k (add_round_key s k 0))"
    by (simp only: mixed.simps) (rule add_round_key_twice, simp)
  then have "decrypt_rounds (Suc (Suc r)) k (mixed (Suc r) k (add_round_key s k 0)) = decrypt_rounds (Suc r) k (mixed r k (add_round_key s k 0))"
    using inv_mix_mix [OF l] by (simp only: decrypt_rounds.simps(2) [of "Suc r"] Let_def) simp
  with Suc.IH show ?case by (simp only:)
qed

lemma key_core_defined: "idx < 44 \<Longrightarrow> \<exists>t. key_core idx x = Some t"
  by (cases x) (auto simp: key_core_def rcon_def rd_def AES_KEYCOLS_def)

lemma expand_step_length:
  assumes "length k = 176" and "4 \<le> idx" and "idx < 44"
  shows "\<exists>k'. expand_step idx k = Some k' \<and> length k' = 176"
proof -
  obtain t where "key_core idx (k ! (4 * idx - 4), k ! (4 * idx - 3), k ! (4 * idx - 2), k ! (4 * idx - 1)) = Some t"
    using key_core_defined [OF assms(3)] by blast
  then show ?thesis using assms by (cases t) (simp add: expand_step_def rd_def wr_def aes_sizes, linarith)
qed

lemma expand_loop_length:
  assumes "length k = 176" and "4 \<le> idx"
  shows "\<exists>k'. expand_loop idx k = Some k' \<and> length k' = 176"
  using assms
proof (induction idx k rule: expand_loop.induct)
  case (1 idx k)
  show ?case
  proof (cases "idx < 44")
    case True
    obtain k1 where "expand_step idx k = Some k1" "length k1 = 176" using expand_step_length [OF 1(2,3) True] by blast
    then show ?thesis using True 1 by (subst expand_loop.simps) (simp add: aes_sizes)
  next
    case False
    then show ?thesis using 1(2) by (subst expand_loop.simps) (simp add: aes_sizes)
  qed
qed

section \<open>Property\<close>

text \<open>
  \<^bold>\<open>C26.\<close> Decryption inverts encryption: for every 16-byte key the schedule is computed inside its 176 bytes, and
  with it \<^verbatim>\<open>aes_decrypt\<close> gives back every 16-byte block that \<^verbatim>\<open>aes_encrypt\<close> was applied to.
\<close>

theorem aes_roundtrip:
  assumes "length key = 16" and "length expkey = 176" and "length block = 16"
  shows "\<exists>k. aes_expand_key key expkey = Some k \<and> length k = 176 \<and> length (aes_encrypt block k) = 16
    \<and> aes_decrypt (aes_encrypt block k) k = block"
proof -
  obtain k where k: "aes_expand_key key expkey = Some k" "length k = 176"
    using expand_loop_length [of "key @ drop 16 expkey" 4] assms by (auto simp: aes_expand_key_def aes_sizes)
  let ?m = "mixed 9 k (add_round_key block k 0)"
  have m: "length ?m = 16" by (simp add: mixed_length)
  have e: "aes_encrypt block k = add_round_key (shift_rows ?m) k 160"
    using encrypt_rounds_mixed [of 0 k "add_round_key block k 0"] assms(3) by (simp add: aes_encrypt_def aes_sizes)
  have "aes_decrypt (aes_encrypt block k) k = decrypt_rounds (Suc 9) k ?m"
    unfolding e aes_decrypt_def using m by (simp add: aes_sizes add_round_key_twice inv_shift_rows_shift_rows)
  also have "\<dots> = block" by (rule decrypt_rounds_mixed [OF assms(3)])
  finally show ?thesis using k e by simp
qed

theorem aes_roundtrip_witness:
  "\<exists>k. aes_expand_key (replicate 16 0x2b) (replicate 176 0) = Some k \<and> length k = 176
    \<and> length (aes_encrypt (replicate 16 0x6b) k) = 16 \<and> aes_decrypt (aes_encrypt (replicate 16 0x6b) k) k = replicate 16 0x6b"
  by (rule aes_roundtrip) simp_all

end
