(* ===== verification/Fdt.thy ===== *)
theory Fdt
  imports Cstring
begin

text \<open>
  The reader of flattened device trees, the container of boot images: \<^verbatim>\<open>lib/libfdt/fdt.c\<close> and
  \<^verbatim>\<open>lib/libfdt/fdt_ro.c\<close>. A blob is the list of bytes from \<^verbatim>\<open>fdt\<close> to the end of the object in memory, and
  a pointer into it is an index; a read behind the end is \<open>None\<close>. An \<^verbatim>\<open>int\<close> is an integer, an
  \<^verbatim>\<open>unsigned int\<close> a natural number; conversions between them and sums of mixed operands are taken modulo
  \<open>2 ^ 32\<close> as in the code. Loops are partial functions: \<open>None\<close> is also a loop that never ends.
\<close>

section \<open>Integers and the header\<close>

text \<open>An \<^verbatim>\<open>int\<close> converted to \<^verbatim>\<open>unsigned int\<close>, and a number converted to \<^verbatim>\<open>int\<close>.\<close>

definition u32_of :: "int \<Rightarrow> nat" where
  "u32_of x = nat (x mod 2 ^ 32)"

definition s32 :: "int \<Rightarrow> int" where
  "s32 x = (x + 2 ^ 31) mod 2 ^ 32 - 2 ^ 31"

definition be_nat :: "char list \<Rightarrow> nat" where
  "be_nat = foldl (\<lambda>n c. 256 * n + of_char c) 0"

definition fdt32_to_cpu :: "char list \<Rightarrow> nat \<Rightarrow> nat option" where
  "fdt32_to_cpu m i = (if i + 4 \<le> length m then Some (be_nat (take 4 (drop i m))) else None)"

definition fdt64_to_cpu :: "char list \<Rightarrow> nat \<Rightarrow> nat option" where
  "fdt64_to_cpu m i = (if i + 8 \<le> length m then Some (be_nat (take 8 (drop i m))) else None)"

definition fdt_magic :: "char list \<Rightarrow> nat option" where "fdt_magic m = fdt32_to_cpu m 0"
definition fdt_totalsize :: "char list \<Rightarrow> nat option" where "fdt_totalsize m = fdt32_to_cpu m 4"
definition fdt_off_dt_struct :: "char list \<Rightarrow> nat option" where "fdt_off_dt_struct m = fdt32_to_cpu m 8"
definition fdt_off_dt_strings :: "char list \<Rightarrow> nat option" where "fdt_off_dt_strings m = fdt32_to_cpu m 12"
definition fdt_off_mem_rsvmap :: "char list \<Rightarrow> nat option" where "fdt_off_mem_rsvmap m = fdt32_to_cpu m 16"
definition fdt_version :: "char list \<Rightarrow> nat option" where "fdt_version m = fdt32_to_cpu m 20"
definition fdt_last_comp_version :: "char list \<Rightarrow> nat option" where "fdt_last_comp_version m = fdt32_to_cpu m 24"
definition fdt_size_dt_strings :: "char list \<Rightarrow> nat option" where "fdt_size_dt_strings m = fdt32_to_cpu m 32"
definition fdt_size_dt_struct :: "char list \<Rightarrow> nat option" where "fdt_size_dt_struct m = fdt32_to_cpu m 36"

definition FDT_MAGIC :: nat where "FDT_MAGIC = 0xd00dfeed"
definition FDT_SW_MAGIC :: nat where "FDT_SW_MAGIC = 0x2ff20112"
definition FDT_BEGIN_NODE :: nat where "FDT_BEGIN_NODE = 1"
definition FDT_END_NODE :: nat where "FDT_END_NODE = 2"
definition FDT_PROP :: nat where "FDT_PROP = 3"
definition FDT_NOP :: nat where "FDT_NOP = 4"
definition FDT_END :: nat where "FDT_END = 9"

definition FDT_ERR_NOTFOUND :: int where "FDT_ERR_NOTFOUND = 1"
definition FDT_ERR_NOSPACE :: int where "FDT_ERR_NOSPACE = 3"
definition FDT_ERR_BADOFFSET :: int where "FDT_ERR_BADOFFSET = 4"
definition FDT_ERR_BADPATH :: int where "FDT_ERR_BADPATH = 5"
definition FDT_ERR_BADSTATE :: int where "FDT_ERR_BADSTATE = 7"
definition FDT_ERR_TRUNCATED :: int where "FDT_ERR_TRUNCATED = 8"
definition FDT_ERR_BADMAGIC :: int where "FDT_ERR_BADMAGIC = 9"
definition FDT_ERR_BADVERSION :: int where "FDT_ERR_BADVERSION = 10"
definition FDT_ERR_BADSTRUCTURE :: int where "FDT_ERR_BADSTRUCTURE = 11"
definition FDT_ERR_BADLAYOUT :: int where "FDT_ERR_BADLAYOUT = 12"
definition FDT_ERR_INTERNAL :: int where "FDT_ERR_INTERNAL = 13"

lemmas fdt_tags = FDT_BEGIN_NODE_def FDT_END_NODE_def FDT_PROP_def FDT_NOP_def FDT_END_def

lemmas fdt_errors = FDT_ERR_NOTFOUND_def FDT_ERR_NOSPACE_def FDT_ERR_BADOFFSET_def FDT_ERR_BADPATH_def
  FDT_ERR_BADSTATE_def FDT_ERR_TRUNCATED_def FDT_ERR_BADMAGIC_def FDT_ERR_BADVERSION_def
  FDT_ERR_BADSTRUCTURE_def FDT_ERR_BADLAYOUT_def FDT_ERR_INTERNAL_def

section \<open>Tags\<close>

definition fdt_check_header :: "char list \<Rightarrow> int option" where
  "fdt_check_header m = do {
     magic \<leftarrow> fdt_magic m;
     if magic = FDT_MAGIC then do {
       v \<leftarrow> fdt_version m;
       if v < 16 then Some (- FDT_ERR_BADVERSION)
       else do { c \<leftarrow> fdt_last_comp_version m; Some (if c > 17 then - FDT_ERR_BADVERSION else 0) } }
     else if magic = FDT_SW_MAGIC then do {
       s \<leftarrow> fdt_size_dt_struct m; Some (if s = 0 then - FDT_ERR_BADSTATE else 0) }
     else Some (- FDT_ERR_BADMAGIC) }"

text \<open>The inner \<open>None\<close> is the NULL pointer.\<close>

definition fdt_offset_ptr :: "char list \<Rightarrow> int \<Rightarrow> nat \<Rightarrow> nat option option" where
  "fdt_offset_ptr m offset len = do {
     os \<leftarrow> fdt_off_dt_struct m;
     ts \<leftarrow> fdt_totalsize m;
     let uoffset = u32_of offset;
     let absoffset = (uoffset + os) mod 2 ^ 32;
     if absoffset < uoffset \<or> (absoffset + len) mod 2 ^ 32 < absoffset \<or> (absoffset + len) mod 2 ^ 32 > ts then Some None
     else do {
       v \<leftarrow> fdt_version m;
       bad \<leftarrow> (if v \<ge> 17 then do {
                 ss \<leftarrow> fdt_size_dt_struct m;
                 Some ((uoffset + len) mod 2 ^ 32 < uoffset \<or> (uoffset + len) mod 2 ^ 32 > ss) }
               else Some False);
       Some (if bad then None else Some absoffset) } }"

definition FDT_TAGALIGN :: "int \<Rightarrow> int" where
  "FDT_TAGALIGN x = s32 (int ((u32_of x + 3) mod 2 ^ 32 div 4 * 4))"

text \<open>The loop over the name of a node: the offset behind its NUL, or \<open>None\<close> when the block ends first.\<close>

partial_function (option) skip_name :: "char list \<Rightarrow> int \<Rightarrow> int option option" where
  "skip_name m offset = do {
     p \<leftarrow> fdt_offset_ptr m offset 1;
     case p of None \<Rightarrow> Some None
     | Some i \<Rightarrow> do { c \<leftarrow> rd m i; if c \<noteq> NUL then skip_name m (s32 (offset + 1)) else Some (Some (s32 (offset + 1))) } }"

text \<open>The offset behind the body of a tag.\<close>

definition skip_body :: "char list \<Rightarrow> nat \<Rightarrow> int \<Rightarrow> int option option" where
  "skip_body m tag offset =
     (if tag = FDT_BEGIN_NODE then skip_name m offset
      else if tag = FDT_PROP then do {
        lenp \<leftarrow> fdt_offset_ptr m offset 4;
        case lenp of None \<Rightarrow> Some None
        | Some i \<Rightarrow> do { len \<leftarrow> fdt32_to_cpu m i; Some (Some (s32 (offset + 8 + int len))) } }
      else if tag = FDT_END \<or> tag = FDT_END_NODE \<or> tag = FDT_NOP then Some (Some offset)
      else Some None)"

text \<open>The tag and what is stored through \<^verbatim>\<open>nextoffset\<close>.\<close>

definition fdt_next_tag :: "char list \<Rightarrow> int \<Rightarrow> (nat \<times> int) option" where
  "fdt_next_tag m startoffset = do {
     tagp \<leftarrow> fdt_offset_ptr m startoffset 4;
     case tagp of None \<Rightarrow> Some (FDT_END, - FDT_ERR_TRUNCATED)
     | Some i \<Rightarrow> do {
         tag \<leftarrow> fdt32_to_cpu m i;
         r \<leftarrow> skip_body m tag (s32 (startoffset + 4));
         case r of None \<Rightarrow> Some (FDT_END, - FDT_ERR_BADSTRUCTURE)
         | Some offset \<Rightarrow> do {
             p \<leftarrow> fdt_offset_ptr m startoffset (u32_of (offset - startoffset));
             Some (if p = None then (FDT_END, - FDT_ERR_BADSTRUCTURE) else (tag, FDT_TAGALIGN offset)) } } }"

definition fdt_check_node_offset :: "char list \<Rightarrow> int \<Rightarrow> int option" where
  "fdt_check_node_offset m offset =
     (if offset < 0 \<or> u32_of offset mod 4 \<noteq> 0 then Some (- FDT_ERR_BADOFFSET)
      else do { (tag, offset) \<leftarrow> fdt_next_tag m offset;
                Some (if tag \<noteq> FDT_BEGIN_NODE then - FDT_ERR_BADOFFSET else offset) })"

definition fdt_check_prop_offset :: "char list \<Rightarrow> int \<Rightarrow> int option" where
  "fdt_check_prop_offset m offset =
     (if offset < 0 \<or> u32_of offset mod 4 \<noteq> 0 then Some (- FDT_ERR_BADOFFSET)
      else do { (tag, offset) \<leftarrow> fdt_next_tag m offset;
                Some (if tag \<noteq> FDT_PROP then - FDT_ERR_BADOFFSET else offset) })"

section \<open>Walking over nodes\<close>

text \<open>\<open>depth\<close> is \<open>None\<close> for a NULL pointer, otherwise the value it points to; both functions return it.\<close>

partial_function (option) next_node_loop :: "char list \<Rightarrow> int \<Rightarrow> int option \<Rightarrow> (int \<times> int option) option" where
  "next_node_loop m offset depth = do {
     (tag, nextoffset) \<leftarrow> fdt_next_tag m offset;
     if tag = FDT_BEGIN_NODE then Some (offset, map_option (\<lambda>d. d + 1) depth)
     else if tag = FDT_END_NODE then
       (case depth of None \<Rightarrow> next_node_loop m nextoffset None
        | Some d \<Rightarrow> if d - 1 < 0 then Some (nextoffset, Some (d - 1)) else next_node_loop m nextoffset (Some (d - 1)))
     else if tag = FDT_END then
       Some (if nextoffset \<ge> 0 \<or> (nextoffset = - FDT_ERR_TRUNCATED \<and> depth = None) then - FDT_ERR_NOTFOUND else nextoffset, depth)
     else next_node_loop m nextoffset depth }"

definition fdt_next_node :: "char list \<Rightarrow> int \<Rightarrow> int option \<Rightarrow> (int \<times> int option) option" where
  "fdt_next_node m offset depth =
     (if offset \<ge> 0 then do {
        nextoffset \<leftarrow> fdt_check_node_offset m offset;
        if nextoffset < 0 then Some (nextoffset, depth) else next_node_loop m nextoffset depth }
      else next_node_loop m 0 depth)"

definition fdt_first_subnode :: "char list \<Rightarrow> int \<Rightarrow> int option" where
  "fdt_first_subnode m offset = do {
     (offset, depth) \<leftarrow> fdt_next_node m offset (Some 0);
     Some (if offset < 0 \<or> depth \<noteq> Some 1 then - FDT_ERR_NOTFOUND else offset) }"

partial_function (option) next_subnode_loop :: "char list \<Rightarrow> int \<Rightarrow> int \<Rightarrow> int option" where
  "next_subnode_loop m offset depth = do {
     (offset, d) \<leftarrow> fdt_next_node m offset (Some depth);
     let depth = the d;
     if offset < 0 \<or> depth < 1 then Some (- FDT_ERR_NOTFOUND)
     else if depth > 1 then next_subnode_loop m offset depth
     else Some offset }"

definition fdt_next_subnode :: "char list \<Rightarrow> int \<Rightarrow> int option" where
  "fdt_next_subnode m offset = next_subnode_loop m offset 1"

section \<open>Names and properties\<close>

text \<open>\<open>s\<close> are the bytes from the pointer on.\<close>

definition fdt_nodename_eq :: "char list \<Rightarrow> int \<Rightarrow> char list \<Rightarrow> nat \<Rightarrow> bool option" where
  "fdt_nodename_eq m offset s len = do {
     p \<leftarrow> fdt_offset_ptr m (s32 (offset + 4)) (len + 1);
     case p of None \<Rightarrow> Some False
     | Some i \<Rightarrow> do {
         r \<leftarrow> memcmp (drop i m) s len;
         if r \<noteq> 0 then Some False
         else do {
           c \<leftarrow> rd m (i + len);
           if c = NUL then Some True
           else do { unit \<leftarrow> memchr s (CHR ''@'') len; Some (unit = None \<and> c = CHR ''@'') } } } }"

definition fdt_string :: "char list \<Rightarrow> nat \<Rightarrow> nat option" where
  "fdt_string m stroffset = map_option (\<lambda>os. (os + stroffset) mod 2 ^ 32) (fdt_off_dt_strings m)"

definition fdt_string_eq :: "char list \<Rightarrow> nat \<Rightarrow> char list \<Rightarrow> nat \<Rightarrow> bool option" where
  "fdt_string_eq m stroffset s len = do {
     p \<leftarrow> fdt_string m stroffset;
     n \<leftarrow> strnlen (drop p m) (len + 1);
     if n = len then map_option (\<lambda>r. r = 0) (memcmp (drop p m) s len) else Some False }"

partial_function (option) nextprop :: "char list \<Rightarrow> int \<Rightarrow> int option" where
  "nextprop m offset = do {
     (tag, nextoffset) \<leftarrow> fdt_next_tag m offset;
     if tag = FDT_END then Some (if nextoffset \<ge> 0 then - FDT_ERR_BADSTRUCTURE else nextoffset)
     else if tag = FDT_PROP then Some offset
     else if tag = FDT_NOP then nextprop m nextoffset
     else Some (- FDT_ERR_NOTFOUND) }"

definition fdt_first_property_offset :: "char list \<Rightarrow> int \<Rightarrow> int option" where
  "fdt_first_property_offset m nodeoffset = do {
     offset \<leftarrow> fdt_check_node_offset m nodeoffset;
     if offset < 0 then Some offset else nextprop m offset }"

definition fdt_next_property_offset :: "char list \<Rightarrow> int \<Rightarrow> int option" where
  "fdt_next_property_offset m offset = do {
     offset \<leftarrow> fdt_check_prop_offset m offset;
     if offset < 0 then Some offset else nextprop m offset }"

text \<open>The index of the \<^verbatim>\<open>struct fdt_property\<close>, or NULL; and what is stored through \<^verbatim>\<open>lenp\<close>.\<close>

definition fdt_get_property_by_offset :: "char list \<Rightarrow> int \<Rightarrow> (nat option \<times> int) option" where
  "fdt_get_property_by_offset m offset = do {
     err \<leftarrow> fdt_check_prop_offset m offset;
     if err < 0 then Some (None, err)
     else do {
       os \<leftarrow> fdt_off_dt_struct m;
       let prop = os + nat offset;
       len \<leftarrow> fdt32_to_cpu m (prop + 4);
       Some (Some prop, s32 (int len)) } }"

partial_function (option) get_property_loop :: "char list \<Rightarrow> int \<Rightarrow> char list \<Rightarrow> nat \<Rightarrow> (nat option \<times> int) option" where
  "get_property_loop m offset name namelen =
     (if offset \<ge> 0 then do {
        (prop, len) \<leftarrow> fdt_get_property_by_offset m offset;
        case prop of None \<Rightarrow> Some (None, - FDT_ERR_INTERNAL)
        | Some i \<Rightarrow> do {
            nameoff \<leftarrow> fdt32_to_cpu m (i + 8);
            eq \<leftarrow> fdt_string_eq m nameoff name namelen;
            if eq then Some (Some i, len)
            else do { offset \<leftarrow> fdt_next_property_offset m offset; get_property_loop m offset name namelen } } }
      else Some (None, offset))"

definition fdt_get_property_namelen :: "char list \<Rightarrow> int \<Rightarrow> char list \<Rightarrow> nat \<Rightarrow> (nat option \<times> int) option" where
  "fdt_get_property_namelen m offset name namelen = do {
     offset \<leftarrow> fdt_first_property_offset m offset;
     get_property_loop m offset name namelen }"

definition fdt_getprop_namelen :: "char list \<Rightarrow> int \<Rightarrow> char list \<Rightarrow> nat \<Rightarrow> (nat option \<times> int) option" where
  "fdt_getprop_namelen m nodeoffset name namelen =
     map_option (\<lambda>(prop, len). (map_option (\<lambda>i. i + 12) prop, len)) (fdt_get_property_namelen m nodeoffset name namelen)"

definition fdt_getprop :: "char list \<Rightarrow> int \<Rightarrow> string \<Rightarrow> (nat option \<times> int) option" where
  "fdt_getprop m nodeoffset name = fdt_getprop_namelen m nodeoffset (name @ [NUL]) (length name)"

definition fdt_get_name :: "char list \<Rightarrow> int \<Rightarrow> (nat option \<times> int) option" where
  "fdt_get_name m nodeoffset = do {
     err \<leftarrow> fdt_check_header m;
     if err \<noteq> 0 then Some (None, err)
     else do {
       err \<leftarrow> fdt_check_node_offset m nodeoffset;
       if err < 0 then Some (None, err)
       else do {
         os \<leftarrow> fdt_off_dt_struct m;
         let name = os + nat nodeoffset + 4;
         n \<leftarrow> strlen (drop name m);
         Some (Some name, int n) } } }"

section \<open>Finding nodes\<close>

partial_function (option) subnode_loop :: "char list \<Rightarrow> int \<Rightarrow> int \<Rightarrow> char list \<Rightarrow> nat \<Rightarrow> int option" where
  "subnode_loop m offset depth name namelen =
     (if offset \<ge> 0 \<and> depth \<ge> 0 then do {
        eq \<leftarrow> (if depth = 1 then fdt_nodename_eq m offset name namelen else Some False);
        if eq then Some offset
        else do { (offset, d) \<leftarrow> fdt_next_node m offset (Some depth); subnode_loop m offset (the d) name namelen } }
      else Some (if depth < 0 then - FDT_ERR_NOTFOUND else offset))"

definition fdt_subnode_offset_namelen :: "char list \<Rightarrow> int \<Rightarrow> char list \<Rightarrow> nat \<Rightarrow> int option" where
  "fdt_subnode_offset_namelen m offset name namelen = do {
     err \<leftarrow> fdt_check_header m;
     if err \<noteq> 0 then Some err else subnode_loop m offset 0 name namelen }"

definition fdt_subnode_offset :: "char list \<Rightarrow> int \<Rightarrow> char list \<Rightarrow> int option" where
  "fdt_subnode_offset m parentoffset name = do {
     n \<leftarrow> strlen name; fdt_subnode_offset_namelen m parentoffset name n }"

definition fdt_path_next_separator :: "char list \<Rightarrow> nat \<Rightarrow> nat option option" where
  "fdt_path_next_separator path len = do {
     sep1 \<leftarrow> memchr path (CHR ''/'') len;
     sep2 \<leftarrow> memchr path (CHR '':'') len;
     Some (case (sep1, sep2) of
       (Some a, Some b) \<Rightarrow> Some (if a < b then a else b)
     | (Some a, None) \<Rightarrow> Some a
     | (None, b) \<Rightarrow> b) }"

fun skip_slashes :: "char list \<Rightarrow> nat option" where
  "skip_slashes [] = None"
| "skip_slashes (c # cs) = (if c = CHR ''/'' then map_option Suc (skip_slashes cs) else Some 0)"

text \<open>The loop of \<^verbatim>\<open>fdt_path_offset_namelen\<close>; \<open>p\<close> and \<open>e\<close> are offsets in \<open>path\<close>.\<close>

partial_function (option) path_loop :: "char list \<Rightarrow> char list \<Rightarrow> nat \<Rightarrow> nat \<Rightarrow> int \<Rightarrow> int option" where
  "path_loop m path p e offset = do {
     c \<leftarrow> rd path p;
     if c = NUL \<or> \<not> p < e then Some offset
     else do {
       k \<leftarrow> skip_slashes (drop p path);
       let p = p + k;
       c \<leftarrow> rd path p;
       if c = NUL \<or> c = CHR '':'' then Some offset
       else do {
         sep \<leftarrow> fdt_path_next_separator (drop p path) (sub32 e p);
         let q = (case sep of None \<Rightarrow> e | Some k \<Rightarrow> p + k);
         offset \<leftarrow> fdt_subnode_offset_namelen m offset (drop p path) (q - p);
         if offset < 0 then Some offset else path_loop m path q e offset } } }"

text \<open>An alias is resolved by recursive calls, for \<^verbatim>\<open>/aliases\<close> and for the value of the alias.\<close>

partial_function (option) fdt_path_offset_namelen :: "char list \<Rightarrow> char list \<Rightarrow> nat \<Rightarrow> int option" where
  "fdt_path_offset_namelen m path namelen = do {
     err \<leftarrow> fdt_check_header m;
     if err \<noteq> 0 then Some err
     else do {
       c \<leftarrow> rd path 0;
       if c = CHR ''/'' then path_loop m path 0 namelen 0
       else do {
         sep \<leftarrow> fdt_path_next_separator path namelen;
         let q = (case sep of None \<Rightarrow> namelen | Some k \<Rightarrow> k);
         aliasoffset \<leftarrow> fdt_path_offset_namelen m (''/aliases'' @ [NUL]) 8;
         (p, len) \<leftarrow> (if aliasoffset < 0 then Some (None, 0) else fdt_getprop_namelen m aliasoffset path q);
         case p of None \<Rightarrow> Some (- FDT_ERR_BADPATH)
         | Some i \<Rightarrow> do {
             n \<leftarrow> strlen (drop i m);
             offset \<leftarrow> fdt_path_offset_namelen m (drop i m) n;
             path_loop m path q namelen offset } } } }"

definition fdt_path_offset :: "char list \<Rightarrow> char list \<Rightarrow> int option" where
  "fdt_path_offset m path = do { n \<leftarrow> strlen path; fdt_path_offset_namelen m path n }"

section \<open>Tags of an arbitrary blob\<close>

lemma u32_of_small: "0 \<le> x \<Longrightarrow> x < 2 ^ 32 \<Longrightarrow> u32_of x = nat x"
  by (simp add: u32_of_def)

lemma u32_of_less: "u32_of x < 2 ^ 32"
  by (simp add: u32_of_def nat_less_iff)

lemma s32_small: "- (2 ^ 31) \<le> x \<Longrightarrow> x < 2 ^ 31 \<Longrightarrow> s32 x = x"
  by (simp add: s32_def)

lemma s32_cong: "s32 x mod 2 ^ 32 = x mod 2 ^ 32"
  by (simp add: s32_def mod_diff_left_eq)

lemma s32_range: "- (2 ^ 31) \<le> s32 x" "s32 x < 2 ^ 31"
  by (simp_all add: s32_def)

lemma be_nat_less: "be_nat bs < 256 ^ length bs"
proof (induction bs rule: rev_induct)
  case (snoc c bs)
  then have "256 * be_nat bs + (of_char c :: nat) < 256 * 256 ^ length bs"
    using nat_of_char_less_256 [of c] by linarith
  then show ?case by (simp add: be_nat_def)
qed (simp add: be_nat_def)

lemma fdt32_less: "fdt32_to_cpu m i = Some n \<Longrightarrow> n < 2 ^ 32"
  using be_nat_less [of "take 4 (drop i m)"] by (auto simp: fdt32_to_cpu_def split: if_splits)

text \<open>The object is as long as the header says.\<close>

definition complete :: "char list \<Rightarrow> bool" where
  "complete m \<longleftrightarrow> 40 \<le> length m \<and> the (fdt_totalsize m) \<le> length m \<and> length m + 4 \<le> 2 ^ 31"

lemma complete_header:
  assumes "complete m"
  obtains os ts v ss where "fdt_off_dt_struct m = Some os" "fdt_totalsize m = Some ts" "fdt_version m = Some v"
    "fdt_size_dt_struct m = Some ss" "os < 2 ^ 32" "ts \<le> length m"
proof -
  have r: "\<exists>n. fdt32_to_cpu m i = Some n" if "i \<le> 36" for i
    using assms that by (auto simp: complete_def fdt32_to_cpu_def)
  obtain os ts v ss where "fdt_off_dt_struct m = Some os" "fdt_totalsize m = Some ts" "fdt_version m = Some v"
    "fdt_size_dt_struct m = Some ss" unfolding fdt_off_dt_struct_def fdt_totalsize_def fdt_version_def fdt_size_dt_struct_def
    using r [of 8] r [of 4] r [of 20] r [of 36] by auto
  moreover from this have "os < 2 ^ 32" "ts \<le> length m"
    using assms fdt32_less by (auto simp: complete_def fdt_off_dt_struct_def)
  ultimately show thesis by (rule that)
qed

lemma offset_ptr_defined:
  assumes "complete m"
  shows "\<exists>p. fdt_offset_ptr m offset len = Some p"
  by (rule complete_header [OF assms]) (auto simp: fdt_offset_ptr_def Let_def)

lemma no_carry:
  fixes a b :: nat
  assumes "a < 2 ^ 32" and "b < 2 ^ 32" and "\<not> (a + b) mod 2 ^ 32 < a"
  shows "(a + b) mod 2 ^ 32 = a + b" and "a + b < 2 ^ 32"
proof -
  show "a + b < 2 ^ 32"
  proof (rule ccontr)
    assume "\<not> a + b < 2 ^ 32"
    then have "(a + b) mod 2 ^ 32 = a + b - 2 ^ 32" "a + b - 2 ^ 32 < a" using assms(1,2) by (simp_all add: le_mod_geq)
    with assms(3) show False by simp
  qed
  then show "(a + b) mod 2 ^ 32 = a + b" by simp
qed

lemma offset_ptr_inside:
  assumes "complete m" and "fdt_offset_ptr m offset len = Some (Some i)" and "len < 2 ^ 32"
  shows "i + len \<le> length m" and "\<exists>os. fdt_off_dt_struct m = Some os \<and> i = u32_of offset + os"
proof -
  obtain os ts v ss where h: "fdt_off_dt_struct m = Some os" "fdt_totalsize m = Some ts" "fdt_version m = Some v"
    "fdt_size_dt_struct m = Some ss" "os < 2 ^ 32" "ts \<le> length m" by (rule complete_header [OF assms(1)])
  define a where "a = (u32_of offset + os) mod 2 ^ 32"
  have a: "i = a" "\<not> a < u32_of offset" "\<not> (a + len) mod 2 ^ 32 < a" "(a + len) mod 2 ^ 32 \<le> ts" "a < 2 ^ 32"
    using assms(2) h by (auto simp: fdt_offset_ptr_def Let_def a_def split: if_splits Option.bind_splits)
  have "a = u32_of offset + os" using no_carry(1) [OF u32_of_less h(5)] a(2) by (simp add: a_def)
  with a(1) h(1) show "\<exists>os. fdt_off_dt_struct m = Some os \<and> i = u32_of offset + os" by auto
  show "i + len \<le> length m" using no_carry(1) [OF a(5) assms(3)] a h(6) by simp
qed

lemma skip_name_spec:
  assumes "complete m" and "0 \<le> offset" and "offset < 2 ^ 31"
  shows "\<exists>r. skip_name m offset = Some r \<and> (\<forall>e. r = Some e \<longrightarrow> offset < e \<and> e \<le> int (length m))"
  using assms(2,3)
proof (induction "nat (2 ^ 31 - offset)" arbitrary: offset rule: less_induct)
  case less
  obtain p where p: "fdt_offset_ptr m offset 1 = Some p" using offset_ptr_defined [OF assms(1)] by blast
  show ?case
  proof (cases p)
    case None
    then show ?thesis by (subst skip_name.simps) (simp add: p del: One_nat_def)
  next
    case (Some i)
    have "i + 1 \<le> length m" "nat offset \<le> i"
      using offset_ptr_inside [OF assms(1), of offset 1 i] p Some less.prems by (auto simp: u32_of_small simp del: One_nat_def)
    moreover have "length m < 2 ^ 31" using assms(1) by (simp add: complete_def)
    ultimately have o: "s32 (offset + 1) = offset + 1" "offset + 1 < 2 ^ 31" "offset + 1 \<le> int (length m)" "i < length m"
      using less.prems by (simp_all add: s32_small)
    have "\<exists>r. skip_name m (offset + 1) = Some r \<and> (\<forall>e. r = Some e \<longrightarrow> offset + 1 < e \<and> e \<le> int (length m))"
      using less.prems o by (intro less.hyps) simp_all
    then show ?thesis using o by (subst skip_name.simps) (auto simp: p Some rd_in simp del: One_nat_def)
  qed
qed

lemma skip_body_spec:
  assumes "complete m" and "0 \<le> offset" and "offset < 2 ^ 31"
  shows "\<exists>r. skip_body m tag offset = Some r
    \<and> (\<forall>e. r = Some e \<longrightarrow> - (2 ^ 31) \<le> e \<and> e < 2 ^ 31
      \<and> (tag \<noteq> FDT_PROP \<longrightarrow> offset \<le> e)
      \<and> (tag = FDT_PROP \<longrightarrow> (\<exists>os len. fdt_off_dt_struct m = Some os \<and> fdt32_to_cpu m (nat offset + os) = Some len
             \<and> e = s32 (offset + 8 + int len))))"
proof (cases "tag = FDT_PROP")
  case True
  obtain p where p: "fdt_offset_ptr m offset 4 = Some p" using offset_ptr_defined [OF assms(1)] by blast
  show ?thesis
  proof (cases p)
    case (Some i)
    then obtain os len where "i = nat offset + os" "fdt_off_dt_struct m = Some os" "fdt32_to_cpu m i = Some len"
      using offset_ptr_inside [OF assms(1), of offset 4 i] p assms(2,3) by (auto simp: fdt32_to_cpu_def u32_of_small)
    then show ?thesis using True p Some s32_range by (auto simp: skip_body_def fdt_tags)
  qed (use True p in \<open>simp add: skip_body_def fdt_tags\<close>)
next
  case False
  obtain r where "skip_name m offset = Some r" "\<forall>e. r = Some e \<longrightarrow> offset < e \<and> e \<le> int (length m)"
    using skip_name_spec [OF assms] by blast
  then show ?thesis using False assms by (auto simp: skip_body_def complete_def)
qed

text \<open>
  \<open>endless m offset\<close>: at the offset lies a property whose length field is \<^verbatim>\<open>0xfffffff4\<close>, so that the
  sum of the offset, the size of the header of the property and this length is the offset again.
\<close>

definition endless :: "char list \<Rightarrow> int \<Rightarrow> bool" where
  "endless m offset \<longleftrightarrow> (\<exists>os. fdt_off_dt_struct m = Some os \<and> fdt32_to_cpu m (nat offset + os) = Some FDT_PROP
     \<and> fdt32_to_cpu m (nat offset + os + 4) = Some (2 ^ 32 - 12))"

lemma s32_unique: "(x :: int) mod 2 ^ 32 = y mod 2 ^ 32 \<Longrightarrow> - (2 ^ 31) \<le> x \<Longrightarrow> x < 2 ^ 31 \<Longrightarrow> - (2 ^ 31) \<le> y \<Longrightarrow> y < 2 ^ 31 \<Longrightarrow> x = y"
proof -
  assume a: "x mod 2 ^ 32 = y mod 2 ^ 32" and r: "- (2 ^ 31) \<le> x" "x < 2 ^ 31" "- (2 ^ 31) \<le> y" "y < 2 ^ 31"
  from a have "s32 x = s32 y" unfolding s32_def by (metis mod_add_left_eq)
  with r show "x = y" by (simp add: s32_small)
qed

lemma TAGALIGN_small:
  assumes "0 \<le> x" and "x + 4 \<le> 2 ^ 31"
  shows "FDT_TAGALIGN x = (x + 3) div 4 * 4" "x \<le> FDT_TAGALIGN x" "FDT_TAGALIGN x < 2 ^ 31" "4 dvd FDT_TAGALIGN x"
    "4 dvd x \<Longrightarrow> FDT_TAGALIGN x = x"
proof -
  let ?y = "(x + 3) div 4 * 4"
  have y: "x \<le> ?y" "?y < 2 ^ 31" using assms by linarith+
  have "int ((u32_of x + 3) mod 2 ^ 32 div 4 * 4) = ?y" using assms by (simp add: u32_of_small zdiv_int)
  then show e: "FDT_TAGALIGN x = ?y" using y assms by (simp add: FDT_TAGALIGN_def s32_small)
  show "x \<le> FDT_TAGALIGN x" "FDT_TAGALIGN x < 2 ^ 31" "4 dvd FDT_TAGALIGN x" unfolding e using y by simp_all
  show "FDT_TAGALIGN x = x" if "4 dvd x" unfolding e using that by (elim dvdE) simp
qed

lemma next_tag_progress:
  assumes "complete m" and "0 \<le> offset" and "offset < 2 ^ 31"
  obtains tag nextoffset where "fdt_next_tag m offset = Some (tag, nextoffset)"
    "tag \<noteq> FDT_END \<longrightarrow> offset \<le> nextoffset \<and> nextoffset < 2 ^ 31 \<and> (nextoffset = offset \<longrightarrow> endless m offset)"
    "tag = FDT_END \<or> offset \<le> nextoffset" "tag \<in> {FDT_BEGIN_NODE, FDT_PROP, FDT_END_NODE, FDT_NOP, FDT_END}"
proof -
  obtain p where p: "fdt_offset_ptr m offset 4 = Some p" using offset_ptr_defined [OF assms(1)] by blast
  show thesis
  proof (cases p)
    case None
    then show thesis using p by (intro that [of FDT_END "- FDT_ERR_TRUNCATED"]) (simp_all add: fdt_next_tag_def)
  next
    case (Some i)
    obtain os where i: "i = nat offset + os" "fdt_off_dt_struct m = Some os" "i + 4 \<le> length m"
      using offset_ptr_inside [OF assms(1), of offset 4 i] p Some assms(2,3) by (auto simp: u32_of_small)
    then obtain tag where tag: "fdt32_to_cpu m i = Some tag" by (simp add: fdt32_to_cpu_def)
    have len: "int (length m) + 4 \<le> 2 ^ 31" using assms(1) by (simp add: complete_def)
    then have o4: "s32 (offset + 4) = offset + 4" "offset + 4 < 2 ^ 31" using i assms(2) by (simp_all add: s32_small)
    obtain r where r: "skip_body m tag (offset + 4) = Some r" and re: "\<And>e. r = Some e \<Longrightarrow> - (2 ^ 31) \<le> e \<and> e < 2 ^ 31
      \<and> (tag \<noteq> FDT_PROP \<longrightarrow> offset + 4 \<le> e)
      \<and> (tag = FDT_PROP \<longrightarrow> (\<exists>os len. fdt_off_dt_struct m = Some os \<and> fdt32_to_cpu m (nat (offset + 4) + os) = Some len
             \<and> e = s32 (offset + 4 + 8 + int len)))"
      using skip_body_spec [OF assms(1), of "offset + 4" tag] assms(2) o4(2) by auto
    show thesis
    proof (cases r)
      case None
      then show thesis using p Some tag r o4
        by (intro that [of FDT_END "- FDT_ERR_BADSTRUCTURE"]) (simp_all add: fdt_next_tag_def)
    next
      case (Some e)
      let ?k = "u32_of (e - offset)"
      obtain q where q: "fdt_offset_ptr m offset ?k = Some q" using offset_ptr_defined [OF assms(1)] by blast
      show thesis
      proof (cases q)
        case None
        then show thesis using p \<open>p = Some i\<close> tag r o4 q \<open>r = Some e\<close>
          by (intro that [of FDT_END "- FDT_ERR_BADSTRUCTURE"]) (simp_all add: fdt_next_tag_def)
      next
        case (Some j)
        have run: "fdt_next_tag m offset = Some (tag, FDT_TAGALIGN e)"
          using p \<open>p = Some i\<close> tag r o4 q \<open>r = Some e\<close> Some by (simp add: fdt_next_tag_def)
        have "nat offset \<le> j" "j + ?k \<le> length m"
          using offset_ptr_inside [OF assms(1), of offset ?k j] q Some assms(2,3) u32_of_less by (auto simp: u32_of_small)
        then have k: "offset + int ?k \<le> int (length m)" using assms(2) by linarith
        have "e mod 2 ^ 32 = (offset + int ?k) mod 2 ^ 32" by (simp add: u32_of_def mod_add_right_eq)
        moreover have "- (2 ^ 31) \<le> e" "e < 2 ^ 31" using re [OF \<open>r = Some e\<close>] by blast+
        moreover have "- (2 ^ 31) \<le> offset + int ?k" "offset + int ?k < 2 ^ 31" using k len assms(2) by simp_all
        ultimately have e: "e = offset + int ?k" by (rule s32_unique)
        note al = TAGALIGN_small [of e]
        have ge: "offset \<le> FDT_TAGALIGN e" "e \<le> FDT_TAGALIGN e" "FDT_TAGALIGN e < 2 ^ 31" using al e k len assms(2) by linarith+
        have stop: "endless m offset" if "FDT_TAGALIGN e = offset"
        proof -
          have "e = offset" using that ge e by linarith
          with re [OF \<open>r = Some e\<close>] obtain l where "tag = FDT_PROP" and l: "fdt32_to_cpu m (nat (offset + 4) + os) = Some l"
            and s: "offset = s32 (offset + 4 + 8 + int l)" using i(2) by (cases "tag = FDT_PROP") auto
          have "offset mod 2 ^ 32 = (offset + 4 + 8 + int l) mod 2 ^ 32" using s s32_cong by metis
          then have "(2 ^ 32 :: int) dvd (offset + 4 + 8 + int l) - offset" by (metis mod_eq_dvd_iff)
          then have "(2 ^ 32 :: int) dvd int (12 + l)" by simp
          then have "2 ^ 32 dvd 12 + l" by (metis of_nat_dvd_iff of_nat_numeral of_nat_power)
          moreover have "12 + l < 2 * 2 ^ 32" "0 < 12 + l" using fdt32_less [OF l] by simp_all
          ultimately have "12 + l = 2 ^ 32" by (elim dvdE) simp
          then have "l = 2 ^ 32 - 12" by simp
          then show ?thesis using i tag \<open>tag = FDT_PROP\<close> l assms(2) by (auto simp: endless_def nat_add_distrib add_ac)
        qed
        have "tag \<in> {FDT_BEGIN_NODE, FDT_PROP, FDT_END_NODE, FDT_NOP, FDT_END}"
          using r \<open>r = Some e\<close> by (auto simp: skip_body_def split: if_splits)
        then show thesis using run ge stop by (intro that [of tag "FDT_TAGALIGN e"]) auto
      qed
    qed
  qed
qed

lemma next_node_loop_returns:
  assumes "complete m" and "\<And>offset. \<not> endless m offset" and "0 \<le> offset" and "offset < 2 ^ 31"
  shows "\<exists>r. next_node_loop m offset depth = Some r"
  using assms(3,4)
proof (induction "nat (2 ^ 31 - offset)" arbitrary: offset depth rule: less_induct)
  case less
  obtain tag nextoffset where t: "fdt_next_tag m offset = Some (tag, nextoffset)"
    "tag \<noteq> FDT_END \<longrightarrow> offset \<le> nextoffset \<and> nextoffset < 2 ^ 31 \<and> (nextoffset = offset \<longrightarrow> endless m offset)"
    by (rule next_tag_progress [OF assms(1) less.prems])
  have "\<exists>r. next_node_loop m nextoffset d = Some r" if "tag \<noteq> FDT_END" for d
  proof (rule less.hyps)
    have "offset < nextoffset" using that t(2) assms(2) by (metis order_le_less)
    then show "nat (2 ^ 31 - nextoffset) < nat (2 ^ 31 - offset)" "0 \<le> nextoffset" using less.prems by simp_all
    show "nextoffset < 2 ^ 31" using that t(2) by blast
  qed
  then show ?case by (subst next_node_loop.simps) (auto simp: t(1) fdt_tags split: option.split)
qed

lemma next_node_returns:
  assumes "complete m" and "\<And>offset. \<not> endless m offset" and "offset < 2 ^ 31"
  shows "\<exists>r. fdt_next_node m offset depth = Some r"
proof -
  have check: "\<exists>e. fdt_check_node_offset m offset = Some e \<and> (0 \<le> e \<longrightarrow> e < 2 ^ 31)"
    by (cases "0 \<le> offset", rule next_tag_progress [OF assms(1) _ assms(3)]) (auto simp: fdt_check_node_offset_def fdt_tags fdt_errors)
  then show ?thesis using next_node_loop_returns [OF assms(1,2)]
    by (auto simp: fdt_next_node_def not_less)
qed

lemma endless_next_tag:
  assumes "complete m" and "0 \<le> offset" and "offset < 2 ^ 31" and "4 dvd offset" and "endless m offset"
    and "fdt_offset_ptr m offset 8 \<noteq> Some None"
  shows "fdt_next_tag m offset = Some (FDT_PROP, offset)"
proof -
  obtain os ts v ss where h: "fdt_off_dt_struct m = Some os" "fdt_totalsize m = Some ts" "fdt_version m = Some v"
    "fdt_size_dt_struct m = Some ss" "os < 2 ^ 32" "ts \<le> length m" by (rule complete_header [OF assms(1)])
  obtain i where i: "fdt_offset_ptr m offset 8 = Some (Some i)" using assms(6) offset_ptr_defined [OF assms(1), of offset 8] by auto
  then have "i = nat offset + os" "i + 8 \<le> length m"
    using offset_ptr_inside [OF assms(1) i] h(1) assms(2,3) by (simp_all add: u32_of_small)
  then have small: "nat offset + os + 8 < 2 ^ 31" using assms(1) by (simp add: complete_def)
  have u: "u32_of offset = nat offset" "u32_of (offset + 4) = nat offset + 4"
    using assms(2) small by (simp_all add: u32_of_small)
  have inside: "nat offset + os + 8 \<le> ts" "17 \<le> v \<Longrightarrow> nat offset + 8 \<le> ss"
    using i small by (auto simp: fdt_offset_ptr_def h u Let_def split: if_splits)
  have p: "fdt_offset_ptr m offset 4 = Some (Some (nat offset + os))" "fdt_offset_ptr m offset 0 = Some (Some (nat offset + os))"
    "fdt_offset_ptr m (offset + 4) 4 = Some (Some (nat offset + os + 4))"
    using inside small by (auto simp: fdt_offset_ptr_def h u Let_def)
  have s: "s32 (offset + 4) = offset + 4" using assms(2) small by (simp add: s32_small)
  have "offset + 4 + 8 + int (2 ^ 32 - 12) + 2 ^ 31 = (offset + 2 ^ 31) + 2 ^ 32" by simp
  then have "s32 (offset + 4 + 8 + int (2 ^ 32 - 12)) = s32 offset" by (simp only: s32_def mod_add_self2)
  then have e: "s32 (offset + 4 + 8 + int (2 ^ 32 - 12)) = offset" using assms(2,3) by (simp only: s32_small)
  have "skip_body m FDT_PROP (offset + 4) = Some (Some offset)"
    using assms(5) h(1) e by (auto simp: skip_body_def p endless_def fdt_tags add_ac)
  moreover have "fdt32_to_cpu m (nat offset + os) = Some FDT_PROP" using assms(5) h(1) by (auto simp: endless_def)
  moreover have "FDT_TAGALIGN offset = offset" using assms(2,4) small by (intro TAGALIGN_small(5)) simp_all
  ultimately show ?thesis by (simp add: fdt_next_tag_def p s u32_of_def)
qed

lemma next_node_loop_hangs:
  assumes "fdt_next_tag m offset = Some (FDT_PROP, offset)"
  shows "next_node_loop m offset depth = None"
proof (rule ccontr)
  assume "next_node_loop m offset depth \<noteq> None"
  then obtain r where "next_node_loop m offset depth = Some r" by blast
  then have "fdt_next_tag m offset \<noteq> Some (FDT_PROP, offset)"
    by (rule next_node_loop.raw_induct [rotated, where P = "\<lambda>m offset depth r. fdt_next_tag m offset \<noteq> Some (FDT_PROP, offset)"])
      (auto simp: fdt_tags)
  with assms show False by blast
qed

end
