(* ===== verification/FdtTree.thy ===== *)
theory FdtTree
  imports Fdt
begin

text \<open>
  What the reader of \<open>Fdt\<close> returns for a well-formed blob. A tree of nodes with names, properties and
  children is flattened to tags, and tags to bytes; on a blob that holds the flattened tree the
  functions of the code are the lookups in the tree.
\<close>

section \<open>Tags and bytes\<close>

datatype tag = Begin string | Prop nat "char list" | End_node | End

definition be32 :: "nat \<Rightarrow> char list" where
  "be32 n = [char_of (n div 2 ^ 24), char_of (n div 2 ^ 16), char_of (n div 2 ^ 8), char_of n]"

definition padded :: "char list \<Rightarrow> char list" where
  "padded bs = bs @ replicate ((4 - length bs mod 4) mod 4) NUL"

fun code_of :: "tag \<Rightarrow> nat" where
  "code_of (Begin nm) = FDT_BEGIN_NODE"
| "code_of (Prop no v) = FDT_PROP"
| "code_of End_node = FDT_END_NODE"
| "code_of End = FDT_END"

fun body :: "tag \<Rightarrow> char list" where
  "body (Begin nm) = nm @ [NUL]"
| "body (Prop no v) = be32 (length v) @ be32 no @ v"
| "body End_node = []"
| "body End = []"

definition enc :: "tag \<Rightarrow> char list" where
  "enc t = be32 (code_of t) @ padded (body t)"

abbreviation encs :: "tag list \<Rightarrow> char list" where
  "encs ts \<equiv> concat (map enc ts)"

fun tag_ok :: "tag \<Rightarrow> bool" where
  "tag_ok (Begin nm) \<longleftrightarrow> NUL \<notin> set nm"
| "tag_ok (Prop no v) \<longleftrightarrow> no < 2 ^ 32"
| "tag_ok End_node \<longleftrightarrow> True"
| "tag_ok End \<longleftrightarrow> True"

text \<open>The blob \<open>m\<close> has the structure block \<open>ts\<close> at the index \<open>os\<close>.\<close>

definition holds :: "char list \<Rightarrow> nat \<Rightarrow> tag list \<Rightarrow> bool" where
  "holds m os ts \<longleftrightarrow> complete m \<and> fdt_check_header m = Some 0 \<and> fdt_off_dt_struct m = Some os
     \<and> fdt_size_dt_struct m = Some (length (encs ts)) \<and> os + length (encs ts) \<le> the (fdt_totalsize m)
     \<and> prefix (encs ts) (drop os m) \<and> list_all tag_ok ts"

lemma length_be32 [simp]: "length (be32 n) = 4"
  by (simp add: be32_def)

lemma be_nat_be32: "n < 2 ^ 32 \<Longrightarrow> be_nat (be32 n) = n"
proof -
  assume n: "n < 2 ^ 32"
  have "be_nat (be32 n) = 256 * (256 * (256 * (n div 2 ^ 24 mod 256) + n div 2 ^ 16 mod 256) + n div 2 ^ 8 mod 256) + n mod 256"
    by (simp add: be_nat_def be32_def)
  moreover have "n div 2 ^ 24 mod 256 = n div 2 ^ 24" using n by simp
  moreover have "256 * (n div 2 ^ 24) + n div 2 ^ 16 mod 256 = n div 2 ^ 16" using div_mult2_eq [of n "2 ^ 16" 256] by simp
  moreover have "256 * (n div 2 ^ 16) + n div 2 ^ 8 mod 256 = n div 2 ^ 8" using div_mult2_eq [of n "2 ^ 8" 256] by simp
  moreover have "256 * (n div 2 ^ 8) + n mod 256 = n" by simp
  ultimately show "be_nat (be32 n) = n" by presburger
qed

lemma length_padded: "4 dvd length (padded bs)" "length bs \<le> length (padded bs)" "length (padded bs) < length bs + 4"
proof -
  have "4 dvd n + (4 - n mod 4) mod 4" for n :: nat
  proof (cases "n mod 4 = 0")
    case False
    then have "(4 - n mod 4) mod 4 = 4 - n mod 4" by simp
    moreover have "n + (4 - r) = 4 * (q + 1)" if "4 * q + r = n" "r < 4" for q r using that by arith
    ultimately have "n + (4 - n mod 4) mod 4 = 4 * (n div 4 + 1)" by (metis mult_div_mod_eq mod_less_divisor zero_less_numeral)
    then show ?thesis by (simp only: dvd_triv_left)
  qed (simp add: mod_0_imp_dvd)
  then show "4 dvd length (padded bs)" by (simp add: padded_def)
  show "length bs \<le> length (padded bs)" "length (padded bs) < length bs + 4" by (simp_all add: padded_def)
qed

lemma length_enc: "4 dvd length (enc t)" "4 + length (body t) \<le> length (enc t)" "length (enc t) < 8 + length (body t)"
  using length_padded [of "body t"] by (simp_all add: enc_def)

lemma encs_aligned: "4 dvd length (encs ts)"
  by (induction ts) (use length_enc(1) in auto)

lemma holds_header:
  assumes "holds m os ts"
  obtains ts' v where "fdt_off_dt_struct m = Some os" "fdt_totalsize m = Some ts'" "fdt_version m = Some v"
    "fdt_size_dt_struct m = Some (length (encs ts))" "os + length (encs ts) \<le> ts'" "ts' \<le> length m"
    "os + length (encs ts) + 4 \<le> 2 ^ 31" "complete m"
proof -
  have c: "complete m" "fdt_off_dt_struct m = Some os" "fdt_size_dt_struct m = Some (length (encs ts))"
    "os + length (encs ts) \<le> the (fdt_totalsize m)"
    using assms by (simp_all add: holds_def)
  obtain os' ts' v ss where h: "fdt_totalsize m = Some ts'" "fdt_version m = Some v" "ts' \<le> length m"
    by (rule complete_header [OF c(1)])
  then have "os + length (encs ts) + 4 \<le> 2 ^ 31" using c(1,4) by (simp add: complete_def)
  with c h show thesis by (intro that) simp_all
qed

text \<open>Every range of the structure block can be accessed.\<close>

lemma holds_ptr:
  assumes "holds m os ts" and "off + len \<le> length (encs ts)"
  shows "fdt_offset_ptr m (int off) len = Some (Some (os + off))"
proof -
  obtain ts' v where h: "fdt_off_dt_struct m = Some os" "fdt_totalsize m = Some ts'" "fdt_version m = Some v"
    "fdt_size_dt_struct m = Some (length (encs ts))" "os + length (encs ts) \<le> ts'" "os + length (encs ts) + 4 \<le> 2 ^ 31"
    by (rule holds_header [OF assms(1)])
  have "u32_of (int off) = off" using h(6) assms(2) by (simp add: u32_of_small)
  then show ?thesis using h assms(2) by (simp add: fdt_offset_ptr_def Let_def add.commute)
qed

lemma holds_ptr_outside:
  assumes "holds m os ts" and "length (encs ts) < off + len" and "off \<le> length (encs ts)" and "len < 2 ^ 31" and "17 \<le> the (fdt_version m)"
  shows "fdt_offset_ptr m (int off) len = Some None"
proof -
  obtain ts' v where h: "fdt_off_dt_struct m = Some os" "fdt_totalsize m = Some ts'" "fdt_version m = Some v"
    "fdt_size_dt_struct m = Some (length (encs ts))" "os + length (encs ts) \<le> ts'" "os + length (encs ts) + 4 \<le> 2 ^ 31"
    by (rule holds_header [OF assms(1)])
  have "u32_of (int off) = off" using h(6) assms(3) by (simp add: u32_of_small)
  then show ?thesis using h assms by (auto simp: fdt_offset_ptr_def Let_def add.commute)
qed

text \<open>Reading at an offset of the block.\<close>

lemma holds_drop:
  assumes "holds m os (pre @ t # post)"
  shows "prefix (enc t @ encs post) (drop (os + length (encs pre)) m)"
proof -
  from assms obtain r where "drop os m = encs pre @ enc t @ encs post @ r" by (auto simp: holds_def prefix_def)
  then have "drop (length (encs pre)) (drop os m) = enc t @ encs post @ r" by simp
  then show ?thesis by (simp add: add.commute)
qed

lemma fdt32_prefix: "n < 2 ^ 32 \<Longrightarrow> prefix (be32 n) (drop i m) \<Longrightarrow> fdt32_to_cpu m i = Some n"
proof -
  assume n: "n < 2 ^ 32" and "prefix (be32 n) (drop i m)"
  then obtain r where r: "drop i m = be32 n @ r" by (auto simp: prefix_def)
  then have "4 \<le> length m - i" by (metis length_append length_be32 length_drop le_add1)
  then have "i + 4 \<le> length m" by linarith
  then show "fdt32_to_cpu m i = Some n" using r n by (simp add: fdt32_to_cpu_def be_nat_be32)
qed

section \<open>One tag\<close>

lemma rd_drop: "drop i m = c # r \<Longrightarrow> rd m i = Some c"
  by (cases "i < length m") (auto simp: rd_def Cons_nth_drop_Suc [symmetric])

lemma drop_SucD: "drop i m = c # r \<Longrightarrow> drop (Suc i) m = r"
  by (metis drop_Suc list.sel(3) tl_drop)

lemma s32_nat: "n < 2 ^ 31 \<Longrightarrow> s32 (int n) = int n"
  by (simp add: s32_small)

lemma holds_bound: "holds m os ts \<Longrightarrow> os + length (encs ts) + 4 \<le> 2 ^ 31"
  by (erule holds_header)

lemma skip_name_run:
  assumes "holds m os ts" and "prefix (nm @ [NUL]) (drop (os + off) m)" and "NUL \<notin> set nm" and "off + length nm + 1 \<le> length (encs ts)"
  shows "skip_name m (int off) = Some (Some (int (off + length nm + 1)))"
  using assms(2-4)
proof (induction nm arbitrary: off)
  case (Cons c nm)
  obtain r where r: "drop (os + off) m = c # nm @ [NUL] @ r" using Cons.prems(1) by (auto simp: prefix_def)
  from drop_SucD [OF r] have "skip_name m (int (Suc off)) = Some (Some (int (Suc off + length nm + 1)))"
    using Cons.prems by (intro Cons.IH) simp_all
  moreover have "s32 (int off + 1) = int (Suc off)"
    using holds_bound [OF assms(1)] Cons.prems(3) s32_nat [of "Suc off"] by (simp add: add.commute)
  ultimately show ?case using holds_ptr [OF assms(1), of off 1] Cons.prems rd_drop [OF r]
    by (subst skip_name.simps) auto
next
  case Nil
  then obtain r where r: "drop (os + off) m = NUL # r" by (auto simp: prefix_def)
  moreover have "s32 (int off + 1) = int (Suc off)"
    using holds_bound [OF assms(1)] Nil.prems(3) s32_nat [of "Suc off"] by (simp add: add.commute)
  ultimately show ?case using holds_ptr [OF assms(1), of off 1] Nil.prems rd_drop [OF r]
    by (subst skip_name.simps) simp
qed

lemma align_enc:
  assumes "4 dvd off" and "off + length (enc t) + 4 \<le> 2 ^ 31"
  shows "FDT_TAGALIGN (int (off + 4 + length (body t))) = int (off + length (enc t))"
proof -
  let ?x = "int (off + 4 + length (body t))" and ?y = "int (off + length (enc t))"
  have b: "off + 4 + length (body t) + 4 \<le> 2 ^ 31" using length_enc(2) [of t] assms(2) by simp
  then have "FDT_TAGALIGN ?x = (?x + 3) div 4 * 4" by (intro TAGALIGN_small(1)) simp_all
  moreover have "4 dvd ?y" using assms(1) length_enc(1) [of t] by (metis dvd_add of_nat_dvd_iff of_nat_numeral)
  then obtain k where "?y = 4 * k" by (rule dvdE)
  moreover have "?x \<le> ?y" "?y < ?x + 4" using length_enc(2,3) [of t] by simp_all
  ultimately show ?thesis by presburger
qed

lemma code_of_less: "code_of t < 2 ^ 32"
  by (cases t) (simp_all add: fdt_tags)

lemma next_tag_at:
  assumes "holds m os (pre @ t # post)"
  shows "fdt_next_tag m (int (length (encs pre))) = Some (code_of t, int (length (encs pre) + length (enc t)))"
proof -
  let ?o = "length (encs pre)" and ?ts = "pre @ t # post"
  note ptr = holds_ptr [OF assms] and bound = holds_bound [OF assms]
  obtain r where r: "drop (os + ?o) m = be32 (code_of t) @ padded (body t) @ encs post @ r"
    using holds_drop [OF assms] by (auto simp: prefix_def enc_def)
  have r4: "drop (os + (?o + 4)) m = padded (body t) @ encs post @ r"
    using arg_cong [OF r, of "drop 4"] by (simp add: add_ac)
  have tag: "fdt32_to_cpu m (os + ?o) = Some (code_of t)" using r code_of_less [of t] by (intro fdt32_prefix) simp_all
  have len: "?o + length (enc t) \<le> length (encs ?ts)" "4 \<le> length (enc t)" "4 + length (body t) \<le> length (enc t)"
    using length_enc(2) [of t] by simp_all
  have small: "?o + 4 + length (body t) < 2 ^ 31" using bound len by simp
  have ok: "tag_ok t" using assms by (simp add: holds_def)
  have skip: "skip_body m (code_of t) (int (?o + 4)) = Some (Some (int (?o + 4 + length (body t))))"
  proof (cases t)
    case (Begin nm)
    then have "prefix (nm @ [NUL]) (drop (os + (?o + 4)) m)" unfolding r4 by (simp add: padded_def)
    then show ?thesis using skip_name_run [OF assms, of nm "?o + 4"] Begin ok len by (simp add: skip_body_def)
  next
    case (Prop no v)
    then have "prefix (be32 (length v)) (drop (os + (?o + 4)) m)" unfolding r4 by (simp add: padded_def)
    then have "fdt32_to_cpu m (os + (?o + 4)) = Some (length v)" using Prop small by (intro fdt32_prefix) simp_all
    moreover have "fdt_offset_ptr m (int (?o + 4)) 4 = Some (Some (os + (?o + 4)))" using Prop len by (intro ptr) simp
    moreover have "s32 (int (?o + 4) + 8 + int (length v)) = int (?o + 4 + length (body t))"
      using small Prop s32_nat [of "?o + 4 + length (body t)"] by (simp add: add_ac)
    ultimately show ?thesis using Prop by (simp add: skip_body_def fdt_tags)
  qed (simp_all add: skip_body_def fdt_tags)
  have p: "fdt_offset_ptr m (int ?o) 4 = Some (Some (os + ?o))"
    "fdt_offset_ptr m (int ?o) (4 + length (body t)) = Some (Some (os + ?o))" using len by (simp_all only: ptr) 
  have "u32_of (int (?o + 4 + length (body t)) - int ?o) = 4 + length (body t)" using small by (simp add: u32_of_small nat_add_distrib)
  moreover have "s32 (int ?o + 4) = int (?o + 4)" using small s32_nat [of "?o + 4"] by (simp add: add.commute)
  moreover have "FDT_TAGALIGN (int (?o + 4 + length (body t))) = int (?o + length (enc t))"
    using bound len by (intro align_enc encs_aligned) simp
  ultimately show ?thesis using p tag skip by (simp add: fdt_next_tag_def)
qed

section \<open>Trees\<close>

datatype node = Node (nname: string) (nprops: "(nat \<times> char list) list") (nkids: "node list")

definition head_tags :: "string \<Rightarrow> (nat \<times> char list) list \<Rightarrow> tag list" where
  "head_tags nm ps = Begin nm # map (\<lambda>(no, v). Prop no v) ps"

fun tags :: "node \<Rightarrow> tag list" where
  "tags (Node nm ps cs) = head_tags nm ps @ concat (map tags cs) @ [End_node]"

abbreviation len_of :: "tag list \<Rightarrow> nat" where
  "len_of ts \<equiv> length (encs ts)"

text \<open>The nodes of a tree in the order of the blob: offset, depth, name.\<close>

fun nodes :: "nat \<Rightarrow> int \<Rightarrow> node \<Rightarrow> (nat \<times> int \<times> string) list"
  and forest :: "nat \<Rightarrow> int \<Rightarrow> node list \<Rightarrow> (nat \<times> int \<times> string) list" where
  "nodes off d (Node nm ps cs) = (off, d, nm) # forest (off + len_of (head_tags nm ps)) (d + 1) cs"
| "forest off d [] = []"
| "forest off d (c # cs) = nodes off d c @ forest (off + len_of (tags c)) d cs"

text \<open>What \<open>fdt_next_node\<close> returns along such a list: the next element, and \<open>k\<close> after the last.\<close>

definition first_of :: "(nat \<times> int \<times> string) list \<Rightarrow> (int \<times> int option) option \<Rightarrow> (int \<times> int option) option" where
  "first_of xs k = (case xs of [] \<Rightarrow> k | (o1, d, nm) # _ \<Rightarrow> Some (int o1, Some d))"

primrec steps :: "char list \<Rightarrow> (nat \<times> int \<times> string) list \<Rightarrow> (int \<times> int option) option \<Rightarrow> bool" where
  "steps m [] k \<longleftrightarrow> True"
| "steps m (x # xs) k \<longleftrightarrow> fdt_next_node m (int (fst x)) (Some (fst (snd x))) = first_of xs k \<and> steps m xs k"

lemma first_of_append: "first_of (xs @ ys) k = first_of xs (first_of ys k)"
  by (cases xs) (simp_all add: first_of_def)

lemma steps_append: "steps m (xs @ ys) k \<longleftrightarrow> steps m xs (first_of ys k) \<and> steps m ys k"
  by (induction xs) (auto simp: first_of_append)

lemma loop_at:
  assumes "holds m os (pre @ t # post)"
  shows "next_node_loop m (int (len_of pre)) (Some d) =
    (case t of Begin nm \<Rightarrow> Some (int (len_of pre), Some (d + 1))
     | Prop no v \<Rightarrow> next_node_loop m (int (len_of (pre @ [t]))) (Some d)
     | End_node \<Rightarrow> if d - 1 < 0 then Some (int (len_of (pre @ [t])), Some (d - 1))
                 else next_node_loop m (int (len_of (pre @ [t]))) (Some (d - 1))
     | End \<Rightarrow> Some (- FDT_ERR_NOTFOUND, Some d))"
  by (subst next_node_loop.simps) (simp add: next_tag_at [OF assms] fdt_tags split: tag.split)

lemma loop_props:
  "holds m os (pre @ map (\<lambda>(no, v). Prop no v) ps @ post) \<Longrightarrow>
     next_node_loop m (int (len_of pre)) (Some d) = next_node_loop m (int (len_of (pre @ map (\<lambda>(no, v). Prop no v) ps))) (Some d)"
proof (induction ps arbitrary: pre)
  case (Cons p ps)
  obtain no v where p: "p = (no, v)" by fastforce
  have "holds m os ((pre @ [Prop no v]) @ map (\<lambda>(no, v). Prop no v) ps @ post)" using Cons.prems p by simp
  from Cons.IH [OF this] show ?case using loop_at [of m os pre "Prop no v"] Cons.prems p by simp
qed simp

lemma check_node_at:
  assumes "holds m os (pre @ Begin nm # post)"
  shows "fdt_check_node_offset m (int (len_of pre)) = Some (int (len_of (pre @ [Begin nm])))"
proof -
  have "len_of pre < 2 ^ 31" using holds_bound [OF assms] by simp
  then have "u32_of (int (len_of pre)) = len_of pre" by (simp add: u32_of_small)
  then show ?thesis using encs_aligned [of pre] next_tag_at [OF assms] by (simp add: fdt_check_node_offset_def fdt_tags)
qed

lemma next_node_at:
  assumes "holds m os (pre @ head_tags nm ps @ post)"
  shows "fdt_next_node m (int (len_of pre)) (Some d) = next_node_loop m (int (len_of (pre @ head_tags nm ps))) (Some d)"
  using check_node_at [of m os pre nm] loop_props [of m os "pre @ [Begin nm]" ps post d] assms
  by (simp add: fdt_next_node_def head_tags_def)

lemma steps_tree:
  shows "\<And>pre post d k. holds m os (pre @ tags t @ post) \<Longrightarrow> 0 \<le> d \<Longrightarrow>
    k = (if d = 0 then Some (int (len_of (pre @ tags t)), Some (-1)) else next_node_loop m (int (len_of (pre @ tags t))) (Some (d - 1))) \<Longrightarrow>
    steps m (nodes (len_of pre) d t) k"
proof (induction t)
  case (Node nm ps cs)
  have forest: "steps m (forest (len_of pre) d ts) k \<and> next_node_loop m (int (len_of pre)) (Some (d - 1)) = first_of (forest (len_of pre) d ts) k"
    if "set ts \<subseteq> set cs" "holds m os (pre @ concat (map tags ts) @ post)" "1 \<le> d"
      "k = next_node_loop m (int (len_of (pre @ concat (map tags ts)))) (Some (d - 1))" for pre post ts d k
    using that
  proof (induction ts arbitrary: pre)
    case Nil
    then show ?case by (simp add: first_of_def)
  next
    case (Cons c ts)
    obtain nm ps ks where c: "c = Node nm ps ks" by (cases c)
    have h1: "holds m os (pre @ tags c @ concat (map tags ts) @ post)" "holds m os ((pre @ tags c) @ concat (map tags ts) @ post)"
      using Cons.prems(2) by simp_all
    have rest: "steps m (forest (len_of (pre @ tags c)) d ts) k
        \<and> next_node_loop m (int (len_of (pre @ tags c))) (Some (d - 1)) = first_of (forest (len_of (pre @ tags c)) d ts) k"
      using Cons.prems h1(2) by (intro Cons.IH) simp_all
    have "steps m (nodes (len_of pre) d c) (next_node_loop m (int (len_of (pre @ tags c))) (Some (d - 1)))"
      using Cons.prems by (intro Node.IH [OF _ h1(1)]) simp_all
    moreover have "next_node_loop m (int (len_of pre)) (Some (d - 1)) = first_of (nodes (len_of pre) d c) k'" for k'
      using loop_at [of m os pre "Begin nm" _ "d - 1"] h1(1) by (simp add: c head_tags_def first_of_def)
    ultimately show ?case using rest by (simp add: steps_append first_of_append)
  qed
  let ?pre = "pre @ head_tags nm ps" and ?body = "concat (map tags cs)"
  have h: "holds m os (?pre @ ?body @ End_node # post)" using Node.prems(1) by simp
  have "k = next_node_loop m (int (len_of (?pre @ ?body))) (Some d)"
    using loop_at [of m os "?pre @ ?body" End_node post d] h Node.prems(2,3) by simp
  then have "steps m (forest (len_of ?pre) (d + 1) cs) k \<and> next_node_loop m (int (len_of ?pre)) (Some d) = first_of (forest (len_of ?pre) (d + 1) cs) k"
    using forest [OF _ h, of "d + 1" k] Node.prems(2) by simp
  moreover have "fdt_next_node m (int (len_of pre)) (Some d) = next_node_loop m (int (len_of ?pre)) (Some d)"
    using Node.prems(1) by (intro next_node_at) simp
  ultimately show ?case by simp
qed

section \<open>Names of nodes\<close>

text \<open>A name without a unit address also finds the node with one.\<close>

definition name_matches :: "string \<Rightarrow> string \<Rightarrow> bool" where
  "name_matches s nm \<longleftrightarrow> nm = s \<or> CHR ''@'' \<notin> set s \<and> prefix (s @ ''@'') nm"

lemma cdiff_zero: "cdiff c d = 0 \<longleftrightarrow> c = d"
  by (simp add: cdiff_def)

lemma memcmp_name:
  "NUL \<notin> set s \<Longrightarrow> \<exists>k. memcmp (nm @ NUL # r) (s @ x) (length s) = Some k \<and> (k = 0 \<longleftrightarrow> prefix s nm)"
proof (induction s arbitrary: nm)
  case (Cons c s)
  then show ?case by (cases nm) (auto simp: cdiff_zero Let_def)
qed simp

lemma memchr_defined: "n \<le> length s \<Longrightarrow> memchr s c n = Some (if c \<in> set (take n s) then Some (length (takeWhile (\<lambda>x. x \<noteq> c) s)) else None)"
  by (induction s c n rule: memchr.induct) auto

lemma nodename_eq_at:
  assumes "holds m os (pre @ Begin nm # post)" and "NUL \<notin> set s" and "length s + 1 < 2 ^ 32"
  shows "fdt_nodename_eq m (int (len_of pre)) (s @ x) (length s) = Some (name_matches s nm)"
proof -
  let ?o = "len_of pre + 4"
  obtain r where "drop (os + len_of pre) m = be32 FDT_BEGIN_NODE @ padded (nm @ [NUL]) @ r"
    using holds_drop [OF assms(1)] by (auto simp: prefix_def enc_def)
  from arg_cong [OF this, of "drop 4"] obtain r where r: "drop (os + ?o) m = nm @ NUL # r" by (simp add: padded_def add_ac)
  obtain k where k: "memcmp (nm @ NUL # r) (s @ x) (length s) = Some k" "k = 0 \<longleftrightarrow> prefix s nm"
    using memcmp_name [OF assms(2)] by blast
  have o: "s32 (int (len_of pre) + 4) = int ?o" "u32_of (int ?o) = ?o" "complete m" "fdt_off_dt_struct m = Some os"
    using holds_bound [OF assms(1)] length_enc(2) [of "Begin nm"] s32_nat [of ?o] assms(1)
    by (simp_all add: u32_of_small add.commute holds_def)
  obtain p where p: "fdt_offset_ptr m (int ?o) (length s + 1) = Some p" using offset_ptr_defined [OF o(3)] by blast
  show ?thesis
  proof (cases "prefix s nm")
    case True
    then obtain u where u: "nm = s @ u" by (auto simp: prefix_def)
    have "fdt_offset_ptr m (int ?o) (length s + 1) = Some (Some (os + ?o))"
      using length_enc(2) [of "Begin nm"] u by (intro holds_ptr [OF assms(1)]) simp
    moreover have "rd m (os + ?o + length s) = Some (case u of [] \<Rightarrow> NUL | c # _ \<Rightarrow> c)"
      using arg_cong [OF r, of "drop (length s)"] u by (cases u) (auto simp: add_ac intro!: rd_drop)
    moreover have "NUL \<notin> set nm" using assms(1) by (simp add: holds_def)
    ultimately show ?thesis using k True u
      by (auto simp: fdt_nodename_eq_def o r memchr_defined name_matches_def split: list.split)
  next
    case False
    then have "\<not> name_matches s nm" by (auto simp: name_matches_def dest: append_prefixD)
    moreover have "i = os + ?o" if "p = Some i" for i
      using offset_ptr_inside(2) [OF o(3) p [unfolded that] assms(3)] o(2,4) by auto
    ultimately show ?thesis using k False r by (cases p) (auto simp: fdt_nodename_eq_def o p [simplified])
  qed
qed

section \<open>Children\<close>

definition located :: "char list \<Rightarrow> nat \<Rightarrow> (nat \<times> int \<times> string) list \<Rightarrow> bool" where
  "located m os xs \<longleftrightarrow> (\<forall>(o1, d, nm) \<in> set xs. 0 \<le> d \<and> (\<exists>pre post. holds m os (pre @ Begin nm # post) \<and> o1 = len_of pre))"

lemma located_simps [simp]:
  "located m os []" "located m os (xs @ ys) \<longleftrightarrow> located m os xs \<and> located m os ys"
  "located m os ((o1, d, nm) # xs) \<longleftrightarrow> 0 \<le> d \<and> (\<exists>pre post. holds m os (pre @ Begin nm # post) \<and> o1 = len_of pre) \<and> located m os xs"
  by (simp_all add: located_def ball_Un)

lemma located_nodes: "holds m os (pre @ tags t @ post) \<Longrightarrow> 0 \<le> d \<Longrightarrow> located m os (nodes (len_of pre) d t)"
proof (induction t arbitrary: pre post d)
  case (Node nm ps cs)
  have forest: "located m os (forest (len_of pre) d ts)"
    if "set ts \<subseteq> set cs" "holds m os (pre @ concat (map tags ts) @ post)" "0 \<le> d" for pre post ts d
    using that
  proof (induction ts arbitrary: pre)
    case (Cons c ts)
    have "located m os (nodes (len_of pre) d c)"
      using Cons.prems by (intro Node.IH [of c pre "concat (map tags ts) @ post"]) simp_all
    moreover have "located m os (forest (len_of (pre @ tags c)) d ts)" using Cons.prems by (intro Cons.IH) simp_all
    ultimately show ?case by simp
  qed simp
  have "located m os (forest (len_of (pre @ head_tags nm ps)) (d + 1) cs)"
    using Node.prems by (intro forest [where post = "End_node # post"]) simp_all
  moreover have "holds m os (pre @ Begin nm # (map (\<lambda>(no, v). Prop no v) ps @ concat (map tags cs) @ End_node # post))"
    using Node.prems(1) by (simp add: head_tags_def)
  ultimately show ?case using Node.prems(2) by auto
qed

lemma subnode_loop_run:
  assumes "steps m (x # xs) (Some (e, Some (-1)))" and "located m os (x # xs)" and "NUL \<notin> set s" and "length s + 1 < 2 ^ 32"
  shows "subnode_loop m (int (fst x)) (fst (snd x)) (s @ r) (length s) =
    Some (case find (\<lambda>(o1, d, nm). d = 1 \<and> name_matches s nm) (x # xs) of Some (o1, _) \<Rightarrow> int o1 | None \<Rightarrow> - FDT_ERR_NOTFOUND)"
  using assms(1,2)
proof (induction xs arbitrary: x)
  case Nil
  obtain o1 d nm where x: "x = (o1, d, nm)" by (metis prod_cases3)
  then obtain pre post where h: "holds m os (pre @ Begin nm # post)" "o1 = len_of pre" "0 \<le> d" using Nil.prems(2) by auto
  have "subnode_loop m e (-1) (s @ r) (length s) = Some (- FDT_ERR_NOTFOUND)" by (subst subnode_loop.simps) simp
  then show ?case using Nil.prems(1) h nodename_eq_at [OF h(1) assms(3,4)] x
    by (subst subnode_loop.simps) (auto simp: first_of_def)
next
  case (Cons y xs)
  obtain o1 d nm o2 d2 nm2 where x: "x = (o1, d, nm)" and y: "y = (o2, d2, nm2)" by (metis prod_cases3)
  then obtain pre post where h: "holds m os (pre @ Begin nm # post)" "o1 = len_of pre" "0 \<le> d" using Cons.prems(2) by auto
  have "steps m (y # xs) (Some (e, Some (-1)))" "located m os (y # xs)" using Cons.prems x by simp_all
  note IH = Cons.IH [OF this]
  show ?case using Cons.prems(1) h nodename_eq_at [OF h(1) assms(3,4)] IH x y
    by (subst subnode_loop.simps) (auto simp: first_of_def)
qed

fun kids :: "nat \<Rightarrow> node list \<Rightarrow> (nat \<times> node) list" where
  "kids off [] = []"
| "kids off (c # cs) = (off, c) # kids (off + len_of (tags c)) cs"

definition kids_of :: "nat \<Rightarrow> node \<Rightarrow> (nat \<times> node) list" where
  "kids_of off t = kids (off + len_of (head_tags (nname t) (nprops t))) (nkids t)"

lemma nodes_deeper: "(o1, d1, nm1) \<in> set (nodes off d t) \<Longrightarrow> d \<le> d1"
  "(o1, d1, nm1) \<in> set (forest off d ts) \<Longrightarrow> d \<le> d1"
  by (induction off d t and off d ts rule: nodes_forest.induct) force+

lemma find_append: "find P (xs @ ys) = (case find P xs of None \<Rightarrow> find P ys | Some x \<Rightarrow> Some x)"
  by (induction xs) simp_all

lemma find_kids:
  "find (\<lambda>(o1, d, nm). d = d0 \<and> Q nm) (forest off d0 cs) = map_option (\<lambda>(o1, c). (o1, d0, nname c)) (find (\<lambda>(o1, c). Q (nname c)) (kids off cs))"
proof (induction cs arbitrary: off)
  case (Cons c cs)
  obtain nm ps ks where c: "c = Node nm ps ks" by (cases c)
  have "find (\<lambda>(o1, d, nm). d = d0 \<and> Q nm) (forest (off + len_of (head_tags nm ps)) (d0 + 1) ks) = None"
    using nodes_deeper(2) [of _ _ _ _ "d0 + 1" ks] by (fastforce simp: find_None_iff)
  then have "find (\<lambda>(o1, d, nm). d = d0 \<and> Q nm) (nodes off d0 c @ xs) =
      (if Q nm then Some (off, d0, nm) else find (\<lambda>(o1, d, nm). d = d0 \<and> Q nm) xs)" for xs
    by (simp add: c find_append)
  then show ?case using Cons.IH by (simp add: c)
qed simp

lemma subnode_offset_at:
  assumes "holds m os (pre @ tags t @ post)" and "NUL \<notin> set s" and "length s + 1 < 2 ^ 32"
  shows "fdt_subnode_offset_namelen m (int (len_of pre)) (s @ r) (length s) =
    Some (case find (\<lambda>(o1, c). name_matches s (nname c)) (kids_of (len_of pre) t) of Some (o1, _) \<Rightarrow> int o1 | None \<Rightarrow> - FDT_ERR_NOTFOUND)"
proof -
  obtain nm ps cs where t: "t = Node nm ps cs" by (cases t)
  let ?x = "(len_of pre, 0, nm)" and ?xs = "forest (len_of pre + len_of (head_tags nm ps)) 1 cs"
  have n: "nodes (len_of pre) 0 t = ?x # ?xs" by (simp add: t)
  obtain e where "steps m (?x # ?xs) (Some (e, Some (-1)))" using steps_tree [OF assms(1), of 0, OF _ refl] unfolding n by auto
  moreover have "located m os (?x # ?xs)" using located_nodes [OF assms(1), of 0] unfolding n by simp
  ultimately have "subnode_loop m (int (len_of pre)) 0 (s @ r) (length s) =
      Some (case find (\<lambda>(o1, d, nm). d = 1 \<and> name_matches s nm) ?xs of Some (o1, _) \<Rightarrow> int o1 | None \<Rightarrow> - FDT_ERR_NOTFOUND)"
    using subnode_loop_run [OF _ _ assms(2,3), of m ?x ?xs e os r] by simp
  moreover have "fdt_check_header m = Some 0" using assms(1) by (simp add: holds_def)
  ultimately show ?thesis using find_kids [of 1 "name_matches s" _ cs]
    by (simp add: fdt_subnode_offset_namelen_def t kids_of_def case_map_option case_prod_beta split: option.split)
qed

section \<open>Properties\<close>

definition str_pos :: "char list \<Rightarrow> nat \<Rightarrow> nat" where
  "str_pos m no = (the (fdt_off_dt_strings m) + no) mod 2 ^ 32"

definition str_at :: "char list \<Rightarrow> nat \<Rightarrow> string" where
  "str_at m no = takeWhile (\<lambda>c. c \<noteq> NUL) (drop (str_pos m no) m)"

text \<open>The names of all properties end within the object.\<close>

definition named :: "char list \<Rightarrow> (nat \<times> char list) list \<Rightarrow> bool" where
  "named m ps \<longleftrightarrow> (\<forall>(no, v) \<in> set ps. NUL \<in> set (drop (str_pos m no) m))"

lemma split_at_NUL: "NUL \<in> set bs \<Longrightarrow> \<exists>r. bs = takeWhile (\<lambda>c. c \<noteq> NUL) bs @ NUL # r"
  by (induction bs) auto

lemma strnlen_run: "NUL \<notin> set s \<Longrightarrow> strnlen (s @ NUL # r) n = Some (min n (length s))"
proof (induction s arbitrary: n)
  case Nil
  then show ?case by (cases n) simp_all
next
  case (Cons c s)
  then show ?case by (cases n) auto
qed

lemma string_eq_at:
  assumes "complete m" and "NUL \<in> set (drop (str_pos m no) m)" and "NUL \<notin> set s"
  shows "fdt_string_eq m no (s @ x) (length s) = Some (str_at m no = s)"
proof -
  obtain r where r: "drop (str_pos m no) m = str_at m no @ NUL # r" using split_at_NUL [OF assms(2)] by (auto simp: str_at_def)
  have n: "NUL \<notin> set (str_at m no)" by (auto simp: str_at_def dest: set_takeWhileD)
  have "\<exists>os. fdt_off_dt_strings m = Some os" using assms(1) by (simp add: complete_def fdt_off_dt_strings_def fdt32_to_cpu_def)
  then have p: "fdt_string m no = Some (str_pos m no)" by (auto simp: fdt_string_def str_pos_def)
  obtain k where "memcmp (str_at m no @ NUL # r) (s @ x) (length s) = Some k" "k = 0 \<longleftrightarrow> prefix s (str_at m no)"
    using memcmp_name [OF assms(3)] by blast
  moreover have "prefix s (str_at m no) \<longleftrightarrow> str_at m no = s" if "length (str_at m no) = length s"
    using that by (auto simp: prefix_def)
  ultimately show ?thesis using strnlen_run [OF n, of r "length s + 1"]
    by (auto simp: fdt_string_eq_def p r min_def)
qed

fun prop_offs :: "nat \<Rightarrow> (nat \<times> char list) list \<Rightarrow> (nat \<times> nat \<times> char list) list" where
  "prop_offs off [] = []"
| "prop_offs off ((no, v) # ps) = (off, no, v) # prop_offs (off + length (enc (Prop no v))) ps"

abbreviation props :: "(nat \<times> char list) list \<Rightarrow> tag list" where
  "props ps \<equiv> map (\<lambda>(no, v). Prop no v) ps"

definition closes :: "tag \<Rightarrow> bool" where
  "closes t \<longleftrightarrow> code_of t = FDT_BEGIN_NODE \<or> code_of t = FDT_END_NODE"

lemma nextprop_at:
  assumes "holds m os (pre @ props ps @ t # post)" and "closes t"
  shows "nextprop m (int (len_of pre)) = Some (case ps of [] \<Rightarrow> - FDT_ERR_NOTFOUND | _ \<Rightarrow> int (len_of pre))"
proof (cases ps)
  case Nil
  then show ?thesis using next_tag_at [of m os pre t post] assms by (subst nextprop.simps) (auto simp: closes_def fdt_tags)
next
  case (Cons p qs)
  obtain no v where p: "p = (no, v)" by fastforce
  show ?thesis using next_tag_at [of m os pre "Prop no v"] assms(1) by (subst nextprop.simps) (simp add: Cons p fdt_tags)
qed

lemma prop_fields:
  assumes "holds m os (pre @ Prop no v # post)"
  shows "fdt32_to_cpu m (os + len_of pre + 4) = Some (length v)" "fdt32_to_cpu m (os + len_of pre + 8) = Some no"
    "prefix v (drop (os + len_of pre + 12) m)"
    "fdt_check_prop_offset m (int (len_of pre)) = Some (int (len_of (pre @ [Prop no v])))" "length v < 2 ^ 31"
proof -
  obtain r where r: "drop (os + len_of pre) m = be32 FDT_PROP @ be32 (length v) @ be32 no @ v @ r"
    using holds_drop [OF assms] by (auto simp: prefix_def enc_def padded_def)
  have no: "no < 2 ^ 32" using assms by (simp add: holds_def)
  show v: "length v < 2 ^ 31" using holds_bound [OF assms] length_enc(2) [of "Prop no v"] by simp
  have "drop (os + len_of pre + 4) m = be32 (length v) @ be32 no @ v @ r" "drop (os + len_of pre + 8) m = be32 no @ v @ r"
    "drop (os + len_of pre + 12) m = v @ r"
    using arg_cong [OF r, of "drop 4"] arg_cong [OF r, of "drop 8"] arg_cong [OF r, of "drop 12"] by (simp_all add: add_ac)
  then show "fdt32_to_cpu m (os + len_of pre + 4) = Some (length v)" "fdt32_to_cpu m (os + len_of pre + 8) = Some no"
    "prefix v (drop (os + len_of pre + 12) m)" using v no by (auto intro!: fdt32_prefix)
  have "u32_of (int (len_of pre)) = len_of pre" using holds_bound [OF assms] by (simp add: u32_of_small)
  then show "fdt_check_prop_offset m (int (len_of pre)) = Some (int (len_of (pre @ [Prop no v])))"
    using encs_aligned [of pre] next_tag_at [OF assms] by (simp add: fdt_check_prop_offset_def fdt_tags)
qed

lemma get_property_run:
  assumes "holds m os (pre @ props ps @ t # post)" and "closes t" and "named m ps" and "NUL \<notin> set s"
  shows "get_property_loop m (case ps of [] \<Rightarrow> - FDT_ERR_NOTFOUND | _ \<Rightarrow> int (len_of pre)) (s @ x) (length s) =
    Some (case find (\<lambda>(o1, no, v). str_at m no = s) (prop_offs (len_of pre) ps) of
            Some (o1, no, v) \<Rightarrow> (Some (os + o1), int (length v)) | None \<Rightarrow> (None, - FDT_ERR_NOTFOUND))"
  using assms(1,3)
proof (induction ps arbitrary: pre)
  case Nil
  show ?case by (subst get_property_loop.simps) (simp add: fdt_errors)
next
  case (Cons p ps)
  obtain no v where p: "p = (no, v)" by fastforce
  have h: "holds m os (pre @ Prop no v # props ps @ t # post)" "holds m os ((pre @ [Prop no v]) @ props ps @ t # post)"
    using Cons.prems(1) p by simp_all
  note f = prop_fields [OF h(1)]
  have c: "complete m" "fdt_off_dt_struct m = Some os" using h(1) by (simp_all add: holds_def)
  have "fdt_next_property_offset m (int (len_of pre)) = Some (case ps of [] \<Rightarrow> - FDT_ERR_NOTFOUND | _ \<Rightarrow> int (len_of (pre @ [Prop no v])))"
    using nextprop_at [OF h(2) assms(2)] f(4) by (simp add: fdt_next_property_offset_def)
  moreover have "fdt_get_property_by_offset m (int (len_of pre)) = Some (Some (os + len_of pre), int (length v))"
    using f c s32_nat [of "length v"] by (simp add: fdt_get_property_by_offset_def Let_def add_ac)
  moreover have "fdt_string_eq m no (s @ x) (length s) = Some (str_at m no = s)"
    using Cons.prems(2) p by (intro string_eq_at c assms(4)) (simp add: named_def)
  moreover have "named m ps" using Cons.prems(2) by (simp add: named_def)
  note Cons.IH [OF h(2) this]
  ultimately show ?case using f(2) p by (subst get_property_loop.simps) simp
qed

lemma prop_offs_located:
  "(o1, no, v) \<in> set (prop_offs (len_of pre) ps) \<Longrightarrow> holds m os (pre @ props ps @ post) \<Longrightarrow> prefix v (drop (os + o1 + 12) m)"
proof (induction ps arbitrary: pre)
  case (Cons p ps)
  obtain no' v' where p: "p = (no', v')" by fastforce
  show ?case using Cons.prems Cons.IH [of "pre @ [Prop no' v']"] prop_fields(3) [of m os pre no' v'] p by auto
qed simp

lemma holds_node:
  assumes "holds m os (pre @ tags t @ post)"
  obtains t' post' where "holds m os ((pre @ [Begin (nname t)]) @ props (nprops t) @ t' # post')" "closes t'"
    "holds m os (pre @ Begin (nname t) # props (nprops t) @ t' # post')"
proof (cases t)
  case (Node nm ps cs)
  then have h: "holds m os ((pre @ [Begin (nname t)]) @ props (nprops t) @ (concat (map tags cs) @ End_node # post))"
    using assms by (simp add: head_tags_def)
  show thesis
  proof (cases cs)
    case Nil
    then show thesis using h by (intro that [of End_node post]) (simp_all add: closes_def)
  next
    case (Cons c ds)
    obtain nm2 ps2 cs2 where "c = Node nm2 ps2 cs2" by (cases c)
    then show thesis using h Cons by (intro that [of "Begin nm2"]) (simp_all add: closes_def head_tags_def)
  qed
qed

text \<open>The value of the first property of that name.\<close>

lemma getprop_at:
  assumes "holds m os (pre @ tags t @ post)" and "named m (nprops t)" and "NUL \<notin> set s"
  shows "fdt_getprop_namelen m (int (len_of pre)) (s @ x) (length s) =
    Some (case find (\<lambda>(o1, no, v). str_at m no = s) (prop_offs (len_of (pre @ [Begin (nname t)])) (nprops t)) of
            Some (o1, no, v) \<Rightarrow> (Some (os + o1 + 12), int (length v)) | None \<Rightarrow> (None, - FDT_ERR_NOTFOUND))"
proof -
  obtain t' post' where h: "holds m os ((pre @ [Begin (nname t)]) @ props (nprops t) @ t' # post')" "closes t'"
    "holds m os (pre @ Begin (nname t) # props (nprops t) @ t' # post')" by (rule holds_node [OF assms(1)])
  show ?thesis using check_node_at [OF h(3)] nextprop_at [OF h(1,2)] get_property_run [OF h(1,2) assms(2,3), of x]
    by (simp add: fdt_getprop_namelen_def fdt_get_property_namelen_def fdt_first_property_offset_def split: option.split)
qed

definition value_of_prop :: "char list \<Rightarrow> node \<Rightarrow> string \<Rightarrow> char list option" where
  "value_of_prop m t s = map_option snd (find (\<lambda>(no, v). str_at m no = s) (nprops t))"

lemma find_prop_offs:
  "map_option (snd \<circ> snd) (find (\<lambda>(o1, no, v). Q no) (prop_offs off ps)) = map_option snd (find (\<lambda>(no, v). Q no) ps)"
  by (induction off ps rule: prop_offs.induct) auto

lemma getprop_value:
  assumes "holds m os (pre @ tags t @ post)" and "named m (nprops t)" and "NUL \<notin> set s"
  shows "value_of_prop m t s = None \<Longrightarrow> fdt_getprop_namelen m (int (len_of pre)) (s @ x) (length s) = Some (None, - FDT_ERR_NOTFOUND)"
    and "value_of_prop m t s = Some v \<Longrightarrow> \<exists>i. fdt_getprop_namelen m (int (len_of pre)) (s @ x) (length s) = Some (Some i, int (length v)) \<and> prefix v (drop i m)"
proof -
  let ?f = "find (\<lambda>(o1, no, v). str_at m no = s) (prop_offs (len_of (pre @ [Begin (nname t)])) (nprops t))"
  have v: "value_of_prop m t s = map_option (snd \<circ> snd) ?f" by (simp add: value_of_prop_def find_prop_offs)
  note g = getprop_at [OF assms, of x]
  show "value_of_prop m t s = None \<Longrightarrow> fdt_getprop_namelen m (int (len_of pre)) (s @ x) (length s) = Some (None, - FDT_ERR_NOTFOUND)"
    using g by (simp add: v)
  assume "value_of_prop m t s = Some v"
  then obtain o1 no where f: "?f = Some (o1, no, v)" by (auto simp: v)
  then have mem: "(o1, no, v) \<in> set (prop_offs (len_of (pre @ [Begin (nname t)])) (nprops t))"
    by (metis find_Some_iff nth_mem)
  obtain t' post' where h: "holds m os ((pre @ [Begin (nname t)]) @ props (nprops t) @ t' # post')" by (rule holds_node [OF assms(1)])
  show "\<exists>i. fdt_getprop_namelen m (int (len_of pre)) (s @ x) (length s) = Some (Some i, int (length v)) \<and> prefix v (drop i m)"
    using g f prop_offs_located [OF mem h] by auto
qed

section \<open>Walking over the children\<close>

lemma holds_kid:
  assumes "holds m os (pre @ tags t @ post)" and "(o1, c) \<in> set (kids_of (len_of pre) t)"
  obtains pre' post' where "holds m os (pre' @ tags c @ post')" "o1 = len_of pre'"
proof -
  have "\<exists>pre' post'. holds m os (pre' @ tags c @ post') \<and> o1 = len_of pre'"
    if "holds m os (p @ concat (map tags cs) @ q)" "(o1, c) \<in> set (kids (len_of p) cs)" for p q cs
    using that
  proof (induction cs arbitrary: p)
    case (Cons d cs)
    show ?case
    proof (cases "(o1, c) = (len_of p, d)")
      case True
      then show ?thesis using Cons.prems(1) by (intro exI [of _ p] exI [of _ "concat (map tags cs) @ q"]) simp
    next
      case False
      then show ?thesis using Cons.IH [of "p @ tags d"] Cons.prems by auto
    qed
  qed simp
  from this [of "pre @ head_tags (nname t) (nprops t)" "nkids t" "End_node # post"] assms show thesis
    by (cases t) (auto simp: kids_of_def intro: that)
qed

text \<open>The offsets of the children, as \<^verbatim>\<open>fdt_for_each_subnode\<close> visits them.\<close>

primrec visits :: "char list \<Rightarrow> nat list \<Rightarrow> bool" where
  "visits m [] \<longleftrightarrow> True"
| "visits m (o1 # os) \<longleftrightarrow> fdt_next_subnode m (int o1) = Some (case os of [] \<Rightarrow> - FDT_ERR_NOTFOUND | o2 # _ \<Rightarrow> int o2) \<and> visits m os"

lemma next_subnode_run:
  assumes "steps m (x # xs) (Some (e, Some (-1)))"
  shows "next_subnode_loop m (int (fst x)) (fst (snd x)) =
    Some (case find (\<lambda>(o1, d, nm). d \<le> 1) xs of Some (o1, d, nm) \<Rightarrow> if d = 1 then int o1 else - FDT_ERR_NOTFOUND | None \<Rightarrow> - FDT_ERR_NOTFOUND)"
  using assms
proof (induction xs arbitrary: x)
  case Nil
  then show ?case by (subst next_subnode_loop.simps) (simp add: first_of_def)
next
  case (Cons y xs)
  obtain o1 d nm where y: "y = (o1, d, nm)" by (metis prod_cases3)
  have "steps m (y # xs) (Some (e, Some (-1)))" using Cons.prems by simp
  note IH = Cons.IH [OF this]
  show ?case using Cons.prems IH y by (subst next_subnode_loop.simps) (auto simp: first_of_def)
qed

lemma find_forest_1:
  "find (\<lambda>(o1, d, nm). d \<le> (1::int)) (forest off 2 cs @ forest off' 1 ds) =
     (case ds of [] \<Rightarrow> None | c # _ \<Rightarrow> Some (off', 1, nname c))"
proof -
  have "find (\<lambda>(o1, d, nm). d \<le> (1::int)) (forest off 2 cs) = None"
    using nodes_deeper(2) [of _ _ _ off 2 cs] by (fastforce simp: find_None_iff)
  moreover have "find (\<lambda>(o1, d, nm). d \<le> (1::int)) (nodes off' 1 c @ xs) = Some (off', 1, nname c)" for c xs by (cases c) simp
  ultimately show ?thesis by (cases ds) (simp_all add: find_append)
qed

lemma visits_kids:
  assumes "holds m os (pre @ tags t @ post)"
  shows "fdt_first_subnode m (int (len_of pre)) = Some (case kids_of (len_of pre) t of [] \<Rightarrow> - FDT_ERR_NOTFOUND | (o1, _) # _ \<Rightarrow> int o1)"
    and "visits m (map fst (kids_of (len_of pre) t))"
proof -
  obtain nm ps cs where t: "t = Node nm ps cs" by (cases t)
  let ?xs = "\<lambda>off cs. forest off 1 cs" and ?o = "len_of pre + len_of (head_tags nm ps)"
  obtain e where st: "steps m (nodes (len_of pre) 0 t) (Some (e, Some (-1)))" and "0 \<le> e"
    using steps_tree [OF assms, of 0, OF _ refl] by auto
  then have first: "fdt_next_node m (int (len_of pre)) (Some 0) = first_of (?xs ?o cs) (Some (e, Some (-1)))"
    and rest: "steps m (?xs ?o cs) (Some (e, Some (-1)))" by (simp_all add: t)
  show "fdt_first_subnode m (int (len_of pre)) = Some (case kids_of (len_of pre) t of [] \<Rightarrow> - FDT_ERR_NOTFOUND | (o1, _) # _ \<Rightarrow> int o1)"
  proof (cases cs)
    case Nil
    then show ?thesis using first by (simp add: fdt_first_subnode_def first_of_def kids_of_def t)
  next
    case (Cons c ds)
    then show ?thesis using first by (cases c) (simp add: fdt_first_subnode_def first_of_def kids_of_def t)
  qed
  have "visits m (map fst (kids off ds))" if "steps m (?xs off ds) (Some (e, Some (-1)))" for off ds
    using that
  proof (induction ds arbitrary: off)
    case (Cons c ds)
    obtain nm ps ks where c: "c = Node nm ps ks" by (cases c)
    let ?off' = "off + len_of (tags c)"
    have "next_subnode_loop m (int off) 1 = Some (case ds of [] \<Rightarrow> - FDT_ERR_NOTFOUND | c # _ \<Rightarrow> int ?off')"
      using next_subnode_run [of m "(off, 1, nm)" "forest (off + len_of (head_tags nm ps)) 2 ks @ ?xs ?off' ds" e]
        Cons.prems find_forest_1 [of "off + len_of (head_tags nm ps)" ks ?off' ds] by (cases ds) (simp_all add: c)
    moreover have "visits m (map fst (kids ?off' ds))" using Cons.prems by (intro Cons.IH) (simp add: steps_append)
    ultimately show ?case by (cases ds) (simp_all add: fdt_next_subnode_def)
  qed simp
  from this [OF rest] show "visits m (map fst (kids_of (len_of pre) t))" by (simp add: kids_of_def t)
qed

section \<open>Paths\<close>

fun resolve :: "nat \<Rightarrow> node \<Rightarrow> string list \<Rightarrow> (nat \<times> node) option" where
  "resolve off t [] = Some (off, t)"
| "resolve off t (c # cs) = do { (o1, k) \<leftarrow> find (\<lambda>(o1, k). name_matches c (nname k)) (kids_of off t); resolve o1 k cs }"

definition path_string :: "string list \<Rightarrow> string" where
  "path_string cs = concat (map (\<lambda>c. CHR ''/'' # c) cs)"

definition plain :: "string \<Rightarrow> bool" where
  "plain c \<longleftrightarrow> c \<noteq> [] \<and> set c \<inter> {CHR ''/'', CHR '':'', NUL} = {}"

lemma memchr_run:
  "c \<notin> set s \<Longrightarrow> memchr (s @ r) c (length s + n) = map_option (map_option (\<lambda>k. length s + k)) (memchr r c n)"
  by (induction s) (auto simp: map_option_case split: option.splits)

lemma next_separator_run:
  assumes "list_all plain (c # cs)" and "e = length c + length (path_string cs)"
  shows "fdt_path_next_separator (c @ path_string cs @ NUL # x) e = Some (case cs of [] \<Rightarrow> None | _ \<Rightarrow> Some (length c))"
proof -
  have "CHR '':'' \<notin> set c" "CHR ''/'' \<notin> set c" and "CHR '':'' \<notin> set (path_string cs)"
    using assms(1) by (auto simp: plain_def path_string_def list_all_iff)
  then have "memchr (c @ path_string cs @ NUL # x) (CHR '':'') e = Some None"
    "memchr (c @ path_string cs @ NUL # x) (CHR ''/'') e = Some (case cs of [] \<Rightarrow> None | _ \<Rightarrow> Some (length c))"
    using memchr_run [of "CHR '':''" c "path_string cs @ NUL # x"] memchr_run [of "CHR '':''" "path_string cs" "NUL # x" 0]
      memchr_run [of "CHR ''/''" c "path_string cs @ NUL # x"]
    by (auto simp: assms(2) path_string_def split: list.split)
  then show ?thesis by (auto simp: fdt_path_next_separator_def split: list.split)
qed

lemma find_kid_mem: "find P xs = Some x \<Longrightarrow> x \<in> set xs"
  by (metis find_Some_iff nth_mem)

lemma path_loop_step:
  assumes "rd path p = Some (CHR ''/'')" and "p < e" and "skip_slashes (drop p path) = Some 1" and "rd path (Suc p) = Some c0"
    and "c0 \<noteq> NUL" and "c0 \<noteq> CHR '':''" and "fdt_path_next_separator (drop (Suc p) path) (sub32 e (Suc p)) = Some sep"
    and "(case sep of None \<Rightarrow> e | Some k \<Rightarrow> Suc p + k) = q"
    and "fdt_subnode_offset_namelen m offset (drop (Suc p) path) (q - Suc p) = Some offset'"
  shows "path_loop m path p e offset = (if offset' < 0 then Some offset' else path_loop m path q e offset')"
  using assms by (subst path_loop.simps) (cases sep; simp add: Let_def)

lemma path_loop_run:
  assumes "holds m os (pre @ tags t @ post)" and "list_all plain cs" and "drop p path = path_string cs @ NUL # x"
    and "p + length (path_string cs) + 2 < 2 ^ 32"
  shows "path_loop m path p (p + length (path_string cs)) (int (len_of pre)) =
    Some (case resolve (len_of pre) t cs of Some (o1, _) \<Rightarrow> int o1 | None \<Rightarrow> - FDT_ERR_NOTFOUND)"
  using assms
proof (induction cs arbitrary: p pre post t)
  case Nil
  then show ?case using rd_drop [of p path NUL x] by (subst path_loop.simps) (simp add: path_string_def)
next
  case (Cons c cs)
  let ?e = "p + length (path_string (c # cs))"
  have ps: "path_string (c # cs) = CHR ''/'' # c @ path_string cs" by (simp add: path_string_def)
  obtain c0 c' where c: "c = c0 # c'" "c0 \<notin> {CHR ''/'', CHR '':'', NUL}" "NUL \<notin> set c"
    using Cons.prems(2) by (cases c) (auto simp: plain_def)
  have d0: "drop p path = CHR ''/'' # c @ path_string cs @ NUL # x" using Cons.prems(3) by (simp add: ps)
  note d1 = drop_SucD [OF d0]
  have r: "rd path p = Some (CHR ''/'')" "rd path (Suc p) = Some c0" "skip_slashes (drop p path) = Some 1"
    using rd_drop [OF d0] rd_drop [of "Suc p" path c0] d1 d0 c by auto
  have sep: "fdt_path_next_separator (drop (Suc p) path) (sub32 ?e (Suc p)) = Some (case cs of [] \<Rightarrow> None | _ \<Rightarrow> Some (length c))"
    unfolding d1 using Cons.prems(2,4) by (intro next_separator_run) (simp_all add: ps sub32_no_borrow)
  have q: "(case (case cs of [] \<Rightarrow> None | _ \<Rightarrow> Some (length c)) of None \<Rightarrow> ?e | Some k \<Rightarrow> Suc p + k) = Suc p + length c"
    by (cases cs) (simp_all add: ps path_string_def)
  have d2: "drop (Suc p + length c) path = path_string cs @ NUL # x"
    using arg_cong [OF d1, of "drop (length c)"] by (simp add: add_ac)
  have e: "?e = Suc p + length c + length (path_string cs)" by (simp add: ps)
  let ?f = "find (\<lambda>(o1, k). name_matches c (nname k)) (kids_of (len_of pre) t)"
  have sub: "fdt_subnode_offset_namelen m (int (len_of pre)) (drop (Suc p) path) (Suc p + length c - Suc p) =
      Some (case ?f of Some (o1, _) \<Rightarrow> int o1 | None \<Rightarrow> - FDT_ERR_NOTFOUND)"
    unfolding d1 using subnode_offset_at [OF Cons.prems(1) c(3), of "path_string cs @ NUL # x"] Cons.prems(4) by (simp add: ps)
  have "p < ?e" by (simp add: ps)
  then have step: "path_loop m path p ?e (int (len_of pre)) =
      (case ?f of None \<Rightarrow> Some (- FDT_ERR_NOTFOUND) | Some (o1, k) \<Rightarrow> path_loop m path (Suc p + length c) ?e (int o1))"
    using c(2) by (subst path_loop_step [OF r(1) _ r(3,2) _ _ sep q sub]) (auto simp: fdt_errors split: option.split)
  show ?case
  proof (cases ?f)
    case (Some ok)
    obtain o1 k where ok: "ok = (o1, k)" by fastforce
    obtain pre' post' where h: "holds m os (pre' @ tags k @ post')" "o1 = len_of pre'"
      using holds_kid [OF Cons.prems(1), of o1 k] find_kid_mem [OF Some] ok by blast
    have "path_loop m path (Suc p + length c) ?e (int o1) = Some (case resolve o1 k cs of Some (o1, _) \<Rightarrow> int o1 | None \<Rightarrow> - FDT_ERR_NOTFOUND)"
      unfolding e h(2) using Cons.prems(2,4) by (intro Cons.IH [OF h(1) _ d2]) (simp_all add: ps)
    with step Some ok show ?thesis by simp
  qed (simp add: step)
qed

lemma resolve_holds:
  assumes "holds m os (pre @ tags t @ post)" and "resolve (len_of pre) t cs = Some (off, k)"
  shows "\<exists>pre' post'. holds m os (pre' @ tags k @ post') \<and> off = len_of pre'"
  using assms
proof (induction cs arbitrary: pre t post)
  case (Cons c cs)
  obtain o1 k1 where f: "find (\<lambda>(o1, k). name_matches c (nname k)) (kids_of (len_of pre) t) = Some (o1, k1)"
    "resolve o1 k1 cs = Some (off, k)" using Cons.prems(2) by (auto split: Option.bind_splits)
  obtain pre' post' where "holds m os (pre' @ tags k1 @ post')" "o1 = len_of pre'"
    using holds_kid [OF Cons.prems(1), of o1 k1] find_kid_mem [OF f(1)] by blast
  then show ?case using Cons.IH f(2) by blast
qed auto

lemma path_offset_at:
  assumes "holds m os (tags t @ post)" and "list_all plain cs" and "cs \<noteq> []" and "length (path_string cs) + 2 < 2 ^ 32"
  shows "fdt_path_offset m (path_string cs @ NUL # x) = Some (case resolve 0 t cs of Some (o1, _) \<Rightarrow> int o1 | None \<Rightarrow> - FDT_ERR_NOTFOUND)"
proof -
  have "cstring (path_string cs) (path_string cs @ NUL # x)"
    using assms(2) by (auto simp: cstring_def plain_def path_string_def list_all_iff)
  then have "strlen (path_string cs @ NUL # x) = Some (length (path_string cs))" by (rule strlen_cstring)
  moreover have "rd (path_string cs @ NUL # x) 0 = Some (CHR ''/'')" using assms(3) by (cases cs) (simp_all add: path_string_def rd_def)
  moreover have "fdt_check_header m = Some 0" using assms(1) by (simp add: holds_def)
  ultimately show ?thesis using path_loop_run [of m os "[]" t post cs 0 "path_string cs @ NUL # x"] assms
    by (subst fdt_path_offset_def) (simp add: fdt_path_offset_namelen.simps)
qed

section \<open>A blob for every tree\<close>

text \<open>A blob of version 17: header, empty reservation map, structure, strings.\<close>

definition fdt_image :: "node \<Rightarrow> char list \<Rightarrow> char list" where
  "fdt_image t strs =
     (let n = len_of (tags t @ [End]) in
      be32 FDT_MAGIC @ be32 (56 + n + length strs) @ be32 56 @ be32 (56 + n) @ be32 40 @ be32 17 @ be32 16 @ be32 0
      @ be32 (length strs) @ be32 n @ replicate 16 NUL @ encs (tags t @ [End]) @ strs)"

lemma fdt_image_header:
  assumes "60 + len_of (tags t @ [End]) + length strs \<le> 2 ^ 31"
  shows "complete (fdt_image t strs)" "fdt_check_header (fdt_image t strs) = Some 0"
    "fdt_off_dt_struct (fdt_image t strs) = Some 56" "fdt_off_dt_strings (fdt_image t strs) = Some (56 + len_of (tags t @ [End]))"
    "fdt_totalsize (fdt_image t strs) = Some (56 + len_of (tags t @ [End]) + length strs)"
    "fdt_size_dt_struct (fdt_image t strs) = Some (len_of (tags t @ [End]))"
proof -
  let ?m = "fdt_image t strs" and ?n = "len_of (tags t @ [End])"
  have field: "fdt32_to_cpu ?m (4 * k) = Some v"
    if "k < 10" "v = [FDT_MAGIC, 56 + ?n + length strs, 56, 56 + ?n, 40, 17, 16, 0, length strs, ?n] ! k" for k v
  proof (rule fdt32_prefix)
    have "k \<in> {0, 1, 2, 3, 4, 5, 6, 7, 8, 9}" using that(1) by (simp only: insert_iff empty_iff) presburger
    then show "v < 2 ^ 32" "prefix (be32 v) (drop (4 * k) ?m)"
      using assms that(2) by (elim insertE emptyE; simp add: fdt_image_def Let_def FDT_MAGIC_def be32_def)+
  qed
  have fields: "fdt_magic ?m = Some FDT_MAGIC" "fdt_totalsize ?m = Some (56 + ?n + length strs)" "fdt_off_dt_struct ?m = Some 56"
    "fdt_off_dt_strings ?m = Some (56 + ?n)" "fdt_version ?m = Some 17" "fdt_last_comp_version ?m = Some 16" "fdt_size_dt_struct ?m = Some ?n"
    unfolding fdt_magic_def fdt_totalsize_def fdt_off_dt_struct_def fdt_off_dt_strings_def fdt_version_def fdt_last_comp_version_def fdt_size_dt_struct_def
    using field [of 0] field [of 1] field [of 2] field [of 3] field [of 5] field [of 6] field [of 9] by simp_all
  then show "fdt_check_header ?m = Some 0" by (simp add: fdt_check_header_def)
  have "length ?m = 56 + ?n + length strs" by (simp add: fdt_image_def Let_def)
  then show "complete ?m" using assms fields(2) by (simp add: complete_def)
  show "fdt_off_dt_struct ?m = Some 56" "fdt_off_dt_strings ?m = Some (56 + ?n)" "fdt_totalsize ?m = Some (56 + ?n + length strs)"
    "fdt_size_dt_struct ?m = Some ?n" by fact+
qed

lemma fdt_image_holds:
  assumes "60 + len_of (tags t @ [End]) + length strs \<le> 2 ^ 31" and "list_all tag_ok (tags t)"
  shows "holds (fdt_image t strs) 56 (tags t @ [End])"
proof -
  have "prefix (encs (tags t @ [End])) (drop 56 (fdt_image t strs))"
    by (simp add: fdt_image_def Let_def drop_Cons' be32_def)
  then show ?thesis using fdt_image_header [OF assms(1)] assms(2) by (simp add: holds_def)
qed

lemma fdt_image_strings:
  assumes "60 + len_of (tags t @ [End]) + length strs \<le> 2 ^ 31" and "no \<le> length strs"
  shows "drop (str_pos (fdt_image t strs) no) (fdt_image t strs) = drop no strs"
proof -
  let ?n = "len_of (tags t @ [End])"
  have "str_pos (fdt_image t strs) no = 56 + ?n + no" using fdt_image_header(4) [OF assms(1)] assms by (simp add: str_pos_def)
  moreover have "drop (56 + ?n + no) (fdt_image t strs) = drop no strs" by (simp add: fdt_image_def Let_def drop_Cons' be32_def)
  ultimately show ?thesis by simp
qed

section \<open>Properties\<close>

text \<open>
  \<^bold>\<open>C8.\<close> On every blob that holds the flattened tree \<open>t\<close>, whatever follows the tree, looking up an
  absolute path and then a property is the lookup in the tree: \<^verbatim>\<open>fdt_path_offset\<close> returns the offset of the
  node that the components of the path select, one child after the other (a name without unit address
  also selects a node with one), or reports that there is none; and \<^verbatim>\<open>fdt_getprop\<close> returns a pointer to
  the value of the first property of that name and its length, or NULL. All reads are inside the blob.
\<close>

theorem fdt_lookup_is_tree_lookup:
  assumes "holds m os (tags t @ post)" and "list_all plain cs" and "cs \<noteq> []" and "length (path_string cs) + 2 < 2 ^ 32"
    and "NUL \<notin> set s"
  shows "case resolve 0 t cs of
      None \<Rightarrow> fdt_path_offset m (path_string cs @ [NUL]) = Some (- FDT_ERR_NOTFOUND)
    | Some (off, k) \<Rightarrow> fdt_path_offset m (path_string cs @ [NUL]) = Some (int off) \<and>
        (named m (nprops k) \<longrightarrow>
         (case value_of_prop m k s of
            None \<Rightarrow> fdt_getprop m (int off) s = Some (None, - FDT_ERR_NOTFOUND)
          | Some v \<Rightarrow> \<exists>i. fdt_getprop m (int off) s = Some (Some i, int (length v)) \<and> prefix v (drop i m)))"
proof -
  note p = path_offset_at [OF assms(1-4), of "[]"]
  show ?thesis
  proof (cases "resolve 0 t cs")
    case (Some ok)
    obtain off k where ok: "ok = (off, k)" by fastforce
    obtain pre post' where h: "holds m os (pre @ tags k @ post')" "off = len_of pre"
      using resolve_holds [of m os "[]" t post cs off k] assms(1) Some ok by auto
    show ?thesis using p Some ok getprop_value [OF h(1) _ assms(5), where x = "[NUL]"]
      by (auto simp: fdt_getprop_def h(2) split: option.split)
  qed (use p in simp)
qed

definition sample_strings :: "char list" where
  "sample_strings = ''description'' @ [NUL] @ ''data'' @ [NUL]"

definition sample_tree :: node where
  "sample_tree = Node [] [(0, ''x'' @ [NUL])] [Node ''images'' [] [Node ''kernel@1'' [(12, ''vmlinuz'')] []]]"

lemma sample_size: "60 + len_of (tags sample_tree @ [End]) + length sample_strings \<le> 2 ^ 31" "list_all tag_ok (tags sample_tree)"
  by (simp_all add: sample_tree_def sample_strings_def head_tags_def enc_def padded_def)

lemma sample_resolve: "resolve 0 sample_tree [''images'', ''kernel''] = Some (36, Node ''kernel@1'' [(12, ''vmlinuz'')] [])"
  by (simp add: sample_tree_def kids_of_def name_matches_def head_tags_def enc_def padded_def)

lemma sample_names:
  "named (fdt_image sample_tree sample_strings) [(12, ''vmlinuz'')]"
  "value_of_prop (fdt_image sample_tree sample_strings) (Node ''kernel@1'' [(12, ''vmlinuz'')] []) ''data'' = Some ''vmlinuz''"
proof -
  have d: "drop (str_pos (fdt_image sample_tree sample_strings) 12) (fdt_image sample_tree sample_strings) = ''data'' @ [NUL]"
    using fdt_image_strings [OF sample_size(1), of 12] by (simp add: sample_strings_def)
  then show "named (fdt_image sample_tree sample_strings) [(12, ''vmlinuz'')]" by (simp add: named_def)
  show "value_of_prop (fdt_image sample_tree sample_strings) (Node ''kernel@1'' [(12, ''vmlinuz'')] []) ''data'' = Some ''vmlinuz''"
    using d by (simp add: value_of_prop_def str_at_def)
qed

theorem fdt_lookup_is_tree_lookup_witness:
  "let m = fdt_image sample_tree sample_strings in
   fdt_path_offset m (''/images/kernel'' @ [NUL]) = Some 36
   \<and> (\<exists>i. fdt_getprop m 36 ''data'' = Some (Some i, 7) \<and> prefix ''vmlinuz'' (drop i m))"
  using fdt_lookup_is_tree_lookup [OF fdt_image_holds [OF sample_size], of "[''images'', ''kernel'']" "''data''"] sample_resolve sample_names
  by (simp add: plain_def path_string_def Let_def)

text \<open>
  \<^bold>\<open>C15.\<close> When the walk over the nodes of a blob ends. On any bytes that are as long as the header says,
  \<^verbatim>\<open>fdt_next_node\<close> returns, unless a property of the blob has the length \<^verbatim>\<open>0xfffffff4\<close>; and from a node whose
  first property has this length it never returns: the sum of offset, header and length wraps to the
  offset of the property itself, and the check of \<^verbatim>\<open>fdt_next_tag\<close> accepts the empty range.
\<close>

theorem fdt_walk_returns_unless_endless:
  assumes "complete m" and "offset < 2 ^ 31"
  shows "((\<forall>p. \<not> endless m p) \<longrightarrow> (\<exists>r. fdt_next_node m offset depth = Some r))
    \<and> (0 \<le> p \<and> p < 2 ^ 31 \<and> 4 dvd p \<and> endless m p \<and> fdt_offset_ptr m p 8 \<noteq> Some None
      \<and> 0 \<le> offset \<and> fdt_check_node_offset m offset = Some p \<longrightarrow> fdt_next_node m offset depth = None)"
  using next_node_returns [OF assms(1) _ assms(2)] endless_next_tag [OF assms(1)] next_node_loop_hangs
  by (auto simp: fdt_next_node_def)

definition sample_endless :: "char list" where
  "sample_endless =
     be32 FDT_MAGIC @ be32 84 @ be32 56 @ be32 84 @ be32 40 @ be32 17 @ be32 16 @ be32 0 @ be32 0 @ be32 28 @ replicate 16 NUL
     @ be32 1 @ be32 0 @ be32 3 @ be32 (2 ^ 32 - 12) @ be32 0 @ be32 2 @ be32 9"

lemmas sample_simps = fdt_off_dt_struct_def fdt_totalsize_def fdt_version_def fdt_size_dt_struct_def fdt32_to_cpu_def
  be32_def be_nat_def fdt_tags FDT_MAGIC_def fdt_offset_ptr_def u32_of_def s32_def FDT_TAGALIGN_def

lemma sample_endless_walk:
  "complete sample_endless" "endless sample_endless 8" "fdt_offset_ptr sample_endless 8 8 = Some (Some 64)"
  "fdt_check_node_offset sample_endless 0 = Some 8"
proof -
  show "complete sample_endless" by (simp add: complete_def sample_endless_def sample_simps)
  show "endless sample_endless 8" by (simp add: endless_def sample_endless_def sample_simps)
  show "fdt_offset_ptr sample_endless 8 8 = Some (Some 64)" by (simp add: sample_endless_def sample_simps)
  have sample_ptr: "fdt_offset_ptr sample_endless 4 (Suc 0) = Some (Some 60)" "rd sample_endless 60 = Some NUL"
    by (simp add: sample_endless_def sample_simps)
      (rule rd_drop, simp add: sample_endless_def be32_def FDT_MAGIC_def char_of_def)
  have node: "fdt_offset_ptr sample_endless 0 4 = Some (Some 56)" "fdt_offset_ptr sample_endless 0 5 = Some (Some 56)"
    "fdt32_to_cpu sample_endless 56 = Some FDT_BEGIN_NODE" by (simp_all add: sample_endless_def sample_simps)
  have "skip_name sample_endless 4 = Some (Some 5)"
    using sample_ptr by (subst skip_name.simps) (simp add: s32_def)
  then show "fdt_check_node_offset sample_endless 0 = Some 8"
    using node by (simp add: fdt_check_node_offset_def fdt_next_tag_def skip_body_def s32_def u32_of_def FDT_TAGALIGN_def FDT_BEGIN_NODE_def)
qed

lemma be_nat_zeros: "be_nat (replicate n NUL) = 0"
  by (induction n) (simp_all add: be_nat_def)

theorem fdt_walk_returns_unless_endless_witness:
  "(\<exists>r. fdt_next_node (replicate 48 NUL) 0 (Some 0) = Some r) \<and> fdt_next_node sample_endless 0 (Some 0) = None"
proof
  have "fdt32_to_cpu (replicate 48 NUL) i = Some v \<Longrightarrow> v = 0" for i v
    by (auto simp: fdt32_to_cpu_def be_nat_zeros split: if_splits)
  then have "\<not> endless (replicate 48 NUL) p" for p by (fastforce simp: endless_def fdt_tags)
  moreover have "complete (replicate 48 NUL)" by (simp add: complete_def fdt_totalsize_def fdt32_to_cpu_def be_nat_zeros)
  ultimately show "\<exists>r. fdt_next_node (replicate 48 NUL) 0 (Some 0) = Some r"
    using fdt_walk_returns_unless_endless [of "replicate 48 NUL" 0 "Some 0"] by simp
  show "fdt_next_node sample_endless 0 (Some 0) = None"
    using fdt_walk_returns_unless_endless [OF sample_endless_walk(1), of 0 "Some 0" 8] sample_endless_walk(2-4) by simp
qed

end
