(* ===== verification/FdtRegion.thy ===== *)
theory FdtRegion
  imports FdtTree
begin

text \<open>
  The parts of a blob that a signature covers: \<open>fdt_find_regions\<close> of \<^verbatim>\<open>lib/libfdt/fdt_wip.c\<close>. The array
  \<^verbatim>\<open>region\<close> is a list of offsets and sizes with checked accesses. The buffer \<^verbatim>\<open>path\<close> is the string it
  holds up to \<^verbatim>\<open>end\<close>, and its size bounds that string as in the code.
\<close>

section \<open>The function\<close>

definition FDT_MAX_DEPTH :: int where "FDT_MAX_DEPTH = 32"

fun str_in_list :: "char list \<Rightarrow> char list list \<Rightarrow> bool option" where
  "str_in_list str [] = Some False"
| "str_in_list str (x # xs) = do { r \<leftarrow> strcmp x str; if r = 0 then Some True else str_in_list str xs }"

record find_state =
  region :: "(int \<times> int) list"
  cnt :: nat
  start :: int
  depth :: int
  want :: nat
  stack :: "nat list"
  path :: string

text \<open>The effects on the path of the cases for the beginning and the end of a node.\<close>

definition enter_path :: "string \<Rightarrow> string \<Rightarrow> string" where
  "enter_path p nm = (if length p \<noteq> 1 then p @ ''/'' else p) @ nm"

definition leave_path :: "string \<Rightarrow> string" where
  "leave_path p = rev (drop 1 (dropWhile (\<lambda>c. c \<noteq> CHR ''/'') (rev p)))"

text \<open>
  The \<^verbatim>\<open>switch\<close> over the tag: an error code, or \<^verbatim>\<open>include\<close>, \<^verbatim>\<open>stop_at\<close> and the state. The strings of
  \<open>inc\<close> and \<open>exc\<close> are lists of bytes from the pointers on.
\<close>

definition region_case :: "char list \<Rightarrow> char list list \<Rightarrow> char list list \<Rightarrow> nat \<Rightarrow> nat \<Rightarrow> int \<Rightarrow> int \<Rightarrow> find_state
    \<Rightarrow> (int + bool \<times> int \<times> find_state) option" where
  "region_case m inc exc path_len tag offset nextoffset st =
     (if tag = FDT_PROP then do {
        (prop, len) \<leftarrow> fdt_get_property_by_offset m offset;
        i \<leftarrow> prop;
        nameoff \<leftarrow> fdt32_to_cpu m (i + 8);
        str \<leftarrow> fdt_string m nameoff;
        excluded \<leftarrow> str_in_list (drop str m) exc;
        Some (Inr (\<not> excluded \<and> want st \<ge> 2, offset, st)) }
      else if tag = FDT_NOP then Some (Inr (want st \<ge> 2, offset, st))
      else if tag = FDT_BEGIN_NODE then
        (if depth st + 1 = FDT_MAX_DEPTH then Some (Inl (- FDT_ERR_BADSTRUCTURE))
         else do {
           (name, len) \<leftarrow> fdt_get_name m offset;
           if int (length (path st)) + 2 + len \<ge> int path_len then Some (Inl (- FDT_ERR_NOSPACE))
           else do {
             i \<leftarrow> name;
             let p = enter_path (path st) (take (nat len) (drop i m));
             stk \<leftarrow> wr (stack st) (nat (depth st + 1)) (want st);
             listed \<leftarrow> str_in_list (p @ [NUL]) inc;
             let w = (if listed then 2 else want st - 1);
             let stop_at = (if want st = 1 \<or> (\<not> listed \<and> want st = 0) then offset else nextoffset);
             Some (Inr (w \<noteq> 0, stop_at, st\<lparr>depth := depth st + 1, stack := stk, path := p, want := w\<rparr>)) } })
      else if tag = FDT_END_NODE then
        (if depth st < 0 then None
         else do {
           w \<leftarrow> rd (stack st) (nat (depth st));
           Some (Inr (want st \<noteq> 0, nextoffset, st\<lparr>want := w, depth := depth st - 1, path := leave_path (path st)\<rparr>)) })
      else Some (Inr (tag = FDT_END, nextoffset, st)))"

text \<open>The two conditionals behind the \<^verbatim>\<open>switch\<close>.\<close>

definition region_open :: "int \<Rightarrow> nat \<Rightarrow> int \<Rightarrow> find_state \<Rightarrow> find_state option" where
  "region_open base max_regions offset st =
     (if cnt st \<noteq> 0 \<and> cnt st \<le> max_regions then do {
        (off, sz) \<leftarrow> rd (region st) (cnt st - 1);
        Some (if offset = off + sz - base then st\<lparr>cnt := cnt st - 1, start := off - base\<rparr> else st\<lparr>start := offset\<rparr>) }
      else Some (st\<lparr>start := offset\<rparr>))"

definition region_close :: "int \<Rightarrow> nat \<Rightarrow> int \<Rightarrow> find_state \<Rightarrow> find_state option" where
  "region_close base max_regions stop_at st = do {
     reg \<leftarrow> (if cnt st < max_regions then wr (region st) (cnt st) (base + start st, stop_at - start st) else Some (region st));
     Some (st\<lparr>region := reg, cnt := cnt st + 1, start := -1\<rparr>) }"

definition region_mark :: "int \<Rightarrow> nat \<Rightarrow> int \<Rightarrow> bool \<Rightarrow> int \<Rightarrow> find_state \<Rightarrow> find_state option" where
  "region_mark base max_regions offset include stop_at st = do {
     st \<leftarrow> (if include \<and> start st = -1 then region_open base max_regions offset st else Some st);
     if \<not> include \<and> start st \<noteq> -1 then region_close base max_regions stop_at st else Some st }"

partial_function (option) region_loop :: "char list \<Rightarrow> char list list \<Rightarrow> char list list \<Rightarrow> nat \<Rightarrow> int \<Rightarrow> nat \<Rightarrow> int \<Rightarrow> find_state
    \<Rightarrow> (int + int \<times> find_state) option" where
  "region_loop m inc exc path_len base max_regions offset st = do {
     (tag, nextoffset) \<leftarrow> fdt_next_tag m offset;
     r \<leftarrow> region_case m inc exc path_len tag offset nextoffset st;
     case r of Inl e \<Rightarrow> Some (Inl e)
     | Inr (include, stop_at, st) \<Rightarrow> do {
         st \<leftarrow> region_mark base max_regions offset include stop_at st;
         if tag \<noteq> FDT_END then region_loop m inc exc path_len base max_regions nextoffset st
         else Some (Inr (nextoffset, st)) } }"

definition fdt_find_regions :: "char list \<Rightarrow> char list list \<Rightarrow> char list list \<Rightarrow> (int \<times> int) list \<Rightarrow> nat \<Rightarrow> nat \<Rightarrow> bool
    \<Rightarrow> (int \<times> (int \<times> int) list) option" where
  "fdt_find_regions m inc exc_prop reg max_regions path_len add_string_tab = do {
     os \<leftarrow> fdt_off_dt_struct m;
     let base = s32 (int os);
     r \<leftarrow> region_loop m inc exc_prop path_len base max_regions 0
       \<lparr>region = reg, cnt = 0, start = -1, depth = -1, want = 0, stack = replicate 32 0, path = []\<rparr>;
     case r of Inl e \<Rightarrow> Some (e, reg)
     | Inr (nextoffset, st) \<Rightarrow> do {
         ss \<leftarrow> fdt_size_dt_struct m;
         if u32_of nextoffset \<noteq> ss then Some (- FDT_ERR_BADLAYOUT, region st)
         else do {
           extra \<leftarrow> (if add_string_tab then fdt_size_dt_strings m else Some 0);
           reg \<leftarrow> (if cnt st < max_regions
                   then wr (region st) (cnt st) (base + start st, nextoffset - start st + int extra)
                   else Some (region st));
           Some (int (cnt st) + 1, reg) } } }"

section \<open>What the regions hold\<close>

definition slice :: "char list \<Rightarrow> int \<times> int \<Rightarrow> char list" where
  "slice m r = take (nat (snd r)) (drop (nat (fst r)) m)"

text \<open>The bytes in the regions found before the tag at \<open>off\<close>, the open one included.\<close>

definition taken :: "char list \<Rightarrow> int \<Rightarrow> int \<Rightarrow> find_state \<Rightarrow> char list" where
  "taken m base off st = concat (map (slice m) (take (cnt st) (region st)))
     @ (if start st = -1 then [] else slice m (base + start st, off - start st))"

text \<open>All regions lie behind \<open>base\<close> and before the tag at \<open>off\<close>.\<close>

definition inside :: "int \<Rightarrow> int \<Rightarrow> (int \<times> int) list \<Rightarrow> bool" where
  "inside base off rs \<longleftrightarrow> list_all (\<lambda>(o1, n). base \<le> o1 \<and> 0 \<le> n \<and> o1 + n \<le> base + off) rs"

lemma inside_mono: "inside base off rs \<Longrightarrow> off \<le> off' \<Longrightarrow> inside base off' rs"
  by (auto simp: inside_def list_all_iff)

lemma inside_append [simp]:
  "inside base off []"
  "inside base off (rs @ [(o1, n)]) \<longleftrightarrow> inside base off rs \<and> base \<le> o1 \<and> 0 \<le> n \<and> o1 + n \<le> base + off"
  by (auto simp: inside_def)

text \<open>Either too many regions were found, or the regions hold the bytes \<open>X\<close>.\<close>

definition holds_taken :: "char list \<Rightarrow> int \<Rightarrow> nat \<Rightarrow> int \<Rightarrow> char list \<Rightarrow> find_state \<Rightarrow> bool" where
  "holds_taken m base max_regions off X st \<longleftrightarrow> max_regions \<le> length (region st) \<and> - 1 \<le> start st \<and> start st \<le> off \<and>
     (max_regions < cnt st \<or>
      inside base off (take (cnt st) (region st)) \<and> cnt st \<le> max_regions \<and> taken m base off st = X)"

text \<open>Only the regions and the start of the open one have changed.\<close>

definition regs_only :: "find_state \<Rightarrow> find_state \<Rightarrow> bool" where
  "regs_only st st' \<longleftrightarrow> depth st' = depth st \<and> want st' = want st \<and> stack st' = stack st \<and> path st' = path st"

lemma holds_taken_cong:
  "holds_taken m base max_regions off X st \<Longrightarrow> region st' = region st \<Longrightarrow> cnt st' = cnt st \<Longrightarrow> start st' = start st
    \<Longrightarrow> holds_taken m base max_regions off X st'"
  by (simp only: holds_taken_def taken_def)

lemma regs_only_refl [simp]: "regs_only st st"
  by (simp add: regs_only_def)

lemma slice_add: "0 \<le> o1 \<Longrightarrow> 0 \<le> a \<Longrightarrow> 0 \<le> b \<Longrightarrow> slice m (o1, a + b) = slice m (o1, a) @ slice m (o1 + a, b)"
  by (simp add: slice_def nat_add_distrib take_add drop_drop add.commute)

lemma region_open_taken:
  assumes "holds_taken m base max_regions off X st" and "start st = -1" and "0 \<le> base" and "0 \<le> off"
  obtains st' where "region_open base max_regions off st = Some st'" "holds_taken m base max_regions off X st'"
    "start st' \<noteq> -1" "regs_only st st'" "cnt st' \<le> cnt st"
proof (cases "cnt st \<noteq> 0 \<and> cnt st \<le> max_regions")
  case False
  then show thesis using assms by (intro that [of "st\<lparr>start := off\<rparr>"])
    (auto simp: regs_only_def region_open_def holds_taken_def taken_def slice_def)
next
  case True
  then obtain k where k: "cnt st = Suc k" by (cases "cnt st") simp_all
  have lenr: "k < length (region st)" using assms(1) True k by (simp add: holds_taken_def)
  obtain o1 n where l: "region st ! k = (o1, n)" by fastforce
  have rd: "rd (region st) (cnt st - 1) = Some (o1, n)" using lenr l k by (simp add: rd_def)
  have tk: "take (cnt st) (region st) = take k (region st) @ [(o1, n)]" using k lenr l by (simp add: take_Suc_conv_app_nth)
  have h: "base \<le> o1" "0 \<le> n" "o1 + n \<le> base + off" "inside base off (take k (region st))"
    "X = concat (map (slice m) (take k (region st))) @ slice m (o1, n)" "max_regions \<le> length (region st)"
    using assms(1,2) True unfolding holds_taken_def taken_def tk by auto
  show thesis
  proof (cases "off = o1 + n - base")
    case True
    then show thesis using h rd k assms(3,4) \<open>cnt st \<noteq> 0 \<and> cnt st \<le> max_regions\<close>
      by (intro that [of "st\<lparr>cnt := k, start := o1 - base\<rparr>"]) (auto simp: regs_only_def region_open_def holds_taken_def taken_def)
  next
    case False
    then show thesis using h rd k assms \<open>cnt st \<noteq> 0 \<and> cnt st \<le> max_regions\<close>
      by (intro that [of "st\<lparr>start := off\<rparr>"]) (auto simp: regs_only_def region_open_def holds_taken_def taken_def slice_def)
  qed
qed

lemma region_mark_taken:
  assumes "holds_taken m base max_regions off X st" and "0 \<le> base" and "0 \<le> off" and "0 \<le> n" and "stop_at = off \<or> stop_at = off + n"
  obtains st' where "region_mark base max_regions off inc stop_at st = Some st'"
    "holds_taken m base max_regions (off + n)
       (X @ (if inc \<or> start st \<noteq> -1 \<and> stop_at = off + n then slice m (base + off, n) else [])) st'"
    "(start st' \<noteq> -1) = inc" "regs_only st st'" "cnt st' \<le> cnt st + 1"
proof (cases inc)
  case True
  obtain st' where st': "(if start st = -1 then region_open base max_regions off st else Some st) = Some st'"
    "holds_taken m base max_regions off X st'" "start st' \<noteq> -1" "regs_only st st'" "cnt st' \<le> cnt st"
  proof (cases "start st = -1")
    case True
    then show thesis using region_open_taken [OF assms(1) True assms(2,3)] that by auto
  next
    case False
    then show thesis using assms(1) by (intro that [of st]) simp_all
  qed
  have "holds_taken m base max_regions (off + n) (X @ slice m (base + off, n)) st'"
    using st'(2,3) assms(2-4) slice_add [of "base + start st'" "off - start st'" n m]
    by (auto simp: holds_taken_def taken_def algebra_simps elim: inside_mono)
  then show thesis using st' True by (intro that [of st']) (auto simp: regs_only_def region_mark_def)
next
  case False
  show thesis
  proof (cases "start st = -1")
    case True
    then show thesis using assms(1,4) False by (intro that [of st]) (auto simp: regs_only_def region_mark_def holds_taken_def taken_def elim: inside_mono)
  next
    case opened: False
    have "\<exists>reg. (if cnt st < max_regions then wr (region st) (cnt st) (base + start st, stop_at - start st) else Some (region st)) = Some reg
        \<and> length reg = length (region st) \<and> (cnt st < max_regions \<longrightarrow> take (Suc (cnt st)) reg = take (cnt st) (region st) @ [(base + start st, stop_at - start st)])"
      using assms(1) by (auto simp: holds_taken_def wr_def take_Suc_conv_app_nth)
    then obtain reg where reg: "(if cnt st < max_regions then wr (region st) (cnt st) (base + start st, stop_at - start st) else Some (region st)) = Some reg"
      "length reg = length (region st)" "cnt st < max_regions \<Longrightarrow> take (Suc (cnt st)) reg = take (cnt st) (region st) @ [(base + start st, stop_at - start st)]"
      by blast
    let ?st' = "st\<lparr>region := reg, cnt := cnt st + 1, start := -1\<rparr>"
    have "slice m (base + start st, stop_at - start st) = slice m (base + start st, off - start st) @ (if stop_at = off + n then slice m (base + off, n) else [])"
      using assms opened slice_add [of "base + start st" "off - start st" n m] by (auto simp: holds_taken_def algebra_simps)
    then have "holds_taken m base max_regions (off + n) (X @ (if stop_at = off + n then slice m (base + off, n) else [])) ?st'"
      using assms opened reg(2,3) inside_mono [of base off "take (cnt st) (region st)" "off + n"] by (auto simp: holds_taken_def taken_def)
    then show thesis using reg(1) False opened by (intro that [of ?st']) (simp_all add: regs_only_def region_mark_def region_close_def)
  qed
qed

section \<open>Paths and names\<close>

lemma str_in_list_run:
  assumes "list_all2 cstring ss ptrs" and "cstring s bs"
  shows "str_in_list bs ptrs = Some (s \<in> set ss)"
  using assms(1)
proof (induction ss ptrs rule: list_all2_induct)
  case (Cons x ss y ptrs)
  obtain r where "strcmp y bs = Some r" "r = 0 \<longleftrightarrow> x = s" using strcmp_cstring [OF Cons.hyps(1) assms(2)] by blast
  then show ?case using Cons.IH by auto
qed simp

text \<open>Behind a child of the root the path is empty, which is as good as the path of the root.\<close>

definition same_path :: "string \<Rightarrow> string \<Rightarrow> bool" where
  "same_path q p \<longleftrightarrow> q = p \<or> p = ''/'' \<and> q = []"

definition path_ok :: "string \<Rightarrow> bool" where
  "path_ok p \<longleftrightarrow> (length p = 1 \<longrightarrow> p = ''/'') \<and> NUL \<notin> set p"

lemma enter_same: "same_path q p \<Longrightarrow> enter_path q nm = enter_path p nm"
  by (auto simp: same_path_def enter_path_def)

lemma enter_path_ok: "path_ok p \<Longrightarrow> NUL \<notin> set nm \<Longrightarrow> path_ok (enter_path p nm)"
  by (auto simp: path_ok_def enter_path_def)

lemma leave_same:
  assumes "path_ok p" and "CHR ''/'' \<notin> set nm" and "same_path q (enter_path p nm)"
  shows "same_path (leave_path q) p"
proof (cases "q = enter_path p nm")
  case True
  have "dropWhile (\<lambda>c. c \<noteq> CHR ''/'') (rev nm @ CHR ''/'' # xs) = CHR ''/'' # xs" for xs
    using assms(2) by (subst dropWhile_append2) auto
  then show ?thesis using assms(1) True by (auto simp: leave_path_def enter_path_def same_path_def path_ok_def)
next
  case False
  then have "q = []" "enter_path p nm = ''/''" using assms(3) by (auto simp: same_path_def)
  then have "p = [] \<or> p = ''/''" using assms(1) by (auto simp: enter_path_def path_ok_def append_eq_Cons_conv split: if_splits)
  then show ?thesis using \<open>q = []\<close> by (auto simp: leave_path_def same_path_def)
qed

section \<open>The covered part of a tree\<close>

definition node_want :: "string list \<Rightarrow> string \<Rightarrow> nat \<Rightarrow> string \<Rightarrow> nat" where
  "node_want inc p w nm = (if enter_path p nm \<in> set inc then 2 else w - 1)"

text \<open>
  The tags of a node that a signature over the paths \<open>inc\<close> covers, without the properties \<open>exc\<close>; \<open>w\<close> is
  2 in a listed node, 1 in its children, and 0 elsewhere.
\<close>

fun covered :: "char list \<Rightarrow> string list \<Rightarrow> string list \<Rightarrow> string \<Rightarrow> nat \<Rightarrow> node \<Rightarrow> tag list" where
  "covered m inc exc p w (Node nm ps cs) =
     (let q = enter_path p nm; w' = node_want inc p w nm in
      (if w' = 0 then [] else [Begin nm])
      @ props (filter (\<lambda>(no, v). w' \<ge> 2 \<and> str_at m no \<notin> set exc) ps)
      @ concat (map (covered m inc exc q w') cs)
      @ (if w' = 0 \<and> (cs = [] \<or> node_want inc q w' (nname (last cs)) = 0) then [] else [End_node]))"

fun wf_node :: "char list \<Rightarrow> node \<Rightarrow> bool" where
  "wf_node m (Node nm ps cs) \<longleftrightarrow> named m ps \<and> CHR ''/'' \<notin> set nm \<and> list_all (wf_node m) cs"

lemma slice_enc:
  assumes "holds m os (pre @ t # post)"
  shows "slice m (int os + int (len_of pre), int (length (enc t))) = enc t"
  using holds_drop [OF assms] by (auto simp: slice_def nat_add_distrib prefix_def)

text \<open>One tag that is not the last.\<close>

lemma region_loop_tag:
  assumes "holds m os (pre @ t # post)" and "t \<noteq> End"
    and "region_case m incp excp path_len (code_of t) (int (len_of pre)) (int (len_of (pre @ [t]))) st = Some (Inr (incl, stop_at, st1))"
    and "stop_at = int (len_of pre) \<or> stop_at = int (len_of (pre @ [t]))"
    and "holds_taken m (int os) max_regions (int (len_of pre)) X st1" and "start st1 = start st"
  obtains st' where "region_loop m incp excp path_len (int os) max_regions (int (len_of pre)) st =
      region_loop m incp excp path_len (int os) max_regions (int (len_of (pre @ [t]))) st'"
    "holds_taken m (int os) max_regions (int (len_of (pre @ [t])))
       (X @ (if incl \<or> start st \<noteq> -1 \<and> stop_at = int (len_of (pre @ [t])) then enc t else [])) st'"
    "(start st' \<noteq> -1) = incl" "regs_only st1 st'" "cnt st' \<le> cnt st1 + 1"
proof -
  let ?n = "int (length (enc t))"
  have e: "int (len_of (pre @ [t])) = int (len_of pre) + ?n" by simp
  obtain st' where st': "region_mark (int os) max_regions (int (len_of pre)) incl stop_at st1 = Some st'"
    "holds_taken m (int os) max_regions (int (len_of pre) + ?n)
       (X @ (if incl \<or> start st1 \<noteq> -1 \<and> stop_at = int (len_of pre) + ?n then slice m (int os + int (len_of pre), ?n) else [])) st'"
    "(start st' \<noteq> -1) = incl" "regs_only st1 st'" "cnt st' \<le> cnt st1 + 1"
    by (rule region_mark_taken [OF assms(5), of ?n stop_at incl]) (use assms(4) in \<open>simp_all add: e\<close>)
  have "code_of t \<noteq> FDT_END" using assms(2) by (cases t) (simp_all add: fdt_tags)
  then have "region_loop m incp excp path_len (int os) max_regions (int (len_of pre)) st =
      region_loop m incp excp path_len (int os) max_regions (int (len_of (pre @ [t]))) st'"
    using next_tag_at [OF assms(1)] assms(3) st'(1) by (subst region_loop.simps) simp
  then show thesis using st' assms(6) slice_enc [OF assms(1)] by (intro that [of st']) (simp_all only: e)
qed

text \<open>What a run over complete nodes keeps of the state.\<close>

definition kept :: "string \<Rightarrow> find_state \<Rightarrow> find_state \<Rightarrow> bool" where
  "kept p st st' \<longleftrightarrow> depth st' = depth st \<and> want st' = want st \<and> length (stack st') = length (stack st)
     \<and> take (nat (depth st + 1)) (stack st') = take (nat (depth st + 1)) (stack st) \<and> same_path (path st') p"

definition ready :: "string \<Rightarrow> find_state \<Rightarrow> bool" where
  "ready p st \<longleftrightarrow> - 1 \<le> depth st \<and> depth st < 32 \<and> length (stack st) = 32 \<and> same_path (path st) p \<and> path_ok p"

lemma region_loop_props:
  assumes "holds m os (pre @ props ps @ post)" and "named m ps" and "list_all2 cstring exc excp"
    and "holds_taken m (int os) max_regions (int (len_of pre)) X st"
  shows "\<exists>st'. region_loop m incp excp path_len (int os) max_regions (int (len_of pre)) st =
      region_loop m incp excp path_len (int os) max_regions (int (len_of (pre @ props ps))) st'
    \<and> regs_only st st'
    \<and> holds_taken m (int os) max_regions (int (len_of (pre @ props ps)))
        (X @ encs (props (filter (\<lambda>(no, v). want st \<ge> 2 \<and> str_at m no \<notin> set exc) ps))) st'
    \<and> (want st < 2 \<and> start st = -1 \<longrightarrow> start st' = -1) \<and> cnt st' \<le> cnt st + length ps"
  using assms(1,2,4)
proof (induction ps arbitrary: pre X st)
  case Nil
  then show ?case by (intro exI [of _ st]) simp
next
  case (Cons p ps)
  obtain no v where p: "p = (no, v)" by fastforce
  let ?t = "Prop no v" and ?in = "want st \<ge> 2 \<and> str_at m no \<notin> set exc"
  have h: "holds m os (pre @ ?t # props ps @ post)" using Cons.prems(1) p by simp
  note f = prop_fields [OF h]
  have c: "complete m" "fdt_off_dt_struct m = Some os" using h by (simp_all add: holds_def)
  have s: "fdt_string m no = Some (str_pos m no)"
    using c(1) by (auto simp: fdt_string_def str_pos_def complete_def fdt_off_dt_strings_def fdt32_to_cpu_def)
  have "NUL \<in> set (drop (str_pos m no) m)" using Cons.prems(2) p by (simp add: named_def)
  then have "cstring (str_at m no) (drop (str_pos m no) m)"
    using split_at_NUL by (fastforce simp: cstring_def str_at_def prefix_def dest: set_takeWhileD)
  then have "str_in_list (drop (str_pos m no) m) excp = Some (str_at m no \<in> set exc)" by (rule str_in_list_run [OF assms(3)])
  then have rc: "region_case m incp excp path_len (code_of ?t) (int (len_of pre)) (int (len_of (pre @ [?t]))) st = Some (Inr (?in, int (len_of pre), st))"
    using f c s s32_nat [of "length v"] by (auto simp: region_case_def fdt_get_property_by_offset_def Let_def add_ac)
  obtain st1 where st1: "region_loop m incp excp path_len (int os) max_regions (int (len_of pre)) st =
      region_loop m incp excp path_len (int os) max_regions (int (len_of (pre @ [?t]))) st1"
    "holds_taken m (int os) max_regions (int (len_of (pre @ [?t])))
       (X @ (if ?in \<or> start st \<noteq> -1 \<and> int (len_of pre) = int (len_of (pre @ [?t])) then enc ?t else [])) st1"
    "(start st1 \<noteq> -1) = ?in" "regs_only st st1" "cnt st1 \<le> cnt st + 1"
    by (rule region_loop_tag [OF h _ rc _ Cons.prems(3) refl]) simp_all
  have w: "want st1 = want st" using st1(4) by (simp add: regs_only_def)
  have x: "holds_taken m (int os) max_regions (int (len_of (pre @ [?t]))) (X @ (if ?in then enc ?t else [])) st1"
    using st1(2) length_enc(2) [of ?t] by (auto split: if_splits)
  have "holds m os ((pre @ [?t]) @ props ps @ post)" "named m ps" using Cons.prems(1,2) p by (simp_all add: named_def)
  from Cons.IH [OF this x] obtain st2 where st2: "region_loop m incp excp path_len (int os) max_regions (int (len_of (pre @ [?t]))) st1 =
      region_loop m incp excp path_len (int os) max_regions (int (len_of ((pre @ [?t]) @ props ps))) st2"
    "regs_only st1 st2"
    "holds_taken m (int os) max_regions (int (len_of ((pre @ [?t]) @ props ps)))
        ((X @ (if ?in then enc ?t else [])) @ encs (props (filter (\<lambda>(no, v). want st1 \<ge> 2 \<and> str_at m no \<notin> set exc) ps))) st2"
    "want st1 < 2 \<and> start st1 = -1 \<longrightarrow> start st2 = -1" "cnt st2 \<le> cnt st1 + length ps" by blast
  have "regs_only st st2" using st2(2) st1(4) by (simp add: regs_only_def)
  then show ?case using st1(1,3,5) st2 w p by (intro exI [of _ st2]) (auto split: if_splits)
qed

lemma get_name_at:
  assumes "holds m os (pre @ Begin nm # post)"
  shows "fdt_get_name m (int (len_of pre)) = Some (Some (os + len_of pre + 4), int (length nm))"
    "take (length nm) (drop (os + len_of pre + 4) m) = nm" "NUL \<notin> set nm"
proof -
  obtain r where "drop (os + len_of pre) m = be32 FDT_BEGIN_NODE @ padded (nm @ [NUL]) @ r"
    using holds_drop [OF assms] by (auto simp: prefix_def enc_def)
  from arg_cong [OF this, of "drop 4"] obtain r where r: "drop (os + len_of pre + 4) m = nm @ NUL # r" by (simp add: padded_def add_ac)
  then show "take (length nm) (drop (os + len_of pre + 4) m) = nm" by simp
  show nn: "NUL \<notin> set nm" using assms by (simp add: holds_def)
  have "strlen (drop (os + len_of pre + 4) m) = Some (length nm)" using r nn by (intro strlen_cstring) (simp add: cstring_def)
  then show "fdt_get_name m (int (len_of pre)) = Some (Some (os + len_of pre + 4), int (length nm))"
    using check_node_at [OF assms] assms by (simp add: fdt_get_name_def holds_def)
qed

lemma region_begin:
  assumes "holds m os (pre @ Begin nm # post)" and "ready p st" and "list_all2 cstring inc incp"
    and "holds_taken m (int os) max_regions (int (len_of pre)) X st" and "w = node_want inc p (want st) nm"
  shows "(depth st + 1 = 32 \<or> path_len \<le> length p + 2 + length nm) \<and> (\<exists>e < 0. region_loop m incp excp path_len (int os) max_regions (int (len_of pre)) st = Some (Inl e))
    \<or> (\<exists>st'. region_loop m incp excp path_len (int os) max_regions (int (len_of pre)) st =
          region_loop m incp excp path_len (int os) max_regions (int (len_of (pre @ [Begin nm]))) st'
        \<and> holds_taken m (int os) max_regions (int (len_of (pre @ [Begin nm]))) (X @ (if w = 0 then [] else enc (Begin nm))) st'
        \<and> (start st' \<noteq> -1) = (w \<noteq> 0) \<and> ready (enter_path p nm) st' \<and> depth st' = depth st + 1 \<and> want st' = w
        \<and> path st' = enter_path p nm \<and> stack st' = (stack st)[nat (depth st + 1) := want st] \<and> cnt st' \<le> cnt st + 1)"
proof -
  let ?t = "Begin nm" and ?q = "enter_path p nm" and ?o = "int (len_of pre)"
  note g = get_name_at [OF assms(1)]
  have q: "enter_path (path st) nm = ?q" using assms(2) enter_same by (simp add: ready_def)
  have qok: "path_ok ?q" using assms(2) g(3) by (simp add: ready_def enter_path_ok)
  consider "depth st + 1 = 32" | "int (length (path st)) + 2 + int (length nm) \<ge> int path_len" "depth st + 1 \<noteq> 32"
    | "depth st + 1 < 32" "\<not> int (length (path st)) + 2 + int (length nm) \<ge> int path_len"
    using assms(2) by (fastforce simp: ready_def)
  then show ?thesis
  proof cases
    case 1
    then show ?thesis using next_tag_at [OF assms(1)]
      by (subst region_loop.simps) (simp add: region_case_def fdt_tags FDT_MAX_DEPTH_def fdt_errors)
  next
    case 2
    have "length (path st) \<le> length p" using assms(2) by (auto simp: ready_def same_path_def)
    then show ?thesis using 2 next_tag_at [OF assms(1)] g(1)
      by (subst region_loop.simps) (simp add: region_case_def fdt_tags FDT_MAX_DEPTH_def fdt_errors)
  next
    case 3
    let ?st1 = "st\<lparr>depth := depth st + 1, stack := (stack st)[nat (depth st + 1) := want st], path := ?q, want := w\<rparr>"
    let ?stop = "if want st = 1 \<or> (?q \<notin> set inc \<and> want st = 0) then ?o else int (len_of (pre @ [?t]))"
    have "wr (stack st) (nat (depth st + 1)) (want st) = Some ((stack st)[nat (depth st + 1) := want st])"
      using assms(2) 3(1) by (simp add: ready_def wr_def)
    moreover have "str_in_list (?q @ [NUL]) incp = Some (?q \<in> set inc)"
      using qok by (intro str_in_list_run [OF assms(3)]) (simp add: cstring_def path_ok_def)
    ultimately have rc: "region_case m incp excp path_len (code_of ?t) ?o (int (len_of (pre @ [?t]))) st = Some (Inr (w \<noteq> 0, ?stop, ?st1))"
      using 3 g q assms(5) by (simp add: region_case_def fdt_tags FDT_MAX_DEPTH_def Let_def node_want_def)
    have x1: "holds_taken m (int os) max_regions ?o X ?st1" by (rule holds_taken_cong [OF assms(4)]) simp_all
    obtain st' where st': "region_loop m incp excp path_len (int os) max_regions ?o st =
        region_loop m incp excp path_len (int os) max_regions (int (len_of (pre @ [?t]))) st'"
      "holds_taken m (int os) max_regions (int (len_of (pre @ [?t])))
         (X @ (if w \<noteq> 0 \<or> start st \<noteq> -1 \<and> ?stop = int (len_of (pre @ [?t])) then enc ?t else [])) st'"
      "(start st' \<noteq> -1) = (w \<noteq> 0)" "regs_only ?st1 st'" "cnt st' \<le> cnt ?st1 + 1"
      by (rule region_loop_tag [OF assms(1) _ rc _ x1]) simp_all
    have "?stop \<noteq> int (len_of (pre @ [?t]))" if "w = 0"
      using that assms(5) length_enc(2) [of ?t] by (auto simp: node_want_def split: if_splits)
    then have "holds_taken m (int os) max_regions (int (len_of (pre @ [?t]))) (X @ (if w = 0 then [] else enc ?t)) st'"
      using st'(2) by (cases "w = 0") simp_all
    then show ?thesis using st'(1,3-5) assms(2) 3(1) qok
      by (intro disjI2 exI [of _ st']) (simp add: regs_only_def ready_def same_path_def)
  qed
qed

lemma region_end:
  assumes "holds m os (pre @ End_node # post)" and "0 \<le> depth st" and "nat (depth st) < length (stack st)"
    and "holds_taken m (int os) max_regions (int (len_of pre)) X st"
  obtains st' where "region_loop m incp excp path_len (int os) max_regions (int (len_of pre)) st =
      region_loop m incp excp path_len (int os) max_regions (int (len_of (pre @ [End_node]))) st'"
    "holds_taken m (int os) max_regions (int (len_of (pre @ [End_node])))
       (X @ (if want st = 0 \<and> start st = -1 then [] else enc End_node)) st'"
    "(start st' \<noteq> -1) = (want st \<noteq> 0)" "depth st' = depth st - 1" "want st' = stack st ! nat (depth st)"
    "path st' = leave_path (path st)" "stack st' = stack st" "cnt st' \<le> cnt st + 1"
proof -
  let ?st1 = "st\<lparr>want := stack st ! nat (depth st), depth := depth st - 1, path := leave_path (path st)\<rparr>"
  have rc: "region_case m incp excp path_len (code_of End_node) (int (len_of pre)) (int (len_of (pre @ [End_node]))) st =
      Some (Inr (want st \<noteq> 0, int (len_of (pre @ [End_node])), ?st1))"
    using assms(2,3) by (simp add: region_case_def fdt_tags rd_def)
  have x1: "holds_taken m (int os) max_regions (int (len_of pre)) X ?st1" by (rule holds_taken_cong [OF assms(4)]) simp_all
  obtain st' where "region_loop m incp excp path_len (int os) max_regions (int (len_of pre)) st =
      region_loop m incp excp path_len (int os) max_regions (int (len_of (pre @ [End_node]))) st'"
    "holds_taken m (int os) max_regions (int (len_of (pre @ [End_node])))
       (X @ (if want st \<noteq> 0 \<or> start st \<noteq> -1 \<and> int (len_of (pre @ [End_node])) = int (len_of (pre @ [End_node])) then enc End_node else [])) st'"
    "(start st' \<noteq> -1) = (want st \<noteq> 0)" "regs_only ?st1 st'" "cnt st' \<le> cnt ?st1 + 1"
    by (rule region_loop_tag [OF assms(1) _ rc _ x1]) simp_all
  then show thesis by (intro that [of st']) (auto simp: regs_only_def)
qed

text \<open>
  The outcome of the loop over some nodes: an error, if a limit is exceeded, or the loop goes on behind
  them with the covered tags \<open>ts\<close> taken and at most \<open>n\<close> more regions; \<open>b\<close> says whether a region is open then.
\<close>

definition region_run :: "(nat \<Rightarrow> find_state \<Rightarrow> (int + int \<times> find_state) option) \<Rightarrow> char list \<Rightarrow> nat \<Rightarrow> nat \<Rightarrow> nat \<Rightarrow> nat
    \<Rightarrow> string \<Rightarrow> find_state \<Rightarrow> char list \<Rightarrow> tag list \<Rightarrow> bool \<Rightarrow> bool \<Rightarrow> nat \<Rightarrow> bool" where
  "region_run loop m os max_regions off off' p st X ts b exceeded n \<longleftrightarrow>
     exceeded \<and> (\<exists>e < 0. loop off st = Some (Inl e))
     \<or> (\<exists>st'. loop off st = loop off' st' \<and> kept p st st' \<and> cnt st' \<le> cnt st + n
         \<and> holds_taken m (int os) max_regions (int off') (X @ encs ts) st' \<and> (start st' \<noteq> -1) = b)"

text \<open>The limits on the depth and on the length of a path.\<close>

fun exceeds :: "nat \<Rightarrow> int \<Rightarrow> string \<Rightarrow> node \<Rightarrow> bool" where
  "exceeds path_len d p (Node nm ps cs) \<longleftrightarrow> d + 1 = 32 \<or> path_len \<le> length p + 2 + length nm
     \<or> list_ex (exceeds path_len (d + 1) (enter_path p nm)) cs"

lemma region_run_cong: "loop off st = loop off1 st1 \<Longrightarrow> kept p st st1 \<Longrightarrow> cnt st1 \<le> cnt st + k \<Longrightarrow> (exceeded1 \<Longrightarrow> exceeded)
    \<Longrightarrow> region_run loop m os max_regions off1 off' p st1 X ts b exceeded1 n \<Longrightarrow> region_run loop m os max_regions off off' p st X ts b exceeded (k + n)"
  unfolding region_run_def kept_def by (elim disjE) (auto 4 4)

lemma kept_ready: "ready p st \<Longrightarrow> kept p st st' \<Longrightarrow> ready p st'"
  by (simp add: ready_def kept_def)

lemma region_kids:
  assumes "\<And>c pre post st X. c \<in> set cs \<Longrightarrow> holds m os (pre @ tags c @ post) \<Longrightarrow> wf_node m c \<Longrightarrow> ready q st \<Longrightarrow>
      holds_taken m (int os) max_regions (int (len_of pre)) X st \<Longrightarrow>
      region_run loop m os max_regions (len_of pre) (len_of (pre @ tags c)) q st X (covered m inc exc q (want st) c)
        (node_want inc q (want st) (nname c) \<noteq> 0) (exceeds path_len (depth st) q c) (length (tags c))"
    and "holds m os (pre @ concat (map tags cs) @ post)" and "list_all (wf_node m) cs" and "ready q st"
    and "holds_taken m (int os) max_regions (int (len_of pre)) X st"
  shows "region_run loop m os max_regions (len_of pre) (len_of (pre @ concat (map tags cs))) q st X
    (concat (map (covered m inc exc q (want st)) cs))
    (if cs = [] then start st \<noteq> -1 else node_want inc q (want st) (nname (last cs)) \<noteq> 0)
    (list_ex (exceeds path_len (depth st) q) cs) (length (concat (map tags cs)))"
  using assms
proof (induction cs arbitrary: pre st X)
  case Nil
  then show ?case by (auto simp: region_run_def kept_def ready_def)
next
  case (Cons c cs)
  let ?pre = "pre @ tags c"
  have "region_run loop m os max_regions (len_of pre) (len_of ?pre) q st X (covered m inc exc q (want st) c) (node_want inc q (want st) (nname c) \<noteq> 0)
      (exceeds path_len (depth st) q c) (length (tags c))"
    using Cons.prems by (intro Cons.prems(1) [where post = "concat (map tags cs) @ post"]) simp_all
  then consider e where "e < 0" "loop (len_of pre) st = Some (Inl e)" "exceeds path_len (depth st) q c"
    | st1 where "loop (len_of pre) st = loop (len_of ?pre) st1" "kept q st st1"
      "holds_taken m (int os) max_regions (int (len_of ?pre)) (X @ encs (covered m inc exc q (want st) c)) st1"
      "(start st1 \<noteq> -1) = (node_want inc q (want st) (nname c) \<noteq> 0)" "cnt st1 \<le> cnt st + length (tags c)"
    unfolding region_run_def by blast
  then show ?case
  proof cases
    case 1
    then show ?thesis unfolding region_run_def by auto
  next
    case 2
    have w: "want st1 = want st" "depth st1 = depth st" using 2(2) by (simp_all add: kept_def)
    have "region_run loop m os max_regions (len_of ?pre) (len_of (?pre @ concat (map tags cs))) q st1 (X @ encs (covered m inc exc q (want st) c))
        (concat (map (covered m inc exc q (want st1)) cs))
        (if cs = [] then start st1 \<noteq> -1 else node_want inc q (want st1) (nname (last cs)) \<noteq> 0)
        (list_ex (exceeds path_len (depth st1) q) cs) (length (concat (map tags cs)))"
    proof (rule Cons.IH)
      show "holds m os (?pre @ concat (map tags cs) @ post)" "list_all (wf_node m) cs" using Cons.prems(2,3) by simp_all
      show "ready q st1" using kept_ready [OF Cons.prems(4) 2(2)] .
      show "holds_taken m (int os) max_regions (int (len_of ?pre)) (X @ encs (covered m inc exc q (want st) c)) st1" by (fact 2(3))
    qed (use Cons.prems(1) in simp)
    then have "region_run loop m os max_regions (len_of ?pre) (len_of (pre @ concat (map tags (c # cs)))) q st1 X
        (concat (map (covered m inc exc q (want st)) (c # cs)))
        (if c # cs = [] then start st \<noteq> -1 else node_want inc q (want st) (nname (last (c # cs))) \<noteq> 0)
        (list_ex (exceeds path_len (depth st) q) cs) (length (concat (map tags cs)))"
      using 2(4) w unfolding region_run_def by (simp split: if_splits)
    from region_run_cong [OF 2(1,2,5) _ this, of "list_ex (exceeds path_len (depth st) q) (c # cs)"] show ?thesis by simp
  qed
qed

lemma stack_top:
  assumes "take (Suc d) xs = take (Suc d) (ys[d := v])" and "d < length ys"
  shows "xs ! d = v" "take d xs = take d ys"
proof -
  show "xs ! d = v" using arg_cong [OF assms(1), of "\<lambda>zs. zs ! d"] assms(2) by simp
  show "take d xs = take d ys" using arg_cong [OF assms(1), of "take d"] by (simp add: take_take min_def)
qed

lemma region_tree:
  assumes "list_all2 cstring inc incp" and "list_all2 cstring exc excp"
    and loop_def: "loop = (\<lambda>off. region_loop m incp excp path_len (int os) max_regions (int off))"
  shows "holds m os (pre @ tags t @ post) \<Longrightarrow> wf_node m t \<Longrightarrow> ready p st \<Longrightarrow>
    holds_taken m (int os) max_regions (int (len_of pre)) X st \<Longrightarrow>
    region_run loop m os max_regions (len_of pre) (len_of (pre @ tags t)) p st X (covered m inc exc p (want st) t)
      (node_want inc p (want st) (nname t) \<noteq> 0) (exceeds path_len (depth st) p t) (length (tags t))"
proof (induction t arbitrary: pre post p st X)
  case (Node nm ps cs)
  define q w where "q = enter_path p nm" and "w = node_want inc p (want st) nm"
  let ?pre1 = "pre @ [Begin nm]" and ?body = "concat (map tags cs)"
  let ?pre2 = "?pre1 @ props ps" let ?pre3 = "?pre2 @ ?body"
  let ?X1 = "X @ (if w = 0 then [] else enc (Begin nm))"
  let ?P = "props (filter (\<lambda>(no, v). w \<ge> 2 \<and> str_at m no \<notin> set exc) ps)"
  have h: "holds m os (pre @ Begin nm # props ps @ ?body @ End_node # post)"
    "holds m os (?pre1 @ props ps @ ?body @ End_node # post)" "holds m os (?pre2 @ ?body @ End_node # post)"
    "holds m os (?pre3 @ End_node # post)"
    using Node.prems(1) by (simp_all add: head_tags_def)
  have wf: "named m ps" "CHR ''/'' \<notin> set nm" "list_all (wf_node m) cs" using Node.prems(2) by simp_all
  consider e where "e < 0" "loop (len_of pre) st = Some (Inl e)" "depth st + 1 = 32 \<or> path_len \<le> length p + 2 + length nm"
    | st1 where "loop (len_of pre) st = loop (len_of ?pre1) st1"
      "holds_taken m (int os) max_regions (int (len_of ?pre1)) ?X1 st1" "(start st1 \<noteq> -1) = (w \<noteq> 0)" "ready q st1"
      "depth st1 = depth st + 1" "want st1 = w" "path st1 = q" "stack st1 = (stack st)[nat (depth st + 1) := want st]" "cnt st1 \<le> cnt st + 1"
    using region_begin [OF h(1) Node.prems(3) assms(1) Node.prems(4) w_def, where excp = excp and path_len = path_len] unfolding loop_def q_def by blast
  then show ?case
  proof cases
    case 1
    then show ?thesis unfolding region_run_def by auto
  next
    case 2
    obtain st2 where st2: "loop (len_of ?pre1) st1 = loop (len_of ?pre2) st2" "regs_only st1 st2"
      "holds_taken m (int os) max_regions (int (len_of ?pre2)) (?X1 @ encs ?P) st2" "want st1 < 2 \<and> start st1 = -1 \<longrightarrow> start st2 = -1"
      "cnt st2 \<le> cnt st1 + length ps"
      using region_loop_props [OF h(2) wf(1) assms(2) 2(2), of incp path_len] unfolding loop_def 2(6) by blast
    have f2: "depth st2 = depth st + 1" "want st2 = w" "stack st2 = stack st1" "ready q st2"
      using st2(2) 2(4-7) by (simp_all add: regs_only_def ready_def)
    have "region_run loop m os max_regions (len_of ?pre2) (len_of ?pre3) q st2 (?X1 @ encs ?P) (concat (map (covered m inc exc q (want st2)) cs))
        (if cs = [] then start st2 \<noteq> -1 else node_want inc q (want st2) (nname (last cs)) \<noteq> 0)
        (list_ex (exceeds path_len (depth st2) q) cs) (length (concat (map tags cs)))"
      by (rule region_kids [OF Node.IH h(3) wf(3) f2(4) st2(3)])
    then consider e where "e < 0" "loop (len_of ?pre2) st2 = Some (Inl e)" "list_ex (exceeds path_len (depth st + 1) q) cs"
      | st3 where "loop (len_of ?pre2) st2 = loop (len_of ?pre3) st3" "kept q st2 st3"
        "holds_taken m (int os) max_regions (int (len_of ?pre3)) ((?X1 @ encs ?P) @ encs (concat (map (covered m inc exc q w) cs))) st3"
        "(start st3 \<noteq> -1) = (if cs = [] then start st2 \<noteq> -1 else node_want inc q w (nname (last cs)) \<noteq> 0)" "cnt st3 \<le> cnt st2 + length (concat (map tags cs))"
      unfolding region_run_def f2(1,2) by blast
    then show ?thesis
    proof cases
      case 1
      then show ?thesis using 2(1) st2(1) unfolding region_run_def by (auto simp: q_def)
    next
      case st3: 2
      have r: "- 1 \<le> depth st" "depth st < 32" "length (stack st) = 32" "same_path (path st) p" "path_ok p"
        using Node.prems(3) by (simp_all add: ready_def)
      have f3: "depth st3 = depth st + 1" "want st3 = w" "length (stack st3) = 32" "same_path (path st3) q"
        "take (nat (depth st + 2)) (stack st3) = take (nat (depth st + 2)) ((stack st)[nat (depth st + 1) := want st])"
        using st3(2) f2 2(8) r by (simp_all add: kept_def add.commute)
      have d: "0 \<le> depth st3" "nat (depth st3) < length (stack st3)" using f3 r 2(4,5) by (simp_all add: ready_def nat_less_iff)
      obtain st4 where st4: "loop (len_of ?pre3) st3 = loop (len_of (?pre3 @ [End_node])) st4"
        "holds_taken m (int os) max_regions (int (len_of (?pre3 @ [End_node])))
           (((?X1 @ encs ?P) @ encs (concat (map (covered m inc exc q w) cs))) @ (if want st3 = 0 \<and> start st3 = -1 then [] else enc End_node)) st4"
        "(start st4 \<noteq> -1) = (want st3 \<noteq> 0)" "depth st4 = depth st3 - 1" "want st4 = stack st3 ! nat (depth st3)"
        "path st4 = leave_path (path st3)" "stack st4 = stack st3" "cnt st4 \<le> cnt st3 + 1"
        unfolding loop_def by (rule region_end [OF h(4) d st3(3)])
      have "nat (depth st + 2) = Suc (nat (depth st + 1))" using r by simp
      then have "stack st3 ! nat (depth st + 1) = want st" "take (nat (depth st + 1)) (stack st3) = take (nat (depth st + 1)) (stack st)"
        using stack_top [of "nat (depth st + 1)" "stack st3" "stack st" "want st"] f3 d r by simp_all
      then have k: "kept p st st4"
        using st4(4-7) f3 r leave_same [OF r(5) wf(2), of "path st3"] by (simp add: kept_def q_def)
      have "w = 0 \<and> start st3 = -1 \<longleftrightarrow> w = 0 \<and> (cs = [] \<or> node_want inc q w (nname (last cs)) = 0)"
        using st3(4) st2(4) 2(3,6) by (auto split: if_splits)
      then have cov: "encs (covered m inc exc p (want st) (Node nm ps cs)) = (if w = 0 then [] else enc (Begin nm)) @ encs ?P
          @ encs (concat (map (covered m inc exc q w) cs)) @ (if w = 0 \<and> start st3 = -1 then [] else enc End_node)"
        by (auto simp: Let_def q_def [symmetric] w_def [symmetric])
      have len: "len_of (pre @ tags (Node nm ps cs)) = len_of (?pre3 @ [End_node])" by (simp add: head_tags_def)
      have "holds_taken m (int os) max_regions (int (len_of (pre @ tags (Node nm ps cs)))) (X @ encs (covered m inc exc p (want st) (Node nm ps cs))) st4"
        using st4(2) by (simp only: cov len f3(2) append_assoc)
      moreover have "cnt st4 \<le> cnt st + length (tags (Node nm ps cs))" using 2(9) st2(5) st3(5) st4(8) by (simp add: head_tags_def)
      ultimately show ?thesis using 2(1) st2(1) st3(1) st4(1,3) k f3(2)
        unfolding region_run_def by (intro disjI2 exI [of _ st4]) (simp add: head_tags_def w_def)
    qed
  qed
qed

text \<open>The regions of a well-formed blob hold the covered tags of its tree and the final tag, when no limit is exceeded.\<close>

lemma find_regions_covered:
  assumes "holds m os (tags t @ [End])" and "wf_node m t" and "list_all2 cstring inc incp" and "list_all2 cstring exc excp"
    and "max_regions \<le> length reg"
  shows "\<exists>count reg'. fdt_find_regions m incp excp reg max_regions path_len False = Some (count, reg') \<and>
    count \<le> int (length (tags t)) + 2 \<and>
    (count < 0 \<and> exceeds path_len (-1) [] t \<or> int max_regions < count \<or>
     0 < count \<and> concat (map (slice m) (take (nat count) reg')) = encs (covered m inc exc [] 0 t) @ enc End
       \<and> max_regions \<le> length reg' \<and> inside 0 (int (length m)) (take (nat count) reg'))"
proof -
  define loop where "loop = (\<lambda>off. region_loop m incp excp path_len (int os) max_regions (int off))"
  define st where "st = \<lparr>region = reg, cnt = 0, start = -1, depth = -1, want = 0, stack = replicate 32 0, path = []\<rparr>"
  have os: "fdt_off_dt_struct m = Some os" "fdt_size_dt_struct m = Some (len_of (tags t @ [End]))" using assms(1) by (simp_all add: holds_def)
  have base: "s32 (int os) = int os" using holds_bound [OF assms(1)] by (simp add: s32_nat)
  have "ready [] st" "holds_taken m (int os) max_regions (int (len_of [])) [] st"
    using assms(5) by (simp_all add: ready_def st_def same_path_def path_ok_def holds_taken_def taken_def)
  then have "region_run loop m os max_regions (len_of []) (len_of ([] @ tags t)) [] st [] (covered m inc exc [] (want st) t)
      (node_want inc [] (want st) (nname t) \<noteq> 0) (exceeds path_len (depth st) [] t) (length (tags t))"
    using assms(1) by (intro region_tree [OF assms(3,4) loop_def _ assms(2)]) simp_all
  then consider e where "e < 0" "loop 0 st = Some (Inl e)" "exceeds path_len (-1) [] t"
    | st1 where "loop 0 st = loop (len_of (tags t)) st1"
      "holds_taken m (int os) max_regions (int (len_of (tags t))) (encs (covered m inc exc [] 0 t)) st1" "cnt st1 \<le> length (tags t)"
    unfolding region_run_def by (auto simp: st_def)
  then show ?thesis
  proof cases
    case 1
    then show ?thesis using base os(1) unfolding loop_def st_def by (simp add: fdt_find_regions_def)
  next
    case 2
    let ?o = "int (len_of (tags t))" and ?n = "int (length (enc End))"
    obtain st2 where st2: "region_mark (int os) max_regions ?o True (?o + ?n) st1 = Some st2"
      "holds_taken m (int os) max_regions (?o + ?n)
         (encs (covered m inc exc [] 0 t) @ (if True \<or> start st1 \<noteq> -1 \<and> ?o + ?n = ?o + ?n then slice m (int os + ?o, ?n) else [])) st2"
      "(start st2 \<noteq> -1) = True" "cnt st2 \<le> cnt st1 + 1"
      by (rule region_mark_taken [OF 2(2), of ?n "?o + ?n" True]) simp_all
    have x: "slice m (int os + ?o, ?n) = enc End" using slice_enc [of m os "tags t" End "[]"] assms(1) by simp
    have run: "loop (len_of (tags t)) st1 = Some (Inr (?o + ?n, st2))"
      using next_tag_at [of m os "tags t" End "[]"] assms(1) st2(1)
      unfolding loop_def by (subst region_loop.simps) (simp add: region_case_def fdt_tags)
    have "u32_of (?o + ?n) = len_of (tags t @ [End])"
      using holds_bound [OF assms(1)] u32_of_small [of "?o + ?n"] by simp
    moreover have "\<exists>reg'. (if cnt st2 < max_regions then wr (region st2) (cnt st2) (int os + start st2, ?o + ?n - start st2) else Some (region st2)) = Some reg'
        \<and> max_regions \<le> length reg' \<and> (cnt st2 < max_regions \<longrightarrow> take (Suc (cnt st2)) reg' = take (cnt st2) (region st2) @ [(int os + start st2, ?o + ?n - start st2)])"
      using st2(2) by (auto simp: holds_taken_def wr_def take_Suc_conv_app_nth)
    then obtain reg' where reg': "(if cnt st2 < max_regions then wr (region st2) (cnt st2) (int os + start st2, ?o + ?n - start st2) else Some (region st2)) = Some reg'" "max_regions \<le> length reg'"
      "cnt st2 < max_regions \<Longrightarrow> take (Suc (cnt st2)) reg' = take (cnt st2) (region st2) @ [(int os + start st2, ?o + ?n - start st2)]"
      by blast
    ultimately have "fdt_find_regions m incp excp reg max_regions path_len False = Some (int (cnt st2) + 1, reg')"
      using base os run 2(1) unfolding loop_def st_def by (auto simp: fdt_find_regions_def split: if_splits)
    moreover have "int max_regions < int (cnt st2) + 1 \<or>
        concat (map (slice m) (take (Suc (cnt st2)) reg')) = encs (covered m inc exc [] 0 t) @ enc End
        \<and> inside (int os) (?o + ?n) (take (Suc (cnt st2)) reg')"
      using st2(2,3) reg'(3) x by (cases "cnt st2 < max_regions") (auto simp: holds_taken_def taken_def)
    moreover have "inside (int os) (?o + ?n) rs \<Longrightarrow> inside 0 (int (length m)) rs" for rs
      using assms(1) by (fastforce simp: inside_def list_all_iff holds_def complete_def)
    ultimately show ?thesis using 2(3) st2(4) reg'(2) by (auto simp: nat_add_distrib)
  qed
qed

end
