(* ===== verification/BlockHash.thy ===== *)
theory BlockHash
  imports Prelude
begin

text \<open>
  What the message digests of \<^verbatim>\<open>lib\<close> share: a buffer of one block that is filled by calls with pieces of
  any length (\<^verbatim>\<open>sha1_update\<close>, \<^verbatim>\<open>sha256_update\<close>, \<^verbatim>\<open>sha512_update\<close>), a counter in two words, and the loop
  that feeds a long message in chunks. The locale \<open>block_hash\<close> is the contract of a compression
  function, and \<open>incremental\<close> that of an update function; both are interpreted for every digest.
\<close>

section \<open>The buffer\<close>

text \<open>\<^verbatim>\<open>memcpy(ctx->buffer + left, input, n)\<close>, with the bounds of the buffer.\<close>

definition fill_buffer :: "u8 list \<Rightarrow> nat \<Rightarrow> u8 list \<Rightarrow> u8 list option" where
  "fill_buffer b left bs = (if left + length bs \<le> length b then Some (take left b @ bs @ drop (left + length bs) b) else None)"

text \<open>The loop over the whole blocks of the input; \<open>n\<close> is the size of a block.\<close>

function whole_blocks :: "nat \<Rightarrow> ('s \<Rightarrow> u8 list \<Rightarrow> 's) \<Rightarrow> 's \<Rightarrow> u8 list \<Rightarrow> 's \<times> u8 list" where
  "whole_blocks n process s inp =
     (if 0 < n \<and> length inp \<ge> n then whole_blocks n process (process s inp) (drop n inp) else (s, inp))"
  by pat_completeness auto
termination by (relation "measure (\<lambda>(n, process, s, inp). length inp)") auto

declare whole_blocks.simps [simp del]

text \<open>An update behind the counters: complete the block in the buffer, process whole blocks, keep the rest.\<close>

definition block_update :: "nat \<Rightarrow> ('s \<Rightarrow> u8 list \<Rightarrow> 's) \<Rightarrow> nat \<Rightarrow> 's \<Rightarrow> u8 list \<Rightarrow> u8 list \<Rightarrow> ('s \<times> u8 list) option" where
  "block_update n process left s b inp = do {
     let fill = n - left;
     (s, b, inp, left) \<leftarrow>
       (if left \<noteq> 0 \<and> length inp \<ge> fill then do {
          b \<leftarrow> fill_buffer b left (take fill inp);
          Some (process s b, b, drop fill inp, 0) }
        else Some (s, b, inp, left));
     let (s, inp) = whole_blocks n process s inp;
     if inp \<noteq> [] then do { b \<leftarrow> fill_buffer b left inp; Some (s, b) } else Some (s, b) }"

text \<open>
  The loop over chunks that is compiled with a watchdog; a chunk size of 0 never ends. The code keeps
  the size of a chunk in an \<^verbatim>\<open>int\<close>, so chunk sizes are below \<open>2 ^ 31\<close>.
\<close>

function csum_loop :: "('c \<Rightarrow> u8 list \<Rightarrow> 'c option) \<Rightarrow> 'c \<Rightarrow> u8 list \<Rightarrow> nat \<Rightarrow> 'c option" where
  "csum_loop update ctx cur chunk_sz =
     (if cur = [] then Some ctx
      else if chunk_sz = 0 then None
      else let chunk = min (length cur) chunk_sz in
        Option.bind (update ctx (take chunk cur)) (\<lambda>ctx. csum_loop update ctx (drop chunk cur) chunk_sz))"
  by pat_completeness auto
termination by (relation "measure (\<lambda>(update, ctx, cur, chunk_sz). length cur)") auto

declare csum_loop.simps [simp del]

text \<open>A message given in pieces.\<close>

fun updates :: "('c \<Rightarrow> u8 list \<Rightarrow> 'c option) \<Rightarrow> 'c \<Rightarrow> u8 list list \<Rightarrow> 'c option" where
  "updates update ctx [] = Some ctx"
| "updates update ctx (c # cs) = Option.bind (update ctx c) (\<lambda>ctx. updates update ctx cs)"

lemma updates_two: "updates update ctx [a, b] = Some c \<Longrightarrow> do { x \<leftarrow> update ctx a; y \<leftarrow> update x b; f y } = f c"
  by (auto split: Option.bind_splits)

section \<open>Blocks of a message\<close>

function blocks :: "nat \<Rightarrow> u8 list \<Rightarrow> u8 list list" where
  "blocks n xs = (if 0 < n \<and> n \<le> length xs then take n xs # blocks n (drop n xs) else [])"
  by pat_completeness auto
termination by (relation "measure (\<lambda>(n, xs). length xs)") auto

declare blocks.simps [simp del]

lemma blocks_append: "0 < n \<Longrightarrow> length a mod n = 0 \<Longrightarrow> blocks n (a @ b) = blocks n a @ blocks n b"
proof (induction n a rule: blocks.induct)
  case (1 n a)
  show ?case
  proof (cases "n \<le> length a")
    case False
    with 1(3) have "a = []" by simp
    then show ?thesis using 1(2) by (simp add: blocks.simps [of n "[]"])
  next
    case True
    then have "(length a - n) mod n = 0" using 1(3) by (simp add: le_mod_geq)
    with True 1(1,2) show ?thesis by (simp add: blocks.simps [of n a] blocks.simps [of n "a @ b"])
  qed
qed

lemma blocks_short: "length b < n \<Longrightarrow> blocks n b = []"
  by (simp add: blocks.simps)

lemma blocks_one: "0 < n \<Longrightarrow> length b = n \<Longrightarrow> blocks n b = [b]"
  by (simp add: blocks.simps [of n b] blocks_short)

lemma split_message:
  assumes "0 < n"
  obtains full rest where "msg = full @ rest" "length full mod n = 0" "length rest = length msg mod n"
    "drop (length msg - length msg mod n) msg = rest" "blocks n msg = blocks n full"
proof -
  let ?k = "length msg - length msg mod n"
  have k: "length (take ?k msg) = ?k" "?k mod n = 0" by (simp_all add: minus_mod_eq_mult_div)
  have r: "length (drop ?k msg) = length msg mod n" by (simp add: diff_diff_cancel)
  have "blocks n msg = blocks n (take ?k msg) @ blocks n (drop ?k msg)"
    using blocks_append [OF assms, of "take ?k msg" "drop ?k msg"] k by simp
  also have "blocks n (drop ?k msg) = []" by (rule blocks_short) (use assms in \<open>simp add: r\<close>)
  finally show ?thesis using that [of "take ?k msg" "drop ?k msg"] k r by simp
qed

section \<open>Compression functions\<close>

text \<open>
  The state \<open>s\<close> and the buffer \<open>b\<close> after the message \<open>msg\<close>: the state is that of its whole blocks, and the
  buffer holds the rest.
\<close>

definition absorbs :: "nat \<Rightarrow> ('s \<Rightarrow> u8 list \<Rightarrow> 's) \<Rightarrow> 's \<Rightarrow> u8 list \<Rightarrow> 's \<Rightarrow> u8 list \<Rightarrow> bool" where
  "absorbs n compress init msg s b \<longleftrightarrow> length b = n \<and> s = foldl compress init (blocks n msg)
     \<and> take (length msg mod n) b = drop (length msg - length msg mod n) msg"

lemma absorbs_Nil: "0 < n \<Longrightarrow> length b = n \<Longrightarrow> absorbs n compress init [] init b"
  by (simp add: absorbs_def blocks_short)

text \<open>
  \<open>process\<close> is the code on a state that is \<open>ok\<close>, given the bytes from the block on, and \<open>compress\<close> the
  compression of the standard.
\<close>

locale block_hash =
  fixes n :: nat and process compress :: "'s \<Rightarrow> u8 list \<Rightarrow> 's" and ok :: "'s \<Rightarrow> bool" and init :: 's
  assumes block_size: "0 < n"
    and process_compress: "ok s \<Longrightarrow> n \<le> length M \<Longrightarrow> process s M = compress s (take n M)"
    and compress_ok: "ok s \<Longrightarrow> ok (compress s M)"
    and init_ok: "ok init"
begin

lemma fold_ok: "ok s \<Longrightarrow> ok (foldl compress s Ms)"
  by (induction Ms arbitrary: s) (simp_all add: compress_ok)

lemma absorbs_ok: "absorbs n compress init msg s b \<Longrightarrow> ok s"
  using fold_ok [OF init_ok] by (simp add: absorbs_def)

lemma whole_blocks_spec:
  "ok s \<Longrightarrow> \<exists>a b. inp = a @ b \<and> length a mod n = 0 \<and> length b < n \<and> whole_blocks n process s inp = (foldl compress s (blocks n a), b)"
proof (induction "length inp" arbitrary: s inp rule: less_induct)
  case less
  show ?case
  proof (cases "n \<le> length inp")
    case True
    then have p: "process s inp = compress s (take n inp)" "ok (process s inp)"
      using process_compress compress_ok less.prems by simp_all
    have "length (drop n inp) < length inp" using True block_size by simp
    from less.hyps [OF this p(2)] obtain a b where ab: "drop n inp = a @ b" "length a mod n = 0" "length b < n"
      "whole_blocks n process (process s inp) (drop n inp) = (foldl compress (process s inp) (blocks n a), b)"
      by (elim exE conjE) (rule that)
    have "blocks n (take n inp @ a) = take n inp # blocks n a"
      using True block_size by (simp add: blocks.simps [of n "take n inp @ a"])
    then have "whole_blocks n process s inp = (foldl compress s (blocks n (take n inp @ a)), b)"
      using True ab(4) p(1) block_size by (simp add: whole_blocks.simps [of n process s inp])
    moreover have "inp = (take n inp @ a) @ b" using append_take_drop_id [of n inp] unfolding ab(1) by simp
    moreover have "length (take n inp @ a) mod n = 0" using ab(2) True by simp
    ultimately show ?thesis using ab(3) by (intro exI [of _ "take n inp @ a"] exI [of _ b] conjI)
  next
    case False
    then show ?thesis
      by (intro exI [of _ "[]"] exI [of _ inp]) (simp add: whole_blocks.simps [of n process s inp] blocks.simps [of n "[]"])
  qed
qed

text \<open>The second half of an update, when what came before is whole blocks.\<close>

lemma absorb_tail:
  assumes msg: "length msg mod n = 0" and "ok s" and st: "s = foldl compress init (blocks n msg)"
  obtains tl where "whole_blocks n process s inp = (foldl compress init (blocks n (msg @ inp)), tl)"
    "length (msg @ inp) mod n = length tl" "drop (length (msg @ inp) - length tl) (msg @ inp) = tl" "length tl < n"
proof -
  from whole_blocks_spec [OF assms(2), of inp] obtain x y where xy: "inp = x @ y" "length x mod n = 0" "length y < n"
    "whole_blocks n process s inp = (foldl compress s (blocks n x), y)" by (elim exE conjE) (rule that)
  have len: "length (msg @ x) mod n = 0" using msg xy(2) by (simp add: mod_add_eq [symmetric])
  have all: "msg @ inp = (msg @ x) @ y" using xy(1) by simp
  have "length (msg @ inp) mod n = length y"
    using len xy(3) mod_add_left_eq [of "length (msg @ x)" n "length y"] unfolding all length_append [of "msg @ x" y] by simp
  moreover have "drop (length (msg @ inp) - length y) (msg @ inp) = y" unfolding all by simp
  moreover have "blocks n (msg @ inp) = blocks n msg @ blocks n x"
    unfolding all using blocks_append [OF block_size len, of y] blocks_append [OF block_size msg, of x] blocks_short [OF xy(3)] by simp
  ultimately show thesis using st xy(3,4) by (intro that [of y]) simp_all
qed

lemma absorb_rest:
  assumes "length msg mod n = 0" and "ok s" and "s = foldl compress init (blocks n msg)" and b: "length b = n"
  obtains s' tl b' where "whole_blocks n process s inp = (s', tl)" "(if tl \<noteq> [] then fill_buffer b 0 tl else Some b) = Some b'"
    "absorbs n compress init (msg @ inp) s' b'"
proof -
  obtain tl where tl: "whole_blocks n process s inp = (foldl compress init (blocks n (msg @ inp)), tl)"
    "length (msg @ inp) mod n = length tl" "drop (length (msg @ inp) - length tl) (msg @ inp) = tl" "length tl < n"
    by (rule absorb_tail [OF assms(1-3)])
  have "absorbs n compress init (msg @ inp) (foldl compress init (blocks n (msg @ inp))) (tl @ drop (length tl) b)"
    using b tl(4) unfolding absorbs_def tl(2) unfolding tl(3) by simp
  moreover have "(if tl \<noteq> [] then fill_buffer b 0 tl else Some b) = Some (tl @ drop (length tl) b)"
    using b tl(4) by (simp add: fill_buffer_def)
  ultimately show thesis using tl(1) by (intro that)
qed

lemma block_update_absorbs:
  assumes "absorbs n compress init msg s b"
  shows "\<exists>s' b'. block_update n process (length msg mod n) s b inp = Some (s', b') \<and> absorbs n compress init (msg @ inp) s' b'"
proof -
  let ?r = "length msg mod n"
  have r: "?r < n" using block_size by simp
  have inv: "length b = n" "s = foldl compress init (blocks n msg)" "take ?r b = drop (length msg - ?r) msg" and ok: "ok s"
    using assms absorbs_ok [OF assms] by (simp_all add: absorbs_def)
  obtain full rest where fr: "msg = full @ rest" "length full mod n = 0" "length rest = ?r" "drop (length msg - ?r) msg = rest"
    "blocks n msg = blocks n full" by (rule split_message [OF block_size])
  consider (filled) "?r \<noteq> 0" "length inp \<ge> n - ?r" | (aligned) "?r = 0" | (small) "?r \<noteq> 0" "length inp < n - ?r" by linarith
  then show ?thesis
  proof cases
    case filled
    let ?b = "rest @ take (n - ?r) inp" and ?msg = "msg @ take (n - ?r) inp"
    have lb: "length ?b = n" using filled(2) fr(3) r by simp
    have fb: "fill_buffer b ?r (take (n - ?r) inp) = Some ?b"
      using filled(2) inv(1,3) fr(3,4) r by (simp add: fill_buffer_def)
    have e: "?msg = full @ ?b" using fr(1) by simp
    then have bl: "blocks n ?msg = blocks n msg @ [?b]"
      using blocks_append [OF block_size fr(2), of ?b] blocks_one [OF block_size lb] fr(5) by metis
    have "length ?msg = length full + n" unfolding e length_append [of full] lb ..
    then have al: "length ?msg mod n = 0" using fr(2) by (simp only: mod_add_self2)
    have "process s ?b = compress s ?b" using process_compress [OF ok, of ?b] lb by (simp only: order_refl take_all)
    then have p: "process s ?b = foldl compress init (blocks n ?msg)" "ok (process s ?b)"
      using compress_ok [OF ok] inv(2) unfolding bl by simp_all
    obtain s' tl b' where "whole_blocks n process (process s ?b) (drop (n - ?r) inp) = (s', tl)"
      "(if tl \<noteq> [] then fill_buffer ?b 0 tl else Some ?b) = Some b'" "absorbs n compress init (?msg @ drop (n - ?r) inp) s' b'"
      by (rule absorb_rest [OF al p(2,1) lb])
    then show ?thesis using filled fb by (cases "tl = []") (simp_all add: block_update_def)
  next
    case aligned
    obtain s' tl b' where "whole_blocks n process s inp = (s', tl)" "(if tl \<noteq> [] then fill_buffer b 0 tl else Some b) = Some b'"
      "absorbs n compress init (msg @ inp) s' b'" by (rule absorb_rest [OF aligned ok inv(2,1)])
    then show ?thesis using aligned by (cases "tl = []") (simp_all add: block_update_def)
  next
    case small
    let ?b = "rest @ inp @ drop (?r + length inp) b"
    have "\<not> n \<le> length inp" using small by linarith
    then have w: "whole_blocks n process s inp = (s, inp)" by (simp add: whole_blocks.simps [of n process s inp])
    have fb: "fill_buffer b ?r inp = Some ?b" using small inv(1,3) fr(4) by (simp add: fill_buffer_def)
    have len: "length (msg @ inp) mod n = length (rest @ inp)"
      using small fr(3) mod_add_left_eq [of "length msg" n "length inp"] by simp
    have e: "msg @ inp = full @ (rest @ inp)" using fr(1) by simp
    have "length (rest @ inp) < n" using fr(3) small by simp
    then have "blocks n (msg @ inp) = blocks n msg" unfolding e blocks_append [OF block_size fr(2)] fr(5) using blocks_short by simp
    moreover have "drop (length (msg @ inp) - length (rest @ inp)) (msg @ inp) = rest @ inp" unfolding e by simp
    moreover have "take (length (rest @ inp)) ?b = rest @ inp" by simp
    moreover have "length ?b = n" using fr(3) inv(1) small by simp
    ultimately have "absorbs n compress init (msg @ inp) s ?b" using inv(2) unfolding absorbs_def len by simp
    moreover have "absorbs n compress init msg s b" by fact
    ultimately show ?thesis using small w fb by (cases "inp = []") (simp_all add: block_update_def)
  qed
qed

end

section \<open>Counters\<close>

lemma wraps: "a < k \<Longrightarrow> m < k \<Longrightarrow> (a + m) mod k < m \<longleftrightarrow> k \<le> a + m" for a m k :: nat
  by (cases "a + m < k") (simp_all add: le_mod_geq)

text \<open>The two counters are one counter of double width.\<close>

lemma counter_step:
  fixes t0 t1 :: "'a::len word"
  assumes "unat t0 = n mod 2 ^ LENGTH('a)" and "unat t1 = n div 2 ^ LENGTH('a)" and "m < 2 ^ LENGTH('a)"
    and "n + m < 2 ^ (2 * LENGTH('a))"
  shows "unat (t0 + of_nat m) = (n + m) mod 2 ^ LENGTH('a)"
    and "unat (if t0 + of_nat m < of_nat m then t1 + 1 else t1) = (n + m) div 2 ^ LENGTH('a)"
proof -
  let ?B = "2 ^ LENGTH('a) :: nat" and ?t0' = "t0 + of_nat m"
  have B: "0 < ?B" by simp
  have m: "unat (of_nat m :: 'a word) = m" using assms(3) by (simp add: unat_of_nat)
  show u: "unat ?t0' = (n + m) mod ?B" unfolding unat_word_ariths m assms(1) by (simp add: mod_simps)
  let ?a = "n mod ?B"
  have a: "?a < ?B" using B by (rule mod_less_divisor)
  have less: "?t0' < of_nat m \<longleftrightarrow> ?B \<le> ?a + m"
  proof -
    have "(n + m) mod ?B = (?a + m) mod ?B" by (simp add: mod_simps)
    then show ?thesis unfolding word_less_nat_alt u m using wraps [OF a assms(3)] by simp
  qed
  have d: "(n + m) div ?B = n div ?B + (?a + m) div ?B"
    using div_add1_eq [of n m ?B] div_less [OF assms(3)] mod_less [OF assms(3)] by (simp only: add_0_right)
  show "unat (if ?t0' < of_nat m then t1 + 1 else t1) = (n + m) div ?B"
  proof (cases "?t0' < of_nat m")
    case True
    have "?a + m < 2 * ?B" using a assms(3) by linarith
    then have "(?a + m) div ?B = 1" using True less by (intro div_nat_eqI) simp_all
    then have s: "(n + m) div ?B = unat t1 + 1" using d assms(2) by simp
    have "(n + m) div ?B < ?B" using assms(4) by (intro less_mult_imp_div_less) (simp add: power_add [symmetric] mult_2)
    then have "unat t1 + 1 < ?B" using s by simp
    then have "unat (t1 + 1) = unat t1 + 1" using unat_add_small [of t1 1] by simp
    then show ?thesis using True s by simp
  next
    case False
    then have "(?a + m) div ?B = 0" using less by (intro div_less) simp
    then show ?thesis using False d assms(2) by simp
  qed
qed

lemma low_bits: "unat ((x :: 'a::len word) AND mask k) = unat x mod 2 ^ k"
  by (simp only: take_bit_eq_mask [symmetric] unsigned_take_bit_eq take_bit_eq_mod [of k "unat x"])

section \<open>Incremental digests\<close>

text \<open>
  \<open>absorbed msg ctx\<close>: the context after the message \<open>msg\<close>. Every call of \<open>update\<close> with a piece that keeps the
  message below \<open>2 ^ 62\<close> bytes returns and appends the piece.
\<close>

locale incremental =
  fixes update :: "'c \<Rightarrow> u8 list \<Rightarrow> 'c option" and absorbed :: "u8 list \<Rightarrow> 'c \<Rightarrow> bool"
  assumes update_absorbs: "absorbed msg ctx \<Longrightarrow> length inp < 2 ^ 32 \<Longrightarrow> length msg + length inp < 2 ^ 62 \<Longrightarrow>
    \<exists>ctx'. update ctx inp = Some ctx' \<and> absorbed (msg @ inp) ctx'"
begin

lemma updates_absorb:
  "absorbed msg ctx \<Longrightarrow> \<forall>c \<in> set cs. length c < 2 ^ 32 \<Longrightarrow> length msg + length (concat cs) < 2 ^ 62 \<Longrightarrow>
   \<exists>ctx'. updates update ctx cs = Some ctx' \<and> absorbed (msg @ concat cs) ctx'"
proof (induction cs arbitrary: msg ctx)
  case (Cons c cs)
  obtain c1 where c1: "update ctx c = Some c1" "absorbed (msg @ c) c1"
    using update_absorbs [OF Cons.prems(1), of c] Cons.prems(2,3) by auto
  from Cons.IH [OF c1(2)] Cons.prems(2,3) c1(1) show ?case by simp
qed simp

lemma csum_loop_absorbs:
  assumes "absorbed msg ctx" and "0 < chunk_sz" and "length inp < 2 ^ 32" and "length msg + length inp < 2 ^ 62"
  shows "\<exists>ctx'. csum_loop update ctx inp chunk_sz = Some ctx' \<and> absorbed (msg @ inp) ctx'"
  using assms(1,3,4)
proof (induction "length inp" arbitrary: msg ctx inp rule: less_induct)
  case less
  show ?case
  proof (cases "inp = []")
    case True
    then show ?thesis using less.prems(1) by (simp add: csum_loop.simps)
  next
    case False
    define k where "k = min (length inp) chunk_sz"
    have k: "k \<le> length inp" "0 < k" using assms(2) False by (simp_all add: k_def)
    obtain c1 where c1: "update ctx (take k inp) = Some c1" "absorbed (msg @ take k inp) c1"
      using update_absorbs [OF less.prems(1), of "take k inp"] less.prems(2,3) k(1) by auto
    have "\<exists>ctx'. csum_loop update c1 (drop k inp) chunk_sz = Some ctx' \<and> absorbed ((msg @ take k inp) @ drop k inp) ctx'"
      using less.hyps [of "drop k inp" "msg @ take k inp" c1] c1(2) less.prems(2,3) k False by simp
    then show ?thesis using False assms(2) c1(1) by (subst csum_loop.simps) (simp add: k_def Let_def)
  qed
qed

lemma watchdog_absorbs:
  assumes "absorbed msg ctx" and "0 < chunk_sz" and "length inp < 2 ^ 32" and "length msg + length inp < 2 ^ 62"
  shows "\<exists>ctx'. (if watchdog then csum_loop update ctx inp chunk_sz else update ctx inp) = Some ctx' \<and> absorbed (msg @ inp) ctx'"
  using csum_loop_absorbs [OF assms] update_absorbs [OF assms(1,3,4)] by simp

end

section \<open>Padding\<close>

text \<open>
  A one bit, zero bytes up to the last \<open>k\<close> bytes of a block, and the length: the number of padding bytes
  of the code for a rest of \<open>r\<close> bytes.
\<close>

lemma padding_length:
  fixes r l n :: nat
  assumes "r < n" and "0 < l" and "l < n" and "t = n + l"
  defines "padn \<equiv> if r < l then l - r else t - r"
  shows "padn = Suc ((t - 1 - r) mod n)" and "padn \<le> n"
proof -
  show "padn = Suc ((t - 1 - r) mod n)"
  proof (cases "r < l")
    case True
    then have "t - 1 - r = (l - 1 - r) + n" using assms(2,4) by linarith
    then have "(t - 1 - r) mod n = l - 1 - r" using assms(3) by (simp only: mod_add_self2) simp
    with True show ?thesis by (simp add: padn_def)
  next
    case False
    then have "(t - 1 - r) mod n = t - 1 - r" using assms(1-4) by (intro mod_less) linarith
    with False assms show ?thesis by (simp add: padn_def)
  qed
  show "padn \<le> n" using assms by (auto simp: padn_def)
qed

section \<open>Words of 32 bits\<close>

text \<open>The macros for big-endian words, and the counters and the padding of the digests with 32-bit words.\<close>

definition GET_UINT32_BE :: "u8 list \<Rightarrow> nat \<Rightarrow> u32" where
  "GET_UINT32_BE b i = push_bit 24 (ucast (b ! i)) OR push_bit 16 (ucast (b ! (i + 1)))
     OR push_bit 8 (ucast (b ! (i + 2))) OR ucast (b ! (i + 3))"

definition PUT_UINT32_BE :: "u32 \<Rightarrow> u8 list" where
  "PUT_UINT32_BE n = [ucast (drop_bit 24 n), ucast (drop_bit 16 n), ucast (drop_bit 8 n), ucast n]"

lemma rest_of_counter: "unat t0 = n mod 2 ^ 32 \<Longrightarrow> unat ((t0 :: u32) AND 0x3F) = n mod 64"
proof -
  assume "unat t0 = n mod 2 ^ 32"
  moreover have "(0x3F :: u32) = mask 6" by (simp add: mask_numeral)
  ultimately show ?thesis using low_bits [of t0 6] by (simp add: mod_mod_cancel)
qed

lemma keep_all: "(x :: u32) AND 0xFFFFFFFF = x"
proof -
  have "(0xFFFFFFFF :: u32) = - 1" by simp
  then show ?thesis by (simp only: and.right_neutral)
qed

text \<open>The bytes of the length, from the two counters.\<close>

lemma length_bytes:
  fixes t0 t1 :: u32
  assumes "unat t0 = n mod 2 ^ 32" and "unat t1 = n div 2 ^ 32" and "n < 2 ^ 61"
  shows "PUT_UINT32_BE (drop_bit 29 t0 OR push_bit 3 t1) @ PUT_UINT32_BE (push_bit 3 t0)
    = map (\<lambda>i. ucast (drop_bit (8 * i) (of_nat (8 * n) :: u64))) [7, 6, 5, 4, 3, 2, 1, 0]"
proof -
  define N where "N = (of_nat n :: u64)"
  have uN: "unat N = n" using assms(3) by (simp add: N_def unat_of_nat)
  have t0: "t0 = ucast N" using assms(1) uN by (intro word_unat_eq_iff [THEN iffD2]) (simp add: unsigned_ucast_eq take_bit_eq_mod)
  have t1: "t1 = ucast (drop_bit 32 N)"
  proof (rule word_unat_eq_iff [THEN iffD2])
    have "n div 2 ^ 32 < 2 ^ 32" using assms(3) by (intro less_mult_imp_div_less) simp
    then show "unat t1 = unat (ucast (drop_bit 32 N) :: u32)"
      using assms(2) by (simp only: unsigned_ucast_eq unat_drop_bit uN) (simp add: take_bit_nat_eq_self)
  qed
  have N8: "(of_nat (8 * n) :: u64) = push_bit 3 N" by (simp add: N_def push_bit_eq_mult)
  have hi: "\<not> bit N i" if "64 \<le> i" for i using that bit_imp_le_length [of N i] by auto
  show ?thesis unfolding N8 t0 t1 PUT_UINT32_BE_def
    by (simp, intro conjI bit_word_eqI) (auto simp: bit_simps hi)
qed

text \<open>The padding of SHA-1 and SHA-256 in the standard.\<close>

definition pad64 :: "u8 list \<Rightarrow> u8 list" where
  "pad64 msg = msg @ 0x80 # replicate ((119 - length msg mod 64) mod 64) 0
     @ map (\<lambda>i. ucast (drop_bit (8 * i) (of_nat (8 * length msg) :: u64))) [7, 6, 5, 4, 3, 2, 1, 0]"

text \<open>The two pieces that complete the message, as \<^verbatim>\<open>sha1_finish\<close> and \<^verbatim>\<open>sha256_finish\<close> build them.\<close>

definition final_pieces :: "u32 \<Rightarrow> u32 \<Rightarrow> u8 list list" where
  "final_pieces t0 t1 =
     (let r = unat (t0 AND 0x3F) in
      [take (if r < 56 then 56 - r else 120 - r) (0x80 # replicate 63 0),
       PUT_UINT32_BE (drop_bit 29 t0 OR push_bit 3 t1) @ PUT_UINT32_BE (push_bit 3 t0)])"

lemma final_pieces:
  assumes "unat t0 = length msg mod 2 ^ 32" and "unat t1 = length msg div 2 ^ 32" and "length msg < 2 ^ 61"
  shows "msg @ concat (final_pieces t0 t1) = pad64 msg" and "\<forall>c \<in> set (final_pieces t0 t1). length c < 2 ^ 32"
    and "length msg + length (concat (final_pieces t0 t1)) < 2 ^ 62"
proof -
  define r where "r = length msg mod 64"
  define padn where "padn = (if r < 56 then 56 - r else 120 - r)"
  have padn: "padn = Suc ((119 - r) mod 64)" "padn \<le> 64" using padding_length [of r 64 56 120] by (simp_all add: padn_def r_def)
  then have t: "take padn (0x80 # replicate 63 0 :: u8 list) = 0x80 # replicate ((119 - r) mod 64) 0" by simp
  have e: "final_pieces t0 t1 = [0x80 # replicate ((119 - r) mod 64) 0,
      PUT_UINT32_BE (drop_bit 29 t0 OR push_bit 3 t1) @ PUT_UINT32_BE (push_bit 3 t0)]"
    unfolding final_pieces_def Let_def rest_of_counter [OF assms(1)] r_def [symmetric] padn_def [symmetric] t ..
  show "msg @ concat (final_pieces t0 t1) = pad64 msg" unfolding e length_bytes [OF assms] by (simp add: pad64_def r_def)
  have len: "length (PUT_UINT32_BE x) = 4" for x by (simp add: PUT_UINT32_BE_def)
  have "(119 - r) mod 64 < 64" by simp
  then show "\<forall>c \<in> set (final_pieces t0 t1). length c < 2 ^ 32" "length msg + length (concat (final_pieces t0 t1)) < 2 ^ 62"
    using assms(3) unfolding e by (simp_all add: len)
qed

section \<open>Rotations\<close>

lemma rotate_right:
  fixes x :: "'a::len word"
  assumes "0 < n" and "n < LENGTH('a)"
  shows "drop_bit n x OR push_bit (LENGTH('a) - n) x = word_rotr n x"
proof (rule bit_word_eqI)
  fix i assume i: "i < LENGTH('a)"
  have r: "bit (word_rotr n x) i \<longleftrightarrow> bit x ((i + n) mod LENGTH('a))" using i by (simp add: bit_word_rotr_iff)
  have l: "bit (drop_bit n x OR push_bit (LENGTH('a) - n) x) i \<longleftrightarrow> bit x (n + i) \<or> LENGTH('a) - n \<le> i \<and> bit x (i - (LENGTH('a) - n))"
    using i by (simp add: bit_simps)
  show "bit (drop_bit n x OR push_bit (LENGTH('a) - n) x) i = bit (word_rotr n x) i"
  proof (cases "i + n < LENGTH('a)")
    case True
    then show ?thesis unfolding l r by (auto simp: add.commute)
  next
    case False
    then have "(i + n) mod LENGTH('a) = i - (LENGTH('a) - n)" using i assms by (simp add: le_mod_geq)
    moreover have "\<not> bit x (n + i)" using False bit_imp_le_length [of x "n + i"] by auto
    ultimately show ?thesis unfolding l r using False by auto
  qed
qed

lemma rotate_left:
  fixes x :: "'a::len word"
  assumes "0 < n" and "n < LENGTH('a)"
  shows "push_bit n x OR drop_bit (LENGTH('a) - n) x = word_rotl n x"
proof -
  have "push_bit n x OR drop_bit (LENGTH('a) - n) x = word_rotr (LENGTH('a) - n) x"
    using rotate_right [of "LENGTH('a) - n" x] assms by (simp add: or.commute)
  also have "\<dots> = word_rotl n x" by (rule bit_word_eqI) (use assms in \<open>simp add: bit_word_rotr_iff bit_word_rotl_iff\<close>)
  finally show ?thesis .
qed

end
