(* ===== verification/Sha2.thy ===== *)
theory Sha2
  imports BlockHash
begin

text \<open>
  What SHA-256, SHA-384 and SHA-512 share, for words of any length: the macro \<^verbatim>\<open>P\<close> of \<^verbatim>\<open>lib/sha256.c\<close> and
  \<^verbatim>\<open>lib/sha512.c\<close>, whose register arguments rotate by one from call to call, against the rounds of
  FIPS 180-4.
\<close>

section \<open>The macros\<close>

definition F0 :: "'a::len word \<Rightarrow> 'a word \<Rightarrow> 'a word \<Rightarrow> 'a word" where "F0 x y z = (x AND y) OR (z AND (x OR y))"
definition F1 :: "'a::len word \<Rightarrow> 'a word \<Rightarrow> 'a word \<Rightarrow> 'a word" where "F1 x y z = z XOR (x AND (y XOR z))"

text \<open>
  The registers \<^verbatim>\<open>A\<close> to \<^verbatim>\<open>H\<close> are a list. In call \<open>t\<close> the \<open>j\<close>-th parameter of \<^verbatim>\<open>P\<close> is the register
  number \<open>(j - t) mod 8\<close>. The macros \<^verbatim>\<open>S0\<close> to \<^verbatim>\<open>S3\<close> differ between the files and are arguments.
\<close>

definition reg :: "nat \<Rightarrow> nat \<Rightarrow> nat" where "reg t j = (j + 7 * t) mod 8"

definition P :: "('a::len word \<Rightarrow> 'a word) \<Rightarrow> ('a word \<Rightarrow> 'a word) \<Rightarrow> nat \<Rightarrow> 'a word \<Rightarrow> 'a word \<Rightarrow> 'a word list \<Rightarrow> 'a word list" where
  "P S2 S3 t x k r =
     (let temp1 = r ! reg t 7 + S3 (r ! reg t 4) + F1 (r ! reg t 4) (r ! reg t 5) (r ! reg t 6) + k + x;
          temp2 = S2 (r ! reg t 0) + F0 (r ! reg t 0) (r ! reg t 1) (r ! reg t 2);
          r = r[reg t 3 := r ! reg t 3 + temp1]
      in r[reg t 7 := temp1 + temp2])"

text \<open>\<open>W\<close> is the part of the array that is set; this is its element \<open>t\<close>, from 16 on.\<close>

definition R :: "('a::len word \<Rightarrow> 'a word) \<Rightarrow> ('a word \<Rightarrow> 'a word) \<Rightarrow> 'a word list \<Rightarrow> nat \<Rightarrow> 'a word" where
  "R S0 S1 W t = S1 (W ! (t - 2)) + W ! (t - 7) + S0 (W ! (t - 15)) + W ! (t - 16)"

section \<open>The standard\<close>

definition Ch :: "'a::len word \<Rightarrow> 'a word \<Rightarrow> 'a word \<Rightarrow> 'a word" where "Ch x y z = (x AND y) XOR (NOT x AND z)"
definition Maj :: "'a::len word \<Rightarrow> 'a word \<Rightarrow> 'a word \<Rightarrow> 'a word" where "Maj x y z = (x AND y) XOR (x AND z) XOR (y AND z)"

text \<open>The words of a block are given by \<open>m\<close>.\<close>

fun schedule :: "('a::len word \<Rightarrow> 'a word) \<Rightarrow> ('a word \<Rightarrow> 'a word) \<Rightarrow> (nat \<Rightarrow> 'a word) \<Rightarrow> nat \<Rightarrow> 'a word" where
  "schedule \<sigma>0 \<sigma>1 m t = (if t < 16 then m t
     else \<sigma>1 (schedule \<sigma>0 \<sigma>1 m (t - 2)) + schedule \<sigma>0 \<sigma>1 m (t - 7) + \<sigma>0 (schedule \<sigma>0 \<sigma>1 m (t - 15)) + schedule \<sigma>0 \<sigma>1 m (t - 16))"

declare schedule.simps [simp del]

fun round_step :: "('a::len word \<Rightarrow> 'a word) \<Rightarrow> ('a word \<Rightarrow> 'a word) \<Rightarrow> 'a word \<Rightarrow> 'a word \<Rightarrow> 'a word list \<Rightarrow> 'a word list" where
  "round_step \<Sigma>0 \<Sigma>1 k w [a, b, c, d, e, f, g, h] =
     (let T1 = h + \<Sigma>1 e + Ch e f g + k + w; T2 = \<Sigma>0 a + Maj a b c
      in [T1 + T2, a, b, c, d + T1, e, f, g])"
| "round_step \<Sigma>0 \<Sigma>1 k w _ = []"

text \<open>
  The constants of the standard are the first bits of the fractional parts of the cube roots of the
  first primes, and for the initial states of square roots of primes. \<open>i\<close> is the integral part.
\<close>

definition first_primes :: "nat list" where
  "first_primes = [2, 3, 5, 7, 11, 13, 17, 19, 23, 29, 31, 37, 41, 43, 47, 53,
     59, 61, 67, 71, 73, 79, 83, 89, 97, 101, 103, 107, 109, 113, 127, 131,
     137, 139, 149, 151, 157, 163, 167, 173, 179, 181, 191, 193, 197, 199, 211, 223,
     227, 229, 233, 239, 241, 251, 257, 263, 269, 271, 277, 281, 283, 293, 307, 311,
     313, 317, 331, 337, 347, 349, 353, 359, 367, 373, 379, 383, 389, 397, 401, 409]"

definition integral_cube_roots :: "nat list" where
  "integral_cube_roots = [1, 1, 1, 1, 2, 2, 2, 2, 2, 3, 3, 3, 3, 3, 3, 3,
     3, 3, 4, 4, 4, 4, 4, 4, 4, 4, 4, 4, 4, 4, 5, 5,
     5, 5, 5, 5, 5, 5, 5, 5, 5, 5, 5, 5, 5, 5, 5, 6,
     6, 6, 6, 6, 6, 6, 6, 6, 6, 6, 6, 6, 6, 6, 6, 6,
     6, 6, 6, 6, 7, 7, 7, 7, 7, 7, 7, 7, 7, 7, 7, 7]"

definition root_fraction :: "nat \<Rightarrow> nat \<Rightarrow> nat \<Rightarrow> 'a::len word \<Rightarrow> bool" where
  "root_fraction e p i k \<longleftrightarrow> (2 ^ LENGTH('a) * i + unat k) ^ e \<le> p * 2 ^ (LENGTH('a) * e)
     \<and> p * 2 ^ (LENGTH('a) * e) < (2 ^ LENGTH('a) * i + unat k + 1) ^ e"

section \<open>Rounds\<close>

lemma boolean_functions: "F0 x y z = Maj x y z" "F1 x y z = Ch x y z"
  by (rule bit_word_eqI, auto simp: F0_def F1_def Maj_def Ch_def bit_simps)+

text \<open>The registers in the order of the parameters of call \<open>t\<close>.\<close>

definition view :: "nat \<Rightarrow> 'a::len word list \<Rightarrow> 'a word list" where
  "view t r = map (\<lambda>j. r ! reg t j) [0, 1, 2, 3, 4, 5, 6, 7]"

lemma eight_cases:
  assumes "length r = 8"
  obtains a b c d e f g h where "r = [a, b, c, d, e, f, g, h]"
  using assms by (auto simp: length_Suc_conv numeral_eq_Suc)

lemma P_is_round:
  assumes "length r = 8"
  shows "view (Suc t) (P S2 S3 t x k r) = round_step S2 S3 k x (view t r)"
proof -
  obtain a b c d e f g h where r: "r = [a, b, c, d, e, f, g, h]" by (rule eight_cases [OF assms])
  define i u where "i = t mod 8" and "u = Suc t"
  have t: "reg t j = (j + 7 * i) mod 8" and u: "reg u j = (j + 7 * i + 7) mod 8" for j
  proof -
    have m: "(j + 7 * (t mod 8)) mod 8 = (j + 7 * t) mod 8" for j by (metis mod_add_right_eq mod_mult_right_eq)
    show "reg t j = (j + 7 * i) mod 8" by (simp only: reg_def i_def m)
    show "reg u j = (j + 7 * i + 7) mod 8" using m [of "j + 7"] by (simp add: reg_def i_def u_def ac_simps)
  qed
  have "i < 8" by (simp add: i_def)
  then have "i \<in> {0, 1, 2, 3, 4, 5, 6, 7}" by (simp only: insert_iff empty_iff) presburger
  then show ?thesis unfolding u_def [symmetric]
    by (elim insertE emptyE) (simp_all add: view_def P_def t u r Let_def boolean_functions)
qed

lemma P_length [simp]: "length (P S2 S3 t x k r) = length r"
  by (simp add: P_def Let_def)

lemma view_8: "length r = 8 \<Longrightarrow> 8 dvd t \<Longrightarrow> view t r = r"
proof -
  assume "length r = 8" and "8 dvd t"
  then obtain a b c d e f g h k where r: "r = [a, b, c, d, e, f, g, h]" "t = 8 * k" using eight_cases by (metis dvdE)
  have "reg t j = j mod 8" for j unfolding reg_def r(2) by presburger
  then show "view t r = r" by (simp add: view_def r(1))
qed

text \<open>The calls of \<^verbatim>\<open>P\<close> are the rounds, when the words and constants are the same.\<close>

lemma rounds:
  assumes "length s = 8"
  shows "length (fold (\<lambda>t. P S2 S3 t (w t) (k t)) [0..<n] s) = 8"
    and "view n (fold (\<lambda>t. P S2 S3 t (w t) (k t)) [0..<n] s) = fold (\<lambda>t. round_step S2 S3 (k t) (w t)) [0..<n] s"
proof (induction n)
  case 0
  case 1 show ?case using assms by simp
  case 2 show ?case using assms by (simp add: view_8)
next
  case (Suc n)
  case 1 show ?case using Suc by simp
  case 2 show ?case using P_is_round [OF Suc(1), of n S2 S3 "w n" "k n"] Suc(2) by simp
qed

lemma R_schedule: "16 \<le> t \<Longrightarrow> R S0 S1 (map (schedule S0 S1 m) [0..<t]) t = schedule S0 S1 m t"
  by (subst schedule.simps) (simp add: R_def)

lemma schedule_cong: "(\<And>i. i < 16 \<Longrightarrow> m i = m' i) \<Longrightarrow> schedule S0 S1 m t = schedule S0 S1 m' t"
  by (induction t rule: less_induct) (subst (1 2) schedule.simps, simp)

end
