(* ===== verification/Sha1.thy ===== *)
theory Sha1
  imports Sha2
begin

text \<open>
  SHA-1 and HMAC-SHA-1 (\<^verbatim>\<open>lib/sha1.c\<close>). The code keeps only the last sixteen words of the schedule, in an
  array that wraps around; the 80 unrolled calls of the macro \<^verbatim>\<open>P\<close>, whose register arguments rotate by one
  from call to call, are a fold over the number of the call.
\<close>

section \<open>One block\<close>

definition S :: "u32 \<Rightarrow> nat \<Rightarrow> u32" where "S x n = push_bit n x OR drop_bit (32 - n) (x AND 0xFFFFFFFF)"

text \<open>The macros \<^verbatim>\<open>F\<close> and \<^verbatim>\<open>K\<close>, which are redefined after every twenty calls.\<close>

definition F :: "nat \<Rightarrow> u32 \<Rightarrow> u32 \<Rightarrow> u32 \<Rightarrow> u32" where
  "F t x y z = (if t < 20 then z XOR (x AND (y XOR z))
     else if t < 40 then x XOR y XOR z
     else if t < 60 then (x AND y) OR (z AND (x OR y))
     else x XOR y XOR z)"

definition K :: "nat \<Rightarrow> u32" where
  "K t = (if t < 20 then 0x5A827999 else if t < 40 then 0x6ED9EBA1 else if t < 60 then 0x8F1BBCDC else 0xCA62C1D6)"

text \<open>The registers \<^verbatim>\<open>A\<close> to \<^verbatim>\<open>E\<close> are a list; in call \<open>t\<close> the \<open>j\<close>-th parameter of \<^verbatim>\<open>P\<close> is number \<open>(j - t) mod 5\<close>.\<close>

definition reg :: "nat \<Rightarrow> nat \<Rightarrow> nat" where "reg t j = (j + 4 * t) mod 5"

definition P :: "nat \<Rightarrow> u32 \<Rightarrow> u32 list \<Rightarrow> u32 list" where
  "P t x r =
     (let r = r[reg t 4 := r ! reg t 4 + (S (r ! reg t 0) 5 + F t (r ! reg t 1) (r ! reg t 2) (r ! reg t 3) + K t + x)]
      in r[reg t 1 := S (r ! reg t 1) 30])"

definition R :: "u32 list \<Rightarrow> nat \<Rightarrow> u32" where
  "R W t = S (W ! ((t - 3) mod 16) XOR W ! ((t - 8) mod 16) XOR W ! ((t - 14) mod 16) XOR W ! (t mod 16)) 1"

text \<open>A call of \<^verbatim>\<open>P\<close> with the word \<^verbatim>\<open>W[t]\<close>, or with \<^verbatim>\<open>R(t)\<close>, which overwrites \<^verbatim>\<open>W[t & 0x0F]\<close>.\<close>

definition call :: "nat \<Rightarrow> u32 list \<times> u32 list \<Rightarrow> u32 list \<times> u32 list" where
  "call t = (\<lambda>(W, r). let W = (if t < 16 then W else W[t mod 16 := R W t]) in (W, P t (W ! (t mod 16)) r))"

definition sha1_process :: "u32 list \<Rightarrow> u8 list \<Rightarrow> u32 list" where
  "sha1_process state data =
     (let W = map (\<lambda>i. GET_UINT32_BE data (4 * i)) [0..<16];
          (W, r) = fold call [0..<80] (W, state)
      in map2 (+) state r)"

section \<open>The context\<close>

record sha1_context =
  total0 :: u32
  total1 :: u32
  state :: "u32 list"
  buffer :: "u8 list"

definition sha1_starts :: "sha1_context \<Rightarrow> sha1_context" where
  "sha1_starts ctx = ctx\<lparr>total0 := 0, total1 := 0, state := [0x67452301, 0xEFCDAB89, 0x98BADCFE, 0x10325476, 0xC3D2E1F0]\<rparr>"

definition sha1_update :: "sha1_context \<Rightarrow> u8 list \<Rightarrow> sha1_context option" where
  "sha1_update ctx inp =
     (let ilen = of_nat (length inp) :: u32 in
      if ilen \<le> 0 then Some ctx
      else let left = unat (total0 ctx AND 0x3F);
               ctx = ctx\<lparr>total0 := (total0 ctx + ilen) AND 0xFFFFFFFF\<rparr>;
               ctx = (if total0 ctx < ilen then ctx\<lparr>total1 := total1 ctx + 1\<rparr> else ctx)
           in do {
             (s, b) \<leftarrow> block_update 64 sha1_process left (state ctx) (buffer ctx) inp;
             Some (ctx\<lparr>state := s, buffer := b\<rparr>) })"

definition sha1_padding :: "u8 list" where
  "sha1_padding = 0x80 # replicate 63 0"

definition sha1_finish :: "sha1_context \<Rightarrow> u8 list option" where
  "sha1_finish ctx =
     (let high = drop_bit 29 (total0 ctx) OR push_bit 3 (total1 ctx);
          low = push_bit 3 (total0 ctx);
          msglen = PUT_UINT32_BE high @ PUT_UINT32_BE low;
          last = unat (total0 ctx AND 0x3F);
          padn = (if last < 56 then 56 - last else 120 - last)
      in do {
        ctx \<leftarrow> sha1_update ctx (take padn sha1_padding);
        ctx \<leftarrow> sha1_update ctx msglen;
        Some (concat (map (\<lambda>i. PUT_UINT32_BE (state ctx ! i)) [0..<5])) })"

text \<open>\<open>junk\<close> is the context on the stack.\<close>

definition sha1_csum :: "sha1_context \<Rightarrow> u8 list \<Rightarrow> u8 list option" where
  "sha1_csum junk inp = do { ctx \<leftarrow> sha1_update (sha1_starts junk) inp; sha1_finish ctx }"

definition sha1_csum_wd :: "bool \<Rightarrow> sha1_context \<Rightarrow> u8 list \<Rightarrow> nat \<Rightarrow> u8 list option" where
  "sha1_csum_wd watchdog junk inp chunk_sz = do {
     ctx \<leftarrow> (if watchdog then csum_loop sha1_update (sha1_starts junk) inp chunk_sz
              else sha1_update (sha1_starts junk) inp);
     sha1_finish ctx }"

text \<open>The key is the array of \<^verbatim>\<open>keylen\<close> bytes; its first 64 are used.\<close>

definition xor_key :: "u8 \<Rightarrow> u8 list \<Rightarrow> u8 list" where
  "xor_key c key = map (\<lambda>i. if i < length key then c XOR key ! i else c) [0..<64]"

definition sha1_hmac :: "sha1_context \<Rightarrow> u8 list \<Rightarrow> u8 list \<Rightarrow> u8 list option" where
  "sha1_hmac junk key inp = do {
     let k_ipad = xor_key 0x36 key;
     let k_opad = xor_key 0x5C key;
     ctx \<leftarrow> sha1_update (sha1_starts junk) k_ipad;
     ctx \<leftarrow> sha1_update ctx inp;
     tmpbuf \<leftarrow> sha1_finish ctx;
     ctx \<leftarrow> sha1_update (sha1_starts ctx) k_opad;
     ctx \<leftarrow> sha1_update ctx tmpbuf;
     sha1_finish ctx }"

section \<open>The standard\<close>

fun sched :: "u8 list \<Rightarrow> nat \<Rightarrow> u32" where
  "sched M t = (if t < 16 then GET_UINT32_BE M (4 * t)
     else word_rotl 1 (sched M (t - 3) XOR sched M (t - 8) XOR sched M (t - 14) XOR sched M (t - 16)))"

declare sched.simps [simp del]

definition round_fun :: "nat \<Rightarrow> u32 \<Rightarrow> u32 \<Rightarrow> u32 \<Rightarrow> u32" where
  "round_fun t x y z = (if t < 20 then Ch x y z else if 40 \<le> t \<and> t < 60 then Maj x y z else x XOR y XOR z)"

fun round_step :: "nat \<Rightarrow> u32 \<Rightarrow> u32 list \<Rightarrow> u32 list" where
  "round_step t w [a, b, c, d, e] = [word_rotl 5 a + round_fun t b c d + e + K t + w, a, word_rotl 30 b, c, d]"
| "round_step t w _ = []"

definition compress :: "u32 list \<Rightarrow> u8 list \<Rightarrow> u32 list" where
  "compress s M = map2 (+) s (fold (\<lambda>t. round_step t (sched M t)) [0..<80] s)"

definition initial :: "u32 list" where
  "initial = [0x67452301, 0xEFCDAB89, 0x98BADCFE, 0x10325476, 0xC3D2E1F0]"

definition sha1_spec :: "u8 list \<Rightarrow> u8 list" where
  "sha1_spec msg = concat (map PUT_UINT32_BE (foldl compress initial (blocks 64 (pad64 msg))))"

text \<open>The constants are the first 32 bits of the square roots of 2, 3, 5 and 10.\<close>

lemma sha1_square_roots: "list_all (\<lambda>(n, t). unat (K t) ^ 2 \<le> n * 2 ^ 60 \<and> n * 2 ^ 60 < (unat (K t) + 1) ^ 2) [(2, 0), (3, 20), (5, 40), (10, 60)]"
  by (simp add: K_def)

section \<open>The compression\<close>

lemma S_rotl: "0 < n \<Longrightarrow> n < 32 \<Longrightarrow> S x n = word_rotl n x"
  using rotate_left [of n x] by (simp add: S_def keep_all)

lemma F_is_round_fun: "F t x y z = round_fun t x y z"
proof -
  have "F t x y z = (if t < 20 then F1 x y z else if t < 40 then x XOR y XOR z else if t < 60 then F0 x y z else x XOR y XOR z)"
    by (simp add: F_def F0_def F1_def)
  then show ?thesis by (simp add: boolean_functions round_fun_def)
qed

text \<open>The registers in the order of the parameters of call \<open>t\<close>.\<close>

definition view :: "nat \<Rightarrow> u32 list \<Rightarrow> u32 list" where
  "view t r = map (\<lambda>j. r ! reg t j) [0, 1, 2, 3, 4]"

lemma five_cases:
  assumes "length r = 5"
  obtains a b c d e where "r = [a, b, c, d, e]"
  using assms by (auto simp: length_Suc_conv numeral_eq_Suc)

lemma sha1_P_is_round:
  assumes "length r = 5"
  shows "view (Suc t) (P t x r) = round_step t x (view t r)"
proof -
  obtain a b c d e where r: "r = [a, b, c, d, e]" by (rule five_cases [OF assms])
  define i u where "i = t mod 5" and "u = Suc t"
  have t: "reg t j = (j + 4 * i) mod 5" and u: "reg u j = (j + 4 * i + 4) mod 5" for j
  proof -
    have m: "(j + 4 * (t mod 5)) mod 5 = (j + 4 * t) mod 5" for j by (metis mod_add_right_eq mod_mult_right_eq)
    show "reg t j = (j + 4 * i) mod 5" by (simp only: reg_def i_def m)
    show "reg u j = (j + 4 * i + 4) mod 5" using m [of "j + 4"] by (simp add: reg_def i_def u_def ac_simps)
  qed
  have "i < 5" by (simp add: i_def)
  then have "i \<in> {0, 1, 2, 3, 4}" by (simp only: insert_iff empty_iff) presburger
  then show ?thesis unfolding u_def [symmetric]
    by (elim insertE emptyE) (simp_all add: view_def P_def t u r Let_def S_rotl F_is_round_fun add_ac)
qed

lemma sha1_P_length [simp]: "length (P t x r) = length r"
  by (simp add: P_def Let_def)

text \<open>The array after the calls before \<open>n\<close> holds the last sixteen words.\<close>

definition window :: "u8 list \<Rightarrow> nat \<Rightarrow> u32 list \<Rightarrow> bool" where
  "window M n W \<longleftrightarrow> length W = 16 \<and> (\<forall>j. n \<le> j + 16 \<and> j < n \<longrightarrow> W ! (j mod 16) = sched M j)"

lemma window_step:
  assumes "window M n W" and "16 \<le> n"
  shows "R W n = sched M n" and "window M (Suc n) (W[n mod 16 := R W n])"
proof -
  have W: "W ! (j mod 16) = sched M j" if "n \<le> j + 16" "j < n" for j using assms(1) that by (simp add: window_def)
  have "n mod 16 = (n - 16) mod 16" using assms(2) by (simp add: le_mod_geq)
  then have "W ! (n mod 16) = sched M (n - 16)" using W [of "n - 16"] assms(2) by simp
  then show R: "R W n = sched M n"
    using assms(2) W [of "n - 3"] W [of "n - 8"] W [of "n - 14"] by (subst sched.simps) (simp add: R_def S_rotl)
  have ne: "j mod 16 \<noteq> n mod 16" if "Suc n \<le> j + 16" "j < n" for j
    using mod_add_distinct_less [of 0 "n - j" 16 j] that by simp
  have "W[n mod 16 := R W n] ! (j mod 16) = sched M j" if "Suc n \<le> j + 16" "j < Suc n" for j
    using that R W [of j] ne [of j] assms(1) by (cases "j = n") (simp_all add: window_def)
  then show "window M (Suc n) (W[n mod 16 := R W n])" using assms(1) by (simp add: window_def)
qed

lemma sha1_calls:
  assumes "length s = 5" and "window M 16 W"
  shows "\<exists>W' r. fold call [0..<n] (W, s) = (W', r) \<and> window M (max 16 n) W' \<and> length r = 5
    \<and> view n r = fold (\<lambda>t. round_step t (sched M t)) [0..<n] s"
proof (induction n)
  case 0
  obtain a b c d e where "s = [a, b, c, d, e]" by (rule five_cases [OF assms(1)])
  then show ?case using assms by (simp add: view_def reg_def)
next
  case (Suc n)
  then obtain W' r where h: "fold call [0..<n] (W, s) = (W', r)" "window M (max 16 n) W'" "length r = 5"
    "view n r = fold (\<lambda>t. round_step t (sched M t)) [0..<n] s" by blast
  have "\<exists>W2. call n (W', r) = (W2, P n (sched M n) r) \<and> window M (max 16 (Suc n)) W2"
  proof (cases "n < 16")
    case True
    then have "max 16 n = 16" "max 16 (Suc n) = 16" by simp_all
    with True h(2) show ?thesis by (simp add: call_def window_def)
  next
    case False
    then show ?thesis using window_step [of M n W'] h(2) by (auto simp: call_def Let_def window_def max_def)
  qed
  then show ?case using h sha1_P_is_round [OF h(3)] by auto
qed

lemma sha1_process_is_compress:
  assumes "length s = 5"
  shows "sha1_process s M = compress s M" and "length (compress s M) = 5"
proof -
  define W where "W = map (\<lambda>i. GET_UINT32_BE M (4 * i)) [0..<16]"
  have "window M 16 W" by (simp add: window_def W_def sched.simps)
  then obtain W' r where h: "fold call [0..<80] (W, s) = (W', r)" "length r = 5"
    "view 80 r = fold (\<lambda>t. round_step t (sched M t)) [0..<80] s" using sha1_calls [OF assms, of M W 80] by blast
  obtain a b c d e where "r = [a, b, c, d, e]" by (rule five_cases [OF h(2)])
  then have "view 80 r = r" by (simp add: view_def reg_def)
  then have "r = fold (\<lambda>t. round_step t (sched M t)) [0..<80] s" using h(3) by simp
  then show "sha1_process s M = compress s M" "length (compress s M) = 5"
    using h(1,2) assms by (simp_all only: sha1_process_def W_def [symmetric] Let_def prod.case compress_def length_map length_zip min.idem)
qed

lemma sha1_compress_prefix: "64 \<le> length M \<Longrightarrow> compress s (take 64 M) = compress s M"
proof -
  assume M: "64 \<le> length M"
  have "sched (take 64 M) t = sched M t" for t
    by (induction t rule: less_induct) (subst (1 2) sched.simps, use M in \<open>simp add: GET_UINT32_BE_def\<close>)
  then show ?thesis by (simp add: compress_def)
qed

interpretation sha1: block_hash 64 sha1_process compress "\<lambda>s. length s = 5" initial
  by unfold_locales (simp_all add: sha1_process_is_compress sha1_compress_prefix initial_def)

section \<open>Updates\<close>

definition absorbed :: "u8 list \<Rightarrow> sha1_context \<Rightarrow> bool" where
  "absorbed msg ctx \<longleftrightarrow> unat (total0 ctx) = length msg mod 2 ^ 32 \<and> unat (total1 ctx) = length msg div 2 ^ 32
     \<and> absorbs 64 compress initial msg (state ctx) (buffer ctx)"

lemma sha1_update_absorbs:
  assumes "absorbed msg ctx" and "length inp < 2 ^ 32" and "length msg + length inp < 2 ^ 62"
  shows "\<exists>ctx'. sha1_update ctx inp = Some ctx' \<and> absorbed (msg @ inp) ctx'"
proof (cases "inp = []")
  case True
  with assms(1) show ?thesis by (simp add: sha1_update_def)
next
  case False
  have "unat (of_nat (length inp) :: u32) = length inp" using assms(2) by (simp add: unat_of_nat)
  then have nz: "\<not> (of_nat (length inp) :: u32) \<le> 0" using False by (simp add: word_le_nat_alt)
  have inv: "unat (total0 ctx) = length msg mod 2 ^ 32" "unat (total1 ctx) = length msg div 2 ^ 32"
    "absorbs 64 compress initial msg (state ctx) (buffer ctx)" using assms(1) by (simp_all add: absorbed_def)
  obtain s b where sb: "block_update 64 sha1_process (length msg mod 64) (state ctx) (buffer ctx) inp = Some (s, b)"
    "absorbs 64 compress initial (msg @ inp) s b" using sha1.block_update_absorbs [OF inv(3)] by blast
  note c = counter_step [of "total0 ctx" "length msg" "total1 ctx" "length inp"]
  show ?thesis using inv(1,2) assms(2,3) nz sb c
    by (auto simp: sha1_update_def Let_def keep_all rest_of_counter [OF inv(1)] absorbed_def)
qed

interpretation sha1: incremental sha1_update absorbed
  by unfold_locales (rule sha1_update_absorbs)

lemma sha1_finish_digest:
  assumes "absorbed msg ctx" and "length msg < 2 ^ 61"
  shows "sha1_finish ctx = Some (sha1_spec msg)"
proof -
  have "unat (total0 ctx) = length msg mod 2 ^ 32" "unat (total1 ctx) = length msg div 2 ^ 32"
    using assms(1) by (simp_all add: absorbed_def)
  note p = final_pieces [OF this assms(2)]
  obtain c where c: "updates sha1_update ctx (final_pieces (total0 ctx) (total1 ctx)) = Some c" "absorbed (pad64 msg) c"
    using sha1.updates_absorb [OF assms(1) p(2,3)] unfolding p(1) by blast
  then have st: "absorbs 64 compress initial (pad64 msg) (state c) (buffer c)" by (simp add: absorbed_def)
  have "sha1_finish ctx = Some (concat (map (\<lambda>i. PUT_UINT32_BE (state c ! i)) [0..<5]))"
    using updates_two [OF c(1) [unfolded final_pieces_def Let_def]] by (simp only: sha1_finish_def Let_def sha1_padding_def)
  moreover have "map (\<lambda>i. PUT_UINT32_BE (state c ! i)) [0..<5] = map PUT_UINT32_BE (state c)"
    using sha1.absorbs_ok [OF st] by (simp add: map_equality_iff)
  ultimately show ?thesis using st by (simp add: sha1_spec_def absorbs_def)
qed

lemma sha1_starts_absorbed: "length (buffer ctx) = 64 \<Longrightarrow> absorbed [] (sha1_starts ctx)"
  by (simp add: absorbed_def sha1_starts_def initial_def absorbs_def blocks.simps)

lemma absorbed_buffer: "absorbed msg ctx \<Longrightarrow> length (buffer ctx) = 64"
  by (simp add: absorbed_def absorbs_def)

section \<open>Keyed digests\<close>

text \<open>RFC 2104 for a key of at most one block.\<close>

definition hmac_spec :: "u8 list \<Rightarrow> u8 list \<Rightarrow> u8 list" where
  "hmac_spec key msg =
     (let k = key @ replicate (64 - length key) 0 in
      sha1_spec (map ((XOR) 0x5C) k @ sha1_spec (map ((XOR) 0x36) k @ msg)))"

lemma xor_key_spec: "xor_key c key = map ((XOR) c) (take 64 key @ replicate (64 - length (take 64 key)) 0)"
  by (rule nth_equalityI) (auto simp: xor_key_def nth_append)

lemma length_sha1_spec: "length (sha1_spec msg) = 20"
proof -
  have "length (foldl compress initial (blocks 64 (pad64 msg))) = 5" by (rule sha1.fold_ok) (simp add: initial_def)
  moreover have "length (concat (map PUT_UINT32_BE xs)) = 4 * length xs" for xs
    by (induction xs) (simp_all add: PUT_UINT32_BE_def)
  ultimately show ?thesis by (simp add: sha1_spec_def)
qed

lemma digest_of_two:
  assumes "length (buffer ctx) = 64" and "length a < 2 ^ 32" and "length b < 2 ^ 32"
  shows "\<exists>c1 c2. sha1_update (sha1_starts ctx) a = Some c1 \<and> sha1_update c1 b = Some c2 \<and> length (buffer c2) = 64
    \<and> sha1_finish c2 = Some (sha1_spec (a @ b))"
proof -
  obtain c1 where c1: "sha1_update (sha1_starts ctx) a = Some c1" "absorbed a c1"
    using sha1_update_absorbs [OF sha1_starts_absorbed [OF assms(1)] assms(2)] assms(2) by auto
  obtain c2 where c2: "sha1_update c1 b = Some c2" "absorbed (a @ b) c2"
    using sha1_update_absorbs [OF c1(2) assms(3)] assms(2,3) by auto
  have "length (a @ b) < 2 ^ 61" using assms(2,3) by simp
  from sha1_finish_digest [OF c2(2) this] c1 c2 absorbed_buffer [OF c2(2)] show ?thesis by auto
qed

section \<open>Properties\<close>

text \<open>
  \<^bold>\<open>C24.\<close> The incremental computation is SHA-1, whatever the pieces, and so are \<^verbatim>\<open>sha1_csum\<close> and
  \<^verbatim>\<open>sha1_csum_wd\<close>: they return, never write outside the buffer of the context, and give the digest that
  FIPS 180-4 defines. \<^verbatim>\<open>sha1_hmac\<close> is HMAC-SHA-1 of RFC 2104 with the first 64 bytes of the key, so for
  keys of at most 64 bytes with the key.
\<close>

theorem sha1_correct:
  assumes "length (buffer ctx) = 64" and "\<forall>c \<in> set cs. length c < 2 ^ 32" and "length (concat cs) < 2 ^ 61" and "length inp < 2 ^ 32"
  shows "Option.bind (updates sha1_update (sha1_starts ctx) cs) sha1_finish = Some (sha1_spec (concat cs))
    \<and> sha1_csum ctx inp = Some (sha1_spec inp)
    \<and> (0 < chunk_sz \<and> chunk_sz < 2 ^ 31 \<longrightarrow> sha1_csum_wd wd ctx inp chunk_sz = Some (sha1_spec inp))
    \<and> sha1_hmac ctx key inp = Some (hmac_spec (take 64 key) inp)"
proof -
  note s = sha1_starts_absorbed [OF assms(1)]
  obtain c1 where c1: "updates sha1_update (sha1_starts ctx) cs = Some c1" "absorbed (concat cs) c1"
    using sha1.updates_absorb [OF s assms(2)] assms(3) by auto
  have wd: "sha1_csum_wd wd ctx inp chunk_sz = Some (sha1_spec inp)" if "0 < chunk_sz" for wd chunk_sz
    using sha1.watchdog_absorbs [OF s that assms(4), of wd] sha1_finish_digest [of inp] assms(4) by (auto simp: sha1_csum_wd_def)
  have csum: "sha1_csum ctx inp = Some (sha1_spec inp)" using wd [of 1 False] by (simp add: sha1_csum_def sha1_csum_wd_def)
  have len: "length (xor_key c key) < 2 ^ 32" for c by (simp add: xor_key_def)
  obtain d1 d2 where d: "sha1_update (sha1_starts ctx) (xor_key 0x36 key) = Some d1" "sha1_update d1 inp = Some d2" "length (buffer d2) = 64"
    "sha1_finish d2 = Some (sha1_spec (xor_key 0x36 key @ inp))" using digest_of_two [OF assms(1) len assms(4)] by blast
  obtain e1 e2 where "sha1_update (sha1_starts d2) (xor_key 0x5C key) = Some e1"
    "sha1_update e1 (sha1_spec (xor_key 0x36 key @ inp)) = Some e2"
    "sha1_finish e2 = Some (sha1_spec (xor_key 0x5C key @ sha1_spec (xor_key 0x36 key @ inp)))"
    using digest_of_two [OF d(3) len, of "sha1_spec (xor_key 0x36 key @ inp)" "0x5C"] by (auto simp: length_sha1_spec)
  then have "sha1_hmac ctx key inp = Some (hmac_spec (take 64 key) inp)"
    using d by (simp add: sha1_hmac_def Let_def hmac_spec_def xor_key_spec)
  then show ?thesis using c1 sha1_finish_digest [OF c1(2) assms(3)] wd csum by simp
qed

theorem sha1_correct_witness:
  "Option.bind (updates sha1_update (sha1_starts \<lparr>total0 = 7, total1 = 9, state = [], buffer = replicate 64 5\<rparr>) [[0x61], replicate 70 0x62]) sha1_finish
      = Some (sha1_spec (concat [[0x61], replicate 70 0x62]))
    \<and> sha1_csum_wd True \<lparr>total0 = 7, total1 = 9, state = [], buffer = replicate 64 5\<rparr> [0x61, 0x62, 0x63] 2 = Some (sha1_spec [0x61, 0x62, 0x63])
    \<and> sha1_hmac \<lparr>total0 = 7, total1 = 9, state = [], buffer = replicate 64 5\<rparr> [0x6b, 0x65, 0x79] [0x61, 0x62, 0x63]
      = Some (hmac_spec [0x6b, 0x65, 0x79] [0x61, 0x62, 0x63])"
  using sha1_correct [of "\<lparr>total0 = 7, total1 = 9, state = [], buffer = replicate 64 5\<rparr>" "[[0x61], replicate 70 0x62]" "[0x61, 0x62, 0x63]" 2 True "[0x6b, 0x65, 0x79]"]
  by simp

end
