(* ===== verification/Sha256.thy ===== *)
theory Sha256
  imports Sha2
begin

text \<open>
  SHA-256 (\<^verbatim>\<open>lib/sha256.c\<close>): the incremental computation with its buffer of one block, against the
  padding, schedule and compression of FIPS 180-4. The 64 unrolled calls of the macro \<^verbatim>\<open>P\<close> are a fold
  over the round number.
\<close>

section \<open>One block\<close>

definition SHR :: "u32 \<Rightarrow> nat \<Rightarrow> u32" where "SHR x n = drop_bit n (x AND 0xFFFFFFFF)"
definition ROTR :: "u32 \<Rightarrow> nat \<Rightarrow> u32" where "ROTR x n = SHR x n OR push_bit (32 - n) x"
definition S0 :: "u32 \<Rightarrow> u32" where "S0 x = ROTR x 7 XOR ROTR x 18 XOR SHR x 3"
definition S1 :: "u32 \<Rightarrow> u32" where "S1 x = ROTR x 17 XOR ROTR x 19 XOR SHR x 10"
definition S2 :: "u32 \<Rightarrow> u32" where "S2 x = ROTR x 2 XOR ROTR x 13 XOR ROTR x 22"
definition S3 :: "u32 \<Rightarrow> u32" where "S3 x = ROTR x 6 XOR ROTR x 11 XOR ROTR x 25"

definition K :: "u32 list" where
  "K = [0x428A2F98, 0x71374491, 0xB5C0FBCF, 0xE9B5DBA5, 0x3956C25B, 0x59F111F1, 0x923F82A4, 0xAB1C5ED5,
     0xD807AA98, 0x12835B01, 0x243185BE, 0x550C7DC3, 0x72BE5D74, 0x80DEB1FE, 0x9BDC06A7, 0xC19BF174,
     0xE49B69C1, 0xEFBE4786, 0x0FC19DC6, 0x240CA1CC, 0x2DE92C6F, 0x4A7484AA, 0x5CB0A9DC, 0x76F988DA,
     0x983E5152, 0xA831C66D, 0xB00327C8, 0xBF597FC7, 0xC6E00BF3, 0xD5A79147, 0x06CA6351, 0x14292967,
     0x27B70A85, 0x2E1B2138, 0x4D2C6DFC, 0x53380D13, 0x650A7354, 0x766A0ABB, 0x81C2C92E, 0x92722C85,
     0xA2BFE8A1, 0xA81A664B, 0xC24B8B70, 0xC76C51A3, 0xD192E819, 0xD6990624, 0xF40E3585, 0x106AA070,
     0x19A4C116, 0x1E376C08, 0x2748774C, 0x34B0BCB5, 0x391C0CB3, 0x4ED8AA4A, 0x5B9CCA4F, 0x682E6FF3,
     0x748F82EE, 0x78A5636F, 0x84C87814, 0x8CC70208, 0x90BEFFFA, 0xA4506CEB, 0xBEF9A3F7, 0xC67178F2]"

text \<open>A call of \<^verbatim>\<open>P\<close> with the word \<^verbatim>\<open>W[t]\<close>, or with \<^verbatim>\<open>R(t)\<close>, which sets it.\<close>

definition call :: "nat \<Rightarrow> u32 list \<times> u32 list \<Rightarrow> u32 list \<times> u32 list" where
  "call t = (\<lambda>(W, r). let W = (if t < 16 then W else W @ [R S0 S1 W t]) in (W, P S2 S3 t (W ! t) (K ! t) r))"

definition sha256_process :: "u32 list \<Rightarrow> u8 list \<Rightarrow> u32 list" where
  "sha256_process state data =
     (let W = map (\<lambda>i. GET_UINT32_BE data (4 * i)) [0..<16];
          (W, r) = fold call [0..<64] (W, state)
      in map2 (+) state r)"

section \<open>The context\<close>

record sha256_context =
  total0 :: u32
  total1 :: u32
  state :: "u32 list"
  buffer :: "u8 list"

definition sha256_starts :: "sha256_context \<Rightarrow> sha256_context" where
  "sha256_starts ctx = ctx\<lparr>total0 := 0, total1 := 0,
     state := [0x6A09E667, 0xBB67AE85, 0x3C6EF372, 0xA54FF53A, 0x510E527F, 0x9B05688C, 0x1F83D9AB, 0x5BE0CD19]\<rparr>"

definition sha256_update :: "sha256_context \<Rightarrow> u8 list \<Rightarrow> sha256_context option" where
  "sha256_update ctx inp =
     (let len = of_nat (length inp) :: u32 in
      if len = 0 then Some ctx
      else let left = unat (total0 ctx AND 0x3F);
               ctx = ctx\<lparr>total0 := (total0 ctx + len) AND 0xFFFFFFFF\<rparr>;
               ctx = (if total0 ctx < len then ctx\<lparr>total1 := total1 ctx + 1\<rparr> else ctx)
           in do {
             (s, b) \<leftarrow> block_update 64 sha256_process left (state ctx) (buffer ctx) inp;
             Some (ctx\<lparr>state := s, buffer := b\<rparr>) })"

definition sha256_padding :: "u8 list" where
  "sha256_padding = 0x80 # replicate 63 0"

definition sha256_finish :: "sha256_context \<Rightarrow> u8 list option" where
  "sha256_finish ctx =
     (let high = drop_bit 29 (total0 ctx) OR push_bit 3 (total1 ctx);
          low = push_bit 3 (total0 ctx);
          msglen = PUT_UINT32_BE high @ PUT_UINT32_BE low;
          last = unat (total0 ctx AND 0x3F);
          padn = (if last < 56 then 56 - last else 120 - last)
      in do {
        ctx \<leftarrow> sha256_update ctx (take padn sha256_padding);
        ctx \<leftarrow> sha256_update ctx msglen;
        Some (concat (map (\<lambda>i. PUT_UINT32_BE (state ctx ! i)) [0..<8])) })"

text \<open>\<open>junk\<close> is the context on the stack.\<close>

definition sha256_csum_wd :: "bool \<Rightarrow> sha256_context \<Rightarrow> u8 list \<Rightarrow> nat \<Rightarrow> u8 list option" where
  "sha256_csum_wd watchdog junk inp chunk_sz = do {
     ctx \<leftarrow> (if watchdog then csum_loop sha256_update (sha256_starts junk) inp chunk_sz
              else sha256_update (sha256_starts junk) inp);
     sha256_finish ctx }"

section \<open>The standard\<close>

definition Sigma0 :: "u32 \<Rightarrow> u32" where "Sigma0 x = word_rotr 2 x XOR word_rotr 13 x XOR word_rotr 22 x"
definition Sigma1 :: "u32 \<Rightarrow> u32" where "Sigma1 x = word_rotr 6 x XOR word_rotr 11 x XOR word_rotr 25 x"
definition sigma0 :: "u32 \<Rightarrow> u32" where "sigma0 x = word_rotr 7 x XOR word_rotr 18 x XOR drop_bit 3 x"
definition sigma1 :: "u32 \<Rightarrow> u32" where "sigma1 x = word_rotr 17 x XOR word_rotr 19 x XOR drop_bit 10 x"

abbreviation sched :: "u8 list \<Rightarrow> nat \<Rightarrow> u32" where
  "sched M \<equiv> schedule sigma0 sigma1 (\<lambda>t. GET_UINT32_BE M (4 * t))"

definition compress :: "u32 list \<Rightarrow> u8 list \<Rightarrow> u32 list" where
  "compress s M = map2 (+) s (fold (\<lambda>t. round_step Sigma0 Sigma1 (K ! t) (sched M t)) [0..<64] s)"

definition initial :: "u32 list" where
  "initial = [0x6A09E667, 0xBB67AE85, 0x3C6EF372, 0xA54FF53A, 0x510E527F, 0x9B05688C, 0x1F83D9AB, 0x5BE0CD19]"

definition sha256_spec :: "u8 list \<Rightarrow> u8 list" where
  "sha256_spec msg = concat (map PUT_UINT32_BE (foldl compress initial (blocks 64 (pad64 msg))))"

lemma sha256_cube_roots: "list_all (\<lambda>(p, i, k). root_fraction 3 p i k) (zip first_primes (zip integral_cube_roots K))"
  by (simp add: first_primes_def integral_cube_roots_def K_def root_fraction_def)

lemma sha256_square_roots: "list_all (\<lambda>(p, i, k). root_fraction 2 p i k) (zip first_primes (zip [1, 1, 2, 2, 3, 3, 4, 4] initial))"
  by (simp add: first_primes_def initial_def root_fraction_def)

section \<open>The compression\<close>

lemma SHR_drop: "SHR x n = drop_bit n x"
proof -
  have "(0xFFFFFFFF :: u32) = - 1" by simp
  then show ?thesis unfolding SHR_def by (simp only: and.right_neutral)
qed

lemma sha256_rotations: "S0 = sigma0" "S1 = sigma1" "S2 = Sigma0" "S3 = Sigma1"
proof -
  have "ROTR x n = word_rotr n x" if "0 < n" "n < 32" for x n using rotate_right [of n x] that by (simp add: ROTR_def SHR_drop)
  then show "S0 = sigma0" "S1 = sigma1" "S2 = Sigma0" "S3 = Sigma1"
    by (simp_all add: fun_eq_iff S0_def S1_def S2_def S3_def sigma0_def sigma1_def Sigma0_def Sigma1_def SHR_drop)
qed

lemma sha256_calls:
  "fold call [0..<n] (map (sched M) [0..<16], s) = (map (sched M) [0..<max 16 n], fold (\<lambda>t. P Sigma0 Sigma1 t (sched M t) (K ! t)) [0..<n] s)"
proof (induction n)
  case (Suc n)
  have "call n (map (sched M) [0..<max 16 n], r) = (map (sched M) [0..<max 16 (Suc n)], P Sigma0 Sigma1 n (sched M n) (K ! n) r)" for r
  proof (cases "n < 16")
    case True
    then have "max 16 n = 16" "max 16 (Suc n) = 16" by simp_all
    with True show ?thesis by (simp add: call_def sha256_rotations)
  next
    case False
    then show ?thesis using R_schedule [of n sigma0 sigma1] by (simp add: call_def max_def nth_append sha256_rotations)
  qed
  then show ?case using Suc by simp
qed simp

lemma sha256_process_is_compress:
  assumes "length s = 8"
  shows "sha256_process s M = compress s M" and "length (compress s M) = 8"
proof -
  let ?r = "fold (\<lambda>t. P Sigma0 Sigma1 t (sched M t) (K ! t)) [0..<64] s"
  have W: "map (\<lambda>i. GET_UINT32_BE M (4 * i)) [0..<16] = map (sched M) [0..<16]"
    by (rule map_cong [OF refl]) (simp add: schedule.simps)
  have r: "length ?r = 8" "?r = fold (\<lambda>t. round_step Sigma0 Sigma1 (K ! t) (sched M t)) [0..<64] s"
    using rounds(1) [OF assms] rounds(2) [OF assms, where n = 64] view_8 [of ?r 64] by simp_all
  show "sha256_process s M = compress s M" "length (compress s M) = 8"
    using r assms by (simp_all only: sha256_process_def W sha256_calls Let_def prod.case compress_def length_map length_zip)
qed

lemma sha256_compress_prefix: "64 \<le> length M \<Longrightarrow> compress s (take 64 M) = compress s M"
proof -
  assume "64 \<le> length M"
  then have "sched (take 64 M) t = sched M t" for t by (intro schedule_cong) (simp add: GET_UINT32_BE_def)
  then show ?thesis by (simp add: compress_def)
qed

interpretation sha256: block_hash 64 sha256_process compress "\<lambda>s. length s = 8" initial
  by unfold_locales (simp_all add: sha256_process_is_compress sha256_compress_prefix initial_def)

section \<open>Updates\<close>

definition absorbed :: "u8 list \<Rightarrow> sha256_context \<Rightarrow> bool" where
  "absorbed msg ctx \<longleftrightarrow> unat (total0 ctx) = length msg mod 2 ^ 32 \<and> unat (total1 ctx) = length msg div 2 ^ 32
     \<and> absorbs 64 compress initial msg (state ctx) (buffer ctx)"

lemma sha256_update_absorbs:
  assumes "absorbed msg ctx" and "length inp < 2 ^ 32" and "length msg + length inp < 2 ^ 62"
  shows "\<exists>ctx'. sha256_update ctx inp = Some ctx' \<and> absorbed (msg @ inp) ctx'"
proof (cases "inp = []")
  case True
  with assms(1) show ?thesis by (simp add: sha256_update_def)
next
  case False
  have "unat (of_nat (length inp) :: u32) = length inp" using assms(2) by (simp add: unat_of_nat)
  then have nz: "(of_nat (length inp) :: u32) \<noteq> 0" using False by (metis length_0_conv unat_0)
  have inv: "unat (total0 ctx) = length msg mod 2 ^ 32" "unat (total1 ctx) = length msg div 2 ^ 32"
    "absorbs 64 compress initial msg (state ctx) (buffer ctx)" using assms(1) by (simp_all add: absorbed_def)
  obtain s b where sb: "block_update 64 sha256_process (length msg mod 64) (state ctx) (buffer ctx) inp = Some (s, b)"
    "absorbs 64 compress initial (msg @ inp) s b" using sha256.block_update_absorbs [OF inv(3)] by blast
  note c = counter_step [of "total0 ctx" "length msg" "total1 ctx" "length inp"]
  show ?thesis using inv(1,2) assms(2,3) nz sb c
    by (auto simp: sha256_update_def Let_def keep_all rest_of_counter [OF inv(1)] absorbed_def)
qed

interpretation sha256: incremental sha256_update absorbed
  by unfold_locales (rule sha256_update_absorbs)

lemma sha256_finish_digest:
  assumes "absorbed msg ctx" and "length msg < 2 ^ 61"
  shows "sha256_finish ctx = Some (sha256_spec msg)"
proof -
  have "unat (total0 ctx) = length msg mod 2 ^ 32" "unat (total1 ctx) = length msg div 2 ^ 32"
    using assms(1) by (simp_all add: absorbed_def)
  note p = final_pieces [OF this assms(2)]
  obtain c where c: "updates sha256_update ctx (final_pieces (total0 ctx) (total1 ctx)) = Some c" "absorbed (pad64 msg) c"
    using sha256.updates_absorb [OF assms(1) p(2,3)] unfolding p(1) by blast
  then have st: "absorbs 64 compress initial (pad64 msg) (state c) (buffer c)" by (simp add: absorbed_def)
  have "sha256_finish ctx = Some (concat (map (\<lambda>i. PUT_UINT32_BE (state c ! i)) [0..<8]))"
    using updates_two [OF c(1) [unfolded final_pieces_def Let_def]] by (simp only: sha256_finish_def Let_def sha256_padding_def)
  moreover have "map (\<lambda>i. PUT_UINT32_BE (state c ! i)) [0..<8] = map PUT_UINT32_BE (state c)"
    using sha256.absorbs_ok [OF st] by (simp add: map_equality_iff)
  ultimately show ?thesis using st by (simp add: sha256_spec_def absorbs_def)
qed

lemma sha256_starts_absorbed: "length (buffer ctx) = 64 \<Longrightarrow> absorbed [] (sha256_starts ctx)"
  by (simp add: absorbed_def sha256_starts_def initial_def absorbs_def blocks.simps)

section \<open>Properties\<close>

text \<open>
  \<^bold>\<open>C13.\<close> The incremental computation is SHA-256. For every message given in pieces of any sizes, of less than
  2^61 bytes in all, \<^verbatim>\<open>sha256_starts\<close>, the calls of \<^verbatim>\<open>sha256_update\<close> and \<^verbatim>\<open>sha256_finish\<close> return,
  never write outside the context's buffer, and give the digest that FIPS 180-4 defines for the whole
  message. The same holds for \<^verbatim>\<open>sha256_csum_wd\<close>, with and without a watchdog.
\<close>

theorem sha256_correct:
  assumes "length (buffer ctx) = 64" and "\<forall>c \<in> set cs. length c < 2 ^ 32" and "length (concat cs) < 2 ^ 61"
  shows "Option.bind (updates sha256_update (sha256_starts ctx) cs) sha256_finish = Some (sha256_spec (concat cs))
    \<and> (length inp < 2 ^ 32 \<and> 0 < chunk_sz \<and> chunk_sz < 2 ^ 31 \<longrightarrow> sha256_csum_wd wd ctx inp chunk_sz = Some (sha256_spec inp))"
proof -
  note s = sha256_starts_absorbed [OF assms(1)]
  obtain c1 where c1: "updates sha256_update (sha256_starts ctx) cs = Some c1" "absorbed (concat cs) c1"
    using sha256.updates_absorb [OF s assms(2)] assms(3) by auto
  have "sha256_csum_wd wd ctx inp chunk_sz = Some (sha256_spec inp)" if i: "length inp < 2 ^ 32" "0 < chunk_sz"
    using sha256.watchdog_absorbs [OF s i(2,1), of wd] sha256_finish_digest [of inp] i(1) by (auto simp: sha256_csum_wd_def)
  then show ?thesis using c1 sha256_finish_digest [OF c1(2) assms(3)] by simp
qed

theorem sha256_correct_witness:
  "Option.bind (updates sha256_update (sha256_starts \<lparr>total0 = 7, total1 = 9, state = [], buffer = replicate 64 5\<rparr>) [[0x61], replicate 70 0x62]) sha256_finish
      = Some (sha256_spec (concat [[0x61], replicate 70 0x62]))
    \<and> sha256_csum_wd True \<lparr>total0 = 7, total1 = 9, state = [], buffer = replicate 64 5\<rparr> [0x61, 0x62, 0x63] 2 = Some (sha256_spec [0x61, 0x62, 0x63])"
  using sha256_correct [of "\<lparr>total0 = 7, total1 = 9, state = [], buffer = replicate 64 5\<rparr>" "[[0x61], replicate 70 0x62]" "[0x61, 0x62, 0x63]" 2 True]
  by simp

end
