(* ===== verification/Sha512.thy ===== *)
theory Sha512
  imports Sha2
begin

text \<open>
  SHA-512 and SHA-384 (\<^verbatim>\<open>lib/sha512.c\<close>): the incremental computation with its buffer of one block, against
  the padding, schedule and compression of FIPS 180-4. The loop that runs eight calls of the macro \<^verbatim>\<open>P\<close>
  at a time is a fold over the number of the call.
\<close>

section \<open>Bytes and words\<close>

definition GET_UINT64_BE :: "u8 list \<Rightarrow> nat \<Rightarrow> u64" where
  "GET_UINT64_BE b i = push_bit 56 (ucast (b ! i)) OR push_bit 48 (ucast (b ! (i + 1)))
     OR push_bit 40 (ucast (b ! (i + 2))) OR push_bit 32 (ucast (b ! (i + 3))) OR push_bit 24 (ucast (b ! (i + 4)))
     OR push_bit 16 (ucast (b ! (i + 5))) OR push_bit 8 (ucast (b ! (i + 6))) OR ucast (b ! (i + 7))"

definition PUT_UINT64_BE :: "u64 \<Rightarrow> u8 list" where
  "PUT_UINT64_BE n = [ucast (drop_bit 56 n), ucast (drop_bit 48 n), ucast (drop_bit 40 n), ucast (drop_bit 32 n),
     ucast (drop_bit 24 n), ucast (drop_bit 16 n), ucast (drop_bit 8 n), ucast n]"

section \<open>One block\<close>

definition SHR :: "u64 \<Rightarrow> nat \<Rightarrow> u64" where "SHR x n = drop_bit n x"
definition ROTR :: "u64 \<Rightarrow> nat \<Rightarrow> u64" where "ROTR x n = SHR x n OR push_bit (64 - n) x"
definition S0 :: "u64 \<Rightarrow> u64" where "S0 x = ROTR x 1 XOR ROTR x 8 XOR SHR x 7"
definition S1 :: "u64 \<Rightarrow> u64" where "S1 x = ROTR x 19 XOR ROTR x 61 XOR SHR x 6"
definition S2 :: "u64 \<Rightarrow> u64" where "S2 x = ROTR x 28 XOR ROTR x 34 XOR ROTR x 39"
definition S3 :: "u64 \<Rightarrow> u64" where "S3 x = ROTR x 14 XOR ROTR x 18 XOR ROTR x 41"

definition K :: "u64 list" where
  "K = [0x428A2F98D728AE22, 0x7137449123EF65CD, 0xB5C0FBCFEC4D3B2F, 0xE9B5DBA58189DBBC,
     0x3956C25BF348B538, 0x59F111F1B605D019, 0x923F82A4AF194F9B, 0xAB1C5ED5DA6D8118,
     0xD807AA98A3030242, 0x12835B0145706FBE, 0x243185BE4EE4B28C, 0x550C7DC3D5FFB4E2,
     0x72BE5D74F27B896F, 0x80DEB1FE3B1696B1, 0x9BDC06A725C71235, 0xC19BF174CF692694,
     0xE49B69C19EF14AD2, 0xEFBE4786384F25E3, 0x0FC19DC68B8CD5B5, 0x240CA1CC77AC9C65,
     0x2DE92C6F592B0275, 0x4A7484AA6EA6E483, 0x5CB0A9DCBD41FBD4, 0x76F988DA831153B5,
     0x983E5152EE66DFAB, 0xA831C66D2DB43210, 0xB00327C898FB213F, 0xBF597FC7BEEF0EE4,
     0xC6E00BF33DA88FC2, 0xD5A79147930AA725, 0x06CA6351E003826F, 0x142929670A0E6E70,
     0x27B70A8546D22FFC, 0x2E1B21385C26C926, 0x4D2C6DFC5AC42AED, 0x53380D139D95B3DF,
     0x650A73548BAF63DE, 0x766A0ABB3C77B2A8, 0x81C2C92E47EDAEE6, 0x92722C851482353B,
     0xA2BFE8A14CF10364, 0xA81A664BBC423001, 0xC24B8B70D0F89791, 0xC76C51A30654BE30,
     0xD192E819D6EF5218, 0xD69906245565A910, 0xF40E35855771202A, 0x106AA07032BBD1B8,
     0x19A4C116B8D2D0C8, 0x1E376C085141AB53, 0x2748774CDF8EEB99, 0x34B0BCB5E19B48A8,
     0x391C0CB3C5C95A63, 0x4ED8AA4AE3418ACB, 0x5B9CCA4F7763E373, 0x682E6FF3D6B2B8A3,
     0x748F82EE5DEFB2FC, 0x78A5636F43172F60, 0x84C87814A1F0AB72, 0x8CC702081A6439EC,
     0x90BEFFFA23631E28, 0xA4506CEBDE82BDE9, 0xBEF9A3F7B2C67915, 0xC67178F2E372532B,
     0xCA273ECEEA26619C, 0xD186B8C721C0C207, 0xEADA7DD6CDE0EB1E, 0xF57D4F7FEE6ED178,
     0x06F067AA72176FBA, 0x0A637DC5A2C898A6, 0x113F9804BEF90DAE, 0x1B710B35131C471B,
     0x28DB77F523047D84, 0x32CAAB7B40C72493, 0x3C9EBE0A15C9BEBC, 0x431D67C49C100D4C,
     0x4CC5D4BECB3E42B6, 0x597F299CFC657E2A, 0x5FCB6FAB3AD6FAEC, 0x6C44198C4A475817]"

definition sha512_process :: "u64 list \<Rightarrow> u8 list \<Rightarrow> u64 list" where
  "sha512_process state data =
     (let W = map (\<lambda>i. GET_UINT64_BE data (8 * i)) [0..<16];
          W = fold (\<lambda>i W. W @ [R S0 S1 W i]) [16..<80] W;
          r = fold (\<lambda>i. P S2 S3 i (W ! i) (K ! i)) [0..<80] state
      in map2 (+) state r)"

section \<open>The context\<close>

record sha512_context =
  total0 :: u64
  total1 :: u64
  state :: "u64 list"
  buffer :: "u8 list"
  is384 :: int

definition sha512_starts :: "sha512_context \<Rightarrow> int \<Rightarrow> sha512_context" where
  "sha512_starts ctx is384' = ctx\<lparr>total0 := 0, total1 := 0, state :=
     (if is384' = 0 then [0x6A09E667F3BCC908, 0xBB67AE8584CAA73B, 0x3C6EF372FE94F82B, 0xA54FF53A5F1D36F1,
     0x510E527FADE682D1, 0x9B05688C2B3E6C1F, 0x1F83D9ABFB41BD6B, 0x5BE0CD19137E2179]
      else [0xCBBB9D5DC1059ED8, 0x629A292A367CD507, 0x9159015A3070DD17, 0x152FECD8F70E5939,
     0x67332667FFC00B31, 0x8EB44A8768581511, 0xDB0C2E0D64F98FA7, 0x47B5481DBEFA4FA4]), is384 := is384'\<rparr>"

definition sha512_update :: "sha512_context \<Rightarrow> u8 list \<Rightarrow> sha512_context option" where
  "sha512_update ctx inp =
     (let ilen = of_nat (length inp) :: u32 in
      if ilen = 0 then Some ctx
      else let left = unat (ucast (total0 ctx AND 0x7F) :: u32);
               ctx = ctx\<lparr>total0 := total0 ctx + ucast ilen\<rparr>;
               ctx = (if total0 ctx < ucast ilen then ctx\<lparr>total1 := total1 ctx + 1\<rparr> else ctx)
           in do {
             (s, b) \<leftarrow> block_update 128 sha512_process left (state ctx) (buffer ctx) inp;
             Some (ctx\<lparr>state := s, buffer := b\<rparr>) })"

definition sha512_padding :: "u8 list" where
  "sha512_padding = 0x80 # replicate 127 0"

text \<open>The bytes that are written to \<^verbatim>\<open>output\<close>.\<close>

definition sha512_finish :: "sha512_context \<Rightarrow> u8 list option" where
  "sha512_finish ctx =
     (let high = drop_bit 61 (total0 ctx) OR push_bit 3 (total1 ctx);
          low = push_bit 3 (total0 ctx);
          msglen = PUT_UINT64_BE high @ PUT_UINT64_BE low;
          last = unat (total0 ctx AND 0x7F);
          padn = (if last < 112 then 112 - last else 240 - last)
      in do {
        ctx \<leftarrow> sha512_update ctx (take padn sha512_padding);
        ctx \<leftarrow> sha512_update ctx msglen;
        Some (concat (map (\<lambda>i. PUT_UINT64_BE (state ctx ! i)) ([0..<6] @ (if is384 ctx = 0 then [6, 7] else [])))) })"

text \<open>\<open>junk\<close> is the context on the stack.\<close>

definition sha384_csum_wd :: "bool \<Rightarrow> sha512_context \<Rightarrow> u8 list \<Rightarrow> nat \<Rightarrow> u8 list option" where
  "sha384_csum_wd watchdog junk inp chunk_sz = do {
     ctx \<leftarrow> (if watchdog then csum_loop sha512_update (sha512_starts junk 1) inp chunk_sz
              else sha512_update (sha512_starts junk 1) inp);
     sha512_finish ctx }"

definition sha512_csum_wd :: "bool \<Rightarrow> sha512_context \<Rightarrow> u8 list \<Rightarrow> nat \<Rightarrow> u8 list option" where
  "sha512_csum_wd watchdog junk inp chunk_sz = do {
     ctx \<leftarrow> (if watchdog then csum_loop sha512_update (sha512_starts junk 0) inp chunk_sz
              else sha512_update (sha512_starts junk 0) inp);
     sha512_finish ctx }"

section \<open>The standard\<close>

definition Sigma0 :: "u64 \<Rightarrow> u64" where "Sigma0 x = word_rotr 28 x XOR word_rotr 34 x XOR word_rotr 39 x"
definition Sigma1 :: "u64 \<Rightarrow> u64" where "Sigma1 x = word_rotr 14 x XOR word_rotr 18 x XOR word_rotr 41 x"
definition sigma0 :: "u64 \<Rightarrow> u64" where "sigma0 x = word_rotr 1 x XOR word_rotr 8 x XOR drop_bit 7 x"
definition sigma1 :: "u64 \<Rightarrow> u64" where "sigma1 x = word_rotr 19 x XOR word_rotr 61 x XOR drop_bit 6 x"

abbreviation sched :: "u8 list \<Rightarrow> nat \<Rightarrow> u64" where
  "sched M \<equiv> schedule sigma0 sigma1 (\<lambda>t. GET_UINT64_BE M (8 * t))"

definition compress :: "u64 list \<Rightarrow> u8 list \<Rightarrow> u64 list" where
  "compress s M = map2 (+) s (fold (\<lambda>t. round_step Sigma0 Sigma1 (K ! t) (sched M t)) [0..<80] s)"

definition initial512 :: "u64 list" where
  "initial512 = [0x6A09E667F3BCC908, 0xBB67AE8584CAA73B, 0x3C6EF372FE94F82B, 0xA54FF53A5F1D36F1,
     0x510E527FADE682D1, 0x9B05688C2B3E6C1F, 0x1F83D9ABFB41BD6B, 0x5BE0CD19137E2179]"

definition initial384 :: "u64 list" where
  "initial384 = [0xCBBB9D5DC1059ED8, 0x629A292A367CD507, 0x9159015A3070DD17, 0x152FECD8F70E5939,
     0x67332667FFC00B31, 0x8EB44A8768581511, 0xDB0C2E0D64F98FA7, 0x47B5481DBEFA4FA4]"

definition pad :: "u8 list \<Rightarrow> u8 list" where
  "pad msg = msg @ 0x80 # replicate ((239 - length msg mod 128) mod 128) 0
     @ map (\<lambda>i. ucast (drop_bit (8 * i) (of_nat (8 * length msg) :: 128 word))) (rev [0..<16])"

definition sha512_spec :: "u8 list \<Rightarrow> u8 list" where
  "sha512_spec msg = concat (map PUT_UINT64_BE (foldl compress initial512 (blocks 128 (pad msg))))"

definition sha384_spec :: "u8 list \<Rightarrow> u8 list" where
  "sha384_spec msg = concat (map PUT_UINT64_BE (take 6 (foldl compress initial384 (blocks 128 (pad msg)))))"

lemma cube_root_fraction: "root_fraction 3 p i (numeral k :: u64) \<longleftrightarrow>
    (2 ^ 64 * i + numeral k mod 2 ^ 64) ^ 3 \<le> p * 2 ^ 192 \<and> p * 2 ^ 192 < (2 ^ 64 * i + numeral k mod 2 ^ 64 + 1) ^ 3"
  unfolding root_fraction_def unat_numeral by simp

lemma sha512_cube_roots: "list_all (\<lambda>(p, i, k). root_fraction 3 p i k) (zip first_primes (zip integral_cube_roots K))"
  by (simp add: first_primes_def integral_cube_roots_def K_def cube_root_fraction)

text \<open>The initial state of SHA-384 is taken from the ninth to the sixteenth prime.\<close>

lemma sha512_square_roots: "list_all (\<lambda>(p, i, k). root_fraction 2 p i k)
    (zip first_primes (zip [1, 1, 2, 2, 3, 3, 4, 4, 4, 5, 5, 6, 6, 6, 6, 7] (initial512 @ initial384)))"
  by (simp add: first_primes_def initial512_def initial384_def root_fraction_def)

section \<open>The compression\<close>

lemma sha512_rotations: "S0 = sigma0" "S1 = sigma1" "S2 = Sigma0" "S3 = Sigma1"
proof -
  have "ROTR x n = word_rotr n x" if "0 < n" "n < 64" for x n using rotate_right [of n x] that by (simp add: ROTR_def SHR_def)
  then show "S0 = sigma0" "S1 = sigma1" "S2 = Sigma0" "S3 = Sigma1"
    by (simp_all add: fun_eq_iff S0_def S1_def S2_def S3_def sigma0_def sigma1_def Sigma0_def Sigma1_def SHR_def)
qed

lemma extend: "16 \<le> n \<Longrightarrow> fold (\<lambda>i W. W @ [R sigma0 sigma1 W i]) [16..<n] (map (sched M) [0..<16]) = map (sched M) [0..<n]"
proof (induction n rule: nat_induct_at_least)
  case (Suc n)
  then show ?case using R_schedule [of n sigma0 sigma1] by simp
qed simp

lemma sha512_process_is_compress:
  assumes "length s = 8"
  shows "sha512_process s M = compress s M" and "length (compress s M) = 8"
proof -
  let ?r = "fold (\<lambda>t. P Sigma0 Sigma1 t (sched M t) (K ! t)) [0..<80] s"
  have W: "map (\<lambda>i. GET_UINT64_BE M (8 * i)) [0..<16] = map (sched M) [0..<16]"
    by (rule map_cong [OF refl]) (simp add: schedule.simps)
  have r: "length ?r = 8" "?r = fold (\<lambda>t. round_step Sigma0 Sigma1 (K ! t) (sched M t)) [0..<80] s"
    using rounds(1) [OF assms] rounds(2) [OF assms, where n = 80] view_8 [of ?r 80] by simp_all
  have "fold (\<lambda>i. P Sigma0 Sigma1 i (map (sched M) [0..<80] ! i) (K ! i)) [0..<80] s = ?r"
    by (rule fold_cong) simp_all
  moreover have "fold (\<lambda>i W. W @ [R sigma0 sigma1 W i]) [16..<80] (map (sched M) [0..<16]) = map (sched M) [0..<80]"
    by (rule extend) simp
  ultimately show "sha512_process s M = compress s M" "length (compress s M) = 8"
    using r assms by (simp_all only: sha512_process_def W sha512_rotations Let_def compress_def length_map length_zip)
qed

lemma sha512_compress_prefix: "128 \<le> length M \<Longrightarrow> compress s (take 128 M) = compress s M"
proof -
  assume "128 \<le> length M"
  then have "sched (take 128 M) t = sched M t" for t by (intro schedule_cong) (simp add: GET_UINT64_BE_def)
  then show ?thesis by (simp add: compress_def)
qed

definition initial :: "int \<Rightarrow> u64 list" where
  "initial x = (if x = 0 then initial512 else initial384)"

interpretation sha512: block_hash 128 sha512_process compress "\<lambda>s. length s = 8" "initial x" for x
  by unfold_locales (simp_all add: sha512_process_is_compress sha512_compress_prefix initial_def initial512_def initial384_def)

section \<open>Updates\<close>

definition absorbed :: "int \<Rightarrow> u8 list \<Rightarrow> sha512_context \<Rightarrow> bool" where
  "absorbed x msg ctx \<longleftrightarrow> unat (total0 ctx) = length msg mod 2 ^ 64 \<and> unat (total1 ctx) = length msg div 2 ^ 64
     \<and> absorbs 128 compress (initial x) msg (state ctx) (buffer ctx) \<and> is384 ctx = x"

lemma rest_of_counter64: "unat t0 = n mod 2 ^ 64 \<Longrightarrow> unat ((t0 :: u64) AND 0x7F) = n mod 128"
proof -
  assume "unat t0 = n mod 2 ^ 64"
  moreover have "(0x7F :: u64) = mask 7" by (simp add: mask_numeral)
  ultimately show ?thesis using low_bits [of t0 7] by (simp add: mod_mod_cancel)
qed

lemma sha512_update_absorbs:
  assumes "absorbed x msg ctx" and "length inp < 2 ^ 32" and "length msg + length inp < 2 ^ 62"
  shows "\<exists>ctx'. sha512_update ctx inp = Some ctx' \<and> absorbed x (msg @ inp) ctx'"
proof (cases "inp = []")
  case True
  with assms(1) show ?thesis by (simp add: sha512_update_def)
next
  case False
  have len: "unat (of_nat (length inp) :: u32) = length inp" using assms(2) by (simp add: unat_of_nat)
  then have nz: "(of_nat (length inp) :: u32) \<noteq> 0" using False by (metis length_0_conv unat_0)
  have wide: "ucast (of_nat (length inp) :: u32) = (of_nat (length inp) :: u64)"
    using assms(2) by (intro word_unat_eq_iff [THEN iffD2]) (simp only: unat_widen len, simp add: unat_of_nat)
  have inv: "unat (total0 ctx) = length msg mod 2 ^ 64" "unat (total1 ctx) = length msg div 2 ^ 64"
    "absorbs 128 compress (initial x) msg (state ctx) (buffer ctx)" "is384 ctx = x" using assms(1) by (simp_all add: absorbed_def)
  have left: "unat (ucast (total0 ctx AND 0x7F) :: u32) = length msg mod 128"
    using rest_of_counter64 [OF inv(1)] by (simp add: unsigned_ucast_eq take_bit_nat_eq_self)
  obtain s b where sb: "block_update 128 sha512_process (length msg mod 128) (state ctx) (buffer ctx) inp = Some (s, b)"
    "absorbs 128 compress (initial x) (msg @ inp) s b" using sha512.block_update_absorbs [OF inv(3)] by blast
  note c = counter_step [of "total0 ctx" "length msg" "total1 ctx" "length inp"]
  show ?thesis using inv(1,2,4) assms(2,3) nz sb c
    by (auto simp: sha512_update_def Let_def wide left absorbed_def)
qed

interpretation sha512: incremental sha512_update "absorbed x" for x
  by unfold_locales (rule sha512_update_absorbs)

section \<open>Padding\<close>

lemma length_bytes64:
  fixes t0 t1 :: u64
  assumes "unat t0 = n mod 2 ^ 64" and "unat t1 = n div 2 ^ 64" and "n < 2 ^ 125"
  shows "PUT_UINT64_BE (drop_bit 61 t0 OR push_bit 3 t1) @ PUT_UINT64_BE (push_bit 3 t0)
    = map (\<lambda>i. ucast (drop_bit (8 * i) (of_nat (8 * n) :: 128 word))) (rev [0..<16])"
proof -
  define N where "N = (of_nat n :: 128 word)"
  have uN: "unat N = n" using assms(3) by (simp add: N_def unat_of_nat)
  have t0: "t0 = ucast N" using assms(1) uN by (intro word_unat_eq_iff [THEN iffD2]) (simp add: unsigned_ucast_eq take_bit_eq_mod)
  have t1: "t1 = ucast (drop_bit 64 N)"
  proof (rule word_unat_eq_iff [THEN iffD2])
    have "n div 2 ^ 64 < 2 ^ 64" using assms(3) by (intro less_mult_imp_div_less) simp
    then show "unat t1 = unat (ucast (drop_bit 64 N) :: u64)"
      using assms(2) by (simp only: unsigned_ucast_eq unat_drop_bit uN) (simp add: take_bit_nat_eq_self)
  qed
  have N8: "(of_nat (8 * n) :: 128 word) = push_bit 3 N" by (simp add: N_def push_bit_eq_mult)
  have hi: "\<not> bit N i" if "128 \<le> i" for i using that bit_imp_le_length [of N i] by auto
  have up: "rev [0..<16] = [15, 14, 13, 12, 11, 10, 9, 8, 7, 6, 5, 4, 3, 2, 1, 0 :: nat]" by (simp add: upt_rec)
  show ?thesis unfolding N8 t0 t1 PUT_UINT64_BE_def up
    by (simp, intro conjI bit_word_eqI) (auto simp: bit_simps hi)
qed

definition digest :: "int \<Rightarrow> u8 list \<Rightarrow> u8 list" where
  "digest x = (if x = 0 then sha512_spec else sha384_spec)"

lemma sha512_finish_digest:
  assumes "absorbed x msg ctx" and "length msg < 2 ^ 61"
  shows "sha512_finish ctx = Some (digest x msg)"
proof -
  let ?n = "length msg" and ?r = "length msg mod 128"
  have inv: "unat (total0 ctx) = ?n mod 2 ^ 64" "unat (total1 ctx) = ?n div 2 ^ 64" using assms(1) by (simp_all add: absorbed_def)
  define padn where "padn = (if ?r < 112 then 112 - ?r else 240 - ?r)"
  define msglen where "msglen = PUT_UINT64_BE (drop_bit 61 (total0 ctx) OR push_bit 3 (total1 ctx)) @ PUT_UINT64_BE (push_bit 3 (total0 ctx))"
  have padn: "padn = Suc ((239 - ?r) mod 128)" "padn \<le> 128" using padding_length [of ?r 128 112 240] by (simp_all add: padn_def)
  then have pad1: "take padn sha512_padding = 0x80 # replicate ((239 - ?r) mod 128) 0" by (simp add: sha512_padding_def)
  have "?n < 2 ^ 125" using assms(2) by simp
  then have whole: "msg @ concat [take padn sha512_padding, msglen] = pad msg"
    unfolding pad1 msglen_def length_bytes64 [OF inv \<open>?n < 2 ^ 125\<close>] by (simp add: pad_def)
  have len: "length (take padn sha512_padding) \<le> 128" "length msglen = 16" using padn(2) by (simp_all add: msglen_def PUT_UINT64_BE_def)
  obtain c where c: "updates sha512_update ctx [take padn sha512_padding, msglen] = Some c" "absorbed x (pad msg) c"
    using sha512.updates_absorb [OF assms(1), of "[take padn sha512_padding, msglen]"] len assms(2) unfolding whole by auto
  have st: "absorbs 128 compress (initial x) (pad msg) (state c) (buffer c)" "is384 c = x" using c(2) by (simp_all add: absorbed_def)
  have "sha512_finish ctx = Some (concat (map (\<lambda>i. PUT_UINT64_BE (state c ! i)) ([0..<6] @ (if x = 0 then [6, 7] else []))))"
    by (simp only: sha512_finish_def Let_def rest_of_counter64 [OF inv(1)] padn_def [symmetric] msglen_def [symmetric] updates_two [OF c(1)] st(2))
  moreover obtain s0 s1 s2 s3 s4 s5 s6 s7 where "state c = [s0, s1, s2, s3, s4, s5, s6, s7]"
    by (rule eight_cases [OF sha512.absorbs_ok [OF st(1)]])
  moreover have "[0..<6] = [0, 1, 2, 3, 4, 5 :: nat]" by (simp add: upt_rec)
  moreover have "state c = foldl compress (initial x) (blocks 128 (pad msg))" using st(1) by (simp add: absorbs_def)
  then have "digest x msg = concat (map PUT_UINT64_BE (if x = 0 then state c else take 6 (state c)))"
    by (simp add: digest_def sha512_spec_def sha384_spec_def initial_def)
  ultimately show ?thesis by (cases "x = 0") simp_all
qed

lemma sha512_starts_absorbed: "length (buffer ctx) = 128 \<Longrightarrow> absorbed x [] (sha512_starts ctx x)"
  by (simp add: absorbed_def sha512_starts_def initial_def initial512_def initial384_def absorbs_def blocks.simps)

section \<open>Properties\<close>

text \<open>
  \<^bold>\<open>C23.\<close> The incremental computation is SHA-512, or SHA-384 when \<^verbatim>\<open>is384\<close> is set. For every message given
  in pieces of any sizes, of less than 2^61 bytes in all, \<^verbatim>\<open>sha512_starts\<close>, the calls of \<^verbatim>\<open>sha512_update\<close>
  and \<^verbatim>\<open>sha512_finish\<close> return, never write outside the buffer of the context, and give the digest that
  FIPS 180-4 defines for the whole message. The same holds for \<^verbatim>\<open>sha512_csum_wd\<close> and \<^verbatim>\<open>sha384_csum_wd\<close>, with
  and without a watchdog.
\<close>

theorem sha512_correct:
  assumes "length (buffer ctx) = 128" and "\<forall>c \<in> set cs. length c < 2 ^ 32" and "length (concat cs) < 2 ^ 61"
  shows "Option.bind (updates sha512_update (sha512_starts ctx x) cs) sha512_finish
      = Some (if x = 0 then sha512_spec (concat cs) else sha384_spec (concat cs))
    \<and> (length inp < 2 ^ 32 \<and> 0 < chunk_sz \<and> chunk_sz < 2 ^ 31 \<longrightarrow>
        sha512_csum_wd wd ctx inp chunk_sz = Some (sha512_spec inp) \<and> sha384_csum_wd wd ctx inp chunk_sz = Some (sha384_spec inp))"
proof -
  note s = sha512_starts_absorbed [OF assms(1)]
  obtain c1 where c1: "updates sha512_update (sha512_starts ctx x) cs = Some c1" "absorbed x (concat cs) c1"
    using sha512.updates_absorb [OF s assms(2)] assms(3) by auto
  have "sha512_csum_wd wd ctx inp chunk_sz = Some (sha512_spec inp)" "sha384_csum_wd wd ctx inp chunk_sz = Some (sha384_spec inp)"
    if i: "length inp < 2 ^ 32" "0 < chunk_sz"
    using sha512.watchdog_absorbs [OF s i(2,1), of wd 0] sha512.watchdog_absorbs [OF s i(2,1), of wd 1]
      sha512_finish_digest [of 0 inp] sha512_finish_digest [of 1 inp] i(1)
    by (auto simp: sha512_csum_wd_def sha384_csum_wd_def digest_def)
  then show ?thesis using c1 sha512_finish_digest [OF c1(2) assms(3)] by (simp add: digest_def)
qed

theorem sha512_correct_witness:
  "Option.bind (updates sha512_update (sha512_starts \<lparr>total0 = 7, total1 = 9, state = [], buffer = replicate 128 5, is384 = 3\<rparr> 1) [[0x61], replicate 130 0x62]) sha512_finish
      = Some (sha384_spec (concat [[0x61], replicate 130 0x62]))
    \<and> sha512_csum_wd True \<lparr>total0 = 7, total1 = 9, state = [], buffer = replicate 128 5, is384 = 3\<rparr> [0x61, 0x62, 0x63] 2 = Some (sha512_spec [0x61, 0x62, 0x63])"
  using sha512_correct [of "\<lparr>total0 = 7, total1 = 9, state = [], buffer = replicate 128 5, is384 = 3\<rparr>" "[[0x61], replicate 130 0x62]" 1 "[0x61, 0x62, 0x63]" 2 True]
  by simp

end
