(* ===== verification/HashAlgo.thy ===== *)
theory HashAlgo
  imports Sha1 Sha256 Sha512 Crc Cstring
begin

text \<open>
  The table of hash algorithms (\<^verbatim>\<open>common/hash.c\<close>) and the digest over several regions of memory
  (\<open>hash_calculate\<close> of \<^verbatim>\<open>lib/rsa/rsa-checksum.c\<close>), in the configuration of the board, with SHA-1, SHA-256 and
  SHA-512 and without hardware acceleration. The function pointers of a row of the table all belong to
  one digest, its \<open>kind\<close>. \<open>mem\<close> is what the memory of a fresh context holds; the code does not check the
  result of \<^verbatim>\<open>malloc\<close>, which is taken to succeed.
\<close>

section \<open>The table\<close>

datatype hash_kind = SHA1 | SHA256 | SHA384 | SHA512 | CRC32

record hash_algo =
  algo_name :: string
  digest_size :: int
  chunk_size :: nat
  kind :: hash_kind

definition hash_algos :: "hash_algo list" where
  "hash_algos =
    [\<lparr>algo_name = ''sha1'', digest_size = 20, chunk_size = 65536, kind = SHA1\<rparr>,
     \<lparr>algo_name = ''sha256'', digest_size = 32, chunk_size = 65536, kind = SHA256\<rparr>,
     \<lparr>algo_name = ''sha384'', digest_size = 48, chunk_size = 65536, kind = SHA384\<rparr>,
     \<lparr>algo_name = ''sha512'', digest_size = 64, chunk_size = 65536, kind = SHA512\<rparr>,
     \<lparr>algo_name = ''crc32'', digest_size = 4, chunk_size = 65536, kind = CRC32\<rparr>]"

section \<open>Progressive hashing\<close>

record hash_mem =
  mem1 :: sha1_context
  mem256 :: sha256_context
  mem512 :: sha512_context

datatype hash_ctx = Ctx1 sha1_context | Ctx256 sha256_context | Ctx512 sha512_context | Ctx32 u32

definition hash_init_sha1 :: "hash_mem \<Rightarrow> hash_ctx" where "hash_init_sha1 mem = Ctx1 (sha1_starts (mem1 mem))"
definition hash_init_sha256 :: "hash_mem \<Rightarrow> hash_ctx" where "hash_init_sha256 mem = Ctx256 (sha256_starts (mem256 mem))"
definition hash_init_sha384 :: "hash_mem \<Rightarrow> hash_ctx" where "hash_init_sha384 mem = Ctx512 (sha512_starts (mem512 mem) 1)"
definition hash_init_sha512 :: "hash_mem \<Rightarrow> hash_ctx" where "hash_init_sha512 mem = Ctx512 (sha512_starts (mem512 mem) 0)"
definition hash_init_crc32 :: "hash_mem \<Rightarrow> hash_ctx" where "hash_init_crc32 mem = Ctx32 0"

fun hash_init :: "hash_kind \<Rightarrow> hash_mem \<Rightarrow> hash_ctx" where
  "hash_init SHA1 = hash_init_sha1"
| "hash_init SHA256 = hash_init_sha256"
| "hash_init SHA384 = hash_init_sha384"
| "hash_init SHA512 = hash_init_sha512"
| "hash_init CRC32 = hash_init_crc32"

text \<open>The value of \<^verbatim>\<open>crc32\<close> does not depend on the alignment of the data.\<close>

fun hash_update :: "hash_ctx \<Rightarrow> u8 list \<Rightarrow> hash_ctx option" where
  "hash_update (Ctx1 ctx) bs = map_option Ctx1 (sha1_update ctx bs)"
| "hash_update (Ctx256 ctx) bs = map_option Ctx256 (sha256_update ctx bs)"
| "hash_update (Ctx512 ctx) bs = map_option Ctx512 (sha512_update ctx bs)"
| "hash_update (Ctx32 ctx) bs = Some (Ctx32 (crc32 0 ctx bs))"

text \<open>The bytes of a \<^verbatim>\<open>uint32_t\<close> in memory.\<close>

definition word_bytes :: "u32 \<Rightarrow> u8 list" where
  "word_bytes w = [ucast w, ucast (drop_bit 8 w), ucast (drop_bit 16 w), ucast (drop_bit 24 w)]"

fun digest_of_ctx :: "hash_ctx \<Rightarrow> u8 list option" where
  "digest_of_ctx (Ctx1 ctx) = sha1_finish ctx"
| "digest_of_ctx (Ctx256 ctx) = sha256_finish ctx"
| "digest_of_ctx (Ctx512 ctx) = sha512_finish ctx"
| "digest_of_ctx (Ctx32 ctx) = Some (word_bytes ctx)"

definition hash_finish :: "hash_algo \<Rightarrow> hash_ctx \<Rightarrow> int \<Rightarrow> (int + u8 list) option" where
  "hash_finish algo ctx sz = (if sz < digest_size algo then Some (Inl (-1)) else map_option Inr (digest_of_ctx ctx))"

section \<open>Lookup\<close>

definition EPROTONOSUPPORT :: int where "EPROTONOSUPPORT = 93"
definition ENOSPC :: int where "ENOSPC = 28"

fun lookup_algo :: "char list \<Rightarrow> hash_algo list \<Rightarrow> (int + hash_algo) option" where
  "lookup_algo name [] = Some (Inl (- EPROTONOSUPPORT))"
| "lookup_algo name (a # as) = do { r \<leftarrow> strcmp name (algo_name a @ [NUL]); if r = 0 then Some (Inr a) else lookup_algo name as }"

definition hash_lookup_algo :: "char list \<Rightarrow> (int + hash_algo) option" where
  "hash_lookup_algo name = lookup_algo name hash_algos"

text \<open>All rows have a \<^verbatim>\<open>hash_init\<close>.\<close>

definition hash_progressive_lookup_algo :: "char list \<Rightarrow> (int + hash_algo) option" where
  "hash_progressive_lookup_algo name = lookup_algo name hash_algos"

section \<open>Digests of one and of many buffers\<close>

definition crc32_wd_buf :: "bool \<Rightarrow> u8 list \<Rightarrow> nat \<Rightarrow> u8 list option" where
  "crc32_wd_buf watchdog inp chunk_sz =
     map_option word_bytes (if watchdog then crc32_wd 0 0 inp chunk_sz else Some (crc32 0 0 inp))"

fun hash_func_ws :: "hash_kind \<Rightarrow> bool \<Rightarrow> hash_mem \<Rightarrow> u8 list \<Rightarrow> nat \<Rightarrow> u8 list option" where
  "hash_func_ws SHA1 wd mem inp chunk_sz = sha1_csum_wd wd (mem1 mem) inp chunk_sz"
| "hash_func_ws SHA256 wd mem inp chunk_sz = sha256_csum_wd wd (mem256 mem) inp chunk_sz"
| "hash_func_ws SHA384 wd mem inp chunk_sz = sha384_csum_wd wd (mem512 mem) inp chunk_sz"
| "hash_func_ws SHA512 wd mem inp chunk_sz = sha512_csum_wd wd (mem512 mem) inp chunk_sz"
| "hash_func_ws CRC32 wd mem inp chunk_sz = crc32_wd_buf wd inp chunk_sz"

text \<open>\<open>output_size\<close> is \<open>None\<close> for a NULL pointer; the digest is written to \<^verbatim>\<open>output\<close>.\<close>

definition hash_block :: "bool \<Rightarrow> hash_mem \<Rightarrow> char list \<Rightarrow> u8 list \<Rightarrow> int option \<Rightarrow> (int + u8 list) option" where
  "hash_block wd mem name data output_size = do {
     r \<leftarrow> hash_lookup_algo name;
     case r of Inl ret \<Rightarrow> Some (Inl ret)
     | Inr algo \<Rightarrow>
         if output_size \<noteq> None \<and> the output_size < digest_size algo then Some (Inl (- ENOSPC))
         else map_option Inr (hash_func_ws (kind algo) wd mem data (chunk_size algo)) }"

text \<open>
  The regions are the lists of their bytes. With no region the loop would run over the whole address
  space.
\<close>

definition hash_calculate :: "hash_mem \<Rightarrow> char list \<Rightarrow> u8 list list \<Rightarrow> (int + u8 list) option" where
  "hash_calculate mem name region = do {
     r \<leftarrow> hash_progressive_lookup_algo name;
     case r of Inl ret \<Rightarrow> Some (Inl ret)
     | Inr algo \<Rightarrow>
         if region = [] then None
         else do {
           ctx \<leftarrow> updates hash_update (hash_init (kind algo) mem) (butlast region);
           ctx \<leftarrow> hash_update ctx (last region);
           hash_finish algo ctx (digest_size algo) } }"

section \<open>The digests\<close>

text \<open>The specification of each digest; the CRC-32 is that of \<open>Crc\<close>, in the byte order of the machine.\<close>

fun digest :: "hash_kind \<Rightarrow> u8 list \<Rightarrow> u8 list" where
  "digest SHA1 = sha1_spec"
| "digest SHA256 = sha256_spec"
| "digest SHA384 = sha384_spec"
| "digest SHA512 = sha512_spec"
| "digest CRC32 = (\<lambda>msg. word_bytes (crc_ref 0xFFFFFFFF msg XOR 0xFFFFFFFF))"

fun hash_absorbed :: "hash_kind \<Rightarrow> u8 list \<Rightarrow> hash_ctx \<Rightarrow> bool" where
  "hash_absorbed SHA1 msg (Ctx1 ctx) \<longleftrightarrow> Sha1.absorbed msg ctx"
| "hash_absorbed SHA256 msg (Ctx256 ctx) \<longleftrightarrow> Sha256.absorbed msg ctx"
| "hash_absorbed SHA384 msg (Ctx512 ctx) \<longleftrightarrow> Sha512.absorbed 1 msg ctx"
| "hash_absorbed SHA512 msg (Ctx512 ctx) \<longleftrightarrow> Sha512.absorbed 0 msg ctx"
| "hash_absorbed CRC32 msg (Ctx32 ctx) \<longleftrightarrow> ctx = crc32 0 0 msg"
| "hash_absorbed _ msg _ \<longleftrightarrow> False"

lemma hash_update_absorbs:
  "hash_absorbed k msg ctx \<Longrightarrow> length inp < 2 ^ 32 \<Longrightarrow> length msg + length inp < 2 ^ 62 \<Longrightarrow>
   \<exists>ctx'. hash_update ctx inp = Some ctx' \<and> hash_absorbed k (msg @ inp) ctx'"
  using Sha1.sha1_update_absorbs [of msg _ inp] Sha256.sha256_update_absorbs [of msg _ inp] Sha512.sha512_update_absorbs [of _ msg _ inp]
  by (cases "(k, msg, ctx)" rule: hash_absorbed.cases) (fastforce simp: crc32_append)+

interpretation hash: incremental hash_update "hash_absorbed k" for k
  by unfold_locales (rule hash_update_absorbs)

definition mem_ok :: "hash_mem \<Rightarrow> bool" where
  "mem_ok mem \<longleftrightarrow> length (sha1_context.buffer (mem1 mem)) = 64 \<and> length (sha256_context.buffer (mem256 mem)) = 64
     \<and> length (sha512_context.buffer (mem512 mem)) = 128"

lemma crc32_Nil: "crc32 p c [] = c"
  by (simp add: crc32_def crc32_no_comp_ref xor.assoc)

lemma hash_init_absorbed: "mem_ok mem \<Longrightarrow> hash_absorbed k [] (hash_init k mem)"
  by (cases k) (simp_all add: mem_ok_def hash_init_sha1_def hash_init_sha256_def hash_init_sha384_def hash_init_sha512_def
      hash_init_crc32_def Sha1.sha1_starts_absorbed Sha256.sha256_starts_absorbed Sha512.sha512_starts_absorbed crc32_Nil)

lemma crc_digest: "word_bytes (crc32 0 0 msg) = digest CRC32 msg"
  by (simp add: crc32_def crc32_no_comp_ref)

lemma digest_of_ctx_correct: "hash_absorbed k msg ctx \<Longrightarrow> length msg < 2 ^ 61 \<Longrightarrow> digest_of_ctx ctx = Some (digest k msg)"
  by (cases "(k, msg, ctx)" rule: hash_absorbed.cases)
    (simp_all add: Sha1.sha1_finish_digest Sha256.sha256_finish_digest Sha512.sha512_finish_digest Sha512.digest_def crc_digest del: digest.simps(5))

lemma updates_snoc: "updates u ctx (cs @ [c]) = Option.bind (updates u ctx cs) (\<lambda>ctx. u ctx c)"
  by (induction cs arbitrary: ctx) (simp_all add: bind_assoc)

lemma calculate_digest:
  assumes "mem_ok mem" and "hash_progressive_lookup_algo name = Some (Inr algo)" and "region \<noteq> []"
    and "\<forall>c \<in> set region. length c < 2 ^ 32" and "length (concat region) < 2 ^ 61"
  shows "hash_calculate mem name region = Some (Inr (digest (kind algo) (concat region)))"
proof -
  have r: "region = butlast region @ [last region]" using assms(3) by simp
  obtain ctx where ctx: "updates hash_update (hash_init (kind algo) mem) region = Some ctx" "hash_absorbed (kind algo) (concat region) ctx"
    using hash.updates_absorb [OF hash_init_absorbed [OF assms(1), of "kind algo"] assms(4)] assms(5) by auto
  then have "Option.bind (updates hash_update (hash_init (kind algo) mem) (butlast region)) (\<lambda>ctx. hash_update ctx (last region)) = Some ctx"
    by (subst (asm) r) (simp add: updates_snoc)
  moreover have "hash_finish algo ctx (digest_size algo) = Some (Inr (digest (kind algo) (concat region)))"
    using digest_of_ctx_correct [OF ctx(2) assms(5)] by (simp add: hash_finish_def)
  ultimately show ?thesis using assms(2,3) by (auto simp: hash_calculate_def split: Option.bind_splits)
qed

lemma crc32_wd_run: "0 < chunk_sz \<Longrightarrow> crc32_wd p c bs chunk_sz = Some (crc32 p c bs)"
proof (induction "length bs" arbitrary: p c bs rule: less_induct)
  case less
  show ?case
  proof (cases "bs = []")
    case True
    then show ?thesis by (simp add: crc32_wd.simps crc32_Nil)
  next
    case False
    then have "crc32_wd (p + min (length bs) chunk_sz) (crc32 p c (take chunk_sz bs)) (drop chunk_sz bs) chunk_sz
        = Some (crc32 p c (take chunk_sz bs @ drop chunk_sz bs))"
      using less by (simp add: crc32_append del: append_take_drop_id)
    then show ?thesis using False less.prems by (subst crc32_wd.simps) simp
  qed
qed

lemma func_ws_digest:
  assumes "mem_ok mem" and "length inp < 2 ^ 32" and "0 < chunk_sz"
  shows "hash_func_ws k wd mem inp chunk_sz = Some (digest k inp)"
proof -
  have len: "length inp < 2 ^ 61" using assms(2) by simp
  have m: "length (sha1_context.buffer (mem1 mem)) = 64" "length (sha256_context.buffer (mem256 mem)) = 64"
    "length (sha512_context.buffer (mem512 mem)) = 128" using assms(1) by (simp_all add: mem_ok_def)
  show ?thesis
  proof (cases k)
    case SHA1
    obtain c where "(if wd then csum_loop sha1_update (sha1_starts (mem1 mem)) inp chunk_sz else sha1_update (sha1_starts (mem1 mem)) inp) = Some c"
      "Sha1.absorbed inp c" using Sha1.sha1.watchdog_absorbs [OF Sha1.sha1_starts_absorbed [OF m(1)] assms(3,2), of wd] assms(2) by auto
    then show ?thesis using SHA1 Sha1.sha1_finish_digest [OF _ len] by (simp only: hash_func_ws.simps digest.simps sha1_csum_wd_def) simp
  next
    case SHA256
    obtain c where "(if wd then csum_loop sha256_update (sha256_starts (mem256 mem)) inp chunk_sz else sha256_update (sha256_starts (mem256 mem)) inp) = Some c"
      "Sha256.absorbed inp c" using Sha256.sha256.watchdog_absorbs [OF Sha256.sha256_starts_absorbed [OF m(2)] assms(3,2), of wd] assms(2) by auto
    then show ?thesis using SHA256 Sha256.sha256_finish_digest [OF _ len] by (simp only: hash_func_ws.simps digest.simps sha256_csum_wd_def) simp
  next
    case SHA384
    obtain c where "(if wd then csum_loop sha512_update (sha512_starts (mem512 mem) 1) inp chunk_sz else sha512_update (sha512_starts (mem512 mem) 1) inp) = Some c"
      "Sha512.absorbed 1 inp c" using Sha512.sha512.watchdog_absorbs [OF Sha512.sha512_starts_absorbed [OF m(3)] assms(3,2), of wd 1] assms(2) by auto
    then show ?thesis using SHA384 Sha512.sha512_finish_digest [OF _ len]
      by (simp only: hash_func_ws.simps digest.simps sha384_csum_wd_def) (simp add: Sha512.digest_def)
  next
    case SHA512
    obtain c where "(if wd then csum_loop sha512_update (sha512_starts (mem512 mem) 0) inp chunk_sz else sha512_update (sha512_starts (mem512 mem) 0) inp) = Some c"
      "Sha512.absorbed 0 inp c" using Sha512.sha512.watchdog_absorbs [OF Sha512.sha512_starts_absorbed [OF m(3)] assms(3,2), of wd 0] assms(2) by auto
    then show ?thesis using SHA512 Sha512.sha512_finish_digest [OF _ len]
      by (simp only: hash_func_ws.simps digest.simps sha512_csum_wd_def) (simp add: Sha512.digest_def)
  next
    case CRC32
    then show ?thesis using crc_digest [of inp] assms(3) by (simp add: crc32_wd_buf_def crc32_wd_run del: digest.simps)
  qed
qed

lemma lookup_algo_name:
  assumes "cstring name ptr" and "\<forall>a \<in> set as. NUL \<notin> set (algo_name a)"
  shows "lookup_algo ptr as = Some (case find (\<lambda>a. algo_name a = name) as of Some a \<Rightarrow> Inr a | None \<Rightarrow> Inl (- EPROTONOSUPPORT))"
  using assms(2)
proof (induction as)
  case (Cons a as)
  have "cstring (algo_name a) (algo_name a @ [NUL])" using Cons.prems by (simp add: cstring_def)
  from strcmp_cstring [OF assms(1) this] obtain r where "strcmp ptr (algo_name a @ [NUL]) = Some r" "r = 0 \<longleftrightarrow> name = algo_name a" by blast
  then show ?case using Cons by auto
qed simp

lemma hash_algo_names: "\<forall>a \<in> set hash_algos. NUL \<notin> set (algo_name a)"
  by (simp add: hash_algos_def)

section \<open>Properties\<close>

text \<open>
  \<^bold>\<open>C14.\<close> The hash functions of the table compute the digests their names stand for. For the name of any
  row, \<^verbatim>\<open>hash_calculate\<close> over any regions, each shorter than 2^32 bytes, returns the standard's digest of the
  concatenation of the regions, and \<^verbatim>\<open>hash_block\<close> that of its buffer, when the output has room for it; for
  any other name both report that the algorithm is not supported.
\<close>

theorem hash_functions_correct:
  assumes "mem_ok mem" and "cstring name ptr" and "region \<noteq> []" and "\<forall>c \<in> set region. length c < 2 ^ 32"
    and "length (concat region) < 2 ^ 61" and "length data < 2 ^ 32"
  shows "case find (\<lambda>a. algo_name a = name) hash_algos of
      None \<Rightarrow> hash_calculate mem ptr region = Some (Inl (- EPROTONOSUPPORT)) \<and> hash_block wd mem ptr data out = Some (Inl (- EPROTONOSUPPORT))
    | Some a \<Rightarrow> hash_calculate mem ptr region = Some (Inr (digest (kind a) (concat region)))
        \<and> hash_block wd mem ptr data out =
            Some (case out of Some n \<Rightarrow> if n < digest_size a then Inl (- ENOSPC) else Inr (digest (kind a) data)
                  | None \<Rightarrow> Inr (digest (kind a) data))"
proof -
  note look = lookup_algo_name [OF assms(2) hash_algo_names]
  show ?thesis
  proof (cases "find (\<lambda>a. algo_name a = name) hash_algos")
    case None
    then show ?thesis using look
      by (simp add: hash_calculate_def hash_block_def hash_lookup_algo_def hash_progressive_lookup_algo_def)
  next
    case (Some a)
    then have "a \<in> set hash_algos" by (metis find_Some_iff nth_mem)
    moreover have "\<forall>a \<in> set hash_algos. chunk_size a = 65536" by (simp add: hash_algos_def)
    ultimately have "chunk_size a = 65536" by blast
    then have "hash_func_ws (kind a) wd mem data (chunk_size a) = Some (digest (kind a) data)"
      using func_ws_digest [OF assms(1,6)] by simp
    moreover have "hash_calculate mem ptr region = Some (Inr (digest (kind a) (concat region)))"
      using calculate_digest [OF assms(1) _ assms(3-5)] look Some by (simp add: hash_progressive_lookup_algo_def)
    ultimately show ?thesis using look Some by (simp add: hash_block_def hash_lookup_algo_def split: option.split)
  qed
qed

definition sample_mem :: hash_mem where
  "sample_mem = \<lparr>mem1 = \<lparr>sha1_context.total0 = 1, total1 = 2, state = [], buffer = replicate 64 3\<rparr>,
     mem256 = \<lparr>sha256_context.total0 = 1, total1 = 2, state = [], buffer = replicate 64 3\<rparr>,
     mem512 = \<lparr>sha512_context.total0 = 1, total1 = 2, state = [], buffer = replicate 128 3, is384 = 4\<rparr>\<rparr>"

theorem hash_functions_correct_witness:
  "hash_calculate sample_mem (''sha384'' @ [NUL]) [[1, 2], [3]] = Some (Inr (digest SHA384 [1, 2, 3]))
    \<and> hash_block False sample_mem (''sha384'' @ [NUL]) [5] (Some 47) = Some (Inl (- ENOSPC))"
proof -
  have "mem_ok sample_mem" by (simp add: mem_ok_def sample_mem_def)
  moreover have "cstring ''sha384'' (''sha384'' @ [NUL])" by (simp add: cstring_def)
  moreover have "find (\<lambda>a. algo_name a = ''sha384'') hash_algos = Some \<lparr>algo_name = ''sha384'', digest_size = 48, chunk_size = 65536, kind = SHA384\<rparr>"
    by (simp add: hash_algos_def)
  ultimately show ?thesis
    using hash_functions_correct [of sample_mem "''sha384''" "''sha384'' @ [NUL]" "[[1, 2], [3]]" "[5]" False "Some 47"]
    by simp
qed

end
