(* ===== verification/Md5.thy ===== *)
theory Md5
  imports BlockHash
begin

text \<open>
  MD5 (\<^verbatim>\<open>lib/md5.c\<close>). The union of \<^verbatim>\<open>in\<close> and \<^verbatim>\<open>in32\<close> is the list of its 64 bytes, on a little-endian
  machine. The 64 unrolled calls of \<^verbatim>\<open>MD5STEP\<close>, whose register arguments rotate by one from call to
  call, are a fold over the table of their remaining arguments.
\<close>

section \<open>Bytes and words\<close>

definition le_word :: "u8 list \<Rightarrow> nat \<Rightarrow> u32" where
  "le_word b i = push_bit 24 (ucast (b ! (i + 3))) OR push_bit 16 (ucast (b ! (i + 2)))
     OR push_bit 8 (ucast (b ! (i + 1))) OR ucast (b ! i)"

definition le_bytes :: "u32 \<Rightarrow> u8 list" where
  "le_bytes n = [ucast n, ucast (drop_bit 8 n), ucast (drop_bit 16 n), ucast (drop_bit 24 n)]"

text \<open>
  The loop reads four bytes as a word and stores the word at the same place; the recursion is over the
  number of words. Bytes that are missing would be an access outside of the object.
\<close>

fun byteReverse :: "u8 list \<Rightarrow> nat \<Rightarrow> u8 list option" where
  "byteReverse (b0 # b1 # b2 # b3 # bs) (Suc longs) =
     (let t = push_bit 16 (push_bit 8 (ucast b3) OR ucast b2) OR (push_bit 8 (ucast b1) OR ucast b0) in
      map_option (\<lambda>bs. le_bytes t @ bs) (if longs = 0 then Some bs else byteReverse bs longs))"
| "byteReverse bs longs = None"

section \<open>One block\<close>

definition F1 :: "u32 \<Rightarrow> u32 \<Rightarrow> u32 \<Rightarrow> u32" where "F1 x y z = z XOR (x AND (y XOR z))"
definition F2 :: "u32 \<Rightarrow> u32 \<Rightarrow> u32 \<Rightarrow> u32" where "F2 x y z = F1 z x y"
definition F3 :: "u32 \<Rightarrow> u32 \<Rightarrow> u32 \<Rightarrow> u32" where "F3 x y z = x XOR y XOR z"
definition F4 :: "u32 \<Rightarrow> u32 \<Rightarrow> u32 \<Rightarrow> u32" where "F4 x y z = y XOR (x OR NOT z)"

text \<open>In call \<open>t\<close> the \<open>j\<close>-th register argument is register number \<open>(j - t) mod 4\<close>.\<close>

definition reg :: "nat \<Rightarrow> nat \<Rightarrow> nat" where "reg t j = (j + 3 * t) mod 4"

definition MD5STEP :: "(u32 \<Rightarrow> u32 \<Rightarrow> u32 \<Rightarrow> u32) \<Rightarrow> nat \<Rightarrow> u32 \<Rightarrow> nat \<Rightarrow> u32 list \<Rightarrow> u32 list" where
  "MD5STEP g t data s r =
     (let w = r ! reg t 0 + (g (r ! reg t 1) (r ! reg t 2) (r ! reg t 3) + data);
          w = push_bit s w OR drop_bit (32 - s) w
      in r[reg t 0 := w + r ! reg t 1])"

text \<open>The index into \<^verbatim>\<open>in\<close>, the constant and the distance of each call.\<close>

definition step_args :: "(nat \<times> u32 \<times> nat) list" where
  "step_args = [(0, 0xd76aa478, 7), (1, 0xe8c7b756, 12), (2, 0x242070db, 17), (3, 0xc1bdceee, 22),
     (4, 0xf57c0faf, 7), (5, 0x4787c62a, 12), (6, 0xa8304613, 17), (7, 0xfd469501, 22),
     (8, 0x698098d8, 7), (9, 0x8b44f7af, 12), (10, 0xffff5bb1, 17), (11, 0x895cd7be, 22),
     (12, 0x6b901122, 7), (13, 0xfd987193, 12), (14, 0xa679438e, 17), (15, 0x49b40821, 22),
     (1, 0xf61e2562, 5), (6, 0xc040b340, 9), (11, 0x265e5a51, 14), (0, 0xe9b6c7aa, 20),
     (5, 0xd62f105d, 5), (10, 0x02441453, 9), (15, 0xd8a1e681, 14), (4, 0xe7d3fbc8, 20),
     (9, 0x21e1cde6, 5), (14, 0xc33707d6, 9), (3, 0xf4d50d87, 14), (8, 0x455a14ed, 20),
     (13, 0xa9e3e905, 5), (2, 0xfcefa3f8, 9), (7, 0x676f02d9, 14), (12, 0x8d2a4c8a, 20),
     (5, 0xfffa3942, 4), (8, 0x8771f681, 11), (11, 0x6d9d6122, 16), (14, 0xfde5380c, 23),
     (1, 0xa4beea44, 4), (4, 0x4bdecfa9, 11), (7, 0xf6bb4b60, 16), (10, 0xbebfbc70, 23),
     (13, 0x289b7ec6, 4), (0, 0xeaa127fa, 11), (3, 0xd4ef3085, 16), (6, 0x04881d05, 23),
     (9, 0xd9d4d039, 4), (12, 0xe6db99e5, 11), (15, 0x1fa27cf8, 16), (2, 0xc4ac5665, 23),
     (0, 0xf4292244, 6), (7, 0x432aff97, 10), (14, 0xab9423a7, 15), (5, 0xfc93a039, 21),
     (12, 0x655b59c3, 6), (3, 0x8f0ccc92, 10), (10, 0xffeff47d, 15), (1, 0x85845dd1, 21),
     (8, 0x6fa87e4f, 6), (15, 0xfe2ce6e0, 10), (6, 0xa3014314, 15), (13, 0x4e0811a1, 21),
     (4, 0xf7537e82, 6), (11, 0xbd3af235, 10), (2, 0x2ad7d2bb, 15), (9, 0xeb86d391, 21)]"

definition step_function :: "nat \<Rightarrow> u32 \<Rightarrow> u32 \<Rightarrow> u32 \<Rightarrow> u32" where
  "step_function t = [F1, F2, F3, F4] ! (t div 16)"

definition MD5Transform :: "u32 list \<Rightarrow> u8 list \<Rightarrow> u32 list" where
  "MD5Transform buf inb =
     map2 (+) buf (fold (\<lambda>t. case step_args ! t of (k, c, s) \<Rightarrow> MD5STEP (step_function t) t (le_word inb (4 * k) + c) s) [0..<64] buf)"

section \<open>The context\<close>

record MD5Context =
  buf :: "u32 list"
  bits0 :: u32
  bits1 :: u32
  inb :: "u8 list"

definition MD5Init :: "MD5Context \<Rightarrow> MD5Context" where
  "MD5Init ctx = ctx\<lparr>buf := [0x67452301, 0xefcdab89, 0x98badcfe, 0x10325476], bits0 := 0, bits1 := 0\<rparr>"

text \<open>The loop over whole blocks, which moves every block into the context: state, \<^verbatim>\<open>in\<close> and remaining input.\<close>

function md5_blocks :: "u32 list \<Rightarrow> u8 list \<Rightarrow> u8 list \<Rightarrow> (u32 list \<times> u8 list \<times> u8 list) option" where
  "md5_blocks s b inp =
     (if length inp \<ge> 64 then
        Option.bind (fill_buffer b 0 (take 64 inp)) (\<lambda>b.
        Option.bind (byteReverse b 16) (\<lambda>b. md5_blocks (MD5Transform s b) b (drop 64 inp)))
      else Some (s, b, inp))"
  by pat_completeness auto
termination by (relation "measure (\<lambda>(s, b, inp). length inp)") auto

declare md5_blocks.simps [simp del]

definition MD5Update :: "MD5Context \<Rightarrow> u8 list \<Rightarrow> MD5Context option" where
  "MD5Update ctx inp =
     (let len = of_nat (length inp) :: u32;
          t = bits0 ctx;
          ctx = ctx\<lparr>bits0 := t + push_bit 3 len\<rparr>;
          ctx = (if bits0 ctx < t then ctx\<lparr>bits1 := bits1 ctx + 1\<rparr> else ctx);
          ctx = ctx\<lparr>bits1 := bits1 ctx + drop_bit 29 len\<rparr>;
          t = unat (drop_bit 3 t AND 0x3f)
      in if t \<noteq> 0 \<and> length inp < 64 - t then do { b \<leftarrow> fill_buffer (inb ctx) t inp; Some (ctx\<lparr>inb := b\<rparr>) }
      else do {
        (s, b, inp) \<leftarrow>
          (if t \<noteq> 0 then do {
             b \<leftarrow> fill_buffer (inb ctx) t (take (64 - t) inp);
             b \<leftarrow> byteReverse b 16;
             Some (MD5Transform (buf ctx) b, b, drop (64 - t) inp) }
           else Some (buf ctx, inb ctx, inp));
        (s, b, inp) \<leftarrow> md5_blocks s b inp;
        b \<leftarrow> fill_buffer b 0 inp;
        Some (ctx\<lparr>buf := s, inb := b\<rparr>) })"

definition MD5Final :: "MD5Context \<Rightarrow> u8 list option" where
  "MD5Final ctx = do {
     let count = unat (drop_bit 3 (bits0 ctx) AND 0x3F);
     b \<leftarrow> wr (inb ctx) count 0x80;
     let p = count + 1;
     let count = 64 - 1 - count;
     (s, b) \<leftarrow>
       (if count < 8 then do {
          b \<leftarrow> fill_buffer b p (replicate count 0);
          b \<leftarrow> byteReverse b 16;
          let s = MD5Transform (buf ctx) b;
          b \<leftarrow> fill_buffer b 0 (replicate 56 0);
          Some (s, b) }
        else do { b \<leftarrow> fill_buffer b p (replicate (count - 8) 0); Some (buf ctx, b) });
     b \<leftarrow> byteReverse b 14;
     b \<leftarrow> fill_buffer b 56 (le_bytes (bits0 ctx));
     b \<leftarrow> fill_buffer b 60 (le_bytes (bits1 ctx));
     let s = MD5Transform s b;
     byteReverse (concat (map le_bytes s)) 4 }"

text \<open>\<open>junk\<close> is the context on the stack.\<close>

definition md5 :: "MD5Context \<Rightarrow> u8 list \<Rightarrow> u8 list option" where
  "md5 junk inp = do { ctx \<leftarrow> MD5Update (MD5Init junk) inp; MD5Final ctx }"

definition md5_wd :: "bool \<Rightarrow> MD5Context \<Rightarrow> u8 list \<Rightarrow> nat \<Rightarrow> u8 list option" where
  "md5_wd watchdog junk inp chunk_sz = do {
     ctx \<leftarrow> (if watchdog then csum_loop MD5Update (MD5Init junk) inp chunk_sz else MD5Update (MD5Init junk) inp);
     MD5Final ctx }"

section \<open>The standard\<close>

text \<open>
  RFC 1321. The constants are those of the table of sines; the index of the message word and the
  distance of step \<open>t\<close> follow the patterns of the four rounds.
\<close>

definition sine_table :: "u32 list" where
  "sine_table = map (fst \<circ> snd) step_args"

definition word_index :: "nat \<Rightarrow> nat" where
  "word_index t = [t, 1 + 5 * t, 5 + 3 * t, 7 * t] ! (t div 16) mod 16"

definition distance :: "nat \<Rightarrow> nat" where
  "distance t = [[7, 12, 17, 22], [5, 9, 14, 20], [4, 11, 16, 23], [6, 10, 15, 21]] ! (t div 16) ! (t mod 4)"

definition round_function :: "nat \<Rightarrow> u32 \<Rightarrow> u32 \<Rightarrow> u32 \<Rightarrow> u32" where
  "round_function t X Y Z =
     [(X AND Y) OR (NOT X AND Z), (X AND Z) OR (Y AND NOT Z), X XOR Y XOR Z, Y XOR (X OR NOT Z)] ! (t div 16)"

fun round_step :: "(nat \<Rightarrow> u32) \<Rightarrow> nat \<Rightarrow> u32 list \<Rightarrow> u32 list" where
  "round_step X t [a, b, c, d] =
     [d, b + word_rotl (distance t) (a + round_function t b c d + X (word_index t) + sine_table ! t), b, c]"
| "round_step X t _ = []"

definition compress :: "u32 list \<Rightarrow> u8 list \<Rightarrow> u32 list" where
  "compress s M = map2 (+) s (fold (round_step (\<lambda>k. le_word M (4 * k))) [0..<64] s)"

definition initial :: "u32 list" where
  "initial = [0x67452301, 0xefcdab89, 0x98badcfe, 0x10325476]"

definition pad :: "u8 list \<Rightarrow> u8 list" where
  "pad msg = msg @ 0x80 # replicate ((119 - length msg mod 64) mod 64) 0
     @ map (\<lambda>i. ucast (drop_bit (8 * i) (of_nat (8 * length msg) :: u64))) [0, 1, 2, 3, 4, 5, 6, 7]"

definition md5_spec :: "u8 list \<Rightarrow> u8 list" where
  "md5_spec msg = concat (map le_bytes (foldl compress initial (blocks 64 (pad msg))))"

lemma step_args_pattern: "map (\<lambda>t. (word_index t, sine_table ! t, distance t)) [0..<64] = step_args"
  by (simp add: upt_rec word_index_def distance_def sine_table_def step_args_def)

lemma step_args_nth: "t < 64 \<Longrightarrow> step_args ! t = (word_index t, sine_table ! t, distance t)"
  using arg_cong [OF step_args_pattern, of "\<lambda>xs. xs ! t"] by simp

section \<open>The compression\<close>

lemma le_bytes_word: "le_bytes (push_bit 16 (push_bit 8 (ucast b3) OR ucast b2) OR (push_bit 8 (ucast b1) OR ucast b0)) = [b0, b1, b2, b3]"
proof -
  have hi: "\<not> bit (b :: u8) i" if "8 \<le> i" for b i using that bit_imp_le_length [of b i] by auto
  show ?thesis unfolding le_bytes_def by (simp, intro conjI bit_word_eqI) (auto simp: bit_simps hi)
qed

text \<open>On a little-endian machine the bytes stay.\<close>

lemma byteReverse_id: "0 < longs \<Longrightarrow> 4 * longs \<le> length b \<Longrightarrow> byteReverse b longs = Some b"
proof (induction b longs rule: byteReverse.induct)
  case (1 b0 b1 b2 b3 bs longs)
  then show ?case by (cases "longs = 0") (simp_all only: byteReverse.simps Let_def le_bytes_word, auto)
qed (auto simp: Suc_le_eq)

definition view :: "nat \<Rightarrow> u32 list \<Rightarrow> u32 list" where
  "view t r = map (\<lambda>j. r ! reg t j) [0, 1, 2, 3]"

lemma four_cases:
  assumes "length r = 4"
  obtains a b c d where "r = [a, b, c, d]"
  using assms by (auto simp: length_Suc_conv numeral_eq_Suc)

lemma md5_boolean_functions:
  "F1 x y z = (x AND y) OR (NOT x AND z)" "F2 x y z = (x AND z) OR (y AND NOT z)"
  by (rule bit_word_eqI, auto simp: F1_def F2_def bit_simps)+

lemma step_function_round: "t < 64 \<Longrightarrow> step_function t = round_function t"
proof -
  assume "t < 64"
  then have "t div 16 < 4" by (intro less_mult_imp_div_less) simp
  then have "t div 16 \<in> {0, 1, 2, 3}" by auto
  then show ?thesis
    by (elim insertE emptyE) (simp_all add: fun_eq_iff step_function_def round_function_def md5_boolean_functions F3_def F4_def)
qed

lemma distance_range: "t < 64 \<Longrightarrow> 0 < distance t \<and> distance t < 32"
proof -
  assume "t < 64"
  then have "t div 16 < 4" "t mod 4 < 4" by (auto intro: less_mult_imp_div_less)
  then have "t div 16 \<in> {0, 1, 2, 3}" "t mod 4 \<in> {0, 1, 2, 3}" by auto
  then show ?thesis by (elim insertE emptyE) (simp_all add: distance_def)
qed

lemma MD5STEP_is_round:
  assumes "length r = 4" and "t < 64"
  shows "view (Suc t) (MD5STEP (step_function t) t (X (word_index t) + sine_table ! t) (distance t) r) = round_step X t (view t r)"
proof -
  obtain a b c d where r: "r = [a, b, c, d]" by (rule four_cases [OF assms(1)])
  define i u where "i = t mod 4" and "u = Suc t"
  have t: "reg t j = (j + 3 * i) mod 4" and u: "reg u j = (j + 3 * i + 3) mod 4" for j
  proof -
    have m: "(j + 3 * (t mod 4)) mod 4 = (j + 3 * t) mod 4" for j by (metis mod_add_right_eq mod_mult_right_eq)
    show "reg t j = (j + 3 * i) mod 4" by (simp only: reg_def i_def m)
    show "reg u j = (j + 3 * i + 3) mod 4" using m [of "j + 3"] by (simp add: reg_def i_def u_def ac_simps)
  qed
  have rot: "push_bit (distance t) x OR drop_bit (32 - distance t) x = word_rotl (distance t) x" for x :: u32
    using rotate_left [of "distance t" x] distance_range [OF assms(2)] by simp
  have "i < 4" by (simp add: i_def)
  then have "i \<in> {0, 1, 2, 3}" by auto
  then show ?thesis unfolding u_def [symmetric]
    by (elim insertE emptyE) (simp_all add: view_def MD5STEP_def t u r Let_def rot step_function_round [OF assms(2)] add_ac)
qed

lemma length_MD5STEP [simp]: "length (MD5STEP g t x s r) = length r"
  by (simp add: MD5STEP_def Let_def)

lemma steps:
  fixes M :: "u8 list"
  assumes "length s = 4" and "n \<le> 64"
  defines "r \<equiv> \<lambda>n. fold (\<lambda>t. case step_args ! t of (k, c, d) \<Rightarrow> MD5STEP (step_function t) t (le_word M (4 * k) + c) d) [0..<n] s"
  shows "length (r n) = 4 \<and> view n (r n) = fold (round_step (\<lambda>k. le_word M (4 * k))) [0..<n] s"
  using assms(2)
proof (induction n)
  case 0
  obtain a b c d where "s = [a, b, c, d]" by (rule four_cases [OF assms(1)])
  then show ?case by (simp add: r_def view_def reg_def)
next
  case (Suc n)
  then have IH: "length (r n) = 4" "view n (r n) = fold (round_step (\<lambda>k. le_word M (4 * k))) [0..<n] s" and n: "n < 64" by simp_all
  have "r (Suc n) = MD5STEP (step_function n) n (le_word M (4 * word_index n) + sine_table ! n) (distance n) (r n)"
    by (simp add: r_def step_args_nth [OF n])
  then show ?case using MD5STEP_is_round [OF IH(1) n, of "\<lambda>k. le_word M (4 * k)"] IH by simp
qed

lemma transform_is_compress:
  assumes "length s = 4"
  shows "MD5Transform s M = compress s M" and "length (compress s M) = 4"
proof -
  define r where "r = fold (\<lambda>t. case step_args ! t of (k, c, d) \<Rightarrow> MD5STEP (step_function t) t (le_word M (4 * k) + c) d) [0..<64] s"
  have h: "length r = 4" "view 64 r = fold (round_step (\<lambda>k. le_word M (4 * k))) [0..<64] s"
    using steps [OF assms order_refl, of M] by (simp_all only: r_def)
  obtain a b c d where "r = [a, b, c, d]" by (rule four_cases [OF h(1)])
  then have "view 64 r = r" by (simp add: view_def reg_def)
  then show "MD5Transform s M = compress s M" "length (compress s M) = 4"
    using h assms by (simp_all only: MD5Transform_def compress_def r_def [symmetric] length_map length_zip min.idem)
qed

lemma le_word_cong:
  assumes "64 \<le> length M" and "k < 16"
  shows "le_word (take 64 M) (4 * k) = le_word M (4 * k)"
proof -
  have "4 * k + j < 64" if "j < 4" for j using assms(2) that by linarith
  from this [of 0] this [of 1] this [of 2] this [of 3] show ?thesis by (simp add: le_word_def)
qed

lemma md5_compress_prefix: "64 \<le> length M \<Longrightarrow> compress s (take 64 M) = compress s M"
proof -
  assume M: "64 \<le> length M"
  have "le_word (take 64 M) (4 * word_index t) = le_word M (4 * word_index t)" for t
    using M by (intro le_word_cong) (simp_all add: word_index_def)
  then have "round_step (\<lambda>k. le_word (take 64 M) (4 * k)) t r = round_step (\<lambda>k. le_word M (4 * k)) t r" for t r
    by (cases "(\<lambda>k. le_word M (4 * k), t, r)" rule: round_step.cases) simp_all
  then have "round_step (\<lambda>k. le_word (take 64 M) (4 * k)) = round_step (\<lambda>k. le_word M (4 * k))" by (intro ext)
  then show ?thesis by (simp add: compress_def)
qed

interpretation md5: block_hash 64 MD5Transform compress "\<lambda>s. length s = 4" initial
  by unfold_locales (simp_all add: transform_is_compress md5_compress_prefix initial_def)

section \<open>Updates\<close>

definition absorbed :: "u8 list \<Rightarrow> MD5Context \<Rightarrow> bool" where
  "absorbed msg ctx \<longleftrightarrow> unat (bits0 ctx) = 8 * length msg mod 2 ^ 32 \<and> unat (bits1 ctx) = 8 * length msg div 2 ^ 32 mod 2 ^ 32
     \<and> absorbs 64 compress initial msg (buf ctx) (inb ctx)"

lemma transform_prefix:
  assumes "64 \<le> length M"
  shows "MD5Transform s (take 64 M) = MD5Transform s M"
proof -
  have "word_index t < 16" for t by (simp add: word_index_def)
  then have "fold (\<lambda>t. case step_args ! t of (k, c, d) \<Rightarrow> MD5STEP (step_function t) t (le_word (take 64 M) (4 * k) + c) d) [0..<64] s
      = fold (\<lambda>t. case step_args ! t of (k, c, d) \<Rightarrow> MD5STEP (step_function t) t (le_word M (4 * k) + c) d) [0..<64] s"
    using assms by (intro fold_cong) (simp_all add: step_args_nth le_word_cong)
  then show ?thesis by (simp only: MD5Transform_def)
qed

lemma md5_blocks_run:
  assumes "length b = 64"
  shows "\<exists>b'. md5_blocks s b inp = Some (fst (whole_blocks 64 MD5Transform s inp), b', snd (whole_blocks 64 MD5Transform s inp)) \<and> length b' = 64"
  using assms
proof (induction s b inp rule: md5_blocks.induct)
  case (1 s b inp)
  show ?case
  proof (cases "64 \<le> length inp")
    case True
    have b: "fill_buffer b 0 (take 64 inp) = Some (take 64 inp)" "byteReverse (take 64 inp) 16 = Some (take 64 inp)"
      using True 1(2) by (simp_all add: fill_buffer_def byteReverse_id)
    show ?thesis using 1(1) [OF True b] True transform_prefix [OF True, of s]
      by (simp add: md5_blocks.simps [of s b inp] whole_blocks.simps [of 64 _ s inp] b)
  next
    case False
    then show ?thesis using 1(2) by (simp add: md5_blocks.simps [of s b inp] whole_blocks.simps [of 64 _ s inp])
  qed
qed

lemma low_six_bits:
  assumes "unat t = 8 * n mod 2 ^ 32"
  shows "unat (drop_bit 3 t AND 0x3f :: u32) = n mod 64"
proof -
  have "(0x3f :: u32) = mask 6" by (simp add: mask_numeral)
  then have "unat (drop_bit 3 t AND 0x3f) = (8 * n mod 2 ^ 32) div 8 mod 64"
    using low_bits [of "drop_bit 3 t" 6] by (simp add: unat_drop_bit assms)
  also have "(8 * n mod 2 ^ 32) div 8 = n mod 2 ^ 29" using mult_mod_right [of 8 n "2 ^ 29"] by simp
  finally show ?thesis by (simp add: mod_mod_cancel)
qed

text \<open>The two counters of bits are one counter of 64 bits.\<close>

lemma bit_counter:
  fixes t0 t1 :: u32
  assumes "unat t0 = 8 * n mod 2 ^ 32" and "unat t1 = 8 * n div 2 ^ 32 mod 2 ^ 32" and "m < 2 ^ 32"
  defines "t0' \<equiv> t0 + push_bit 3 (of_nat m)"
  shows "unat t0' = 8 * (n + m) mod 2 ^ 32"
    and "unat ((if t0' < t0 then t1 + 1 else t1) + drop_bit 29 (of_nat m)) = 8 * (n + m) div 2 ^ 32 mod 2 ^ 32"
proof -
  let ?B = "2 ^ 32 :: nat" and ?a = "8 * n mod 2 ^ 32" and ?b = "8 * m mod 2 ^ 32"
  have m: "unat (of_nat m :: u32) = m" using assms(3) by (simp add: unat_of_nat)
  have b: "unat (push_bit 3 (of_nat m) :: u32) = ?b" by (simp add: push_bit_eq_mult unat_word_ariths m mod_simps mult.commute)
  have L: "LENGTH(32) = 32" by simp
  show u: "unat t0' = 8 * (n + m) mod 2 ^ 32"
    unfolding t0'_def unat_word_ariths b assms(1) L by (simp only: mod_add_eq distrib_left)
  have "8 * (n + m) = 8 * n + 8 * m" by simp
  then have s: "8 * (n + m) mod ?B = (?a + ?b) mod ?B" "8 * (n + m) div ?B = 8 * n div ?B + 8 * m div ?B + (?a + ?b) div ?B"
    using div_add1_eq [of "8 * n" "8 * m" ?B] by (simp_all add: mod_simps)
  have less: "t0' < t0 \<longleftrightarrow> ?B \<le> ?a + ?b"
    unfolding word_less_nat_alt u s(1) assms(1) add.commute [of ?a ?b] by (rule wraps) simp_all
  have "?a + ?b < 2 * ?B" using mod_less_divisor [of ?B "8 * n"] mod_less_divisor [of ?B "8 * m"] by simp
  then have c: "(?a + ?b) div ?B = (if ?B \<le> ?a + ?b then 1 else 0)" by (cases "?B \<le> ?a + ?b") (simp_all add: div_nat_eqI)
  have d: "unat (drop_bit 29 (of_nat m) :: u32) = 8 * m div ?B"
    using div_mult_mult1 [of 8 m "2 ^ 29"] by (simp add: unat_drop_bit m)
  show "unat ((if t0' < t0 then t1 + 1 else t1) + drop_bit 29 (of_nat m)) = 8 * (n + m) div 2 ^ 32 mod 2 ^ 32"
  proof -
    have e: "unat (if t0' < t0 then t1 + 1 else t1) = (unat t1 + (?a + ?b) div ?B) mod ?B"
      using u32_less [of t1] unfolding less c by (simp add: unat_word_ariths)
    have "((x mod k + c) mod k + y) mod k = (x + y + c) mod k" for x y c k :: nat by (simp add: mod_simps ac_simps)
    then show ?thesis unfolding unat_word_ariths(1) e d L s(2) assms(2) .
  qed
qed

text \<open>The buffer is completed to a block.\<close>

lemma complete_block:
  assumes "absorbs 64 compress initial msg s b" and "length msg mod 64 = r" and "r \<noteq> 0" and "length x = 64 - r"
  obtains b1 where "fill_buffer b r x = Some b1" "length b1 = 64" "MD5Transform s b1 = foldl compress initial (blocks 64 (msg @ x))"
    "length (msg @ x) mod 64 = 0"
proof -
  have "r < 64" using assms(2) by auto
  have b: "length b = 64" using assms(1) by (simp add: absorbs_def)
  have f: "fill_buffer b r x = Some (take r b @ x)" using b assms(4) \<open>r < 64\<close> by (simp add: fill_buffer_def)
  obtain s' b' where sb: "block_update 64 MD5Transform r s b x = Some (s', b')" "absorbs 64 compress initial (msg @ x) s' b'"
    using md5.block_update_absorbs [OF assms(1), of x] assms(2) by auto
  have "s' = MD5Transform s (take r b @ x)"
    using sb(1) f assms(3,4) by (auto simp: block_update_def whole_blocks.simps [of 64 _ _ "[]"])
  moreover have "length (msg @ x) = 64 * (length msg div 64) + 64"
    using assms(2,4) \<open>r < 64\<close> mult_div_mod_eq [of 64 "length msg"] by simp
  ultimately show thesis using sb(2) f b assms(4) \<open>r < 64\<close> by (intro that [of "take r b @ x"]) (simp_all add: absorbs_def)
qed

lemma md5_update_absorbs:
  assumes "absorbed msg ctx" and "length inp < 2 ^ 32" and "length msg + length inp < 2 ^ 62"
  shows "\<exists>ctx'. MD5Update ctx inp = Some ctx' \<and> absorbed (msg @ inp) ctx'"
proof -
  let ?r = "length msg mod 64"
  have inv: "unat (bits0 ctx) = 8 * length msg mod 2 ^ 32" "unat (bits1 ctx) = 8 * length msg div 2 ^ 32 mod 2 ^ 32"
    "absorbs 64 compress initial msg (buf ctx) (inb ctx)" using assms(1) by (simp_all add: absorbed_def)
  have b: "length (inb ctx) = 64" using inv(3) by (simp add: absorbs_def)
  define c1 where "c1 = ctx\<lparr>bits0 := bits0 ctx + push_bit 3 (of_nat (length inp)),
    bits1 := (if bits0 ctx + push_bit 3 (of_nat (length inp)) < bits0 ctx then bits1 ctx + 1 else bits1 ctx) + drop_bit 29 (of_nat (length inp))\<rparr>"
  have c1: "absorbed (msg @ inp) (c1\<lparr>buf := s, inb := b\<rparr>)" if "absorbs 64 compress initial (msg @ inp) s b" for s b
    using that bit_counter [OF inv(1,2) assms(2)] by (simp add: absorbed_def c1_def)
  have run: "MD5Update ctx inp =
      (if ?r \<noteq> 0 \<and> length inp < 64 - ?r then do { b \<leftarrow> fill_buffer (inb ctx) ?r inp; Some (c1\<lparr>inb := b\<rparr>) }
       else do {
         (s, b, inp) \<leftarrow>
           (if ?r \<noteq> 0 then do {
              b \<leftarrow> fill_buffer (inb ctx) ?r (take (64 - ?r) inp);
              b \<leftarrow> byteReverse b 16;
              Some (MD5Transform (buf ctx) b, b, drop (64 - ?r) inp) }
            else Some (buf ctx, inb ctx, inp));
         (s, b, inp) \<leftarrow> md5_blocks s b inp;
         b \<leftarrow> fill_buffer b 0 inp;
         Some (c1\<lparr>buf := s, inb := b\<rparr>) })"
    unfolding MD5Update_def Let_def low_six_bits [OF inv(1)] c1_def by (simp cong: if_cong)
  show ?thesis
  proof (cases "?r \<noteq> 0 \<and> length inp < 64 - ?r")
    case True
    then have "\<not> 64 \<le> length inp" by linarith
    then have "whole_blocks 64 MD5Transform (buf ctx) inp = (buf ctx, inp)" by (simp add: whole_blocks.simps [of 64 _ _ inp])
    moreover obtain b' where b': "fill_buffer (inb ctx) ?r inp = Some b'" "inp = [] \<Longrightarrow> b' = inb ctx"
    proof -
      have "?r + length inp \<le> length (inb ctx)" using True b by linarith
      then show thesis using that [of "take ?r (inb ctx) @ inp @ drop (?r + length inp) (inb ctx)"] by (simp add: fill_buffer_def)
    qed
    ultimately have "block_update 64 MD5Transform ?r (buf ctx) (inb ctx) inp = Some (buf ctx, b')"
      using True by (simp add: block_update_def)
    then have "absorbs 64 compress initial (msg @ inp) (buf ctx) b'" using md5.block_update_absorbs [OF inv(3), of inp] by simp
    then show ?thesis using run True b'(1) c1 [of "buf ctx" b'] by (simp add: c1_def)
  next
    case False
    obtain s2 b2 msg2 inp2 where h: "msg2 @ inp2 = msg @ inp" "length msg2 mod 64 = 0" "s2 = foldl compress initial (blocks 64 msg2)" "length b2 = 64"
      "(if ?r \<noteq> 0 then do {
          b \<leftarrow> fill_buffer (inb ctx) ?r (take (64 - ?r) inp);
          b \<leftarrow> byteReverse b 16;
          Some (MD5Transform (buf ctx) b, b, drop (64 - ?r) inp) }
        else Some (buf ctx, inb ctx, inp)) = Some (s2, b2, inp2)"
    proof (cases "?r = 0")
      case True
      then show thesis using inv(3) by (intro that [of msg inp]) (simp_all add: absorbs_def)
    next
      case nz: False
      have "length (take (64 - ?r) inp) = 64 - ?r" using False nz by simp
      with complete_block [OF inv(3) refl nz] obtain b1 where "fill_buffer (inb ctx) ?r (take (64 - ?r) inp) = Some b1" "length b1 = 64"
        "MD5Transform (buf ctx) b1 = foldl compress initial (blocks 64 (msg @ take (64 - ?r) inp))" "length (msg @ take (64 - ?r) inp) mod 64 = 0"
        by blast
      then show thesis using nz by (intro that [of "msg @ take (64 - ?r) inp" "drop (64 - ?r) inp"]) (simp_all add: byteReverse_id)
    qed
    have ok: "length s2 = 4" unfolding h(3) by (rule md5.fold_ok) (simp add: initial_def)
    obtain tl where tl: "whole_blocks 64 MD5Transform s2 inp2 = (foldl compress initial (blocks 64 (msg2 @ inp2)), tl)"
      "length (msg2 @ inp2) mod 64 = length tl" "drop (length (msg2 @ inp2) - length tl) (msg2 @ inp2) = tl" "length tl < 64"
      by (rule md5.absorb_tail [OF h(2) ok h(3)])
    obtain b3 where b3: "md5_blocks s2 b2 inp2 = Some (foldl compress initial (blocks 64 (msg @ inp)), b3, tl)" "length b3 = 64"
      using md5_blocks_run [OF h(4), of s2 inp2] tl(1) h(1) by auto
    have "absorbs 64 compress initial (msg @ inp) (foldl compress initial (blocks 64 (msg @ inp))) (tl @ drop (length tl) b3)"
      using b3(2) tl(2-4) unfolding absorbs_def h(1) by simp
    moreover have "fill_buffer b3 0 tl = Some (tl @ drop (length tl) b3)" using b3(2) tl(4) by (simp add: fill_buffer_def)
    then have "MD5Update ctx inp = Some (c1\<lparr>buf := foldl compress initial (blocks 64 (msg @ inp)), inb := tl @ drop (length tl) b3\<rparr>)"
      unfolding run if_not_P [OF False] h(5) by (simp add: b3)
    ultimately show ?thesis using c1 by blast
  qed
qed

interpretation md5: incremental MD5Update absorbed
  by unfold_locales (rule md5_update_absorbs)

section \<open>Padding\<close>

lemma md5_length_bytes:
  fixes t0 t1 :: u32
  assumes "unat t0 = 8 * n mod 2 ^ 32" and "unat t1 = 8 * n div 2 ^ 32 mod 2 ^ 32"
  shows "le_bytes t0 @ le_bytes t1 = map (\<lambda>i. ucast (drop_bit (8 * i) (of_nat (8 * n) :: u64))) [0, 1, 2, 3, 4, 5, 6, 7]"
proof -
  define N where "N = (of_nat (8 * n) :: u64)"
  have uN: "unat N = 8 * n mod 2 ^ 64" by (simp only: N_def unat_of_nat) simp
  have "8 * n mod (2 ^ 32 * 2 ^ 32) div 2 ^ 32 = 8 * n div 2 ^ 32 mod 2 ^ 32" by (simp only: mod_mult2_eq) simp
  then have d: "8 * n mod 2 ^ 64 div 2 ^ 32 = 8 * n div 2 ^ 32 mod 2 ^ 32" by simp
  have "t0 = ucast N" by (rule word_unat_eq_iff [THEN iffD2]) (simp only: assms(1) unsigned_ucast_eq uN take_bit_eq_mod len_bit0 len_num1, simp add: mod_mod_cancel)
  moreover have "t1 = ucast (drop_bit 32 N)"
    by (rule word_unat_eq_iff [THEN iffD2]) (simp only: assms(2) unsigned_ucast_eq unat_drop_bit uN take_bit_eq_mod len_bit0 len_num1 d, simp)
  ultimately show ?thesis unfolding N_def [symmetric] le_bytes_def
    by (simp, intro conjI bit_word_eqI) (auto simp: bit_simps)
qed

text \<open>The length is written behind the first 56 bytes.\<close>

lemma fill_length:
  assumes "length x = 56" and "length y = 8" and "length a = 4" and "length c = 4"
  shows "do { b \<leftarrow> byteReverse (x @ y) 14; b \<leftarrow> fill_buffer b 56 a; b \<leftarrow> fill_buffer b 60 c; g b } = g (x @ a @ c)"
  using assms by (simp add: byteReverse_id fill_buffer_def)

lemma final_blocks:
  assumes "length t = r" and "r < 64" and "length l = 8"
  shows "length (t @ 0x80 # replicate ((119 - r) mod 64) 0 @ l) mod 64 = 0"
    and "blocks 64 (t @ 0x80 # replicate ((119 - r) mod 64) 0 @ l) =
      (if 56 \<le> r then [t @ 0x80 # replicate (63 - r) 0, replicate 56 0 @ l] else [t @ 0x80 # replicate (55 - r) 0 @ l])"
proof -
  have z: "(119 - r) mod 64 = (if 56 \<le> r then (63 - r) + 56 else 55 - r)"
    using padding_length(1) [of r 64 56 120] assms(2) by (auto split: if_splits)
  let ?x = "t @ 0x80 # replicate (63 - r) 0" and ?y = "replicate 56 0 @ l"
  have "blocks 64 (?x @ ?y) = [?x, ?y]" if "56 \<le> r"
  proof -
    have "length ?x = 64" "length ?y = 64" using that assms by simp_all
    then show ?thesis using blocks_append [of 64 ?x ?y] blocks_one [of 64 ?x] blocks_one [of 64 ?y] by simp
  qed
  moreover have "t @ 0x80 # replicate (63 - r + 56) 0 @ l = ?x @ ?y" by (simp add: replicate_add)
  moreover have "blocks 64 (t @ 0x80 # replicate (55 - r) 0 @ l) = [t @ 0x80 # replicate (55 - r) 0 @ l]" if "r < 56"
    using that assms by (intro blocks_one) simp_all
  ultimately show "blocks 64 (t @ 0x80 # replicate ((119 - r) mod 64) 0 @ l) =
      (if 56 \<le> r then [t @ 0x80 # replicate (63 - r) 0, replicate 56 0 @ l] else [t @ 0x80 # replicate (55 - r) 0 @ l])"
    unfolding z by simp
  show "length (t @ 0x80 # replicate ((119 - r) mod 64) 0 @ l) mod 64 = 0" using assms unfolding z by (cases "56 \<le> r") simp_all
qed

lemma length_le_bytes: "length (le_bytes x) = 4"
  by (simp add: le_bytes_def)

lemma final_digest:
  assumes "absorbed msg ctx"
  shows "MD5Final ctx = Some (md5_spec msg)"
proof -
  define r where "r = length msg mod 64"
  define l where "l = le_bytes (bits0 ctx) @ le_bytes (bits1 ctx)"
  have inv: "unat (bits0 ctx) = 8 * length msg mod 2 ^ 32" "unat (bits1 ctx) = 8 * length msg div 2 ^ 32 mod 2 ^ 32"
    "absorbs 64 compress initial msg (buf ctx) (inb ctx)" using assms by (simp_all add: absorbed_def)
  have r: "r < 64" by (simp add: r_def)
  obtain full t where ft: "msg = full @ t" "length full mod 64 = 0" "length t = r" "drop (length msg - r) msg = t" "blocks 64 msg = blocks 64 full"
    unfolding r_def by (rule split_message [of 64 msg, OF zero_less_numeral])
  have b: "take r (inb ctx) = t" "length (inb ctx) = 64" and s: "buf ctx = foldl compress initial (blocks 64 full)"
    using inv(3) ft(4,5) by (simp_all add: absorbs_def r_def [symmetric])
  have l8: "length l = 8" by (simp add: l_def length_le_bytes)
  have "pad msg = msg @ 0x80 # replicate ((119 - r) mod 64) 0 @ l"
    unfolding l_def md5_length_bytes [OF inv(1,2)] pad_def r_def ..
  then have "pad msg = full @ t @ 0x80 # replicate ((119 - r) mod 64) 0 @ l" unfolding ft(1) by simp
  then have pb: "blocks 64 (pad msg) = blocks 64 full @
      (if 56 \<le> r then [t @ 0x80 # replicate (63 - r) 0, replicate 56 0 @ l] else [t @ 0x80 # replicate (55 - r) 0 @ l])"
    using blocks_append [of 64 full] ft(2) final_blocks(2) [OF ft(3) r l8] by simp
  have ok: "length (buf ctx) = 4" using md5.absorbs_ok [OF inv(3)] .
  have tr: "MD5Transform s M = compress s M" "length (compress s M) = 4" if "length s = 4" for s M using transform_is_compress [OF that] .
  have w: "wr (inb ctx) r 0x80 = Some (t @ 0x80 # drop (r + 1) (inb ctx))"
    using b r by (simp add: wr_def upd_conv_take_nth_drop)
  have dig: "byteReverse (concat (map le_bytes s)) 4 = Some (concat (map le_bytes s))" if "length s = 4" for s
    by (rule four_cases [OF that]) (simp add: byteReverse_id length_le_bytes)
  define R where "R = drop (r + 1) (inb ctx)"
  have R: "length R = 63 - r" using b(2) by (simp add: R_def)
  note len4 = length_le_bytes [of "bits0 ctx"] length_le_bytes [of "bits1 ctx"]
  have start: "MD5Final ctx = do {
     (s, b) \<leftarrow>
       (if 63 - r < 8 then do {
          b \<leftarrow> fill_buffer (t @ 0x80 # R) (r + 1) (replicate (63 - r) 0);
          b \<leftarrow> byteReverse b 16;
          let s = MD5Transform (buf ctx) b;
          b \<leftarrow> fill_buffer b 0 (replicate 56 0);
          Some (s, b) }
        else do { b \<leftarrow> fill_buffer (t @ 0x80 # R) (r + 1) (replicate (63 - r - 8) 0); Some (buf ctx, b) });
     b \<leftarrow> byteReverse b 14;
     b \<leftarrow> fill_buffer b 56 (le_bytes (bits0 ctx));
     b \<leftarrow> fill_buffer b 60 (le_bytes (bits1 ctx));
     let s = MD5Transform s b;
     byteReverse (concat (map le_bytes s)) 4 }"
    unfolding MD5Final_def low_six_bits [OF inv(1)] r_def [symmetric] Let_def w R_def by simp
  show ?thesis
  proof (cases "56 \<le> r")
    case True
    let ?x = "t @ 0x80 # replicate (63 - r) 0"
    have "fill_buffer (t @ 0x80 # R) (r + 1) (replicate (63 - r) 0) = Some ?x"
      using R ft(3) True r by (simp add: fill_buffer_def)
    moreover have "byteReverse ?x 16 = Some ?x" using ft(3) r by (intro byteReverse_id) simp_all
    moreover have "fill_buffer ?x 0 (replicate 56 0) = Some (replicate 56 0 @ drop 56 ?x)" using ft(3) r by (simp add: fill_buffer_def)
    moreover have "length (drop 56 ?x) = 8" using ft(3) r by simp
    note fl = fill_length [OF _ this len4, of "replicate 56 0"]
    ultimately have "MD5Final ctx = byteReverse (concat (map le_bytes (MD5Transform (MD5Transform (buf ctx) ?x) (replicate 56 0 @ l)))) 4"
      unfolding start Let_def l_def using True r by (simp only: bind.bind_lunit prod.case fl length_replicate if_P) 
    then show ?thesis using True ok dig tr by (simp add: md5_spec_def pb s [symmetric])
  next
    case False
    let ?x = "t @ 0x80 # replicate (55 - r) 0"
    have "fill_buffer (t @ 0x80 # R) (r + 1) (replicate (63 - r - 8) 0) = Some (?x @ drop (55 - r) R)"
      using R ft(3) False r by (simp add: fill_buffer_def drop_Cons')
    moreover have "length ?x = 56" "length (drop (55 - r) R) = 8" using R ft(3) False by simp_all
    note fl = fill_length [OF this len4]
    moreover have "\<not> 63 - r < 8" using False by simp
    ultimately have "MD5Final ctx = byteReverse (concat (map le_bytes (MD5Transform (buf ctx) (?x @ l)))) 4"
      unfolding start Let_def l_def by (simp only: bind.bind_lunit prod.case fl if_False)
    then show ?thesis using False ok dig tr by (simp add: md5_spec_def pb s [symmetric])
  qed
qed

lemma init_absorbed: "length (inb ctx) = 64 \<Longrightarrow> absorbed [] (MD5Init ctx)"
  by (simp add: absorbed_def MD5Init_def initial_def absorbs_def blocks.simps)

section \<open>Properties\<close>



end
