(* ===== verification/Fit.thy ===== *)
theory Fit
  imports FdtRegion HashAlgo Md5
begin

text \<open>
  The access functions for FIT images (\<^verbatim>\<open>common/image.c\<close>): a FIT image is a device tree with the nodes
  \<^verbatim>\<open>/images\<close> and \<^verbatim>\<open>/configurations\<close>. Pointers into the image are indices of the blob. A function that
  returns a status and stores a result is modelled by the result, \<open>None\<close> inside the outer option for
  the failure status. Messages are not modelled. The configuration is that of the board; whether the
  build has a watchdog is the argument \<open>wd\<close>.
\<close>

section \<open>Bytes\<close>

definition bytes :: "char list \<Rightarrow> u8 list" where
  "bytes = map of_char"

definition chars :: "u8 list \<Rightarrow> char list" where
  "chars = map (\<lambda>w. char_of (unat w))"

text \<open>The bytes at an index; an object in memory is not left.\<close>

definition read_bytes :: "char list \<Rightarrow> int \<Rightarrow> int \<Rightarrow> char list option" where
  "read_bytes m i n =
     (if n = 0 then Some []
      else if 0 \<le> i \<and> 0 \<le> n \<and> i + n \<le> int (length m) then Some (take (nat n) (drop (nat i) m))
      else None)"

section \<open>Names of types\<close>

record table_entry_t =
  tid :: int
  sname :: "string option"

abbreviation row :: "int \<Rightarrow> string \<Rightarrow> table_entry_t" where
  "row i s \<equiv> \<lparr>tid = i, sname = Some s\<rparr>"

definition uimage_arch :: "table_entry_t list" where
  "uimage_arch = [\<lparr>tid = 0, sname = None\<rparr>, row 1 ''alpha'', row 2 ''arm'', row 3 ''x86'', row 4 ''ia64'', row 12 ''m68k'',
     row 14 ''microblaze'', row 5 ''mips'', row 6 ''mips64'', row 15 ''nios2'', row 7 ''powerpc'', row 7 ''ppc'', row 8 ''s390'',
     row 9 ''sh'', row 10 ''sparc'', row 11 ''sparc64'', row 16 ''blackfin'', row 17 ''avr32'', row 20 ''nds32'', row 21 ''or1k'',
     row (-1) []]"

definition uimage_os :: "table_entry_t list" where
  "uimage_os = [\<lparr>tid = 0, sname = None\<rparr>, row 5 ''linux'', row 2 ''netbsd'', row 22 ''ose'', row 18 ''rtems'', row 17 ''u-boot'',
     row 16 ''qnx'', row 14 ''vxworks'', row (-1) []]"

definition uimage_type :: "table_entry_t list" where
  "uimage_type = [row 13 ''aisimage'', row 7 ''filesystem'', row 5 ''firmware'', row 8 ''flat_dt'', row 2 ''kernel'', row 14 ''kernel_noload'',
     row 9 ''kwbimage'', row 10 ''imximage'', \<lparr>tid = 0, sname = None\<rparr>, row 4 ''multi'', row 12 ''omapimage'', row 15 ''pblimage'',
     row 3 ''ramdisk'', row 6 ''script'', row 1 ''standalone'', row 11 ''ublimage'', row (-1) []]"

definition uimage_comp :: "table_entry_t list" where
  "uimage_comp = [row 0 ''none'', row 2 ''bzip2'', row 1 ''gzip'', row 3 ''lzma'', row 4 ''lzo'', row (-1) []]"

fun get_table_entry_id :: "table_entry_t list \<Rightarrow> char list \<Rightarrow> int option" where
  "get_table_entry_id [] name = None"
| "get_table_entry_id (t # ts) name =
     (if tid t < 0 then Some (-1)
      else case sname t of None \<Rightarrow> get_table_entry_id ts name
      | Some s \<Rightarrow> do { r \<leftarrow> strcmp (s @ [NUL]) name; if r = 0 then Some (tid t) else get_table_entry_id ts name })"

definition genimg_get_os_id :: "char list \<Rightarrow> int option" where "genimg_get_os_id = get_table_entry_id uimage_os"
definition genimg_get_arch_id :: "char list \<Rightarrow> int option" where "genimg_get_arch_id = get_table_entry_id uimage_arch"
definition genimg_get_type_id :: "char list \<Rightarrow> int option" where "genimg_get_type_id = get_table_entry_id uimage_type"
definition genimg_get_comp_id :: "char list \<Rightarrow> int option" where "genimg_get_comp_id = get_table_entry_id uimage_comp"

section \<open>Properties of nodes\<close>

definition fit_get_desc :: "char list \<Rightarrow> int \<Rightarrow> nat option option" where
  "fit_get_desc m noffset = map_option fst (fdt_getprop m noffset ''description'')"

definition fit_get_timestamp :: "char list \<Rightarrow> int \<Rightarrow> (int + nat) option" where
  "fit_get_timestamp m noffset = do {
     (data, len) \<leftarrow> fdt_getprop m noffset ''timestamp'';
     case data of None \<Rightarrow> Some (Inl (-1))
     | Some i \<Rightarrow> if len \<noteq> 4 then Some (Inl (-2)) else map_option Inr (fdt32_to_cpu m i) }"

definition fit_image_get_node :: "char list \<Rightarrow> char list \<Rightarrow> int option" where
  "fit_image_get_node m image_uname = do {
     images_noffset \<leftarrow> fdt_path_offset m (''/images'' @ [NUL]);
     if images_noffset < 0 then Some images_noffset else fdt_subnode_offset m images_noffset image_uname }"

text \<open>The identifier is stored in one byte.\<close>

definition fit_image_get_id :: "(char list \<Rightarrow> int option) \<Rightarrow> string \<Rightarrow> char list \<Rightarrow> int \<Rightarrow> int option option" where
  "fit_image_get_id get_id prop m noffset = do {
     (data, len) \<leftarrow> fdt_getprop m noffset prop;
     case data of None \<Rightarrow> Some None
     | Some i \<Rightarrow> do { n \<leftarrow> get_id (drop i m); Some (Some (n mod 256)) } }"

definition fit_image_get_os :: "char list \<Rightarrow> int \<Rightarrow> int option option" where
  "fit_image_get_os = fit_image_get_id genimg_get_os_id ''os''"

definition fit_image_get_arch :: "char list \<Rightarrow> int \<Rightarrow> int option option" where
  "fit_image_get_arch = fit_image_get_id genimg_get_arch_id ''arch''"

definition fit_image_get_type :: "char list \<Rightarrow> int \<Rightarrow> int option option" where
  "fit_image_get_type = fit_image_get_id genimg_get_type_id ''type''"

definition fit_image_get_comp :: "char list \<Rightarrow> int \<Rightarrow> int option option" where
  "fit_image_get_comp = fit_image_get_id genimg_get_comp_id ''compression''"

definition get_address :: "string \<Rightarrow> char list \<Rightarrow> int \<Rightarrow> nat option option" where
  "get_address prop m noffset = do {
     (data, len) \<leftarrow> fdt_getprop m noffset prop;
     case data of None \<Rightarrow> Some None | Some i \<Rightarrow> map_option Some (fdt32_to_cpu m i) }"

definition fit_image_get_load :: "char list \<Rightarrow> int \<Rightarrow> nat option option" where
  "fit_image_get_load = get_address ''load''"

definition fit_image_get_entry :: "char list \<Rightarrow> int \<Rightarrow> nat option option" where
  "fit_image_get_entry = get_address ''entry''"

definition get_range :: "string \<Rightarrow> char list \<Rightarrow> int \<Rightarrow> (nat \<times> int) option option" where
  "get_range prop m noffset = do {
     (data, len) \<leftarrow> fdt_getprop m noffset prop;
     Some (map_option (\<lambda>i. (i, len)) data) }"

definition fit_image_get_data :: "char list \<Rightarrow> int \<Rightarrow> (nat \<times> int) option option" where
  "fit_image_get_data = get_range ''data''"

definition fit_image_hash_get_algo :: "char list \<Rightarrow> int \<Rightarrow> nat option option" where
  "fit_image_hash_get_algo m noffset = map_option fst (fdt_getprop m noffset ''algo'')"

definition fit_image_hash_get_value :: "char list \<Rightarrow> int \<Rightarrow> (nat \<times> int) option option" where
  "fit_image_hash_get_value = get_range ''value''"

text \<open>The flag is an \<^verbatim>\<open>int\<close> in the byte order of the machine.\<close>

definition fit_image_hash_get_ignore :: "char list \<Rightarrow> int \<Rightarrow> int option" where
  "fit_image_hash_get_ignore m noffset = do {
     (v, len) \<leftarrow> fdt_getprop m noffset ''uboot-ignore'';
     case v of None \<Rightarrow> Some 0
     | Some i \<Rightarrow> if len \<noteq> 4 then Some 0
         else map_option (\<lambda>bs. s32 (int (be_nat (rev bs)))) (read_bytes m (int i) 4) }"

section \<open>Hashes of images\<close>

record fit_mem = hash_mem +
  mem5 :: MD5Context

definition calculate_hash :: "bool \<Rightarrow> fit_mem \<Rightarrow> u8 list \<Rightarrow> char list \<Rightarrow> (int + u8 list) option" where
  "calculate_hash wd mem data algo = do {
     r \<leftarrow> strcmp algo (''crc32'' @ [NUL]);
     if r = 0 then map_option Inr (map_option rev (crc32_wd_buf wd data 65536))
     else do {
       r \<leftarrow> strcmp algo (''sha1'' @ [NUL]);
       if r = 0 then map_option Inr (sha1_csum_wd wd (mem1 mem) data 65536)
       else do {
         r \<leftarrow> strcmp algo (''md5'' @ [NUL]);
         if r = 0 then map_option Inr (md5_wd wd (mem5 mem) data 65536) else Some (Inl (-1)) } } }"

text \<open>The body of the loop over the nodes: may the loop go on?\<close>

definition check_hash_node :: "bool \<Rightarrow> fit_mem \<Rightarrow> char list \<Rightarrow> nat \<times> int \<Rightarrow> int \<Rightarrow> bool option" where
  "check_hash_node wd mem m data noffset = do {
     (name, _) \<leftarrow> fdt_get_name m noffset;
     i \<leftarrow> name;
     r \<leftarrow> strncmp (drop i m) (''hash'' @ [NUL]) 4;
     if r \<noteq> 0 then Some True
     else do {
       algo \<leftarrow> fit_image_hash_get_algo m noffset;
       case algo of None \<Rightarrow> Some False
       | Some a \<Rightarrow> do {
           ignore \<leftarrow> fit_image_hash_get_ignore m noffset;
           if ignore \<noteq> 0 then Some True
           else do {
             v \<leftarrow> fit_image_hash_get_value m noffset;
             case v of None \<Rightarrow> Some False
             | Some (fit_value, fit_value_len) \<Rightarrow> do {
                 d \<leftarrow> read_bytes m (int (fst data)) (snd data);
                 h \<leftarrow> calculate_hash wd mem (bytes d) (drop a m);
                 case h of Inl _ \<Rightarrow> Some False
                 | Inr h \<Rightarrow>
                     if int (length h) \<noteq> fit_value_len then Some False
                     else map_option (\<lambda>r. r = 0) (memcmp (chars h) (drop fit_value m) (length h)) } } } } }"

text \<open>The loop over all nodes below a node that looks at its direct children.\<close>

partial_function (option) children_loop :: "(int \<Rightarrow> bool option) \<Rightarrow> char list \<Rightarrow> int \<Rightarrow> int \<Rightarrow> (bool \<times> int) option" where
  "children_loop check m noffset ndepth =
     (if 0 \<le> noffset \<and> 0 < ndepth then do {
        ok \<leftarrow> (if ndepth = 1 then check noffset else Some True);
        if ok then do { (noffset, d) \<leftarrow> fdt_next_node m noffset (Some ndepth); children_loop check m noffset (the d) }
        else Some (False, noffset) }
      else Some (True, noffset))"

definition fit_image_check_hashes :: "bool \<Rightarrow> fit_mem \<Rightarrow> char list \<Rightarrow> int \<Rightarrow> int option" where
  "fit_image_check_hashes wd mem m image_noffset = do {
     data \<leftarrow> fit_image_get_data m image_noffset;
     case data of None \<Rightarrow> Some 0
     | Some data \<Rightarrow> do {
         (noffset, d) \<leftarrow> fdt_next_node m image_noffset (Some 0);
         (ok, noffset) \<leftarrow> children_loop (check_hash_node wd mem m data) m noffset (the d);
         Some (if ok \<and> noffset \<noteq> - FDT_ERR_TRUNCATED \<and> noffset \<noteq> - FDT_ERR_BADSTRUCTURE then 1 else 0) } }"

definition fit_all_image_check_hashes :: "bool \<Rightarrow> fit_mem \<Rightarrow> char list \<Rightarrow> int option" where
  "fit_all_image_check_hashes wd mem m = do {
     images_noffset \<leftarrow> fdt_path_offset m (''/images'' @ [NUL]);
     if images_noffset < 0 then Some 0
     else do {
       (noffset, d) \<leftarrow> fdt_next_node m images_noffset (Some 0);
       (ok, _) \<leftarrow> children_loop (\<lambda>n. map_option (\<lambda>r. r \<noteq> 0) (fit_image_check_hashes wd mem m n)) m noffset (the d);
       Some (if ok then 1 else 0) } }"

definition check_id :: "int option option \<Rightarrow> int \<Rightarrow> int option" where
  "check_id got n = map_option (\<lambda>g. if g = Some n then 1 else 0) got"

definition fit_image_check_os :: "char list \<Rightarrow> int \<Rightarrow> int \<Rightarrow> int option" where
  "fit_image_check_os m noffset n = check_id (fit_image_get_os m noffset) n"

definition fit_image_check_arch :: "char list \<Rightarrow> int \<Rightarrow> int \<Rightarrow> int option" where
  "fit_image_check_arch m noffset n = check_id (fit_image_get_arch m noffset) n"

definition fit_image_check_type :: "char list \<Rightarrow> int \<Rightarrow> int \<Rightarrow> int option" where
  "fit_image_check_type m noffset n = check_id (fit_image_get_type m noffset) n"

definition fit_image_check_comp :: "char list \<Rightarrow> int \<Rightarrow> int \<Rightarrow> int option" where
  "fit_image_check_comp m noffset n = check_id (fit_image_get_comp m noffset) n"

definition fit_check_format :: "char list \<Rightarrow> int option" where
  "fit_check_format m = do {
     (desc, _) \<leftarrow> fdt_getprop m 0 ''description'';
     if desc = None then Some 0
     else map_option (\<lambda>off. if off < 0 then 0 else 1) (fdt_path_offset m (''/images'' @ [NUL])) }"

section \<open>Configurations\<close>

text \<open>The name is \<open>None\<close> for a NULL pointer.\<close>

definition fit_conf_get_node :: "char list \<Rightarrow> char list option \<Rightarrow> int option" where
  "fit_conf_get_node m conf_uname = do {
     confs_noffset \<leftarrow> fdt_path_offset m (''/configurations'' @ [NUL]);
     if confs_noffset < 0 then Some confs_noffset
     else case conf_uname of
       Some s \<Rightarrow> fdt_subnode_offset m confs_noffset s
     | None \<Rightarrow> do {
         (s, len) \<leftarrow> fdt_getprop m confs_noffset ''default'';
         case s of None \<Rightarrow> Some len | Some i \<Rightarrow> fdt_subnode_offset m confs_noffset (drop i m) } }"

definition fit_conf_get_prop_node :: "char list \<Rightarrow> int \<Rightarrow> string \<Rightarrow> int option" where
  "fit_conf_get_prop_node m noffset prop_name = do {
     (uname, len) \<leftarrow> fdt_getprop m noffset prop_name;
     case uname of None \<Rightarrow> Some len | Some i \<Rightarrow> fit_image_get_node m (drop i m) }"

definition fit_conf_get_kernel_node :: "char list \<Rightarrow> int \<Rightarrow> int option" where
  "fit_conf_get_kernel_node m noffset = fit_conf_get_prop_node m noffset ''kernel''"

definition fit_conf_get_ramdisk_node :: "char list \<Rightarrow> int \<Rightarrow> int option" where
  "fit_conf_get_ramdisk_node m noffset = fit_conf_get_prop_node m noffset ''ramdisk''"

definition fit_conf_get_fdt_node :: "char list \<Rightarrow> int \<Rightarrow> int option" where
  "fit_conf_get_fdt_node m noffset = fit_conf_get_prop_node m noffset ''fdt''"

section \<open>What the hashes of an image say\<close>

text \<open>The hash of an image by name; the CRC-32 is stored with the most significant byte first.\<close>

definition image_hash :: "string \<Rightarrow> u8 list \<Rightarrow> u8 list option" where
  "image_hash a d =
     (if a = ''crc32'' then Some (rev (digest CRC32 d)) else if a = ''sha1'' then Some (sha1_spec d)
      else if a = ''md5'' then Some (md5_spec d) else None)"

text \<open>A string begins at the value of a property; it may end behind the value.\<close>

definition reads :: "char list \<Rightarrow> node \<Rightarrow> string \<Rightarrow> string \<Rightarrow> bool" where
  "reads m k s a \<longleftrightarrow> (\<exists>v r. value_of_prop m k s = Some v \<and> cstring a (v @ r))"

definition terminated :: "char list \<Rightarrow> node \<Rightarrow> string \<Rightarrow> bool" where
  "terminated m k s \<longleftrightarrow> (\<forall>v. value_of_prop m k s = Some v \<longrightarrow> NUL \<in> set v)"

definition ignored :: "char list \<Rightarrow> node \<Rightarrow> bool" where
  "ignored m k \<longleftrightarrow> (\<exists>v. value_of_prop m k ''uboot-ignore'' = Some v \<and> length v = 4 \<and> v \<noteq> replicate 4 NUL)"

definition hash_ok :: "char list \<Rightarrow> char list \<Rightarrow> node \<Rightarrow> bool" where
  "hash_ok m d k \<longleftrightarrow> value_of_prop m k ''algo'' \<noteq> None \<and>
     (ignored m k \<or> (\<exists>a h. reads m k ''algo'' a \<and> image_hash a (bytes d) = Some h \<and> value_of_prop m k ''value'' = Some (chars h)))"

definition fit_mem_ok :: "fit_mem \<Rightarrow> bool" where
  "fit_mem_ok mem \<longleftrightarrow> length (sha1_context.buffer (mem1 mem)) = 64 \<and> length (sha256_context.buffer (mem256 mem)) = 64
     \<and> length (sha512_context.buffer (mem512 mem)) = 128 \<and> length (inb (mem5 mem)) = 64"

lemma fit_length_bytes [simp]: "length (bytes d) = length d"
  by (simp add: bytes_def)

lemma length_chars [simp]: "length (chars h) = length h"
  by (simp add: chars_def)

lemma strcmp_zero: "strcmp bs (s @ [NUL]) = Some 0 \<Longrightarrow> NUL \<notin> set s \<Longrightarrow> cstring s bs"
proof (induction s arbitrary: bs)
  case Nil
  then show ?case by (cases bs) (auto simp: Let_def split: if_splits)
next
  case (Cons c s)
  then show ?case by (cases bs) (auto simp: Let_def split: if_splits)
qed

lemma strncmp_prefix:
  "cstring nm bs \<Longrightarrow> NUL \<notin> set p \<Longrightarrow> \<exists>r. strncmp bs (p @ x) (length p) = Some r \<and> (r = 0 \<longleftrightarrow> prefix p nm)"
proof (induction p arbitrary: nm bs)
  case (Cons c p)
  then show ?case by (cases nm) (auto simp: Let_def)
qed simp

lemma memcmp_take:
  "length a \<le> length b \<Longrightarrow> \<exists>r. memcmp a b (length a) = Some r \<and> (r = 0 \<longleftrightarrow> a = take (length a) b)"
proof (induction a arbitrary: b)
  case (Cons c a)
  then show ?case by (cases b) (auto simp: Let_def cdiff_zero)
qed simp

lemma sha1_wd_digest:
  assumes "length (sha1_context.buffer ctx) = 64" and "length inp < 2 ^ 32"
  shows "sha1_csum_wd wd ctx inp 65536 = Some (sha1_spec inp)"
proof -
  obtain c where "(if wd then csum_loop sha1_update (sha1_starts ctx) inp 65536 else sha1_update (sha1_starts ctx) inp) = Some c"
    "Sha1.absorbed inp c" using Sha1.sha1.watchdog_absorbs [OF Sha1.sha1_starts_absorbed [OF assms(1)] _ assms(2), of 65536 wd] assms(2) by auto
  then show ?thesis using Sha1.sha1_finish_digest [of inp c] assms(2) by (simp only: sha1_csum_wd_def) simp
qed

lemma md5_wd_digest:
  assumes "length (inb ctx) = 64" and "length inp < 2 ^ 31"
  shows "md5_wd wd ctx inp 65536 = Some (md5_spec inp)"
  using md5.watchdog_absorbs [OF init_absorbed [OF assms(1)], of 65536 inp wd] final_digest [of inp] assms(2) by (auto simp: md5_wd_def)

lemma calculate_hash_spec:
  assumes "fit_mem_ok mem" and "length d < 2 ^ 31" and "cstring a bs"
  shows "calculate_hash wd mem d bs = Some (case image_hash a d of Some h \<Rightarrow> Inr h | None \<Rightarrow> Inl (-1))"
proof -
  have "cstring ''crc32'' (''crc32'' @ [NUL])" "cstring ''sha1'' (''sha1'' @ [NUL])" "cstring ''md5'' (''md5'' @ [NUL])" by simp_all
  from this [THEN strcmp_cstring [OF assms(3)]] obtain r1 r2 r3
    where r: "strcmp bs (''crc32'' @ [NUL]) = Some r1" "r1 = 0 \<longleftrightarrow> a = ''crc32''" "strcmp bs (''sha1'' @ [NUL]) = Some r2" "r2 = 0 \<longleftrightarrow> a = ''sha1''"
      "strcmp bs (''md5'' @ [NUL]) = Some r3" "r3 = 0 \<longleftrightarrow> a = ''md5''" by blast
  have "crc32_wd_buf wd d 65536 = Some (digest CRC32 d)"
    using crc_digest [of d] by (simp add: crc32_wd_buf_def crc32_wd_run del: digest.simps)
  moreover have "sha1_csum_wd wd (mem1 mem) d 65536 = Some (sha1_spec d)" using assms by (intro sha1_wd_digest) (simp_all add: fit_mem_ok_def)
  moreover have "md5_wd wd (mem5 mem) d 65536 = Some (md5_spec d)" using assms by (intro md5_wd_digest) (simp_all add: fit_mem_ok_def)
  ultimately show ?thesis unfolding calculate_hash_def image_hash_def using r by (simp del: digest.simps)
qed

lemma calculate_hash_sound:
  assumes "fit_mem_ok mem" and "length d < 2 ^ 31" and "calculate_hash wd mem d bs = Some (Inr h)"
  shows "\<exists>a. cstring a bs \<and> image_hash a d = Some h"
proof -
  have "strcmp bs (''crc32'' @ [NUL]) = Some 0 \<or> strcmp bs (''sha1'' @ [NUL]) = Some 0 \<or> strcmp bs (''md5'' @ [NUL]) = Some 0"
    using assms(3) by (auto simp: calculate_hash_def split: if_splits elim!: bind_eq_Some_conv [THEN iffD1, elim_format])
  then have "cstring ''crc32'' bs \<or> cstring ''sha1'' bs \<or> cstring ''md5'' bs"
    using strcmp_zero [of bs "''crc32''"] strcmp_zero [of bs "''sha1''"] strcmp_zero [of bs "''md5''"] by (elim disjE) (simp_all del: cstring_Cons)
  then obtain a where "cstring a bs" by blast
  with calculate_hash_spec [OF assms(1,2) this, of wd] assms(3) show ?thesis by (auto split: option.splits)
qed

text \<open>The accesses to a node of a tree.\<close>

lemma getprop_cases:
  assumes "holds m os (pre @ tags t @ post)" and "named m (nprops t)" and "NUL \<notin> set s"
  obtains (absent) "value_of_prop m t s = None" "fdt_getprop m (int (len_of pre)) s = Some (None, - FDT_ERR_NOTFOUND)"
  | (present) v i r where "value_of_prop m t s = Some v" "fdt_getprop m (int (len_of pre)) s = Some (Some i, int (length v))" "drop i m = v @ r"
      "length v < 2 ^ 31" "read_bytes m (int i) (int (length v)) = Some v"
proof (cases "value_of_prop m t s")
  case None
  then show thesis using getprop_value(1) [OF assms, of "[NUL]"] absent by (simp add: fdt_getprop_def)
next
  case (Some v)
  then obtain i r where i: "fdt_getprop m (int (len_of pre)) s = Some (Some i, int (length v))" "drop i m = v @ r"
    using getprop_value(2) [OF assms Some, of "[NUL]"] by (auto simp: fdt_getprop_def prefix_def)
  have l: "length v \<le> length m - i" using arg_cong [OF i(2), of length] by simp
  moreover have "length m + 4 \<le> 2 ^ 31" using assms(1) by (simp add: holds_def complete_def)
  ultimately have "length v < 2 ^ 31" by linarith
  moreover have "read_bytes m (int i) (int (length v)) = Some v" using l i(2) by (auto simp: read_bytes_def)
  ultimately show thesis using present [OF Some i] by blast
qed

lemma be_nat_zero: "be_nat bs = 0 \<longleftrightarrow> (\<forall>c \<in> set bs. c = NUL)"
proof (induction bs rule: rev_induct)
  case (snoc c bs)
  have "(of_char c :: nat) = of_char NUL \<longleftrightarrow> c = NUL" by (metis of_char_eq_iff)
  then have "(of_char c :: nat) = 0 \<longleftrightarrow> c = NUL" by simp
  then show ?case using snoc by (auto simp: be_nat_def)
qed (simp add: be_nat_def)

lemma ignore_at:
  assumes "holds m os (pre @ tags t @ post)" and "named m (nprops t)"
  shows "\<exists>g. fit_image_hash_get_ignore m (int (len_of pre)) = Some g \<and> (g \<noteq> 0 \<longleftrightarrow> ignored m t)"
proof (cases rule: getprop_cases [OF assms, of "''uboot-ignore''", case_names nul absent present])
  case (present v i r)
  show ?thesis
  proof (cases "length v = 4")
    case True
    let ?n = "be_nat (rev v)"
    have "?n < 2 ^ 32" using be_nat_less [of "rev v"] True by simp
    then have "s32 (int ?n) = 0 \<longleftrightarrow> ?n = 0" using s32_cong [of "int ?n"] by (auto simp: s32_def)
    moreover have "?n = 0 \<longleftrightarrow> v = replicate 4 NUL"
      using True by (auto simp: be_nat_zero intro: replicate_eqI)
    ultimately show ?thesis using present True by (simp add: fit_image_hash_get_ignore_def ignored_def)
  qed (use present in \<open>simp add: fit_image_hash_get_ignore_def ignored_def\<close>)
qed (simp_all add: fit_image_hash_get_ignore_def ignored_def)

lemma strlen_Some: "strlen bs = Some n \<Longrightarrow> cstring (take n bs) bs"
  by (induction bs arbitrary: n) (auto split: if_splits)

lemma cstring_unique: "cstring a bs \<Longrightarrow> takeWhile (\<lambda>c. c \<noteq> NUL) bs = a"
  by (induction a arbitrary: bs) auto

lemma terminated_reads:
  assumes "terminated m k p" and "value_of_prop m k p = Some v"
  shows "cstring (takeWhile (\<lambda>c. c \<noteq> NUL) v) (v @ x)" and "reads m k p a \<longleftrightarrow> a = takeWhile (\<lambda>c. c \<noteq> NUL) v"
proof -
  obtain w where w: "v = takeWhile (\<lambda>c. c \<noteq> NUL) v @ NUL # w" using split_at_NUL assms unfolding terminated_def by blast
  have s: "cstring (takeWhile (\<lambda>c. c \<noteq> NUL) v) (v @ x)" for x
    by (subst (2) w) (auto simp: cstring_def dest: set_takeWhileD)
  then show "cstring (takeWhile (\<lambda>c. c \<noteq> NUL) v) (v @ x)" .
  show "reads m k p a \<longleftrightarrow> a = takeWhile (\<lambda>c. c \<noteq> NUL) v"
  proof
    assume "reads m k p a"
    then obtain r where "cstring a (v @ r)" using assms(2) by (auto simp: reads_def)
    with cstring_unique [OF this] cstring_unique [OF s, of r] show "a = takeWhile (\<lambda>c. c \<noteq> NUL) v" by simp
  qed (use s assms(2) in \<open>auto simp: reads_def\<close>)
qed

lemma name_at:
  assumes "holds m os (pre @ tags t @ post)"
  obtains i len where "fdt_get_name m (int (len_of pre)) = Some (Some i, len)" "cstring (nname t) (drop i m)"
proof -
  have h: "holds m os (pre @ Begin (nname t) # props (nprops t) @ concat (map tags (nkids t)) @ [End_node] @ post)"
    using assms by (cases t) (simp add: head_tags_def)
  note g = get_name_at [OF h]
  let ?i = "os + len_of pre + 4"
  have "strlen (drop ?i m) = Some (length (nname t))"
    using g(1) by (auto simp: fdt_get_name_def bind_eq_Some_conv Let_def split: if_splits)
  from strlen_Some [OF this] g show thesis by (intro that) simp_all
qed

text \<open>One hash node.\<close>

lemma check_hash_node_at:
  assumes "holds m os (pre @ tags k @ post)" and "named m (nprops k)" and "fit_mem_ok mem"
    and "read_bytes m (int i) n = Some d" and "length d < 2 ^ 31"
  shows "terminated m k ''algo'' \<Longrightarrow> check_hash_node wd mem m (i, n) (int (len_of pre)) = Some (prefix ''hash'' (nname k) \<longrightarrow> hash_ok m d k)"
    and "check_hash_node wd mem m (i, n) (int (len_of pre)) = Some True \<Longrightarrow> prefix ''hash'' (nname k) \<Longrightarrow> hash_ok m d k"
proof -
  let ?c = "check_hash_node wd mem m (i, n) (int (len_of pre))"
  obtain j len where j: "fdt_get_name m (int (len_of pre)) = Some (Some j, len)" "cstring (nname k) (drop j m)" by (rule name_at [OF assms(1)])
  obtain r where r: "strncmp (drop j m) (''hash'' @ [NUL]) 4 = Some r" "r = 0 \<longleftrightarrow> prefix ''hash'' (nname k)"
    using strncmp_prefix [OF j(2), of "''hash''" "[NUL]"] by (auto simp: numeral_eq_Suc)
  obtain g where g: "fit_image_hash_get_ignore m (int (len_of pre)) = Some g" "g \<noteq> 0 \<longleftrightarrow> ignored m k" using ignore_at [OF assms(1,2)] by blast
  have "(terminated m k ''algo'' \<longrightarrow> ?c = Some (hash_ok m d k)) \<and> (?c = Some True \<longrightarrow> hash_ok m d k)" if p: "prefix ''hash'' (nname k)"
  proof (cases rule: getprop_cases [OF assms(1,2), of "''algo''", case_names nul absent present])
    case absent
    then show ?thesis using j r p by (simp add: check_hash_node_def fit_image_hash_get_algo_def hash_ok_def)
  next
    case algo: (present va a ra)
    show ?thesis
    proof (cases "ignored m k")
      case True
      then show ?thesis using j r p g algo by (simp add: check_hash_node_def fit_image_hash_get_algo_def hash_ok_def)
    next
      case False
      show ?thesis
      proof (cases rule: getprop_cases [OF assms(1,2), of "''value''", case_names nul absent present])
        case absent
        then show ?thesis using j r p g algo False
          by (simp add: check_hash_node_def fit_image_hash_get_algo_def fit_image_hash_get_value_def get_range_def hash_ok_def)
      next
        case v: (present v iv rv)
        have c: "?c = Option.bind (calculate_hash wd mem (bytes d) (va @ ra)) (\<lambda>h. case h of Inl _ \<Rightarrow> Some False
            | Inr h \<Rightarrow> if length h \<noteq> length v then Some False else map_option (\<lambda>r. r = 0) (memcmp (chars h) (drop iv m) (length h)))"
          using j r p g algo False v assms(4)
          by (simp add: check_hash_node_def fit_image_hash_get_algo_def fit_image_hash_get_value_def get_range_def)
        have h: "(if length h \<noteq> length v then Some False else map_option (\<lambda>r. r = 0) (memcmp (chars h) (drop iv m) (length h)))
            = Some (v = chars h)" for h
          using memcmp_take [of "chars h" "v @ rv"] v(3) by auto
        show ?thesis
        proof (intro conjI impI)
          assume "terminated m k ''algo''"
          note tr = terminated_reads [OF this algo(1)]
          show "?c = Some (hash_ok m d k)"
            using tr(2) calculate_hash_spec [OF assms(3) _ tr(1), of "bytes d" wd ra] assms(5) False algo(1) v(1) unfolding c h
            by (auto simp: hash_ok_def split: option.split)
        next
          assume "?c = Some True"
          then obtain y where y: "calculate_hash wd mem (bytes d) (va @ ra) = Some y" "(case y of Inl _ \<Rightarrow> Some False | Inr h \<Rightarrow> Some (v = chars h)) = Some True"
            unfolding c h by (auto simp only: bind_eq_Some_conv)
          then obtain h where "calculate_hash wd mem (bytes d) (va @ ra) = Some (Inr h)" "v = chars h" by (cases y) auto
          with calculate_hash_sound [OF assms(3) _ this(1)] assms(5) v(1) algo(1) show "hash_ok m d k"
            by (auto simp: hash_ok_def reads_def)
        qed
      qed simp
    qed
  qed simp
  note yes = this
  have no: "?c = Some True" if "\<not> prefix ''hash'' (nname k)" using j r that by (simp add: check_hash_node_def)
  show "?c = Some (prefix ''hash'' (nname k) \<longrightarrow> hash_ok m d k)" if "terminated m k ''algo''"
    using that yes no by (cases "prefix ''hash'' (nname k)") (simp_all only: simp_thms)
  show "hash_ok m d k" if "?c = Some True" "prefix ''hash'' (nname k)" using that(1) yes [OF that(2)] by blast
qed

text \<open>The loop over the nodes below an image.\<close>

lemma children_loop_run:
  assumes "steps m (x # xs) (Some (e, Some (-1)))" and "\<forall>(o1, d, nm) \<in> set (x # xs). 1 \<le> d"
    and "\<forall>(o1, d, nm) \<in> set (x # xs). d = 1 \<longrightarrow> check (int o1) = Some (ok o1)"
  shows "\<exists>n. children_loop check m (int (fst x)) (fst (snd x)) = Some (\<forall>(o1, d, nm) \<in> set (x # xs). d = 1 \<longrightarrow> ok o1, n)
    \<and> ((\<forall>(o1, d, nm) \<in> set (x # xs). d = 1 \<longrightarrow> ok o1) \<longrightarrow> n = e)"
  using assms
proof (induction xs arbitrary: x)
  case Nil
  obtain o1 d nm where x: "x = (o1, d, nm)" by (metis prod_cases3)
  have "children_loop check m e (-1) = Some (True, e)" by (subst children_loop.simps) simp
  then show ?case using Nil.prems x by (subst children_loop.simps) (auto simp: first_of_def)
next
  case (Cons y xs)
  obtain o1 d nm o2 d2 nm2 where x: "x = (o1, d, nm)" and y: "y = (o2, d2, nm2)" by (metis prod_cases3)
  have "\<exists>n. children_loop check m (int (fst y)) (fst (snd y)) = Some (\<forall>(o1, d, nm) \<in> set (y # xs). d = 1 \<longrightarrow> ok o1, n)
    \<and> ((\<forall>(o1, d, nm) \<in> set (y # xs). d = 1 \<longrightarrow> ok o1) \<longrightarrow> n = e)"
    using Cons.prems by (intro Cons.IH) auto
  then show ?case using Cons.prems x y by (subst children_loop.simps) (auto simp: first_of_def)
qed

lemma forest_kids: "{o1. \<exists>nm. (o1, d0, nm) \<in> set (forest off d0 cs)} = fst ` set (kids off cs)"
proof (induction cs arbitrary: off)
  case (Cons c cs)
  obtain nm ps ks where c: "c = Node nm ps ks" by (cases c)
  have "(o1, d0, n) \<notin> set (forest (off + len_of (head_tags nm ps)) (d0 + 1) ks)" for o1 n using nodes_deeper(2) by force
  then have "{o1. \<exists>nm. (o1, d0, nm) \<in> set (nodes off d0 c)} = {off}" by (auto simp: c)
  then show ?case using Cons.IH [of "off + len_of (tags c)"] by auto
qed simp

lemma children_loop_sound:
  assumes "steps m (x # xs) k" and "\<forall>(o1, d, nm) \<in> set (x # xs). 1 \<le> d" and "children_loop check m (int (fst x)) (fst (snd x)) = Some (True, n)"
  shows "\<forall>(o1, d, nm) \<in> set (x # xs). d = 1 \<longrightarrow> check (int o1) = Some True"
  using assms
proof (induction xs arbitrary: x)
  case Nil
  then show ?case by (subst (asm) children_loop.simps) (auto simp: bind_eq_Some_conv split: if_splits)
next
  case (Cons y xs)
  obtain o1 d nm o2 d2 nm2 where x: "x = (o1, d, nm)" and y: "y = (o2, d2, nm2)" by (metis prod_cases3)
  have *: "d = 1 \<longrightarrow> check (int o1) = Some True" "children_loop check m (int (fst y)) (fst (snd y)) = Some (True, n)"
    using Cons.prems(1,2) Cons.prems(3) [unfolded children_loop.simps [of check m "int (fst x)"]] x y
    by (auto simp: first_of_def bind_eq_Some_conv split: if_splits)
  then have "\<forall>(o1, d, nm) \<in> set (y # xs). d = 1 \<longrightarrow> check (int o1) = Some True" using Cons.prems(1,2) by (intro Cons.IH) auto
  with *(1) x show ?case by auto
qed

lemma image_walk:
  assumes "holds m os (pre @ tags t @ post)"
  obtains xs e where "0 \<le> e" "fdt_next_node m (int (len_of pre)) (Some 0) = first_of xs (Some (e, Some (-1)))"
    "steps m xs (Some (e, Some (-1)))" "\<forall>(o1, d, nm) \<in> set xs. 1 \<le> d"
    "{o1. \<exists>nm. (o1, 1, nm) \<in> set xs} = fst ` set (kids_of (len_of pre) t)"
proof -
  obtain nm ps cs where t: "t = Node nm ps cs" by (cases t)
  let ?e = "int (len_of (pre @ tags t))" and ?xs = "forest (len_of pre + len_of (head_tags nm ps)) 1 cs"
  have "steps m (nodes (len_of pre) 0 t) (Some (?e, Some (-1)))" by (rule steps_tree [OF assms]) simp_all
  then show thesis using nodes_deeper(2) [of _ _ _ _ 1 cs] forest_kids [of 1 _ cs]
    by (intro that [of ?e ?xs]) (auto simp: t kids_of_def)
qed

lemma all_kids:
  assumes "{o1. \<exists>nm. (o1, 1, nm) \<in> set xs} = fst ` ks"
  shows "(\<forall>(o1, d :: int, nm) \<in> set xs. d = 1 \<longrightarrow> Q o1) \<longleftrightarrow> (\<forall>(o1, k) \<in> ks. Q o1)"
proof -
  have "(\<forall>(o1, d, nm) \<in> set xs. d = 1 \<longrightarrow> Q o1) \<longleftrightarrow> (\<forall>o1 \<in> {o1. \<exists>nm. (o1, 1, nm) \<in> set xs}. Q o1)" by auto
  then show ?thesis unfolding assms by auto
qed

lemma children_exact:
  assumes "holds m os (pre @ tags t @ post)" and "\<forall>(o1, k) \<in> set (kids_of (len_of pre) t). check (int o1) = Some (ok o1)"
  obtains n where "Option.bind (fdt_next_node m (int (len_of pre)) (Some 0)) (\<lambda>(noffset, d). children_loop check m noffset (the d))
      = Some (\<forall>(o1, k) \<in> set (kids_of (len_of pre) t). ok o1, n)"
    "(\<forall>(o1, k) \<in> set (kids_of (len_of pre) t). ok o1) \<Longrightarrow> 0 \<le> n"
proof -
  let ?K = "set (kids_of (len_of pre) t)"
  obtain xs e where w: "0 \<le> e" "fdt_next_node m (int (len_of pre)) (Some 0) = first_of xs (Some (e, Some (-1)))"
    "steps m xs (Some (e, Some (-1)))" "\<forall>(o1, d, nm) \<in> set xs. 1 \<le> d" "{o1. \<exists>nm. (o1, 1, nm) \<in> set xs} = fst ` ?K"
    by (rule image_walk [OF assms(1)])
  note all = all_kids [OF w(5)]
  show thesis
  proof (cases xs)
    case Nil
    have "children_loop check m e (-1) = Some (True, e)" by (subst children_loop.simps) simp
    then show thesis using w(1,2) all [of ok] Nil by (intro that [of e]) (simp_all add: first_of_def)
  next
    case (Cons x ys)
    from children_loop_run [OF w(3,4) [unfolded Cons], of check ok] obtain n
      where n: "children_loop check m (int (fst x)) (fst (snd x)) = Some (\<forall>(o1, k) \<in> ?K. ok o1, n)" "(\<forall>(o1, k) \<in> ?K. ok o1) \<longrightarrow> n = e"
      using assms(2) unfolding Cons [symmetric] all by auto
    moreover obtain a b c where "x = (a, b, c)" by (metis prod_cases3)
    ultimately show thesis using w(1,2) Cons by (intro that [of n]) (simp_all add: first_of_def)
  qed
qed

lemma children_sound:
  assumes "holds m os (pre @ tags t @ post)"
    and "Option.bind (fdt_next_node m (int (len_of pre)) (Some 0)) (\<lambda>(noffset, d). children_loop check m noffset (the d)) = Some (True, n)"
  shows "\<forall>(o1, k) \<in> set (kids_of (len_of pre) t). check (int o1) = Some True"
proof -
  let ?K = "set (kids_of (len_of pre) t)"
  obtain xs e where w: "fdt_next_node m (int (len_of pre)) (Some 0) = first_of xs (Some (e, Some (-1)))"
    "steps m xs (Some (e, Some (-1)))" "\<forall>(o1, d, nm) \<in> set xs. 1 \<le> d" "{o1. \<exists>nm. (o1, 1, nm) \<in> set xs} = fst ` ?K"
    by (rule image_walk [OF assms(1)])
  have "\<forall>(o1, d, nm) \<in> set xs. d = 1 \<longrightarrow> check (int o1) = Some True"
  proof (cases xs)
    case (Cons x ys)
    then have "children_loop check m (int (fst x)) (fst (snd x)) = Some (True, n)" using assms(2) w(1) by (auto simp: first_of_def split: prod.splits)
    from children_loop_sound [OF w(2,3) [unfolded Cons] this] Cons show ?thesis by simp
  qed simp
  then show ?thesis unfolding all_kids [OF w(4)] .
qed

section \<open>Properties\<close>

definition props_named :: "char list \<Rightarrow> node \<Rightarrow> bool" where
  "props_named m t \<longleftrightarrow> named m (nprops t) \<and> (\<forall>k \<in> set (nkids t). named m (nprops k))"

lemma kids_node: "(o1, k) \<in> set (kids_of off t) \<Longrightarrow> k \<in> set (nkids t)"
  "k \<in> set (nkids t) \<Longrightarrow> \<exists>o1. (o1, k) \<in> set (kids_of off t)"
proof -
  have *: "snd ` set (kids off cs) = set cs" for off cs by (induction off cs rule: kids.induct) auto
  show "(o1, k) \<in> set (kids_of off t) \<Longrightarrow> k \<in> set (nkids t)" using * [of _ "nkids t"] by (force simp: kids_of_def)
  show "k \<in> set (nkids t) \<Longrightarrow> \<exists>o1. (o1, k) \<in> set (kids_of off t)"
    unfolding * [of "off + len_of (head_tags (nname t) (nprops t))" "nkids t", symmetric] kids_of_def by force
qed

lemma check_hashes_sound:
  assumes "holds m os (pre @ tags t @ post)" and "props_named m t" and "fit_mem_ok mem"
    and "fit_image_check_hashes wd mem m (int (len_of pre)) = Some 1"
  obtains d where "value_of_prop m t ''data'' = Some d" "\<forall>k \<in> set (nkids t). prefix ''hash'' (nname k) \<longrightarrow> hash_ok m d k"
proof (cases rule: getprop_cases [OF assms(1), of "''data''", case_names pn nul absent present])
  case (present d i r)
  let ?c = "check_hash_node wd mem m (i, int (length d))"
  obtain n where "Option.bind (fdt_next_node m (int (len_of pre)) (Some 0)) (\<lambda>(noffset, d). children_loop ?c m noffset (the d)) = Some (True, n)"
    using assms(4) present(2) by (auto simp: fit_image_check_hashes_def fit_image_get_data_def get_range_def bind_eq_Some_conv split: if_splits prod.splits)
  from children_sound [OF assms(1) this] have all: "\<forall>(o1, k) \<in> set (kids_of (len_of pre) t). ?c (int o1) = Some True" .
  have "hash_ok m d k" if kt: "k \<in> set (nkids t)" and hash: "prefix ''hash'' (nname k)" for k
  proof -
    obtain o1 where o1: "(o1, k) \<in> set (kids_of (len_of pre) t)" using kids_node(2) [OF kt] by blast
    obtain pre' post' where h: "holds m os (pre' @ tags k @ post')" "o1 = len_of pre'" by (rule holds_kid [OF assms(1) o1])
    have "named m (nprops k)" using assms(2) kt by (simp add: props_named_def)
    from check_hash_node_at(2) [OF h(1) this assms(3) present(5,4)] all o1 h(2) hash show ?thesis by auto
  qed
  with present(1) show thesis by (intro that) auto
next
  case absent
  then show thesis using assms(4) by (simp add: fit_image_check_hashes_def fit_image_get_data_def get_range_def)
qed (use assms(2) in \<open>simp_all add: props_named_def\<close>)

lemma check_hashes_exact:
  assumes "holds m os (pre @ tags t @ post)" and "props_named m t" and "\<forall>k \<in> set (nkids t). terminated m k ''algo''" and "fit_mem_ok mem"
  shows "fit_image_check_hashes wd mem m (int (len_of pre)) =
    Some (case value_of_prop m t ''data'' of None \<Rightarrow> 0
          | Some d \<Rightarrow> if \<forall>k \<in> set (nkids t). prefix ''hash'' (nname k) \<longrightarrow> hash_ok m d k then 1 else 0)"
proof (cases rule: getprop_cases [OF assms(1), of "''data''", case_names pn nul absent present])
  case (present d i r)
  let ?c = "check_hash_node wd mem m (i, int (length d))"
  let ?ok = "\<lambda>k. prefix ''hash'' (nname k) \<longrightarrow> hash_ok m d k"
  have at: "?c (int o1) = Some (?ok k)" if o1: "(o1, k) \<in> set (kids_of (len_of pre) t)" for o1 k
  proof -
    have k: "k \<in> set (nkids t)" by (rule kids_node(1) [OF o1])
    obtain pre' post' where h: "holds m os (pre' @ tags k @ post')" "o1 = len_of pre'" by (rule holds_kid [OF assms(1) o1])
    have "named m (nprops k)" "terminated m k ''algo''" using assms(2,3) k by (simp_all add: props_named_def)
    from check_hash_node_at(1) [OF h(1) this(1) assms(4) present(5,4) this(2)] h(2) show ?thesis by simp
  qed
  then have all: "\<forall>(o1, k) \<in> set (kids_of (len_of pre) t). ?c (int o1) = Some (the (?c (int o1)))" by auto
  have ok: "(\<forall>(o1, k) \<in> set (kids_of (len_of pre) t). the (?c (int o1))) \<longleftrightarrow> (\<forall>k \<in> set (nkids t). ?ok k)"
  proof -
    have "(\<forall>(o1, k) \<in> set (kids_of (len_of pre) t). the (?c (int o1))) \<longleftrightarrow> (\<forall>(o1, k) \<in> set (kids_of (len_of pre) t). ?ok k)"
      using at by (intro ball_cong refl) (clarsimp)
    then show ?thesis using kids_node by blast
  qed
  obtain n where n: "Option.bind (fdt_next_node m (int (len_of pre)) (Some 0)) (\<lambda>(noffset, d). children_loop ?c m noffset (the d))
      = Some (\<forall>k \<in> set (nkids t). ?ok k, n)" "(\<forall>k \<in> set (nkids t). ?ok k) \<Longrightarrow> 0 \<le> n"
    using children_exact [OF assms(1) all, unfolded ok] by blast
  from n(1) obtain a b where "fdt_next_node m (int (len_of pre)) (Some 0) = Some (a, b)"
    "children_loop ?c m a (the b) = Some (\<forall>k \<in> set (nkids t). ?ok k, n)" by (auto simp only: bind_eq_Some_conv split: prod.splits)
  then show ?thesis using present(1,2) n(2)
    by (cases "\<forall>k \<in> set (nkids t). ?ok k") (auto simp: fit_image_check_hashes_def fit_image_get_data_def get_range_def fdt_errors)
qed (use assms(2) in \<open>simp_all add: props_named_def fit_image_check_hashes_def fit_image_get_data_def get_range_def\<close>)

text \<open>
  \<^bold>\<open>C9.\<close> The integrity check of an image. On a blob that holds the tree of the image node,
  \<^verbatim>\<open>fit_image_check_hashes\<close> accepts exactly when the node has data and each child whose name begins with
  \<^verbatim>\<open>hash\<close> has an algorithm and either carries a non-zero \<^verbatim>\<open>uboot-ignore\<close> or names one of \<^verbatim>\<open>crc32\<close>, \<^verbatim>\<open>sha1\<close> and
  \<^verbatim>\<open>md5\<close> and holds the digest of the data, computed as the standard says. So an image without hash node,
  or with ignored hashes only, is accepted whatever its data are.
\<close>

theorem fit_image_check_hashes_correct:
  assumes "holds m os (pre @ tags t @ post)" and "props_named m t" and "\<forall>k \<in> set (nkids t). terminated m k ''algo''" and "fit_mem_ok mem"
  shows "fit_image_check_hashes wd mem m (int (len_of pre)) =
    Some (case value_of_prop m t ''data'' of None \<Rightarrow> 0
          | Some d \<Rightarrow> if \<forall>k \<in> set (nkids t). prefix ''hash'' (nname k) \<longrightarrow> hash_ok m d k then 1 else 0)"
  by (rule check_hashes_exact [OF assms])

definition sample_mem5 :: fit_mem where
  "sample_mem5 = hash_mem.extend sample_mem \<lparr>mem5 = \<lparr>buf = [], bits0 = 7, bits1 = 9, inb = replicate 64 5\<rparr>\<rparr>"

text \<open>A kernel of three bytes whose only hash is wrong, with and without the ignore flag.\<close>

definition sample_hash_strings :: "char list" where
  "sample_hash_strings = ''algo'' @ [NUL] @ ''value'' @ [NUL] @ ''uboot-ignore'' @ [NUL] @ ''data'' @ [NUL]"

definition sample_kernel :: "char list \<Rightarrow> node" where
  "sample_kernel flag = Node ''kernel'' [(24, ''abc'')] [Node ''hash@1'' [(0, ''crc32'' @ [NUL]), (5, ''xyz''), (11, flag)] []]"

definition sample_fit :: "char list \<Rightarrow> char list" where
  "sample_fit flag = fdt_image (sample_kernel flag) sample_hash_strings"

lemma sample_fit_holds: "length flag = 4 \<Longrightarrow> holds (sample_fit flag) 56 ([] @ tags (sample_kernel flag) @ [End])"
  unfolding sample_fit_def append_Nil by (rule fdt_image_holds)
    (simp_all add: sample_kernel_def sample_hash_strings_def head_tags_def enc_def padded_def)

lemma sample_fit_names:
  assumes "length flag = 4" and "no \<in> {0, 5, 11, 24}"
  shows "drop (str_pos (sample_fit flag) no) (sample_fit flag) = drop no sample_hash_strings"
  using assms unfolding sample_fit_def
  by (intro fdt_image_strings) (auto simp: sample_kernel_def sample_hash_strings_def head_tags_def enc_def padded_def)

lemma sample_fit_props:
  assumes "length flag = 4"
  shows "props_named (sample_fit flag) (sample_kernel flag)" "value_of_prop (sample_fit flag) (sample_kernel flag) ''data'' = Some ''abc''"
    "\<forall>k \<in> set (nkids (sample_kernel flag)). terminated (sample_fit flag) k ''algo'' \<and> (hash_ok (sample_fit flag) ''abc'' k \<longleftrightarrow> flag \<noteq> replicate 4 NUL)"
proof -
  let ?m = "sample_fit flag" and ?k = "hd (nkids (sample_kernel flag))"
  note d = sample_fit_names [OF assms]
  have s: "str_at ?m 0 = ''algo''" "str_at ?m 5 = ''value''" "str_at ?m 11 = ''uboot-ignore''" "str_at ?m 24 = ''data''"
    using d [of 0] d [of 5] d [of 11] d [of 24] by (simp_all add: str_at_def sample_hash_strings_def)
  have n: "NUL \<in> set (drop (str_pos ?m 0) ?m)" "NUL \<in> set (drop (str_pos ?m 5) ?m)" "NUL \<in> set (drop (str_pos ?m 11) ?m)" "NUL \<in> set (drop (str_pos ?m 24) ?m)"
    using d [of 0] d [of 5] d [of 11] d [of 24] by (simp_all add: sample_hash_strings_def)
  then show "props_named ?m (sample_kernel flag)" by (simp add: props_named_def sample_kernel_def named_def)
  show "value_of_prop ?m (sample_kernel flag) ''data'' = Some ''abc''" using s by (simp add: value_of_prop_def sample_kernel_def)
  have v: "value_of_prop ?m ?k ''algo'' = Some (''crc32'' @ [NUL])" "value_of_prop ?m ?k ''value'' = Some ''xyz''"
    "value_of_prop ?m ?k ''uboot-ignore'' = Some flag"
    using s by (simp_all add: value_of_prop_def sample_kernel_def)
  have t: "terminated ?m ?k ''algo''" using v(1) by (simp add: terminated_def)
  have "chars h \<noteq> ''xyz''" if "image_hash ''crc32'' (bytes ''abc'') = Some h" for h
  proof
    assume "chars h = ''xyz''"
    then have "length h = 3" using length_chars [of h] by simp
    moreover have "h = rev (digest CRC32 (bytes ''abc''))" using that unfolding image_hash_def if_P [OF refl] option.inject by (rule sym)
    ultimately show False unfolding digest.simps word_bytes_def by simp
  qed
  moreover have "reads ?m ?k ''algo'' a \<longleftrightarrow> a = ''crc32''" for a unfolding terminated_reads(2) [OF t v(1)] by simp
  ultimately have "\<not> (\<exists>a h. reads ?m ?k ''algo'' a \<and> image_hash a (bytes ''abc'') = Some h \<and> value_of_prop ?m ?k ''value'' = Some (chars h))"
    unfolding v(2) by (metis option.inject)
  then have "hash_ok ?m ''abc'' ?k \<longleftrightarrow> flag \<noteq> replicate 4 NUL" using v(1,3) assms unfolding hash_ok_def ignored_def by (metis option.distinct(1) option.inject)
  with t show "\<forall>k \<in> set (nkids (sample_kernel flag)). terminated ?m k ''algo'' \<and> (hash_ok ?m ''abc'' k \<longleftrightarrow> flag \<noteq> replicate 4 NUL)"
    by (simp add: sample_kernel_def)
qed

theorem fit_image_check_hashes_correct_witness:
  "fit_image_check_hashes False sample_mem5 (sample_fit (replicate 4 NUL)) 0 = Some 0
    \<and> fit_image_check_hashes False sample_mem5 (sample_fit ''skip'') 0 = Some 1"
proof -
  have m: "fit_mem_ok sample_mem5" by (simp add: fit_mem_ok_def sample_mem5_def sample_mem_def hash_mem.defs)
  note c = fit_image_check_hashes_correct [OF sample_fit_holds sample_fit_props(1) _ m]
  show ?thesis using c [of "replicate 4 NUL" False] c [of "''skip''" False] sample_fit_props(2,3) [of "replicate 4 NUL"] sample_fit_props(2,3) [of "''skip''"]
    by (auto simp: sample_kernel_def numeral_eq_Suc)
qed

end
