(* ===== verification/Uimage.thy ===== *)
theory Uimage
  imports Fit Strtoul
begin

text \<open>
  Images in the legacy format: the header of \<^verbatim>\<open>include/image.h\<close> and the checks and the access to the parts of
  \<^verbatim>\<open>common/image.c\<close>. An image is the list of the bytes from its header on. Numbers in the header have their most
  significant byte first. An access behind the end of the memory is \<open>None\<close>.
\<close>

section \<open>The header\<close>

definition IH_MAGIC :: nat where "IH_MAGIC = 0x27051956"
definition IH_NMLEN :: nat where "IH_NMLEN = 32"
definition IH_ARCH_ARM :: int where "IH_ARCH_ARM = 2"
definition IH_TYPE_STANDALONE :: int where "IH_TYPE_STANDALONE = 1"
definition IH_TYPE_KERNEL :: int where "IH_TYPE_KERNEL = 2"
definition IH_TYPE_MULTI :: int where "IH_TYPE_MULTI = 4"
definition IH_TYPE_KERNEL_NOLOAD :: int where "IH_TYPE_KERNEL_NOLOAD = 14"

lemmas ih_defs = IH_MAGIC_def IH_NMLEN_def IH_ARCH_ARM_def IH_TYPE_STANDALONE_def IH_TYPE_KERNEL_def IH_TYPE_MULTI_def IH_TYPE_KERNEL_NOLOAD_def

definition image_get_header_size :: nat where "image_get_header_size = 64"

definition image_get_magic :: "char list \<Rightarrow> nat option" where "image_get_magic hdr = fdt32_to_cpu hdr 0"
definition image_get_hcrc :: "char list \<Rightarrow> nat option" where "image_get_hcrc hdr = fdt32_to_cpu hdr 4"
definition image_get_size :: "char list \<Rightarrow> nat option" where "image_get_size hdr = fdt32_to_cpu hdr 12"
definition image_get_load :: "char list \<Rightarrow> nat option" where "image_get_load hdr = fdt32_to_cpu hdr 16"
definition image_get_ep :: "char list \<Rightarrow> nat option" where "image_get_ep hdr = fdt32_to_cpu hdr 20"
definition image_get_dcrc :: "char list \<Rightarrow> nat option" where "image_get_dcrc hdr = fdt32_to_cpu hdr 24"

definition image_get_hdr_b :: "nat \<Rightarrow> char list \<Rightarrow> int option" where "image_get_hdr_b i hdr = map_option of_char (rd hdr i)"

definition image_get_os :: "char list \<Rightarrow> int option" where "image_get_os = image_get_hdr_b 28"
definition image_get_arch :: "char list \<Rightarrow> int option" where "image_get_arch = image_get_hdr_b 29"
definition image_get_type :: "char list \<Rightarrow> int option" where "image_get_type = image_get_hdr_b 30"
definition image_get_comp :: "char list \<Rightarrow> int option" where "image_get_comp = image_get_hdr_b 31"

definition image_get_data_size :: "char list \<Rightarrow> nat option" where "image_get_data_size = image_get_size"

text \<open>Addresses have 32 bits; \<open>a\<close> is the address of the header.\<close>

definition image_get_data :: "nat \<Rightarrow> nat" where "image_get_data a = (a + image_get_header_size) mod 2 ^ 32"

definition image_get_image_end :: "nat \<Rightarrow> char list \<Rightarrow> nat option" where
  "image_get_image_end a hdr = map_option (\<lambda>n. (a + (n + image_get_header_size) mod 2 ^ 32) mod 2 ^ 32) (image_get_size hdr)"

definition image_set_hcrc :: "nat \<Rightarrow> char list \<Rightarrow> char list" where
  "image_set_hcrc val hdr = take 4 hdr @ be32 val @ drop 8 hdr"

section \<open>Checks\<close>

definition image_check_magic :: "char list \<Rightarrow> bool option" where
  "image_check_magic hdr = map_option (\<lambda>n. n = IH_MAGIC) (image_get_magic hdr)"

definition image_check_type :: "char list \<Rightarrow> int \<Rightarrow> bool option" where
  "image_check_type hdr t = map_option (\<lambda>n. n = t) (image_get_type hdr)"

definition image_check_arch :: "char list \<Rightarrow> int \<Rightarrow> bool option" where
  "image_check_arch hdr a = map_option (\<lambda>n. n = a) (image_get_arch hdr)"

definition image_check_target_arch :: "char list \<Rightarrow> bool option" where
  "image_check_target_arch hdr = image_check_arch hdr IH_ARCH_ARM"

definition image_check_hcrc :: "char list \<Rightarrow> bool option" where
  "image_check_hcrc hdr = do {
     header \<leftarrow> read_bytes hdr 0 (int image_get_header_size);
     let hcrc = crc32 0 0 (bytes (image_set_hcrc 0 header));
     n \<leftarrow> image_get_hcrc hdr;
     Some (unat hcrc = n) }"

definition image_check_dcrc :: "bool \<Rightarrow> char list \<Rightarrow> bool option" where
  "image_check_dcrc wd hdr = do {
     len \<leftarrow> image_get_data_size hdr;
     data \<leftarrow> read_bytes hdr (int image_get_header_size) (int len);
     dcrc \<leftarrow> (if wd then crc32_wd 0 0 (bytes data) 65536 else Some (crc32 0 0 (bytes data)));
     n \<leftarrow> image_get_dcrc hdr;
     Some (unat dcrc = n) }"

section \<open>Images with several parts\<close>

definition size_at :: "char list \<Rightarrow> nat \<Rightarrow> nat option" where
  "size_at hdr i = fdt32_to_cpu hdr (image_get_header_size + 4 * i)"

function multi_count_loop :: "char list \<Rightarrow> nat \<Rightarrow> nat option" where
  "multi_count_loop hdr i =
     (case size_at hdr i of None \<Rightarrow> None
      | Some n \<Rightarrow> if n = 0 then Some i else multi_count_loop hdr (i + 1))"
  by pat_completeness auto
termination
  by (relation "measure (\<lambda>(hdr, i). length hdr - 4 * i)")
    (auto simp: size_at_def fdt32_to_cpu_def image_get_header_size_def split: if_splits)

declare multi_count_loop.simps [simp del]

definition image_multi_count :: "char list \<Rightarrow> nat option" where
  "image_multi_count hdr = multi_count_loop hdr 0"

text \<open>The offset of a part, in 32-bit arithmetic.\<close>

fun multi_offset :: "char list \<Rightarrow> nat \<Rightarrow> nat \<Rightarrow> nat \<Rightarrow> nat option" where
  "multi_offset hdr i 0 off = Some off"
| "multi_offset hdr i (Suc n) off = do {
     sz \<leftarrow> size_at hdr i;
     multi_offset hdr (i + 1) n ((off + (sz + 3) mod 2 ^ 32 div 4 * 4) mod 2 ^ 32) }"

definition image_multi_getimg :: "nat \<Rightarrow> char list \<Rightarrow> nat \<Rightarrow> (nat \<times> nat) option" where
  "image_multi_getimg a hdr idx = do {
     count \<leftarrow> image_multi_count hdr;
     let img_data = (image_get_data a + (count + 1) * 4) mod 2 ^ 32;
     if idx < count then do {
       len \<leftarrow> size_at hdr idx;
       off \<leftarrow> multi_offset hdr 0 idx 0;
       Some ((img_data + off) mod 2 ^ 32, len) }
     else Some (0, 0) }"

section \<open>The format of an image in memory\<close>

definition IMAGE_FORMAT_INVALID :: int where "IMAGE_FORMAT_INVALID = 0"
definition IMAGE_FORMAT_LEGACY :: int where "IMAGE_FORMAT_LEGACY = 1"
definition IMAGE_FORMAT_FIT :: int where "IMAGE_FORMAT_FIT = 2"

lemmas formats = IMAGE_FORMAT_INVALID_def IMAGE_FORMAT_LEGACY_def IMAGE_FORMAT_FIT_def

definition genimg_get_format :: "char list \<Rightarrow> int option" where
  "genimg_get_format m = do {
     legacy \<leftarrow> image_check_magic m;
     if legacy then Some IMAGE_FORMAT_LEGACY
     else map_option (\<lambda>r. if r = 0 then IMAGE_FORMAT_FIT else IMAGE_FORMAT_INVALID) (fdt_check_header m) }"

section \<open>Well-formed images\<close>

record image_header =
  ih_time :: nat
  ih_load :: nat
  ih_ep :: nat
  ih_os :: char
  ih_arch :: char
  ih_type :: char
  ih_comp :: char
  ih_name :: "char list"

definition header_ok :: "image_header \<Rightarrow> bool" where
  "header_ok h \<longleftrightarrow> ih_load h < 2 ^ 32 \<and> ih_ep h < 2 ^ 32 \<and> length (ih_name h) = IH_NMLEN"

text \<open>The bytes of a header for the given data and a value of the field \<^verbatim>\<open>ih_hcrc\<close>, and the whole image.\<close>

definition header_bytes :: "nat \<Rightarrow> image_header \<Rightarrow> char list \<Rightarrow> char list" where
  "header_bytes hcrc h data = be32 IH_MAGIC @ be32 hcrc @ be32 (ih_time h) @ be32 (length data) @ be32 (ih_load h) @ be32 (ih_ep h)
     @ be32 (unat (crc32 0 0 (bytes data))) @ [ih_os h, ih_arch h, ih_type h, ih_comp h] @ ih_name h"

definition legacy_image :: "image_header \<Rightarrow> char list \<Rightarrow> char list" where
  "legacy_image h data = header_bytes (unat (crc32 0 0 (bytes (header_bytes 0 h data)))) h data @ data"

lemma length_header_bytes: "header_ok h \<Longrightarrow> length (header_bytes c h data) = 64"
  by (simp add: header_bytes_def header_ok_def IH_NMLEN_def)

lemma be32_field: "length pre = i \<Longrightarrow> n < 2 ^ 32 \<Longrightarrow> fdt32_to_cpu (pre @ be32 n @ r) i = Some n"
  by (simp add: fdt32_to_cpu_def be_nat_be32)

lemma header_fields:
  assumes "header_ok h" and "c < 2 ^ 32" and "length data < 2 ^ 32"
  shows "image_get_magic (header_bytes c h data @ r) = Some IH_MAGIC" "image_get_hcrc (header_bytes c h data @ r) = Some c"
    "image_get_size (header_bytes c h data @ r) = Some (length data)" "image_get_load (header_bytes c h data @ r) = Some (ih_load h)"
    "image_get_ep (header_bytes c h data @ r) = Some (ih_ep h)" "image_get_dcrc (header_bytes c h data @ r) = Some (unat (crc32 0 0 (bytes data)))"
    "image_get_os (header_bytes c h data @ r) = Some (of_char (ih_os h))" "image_get_arch (header_bytes c h data @ r) = Some (of_char (ih_arch h))"
    "image_get_type (header_bytes c h data @ r) = Some (of_char (ih_type h))" "image_get_comp (header_bytes c h data @ r) = Some (of_char (ih_comp h))"
proof -
  let ?m = "header_bytes c h data @ r"
  have d: "unat (crc32 0 0 (bytes data)) < 2 ^ 32" by (rule u32_less)
  have "IH_MAGIC < 2 ^ 32" by (simp add: IH_MAGIC_def)
  then show "image_get_magic ?m = Some IH_MAGIC" unfolding image_get_magic_def header_bytes_def append_assoc using be32_field [of "[]" 0 IH_MAGIC] by simp
  show "image_get_hcrc ?m = Some c" unfolding image_get_hcrc_def header_bytes_def append_assoc
    using be32_field [of "be32 IH_MAGIC" 4 c] assms(2) by simp
  show "image_get_size ?m = Some (length data)" unfolding image_get_size_def header_bytes_def append_assoc
    using be32_field [of "be32 IH_MAGIC @ be32 c @ be32 (ih_time h)" 12 "length data"] assms(3) by simp
  show "image_get_load ?m = Some (ih_load h)" unfolding image_get_load_def header_bytes_def append_assoc
    using be32_field [of "be32 IH_MAGIC @ be32 c @ be32 (ih_time h) @ be32 (length data)" 16 "ih_load h"] assms(1) by (simp add: header_ok_def)
  show "image_get_ep ?m = Some (ih_ep h)" unfolding image_get_ep_def header_bytes_def append_assoc
    using be32_field [of "be32 IH_MAGIC @ be32 c @ be32 (ih_time h) @ be32 (length data) @ be32 (ih_load h)" 20 "ih_ep h"] assms(1) by (simp add: header_ok_def)
  show "image_get_dcrc ?m = Some (unat (crc32 0 0 (bytes data)))" unfolding image_get_dcrc_def header_bytes_def append_assoc
    using be32_field [of "be32 IH_MAGIC @ be32 c @ be32 (ih_time h) @ be32 (length data) @ be32 (ih_load h) @ be32 (ih_ep h)" 24] d by simp
  define pre where "pre = be32 IH_MAGIC @ be32 c @ be32 (ih_time h) @ be32 (length data) @ be32 (ih_load h) @ be32 (ih_ep h) @ be32 (unat (crc32 0 0 (bytes data)))"
  have m: "?m = pre @ ih_os h # ih_arch h # ih_type h # ih_comp h # ih_name h @ r" "length pre = 28" by (simp_all add: header_bytes_def pre_def)
  show "image_get_os ?m = Some (of_char (ih_os h))" "image_get_arch ?m = Some (of_char (ih_arch h))"
    "image_get_type ?m = Some (of_char (ih_type h))" "image_get_comp ?m = Some (of_char (ih_comp h))"
    unfolding m(1) by (simp_all add: image_get_os_def image_get_arch_def image_get_type_def image_get_comp_def image_get_hdr_b_def rd_def nth_append m(2))
qed

lemma set_hcrc_header: "image_set_hcrc 0 (header_bytes c h data) = header_bytes 0 h data"
  by (simp add: image_set_hcrc_def header_bytes_def)

lemma check_hcrc_bytes:
  assumes "length hdr = 64" and "image_get_hcrc (hdr @ r) = Some n"
  shows "image_check_hcrc (hdr @ r) = Some (unat (crc32 0 0 (bytes (image_set_hcrc 0 hdr))) = n)"
  using assms by (simp add: image_check_hcrc_def read_bytes_def image_get_header_size_def Let_def)

lemma check_dcrc_bytes:
  assumes "length hdr = 64" and "image_get_size (hdr @ data @ r) = Some (length data)" and "image_get_dcrc (hdr @ data @ r) = Some n"
  shows "image_check_dcrc wd (hdr @ data @ r) = Some (unat (crc32 0 0 (bytes data)) = n)"
  using assms crc32_wd_whole [of 65536 0 0 "bytes data"]
  by (cases "length data = 0") (simp_all add: image_check_dcrc_def image_get_data_size_def read_bytes_def image_get_header_size_def)

lemma legacy_image_checks:
  assumes "header_ok h" and "length data < 2 ^ 32" and "m = legacy_image h data @ r"
  shows "image_check_magic m = Some True" "image_check_hcrc m = Some True" "image_check_dcrc wd m = Some True" "image_get_size m = Some (length data)"
    "image_get_arch m = Some (of_char (ih_arch h))" "image_get_type m = Some (of_char (ih_type h))"
proof -
  define hc where "hc = unat (crc32 0 0 (bytes (header_bytes 0 h data)))"
  have m: "m = header_bytes hc h data @ data @ r" using assms(3) by (simp add: legacy_image_def hc_def)
  have hl: "length (header_bytes hc h data) = 64" by (rule length_header_bytes [OF assms(1)])
  have "hc < 2 ^ 32" unfolding hc_def by (rule u32_less)
  note f = header_fields [OF assms(1) this assms(2)]
  show "image_check_magic m = Some True" "image_get_size m = Some (length data)"
    "image_get_arch m = Some (of_char (ih_arch h))" "image_get_type m = Some (of_char (ih_type h))"
    using f by (simp_all add: m image_check_magic_def)
  show "image_check_hcrc m = Some True" using check_hcrc_bytes [OF hl f(2)] by (simp add: m set_hcrc_header hc_def)
  show "image_check_dcrc wd m = Some True" unfolding m by (subst check_dcrc_bytes [OF hl f(3,6)]) simp
qed

section \<open>Corrupted images\<close>

lemma be_nat_inj: "length a = length b \<Longrightarrow> be_nat a = be_nat b \<Longrightarrow> a = b"
proof (induction a arbitrary: b rule: rev_induct)
  case (snoc x a)
  obtain y b' where b: "b = b' @ [y]" using snoc.prems(1) by (cases b rule: rev_cases) simp_all
  have "256 * be_nat a + of_char x = 256 * be_nat b' + (of_char y :: nat)" using snoc.prems(2) b by (simp add: be_nat_def)
  moreover have "(of_char x :: nat) < 256" "(of_char y :: nat) < 256" by (rule nat_of_char_less_256)+
  moreover have "(256 * m + u) div 256 = m" "(256 * m + u) mod 256 = u" if "u < 256" for m u :: nat using that by simp_all
  ultimately have "be_nat a = be_nat b'" "(of_char x :: nat) = of_char y" by metis+
  then show ?case using snoc.IH [of b'] snoc.prems(1) b by simp
qed simp

lemma of_char_byte_inj: "(of_char c :: u8) = of_char d \<Longrightarrow> c = d"
proof -
  assume "(of_char c :: u8) = of_char d"
  then have "(of_nat (of_char c) :: u8) = of_nat (of_char d)" by (simp only: of_nat_of_char)
  then have "unat (of_nat (of_char c) :: u8) = unat (of_nat (of_char d) :: u8)" by simp
  then show ?thesis by (simp add: unat_of_nat)
qed

lemma crc_update_differs:
  assumes "i < length bs" and "c \<noteq> bs ! i"
  shows "crc32 p x (bytes (bs[i := c])) \<noteq> crc32 p x (bytes bs)"
proof -
  have "bs = take i bs @ bs ! i # drop (Suc i) bs" "bs[i := c] = take i bs @ c # drop (Suc i) bs"
    using assms(1) by (simp_all add: upd_conv_take_nth_drop id_take_nth_drop)
  then have "bytes bs = bytes (take i bs) @ of_char (bs ! i) # bytes (drop (Suc i) bs)" "bytes (bs[i := c]) = bytes (take i bs) @ of_char c # bytes (drop (Suc i) bs)"
    by (metis bytes_def list.simps(9) map_append)+
  moreover have "(of_char c :: u8) \<noteq> of_char (bs ! i)" using assms(2) by (metis of_char_byte_inj)
  ultimately show ?thesis using crc32_byte_differs by metis
qed

lemma hcrc_of_bytes: "length hdr = 64 \<Longrightarrow> image_get_hcrc (hdr @ r) = Some (be_nat (take 4 (drop 4 hdr)))"
  by (simp add: image_get_hcrc_def fdt32_to_cpu_def)

lemma corrupted_header:
  assumes "length hdr = 64" and "be_nat (take 4 (drop 4 hdr)) = unat (crc32 0 0 (bytes (image_set_hcrc 0 hdr)))" and "i < 64" and "c \<noteq> hdr ! i"
  shows "image_check_hcrc (hdr[i := c] @ r) = Some False"
proof -
  let ?h = "hdr[i := c]"
  have l: "length ?h = 64" using assms(1) by simp
  note chk = check_hcrc_bytes [OF l hcrc_of_bytes [OF l], of r]
  show ?thesis
  proof (cases "4 \<le> i \<and> i < 8")
    case True
    have "image_set_hcrc 0 ?h = image_set_hcrc 0 hdr" using True by (simp add: image_set_hcrc_def)
    moreover have "take 4 (drop 4 xs) ! (i - 4) = xs ! i" if "length xs = 64" for xs :: "char list" using True that by (subst nth_take) auto
    then have "take 4 (drop 4 ?h) \<noteq> take 4 (drop 4 hdr)" using assms(1,3,4) l nth_list_update_eq [of i hdr c] by metis
    then have "be_nat (take 4 (drop 4 ?h)) \<noteq> be_nat (take 4 (drop 4 hdr))" using be_nat_inj [of "take 4 (drop 4 ?h)" "take 4 (drop 4 hdr)"] assms(1) by auto
    ultimately show ?thesis using chk assms(2) by simp
  next
    case False
    have s: "image_set_hcrc 0 ?h = (image_set_hcrc 0 hdr)[i := c]" "image_set_hcrc 0 hdr ! i = hdr ! i" "i < length (image_set_hcrc 0 hdr)"
      using False assms(1,3) by (auto simp: image_set_hcrc_def list_update_append nth_append drop_update_swap take_update_swap list_update_beyond not_le)
    have "take 4 (drop 4 ?h) = take 4 (drop 4 hdr)" using False assms(1) by (auto simp: drop_update_swap take_update_cancel not_le)
    moreover have "crc32 0 0 (bytes (image_set_hcrc 0 ?h)) \<noteq> crc32 0 0 (bytes (image_set_hcrc 0 hdr))"
      using crc_update_differs [OF s(3), of c 0 0] s(1,2) assms(4) by simp
    ultimately show ?thesis using chk assms(2) by (simp add: word_unat_eq_iff [symmetric])
  qed
qed

text \<open>
  \<^bold>\<open>C19.\<close> The checks of legacy images. An image as the format defines it, followed by anything, passes the checks
  of the magic number, of the header and of the data, with or without watchdog. If any one byte of the
  header or of the data is changed, one of the two checksums does not match.
\<close>

theorem legacy_image_integrity:
  assumes "header_ok h" and "length data < 2 ^ 32" and "m = legacy_image h data @ r"
  shows "image_check_magic m = Some True \<and> image_check_hcrc m = Some True \<and> image_check_dcrc wd m = Some True
    \<and> (\<forall>i c. i < length (legacy_image h data) \<and> c \<noteq> m ! i \<longrightarrow>
        image_check_hcrc (m[i := c]) = Some False \<or> image_check_hcrc (m[i := c]) = Some True \<and> image_check_dcrc wd (m[i := c]) = Some False)"
proof -
  define hc where "hc = unat (crc32 0 0 (bytes (header_bytes 0 h data)))"
  define hdr where "hdr = header_bytes hc h data"
  have m: "m = hdr @ data @ r" using assms(3) by (simp add: legacy_image_def hdr_def hc_def)
  have hl: "length hdr = 64" using length_header_bytes [OF assms(1)] by (simp add: hdr_def)
  have "hc < 2 ^ 32" unfolding hc_def by (rule u32_less)
  note f = header_fields [OF assms(1) this assms(2), folded hdr_def]
  have stored: "be_nat (take 4 (drop 4 hdr)) = hc" using f(2) [of "[]"] hcrc_of_bytes [OF hl, of "[]"] by simp
  have set: "unat (crc32 0 0 (bytes (image_set_hcrc 0 hdr))) = hc" by (simp add: hdr_def set_hcrc_header hc_def)
  have ok: "image_check_hcrc (hdr @ x) = Some True" for x using check_hcrc_bytes [OF hl f(2)] set by simp
  have bad: "image_check_hcrc (m[i := c]) = Some False \<or> image_check_hcrc (m[i := c]) = Some True \<and> image_check_dcrc wd (m[i := c]) = Some False"
    if i: "i < length (legacy_image h data)" "c \<noteq> m ! i" for i c
  proof (cases "i < 64")
    case True
    then have "m[i := c] = hdr[i := c] @ data @ r" "m ! i = hdr ! i" by (simp_all add: m hl list_update_append1 nth_append)
    then show ?thesis using corrupted_header [OF hl _ True, of c "data @ r"] stored set i(2) by simp
  next
    case False
    then have u: "m[i := c] = hdr @ data[i - 64 := c] @ r" "m ! i = data ! (i - 64)" "i - 64 < length data"
      using i(1) length_header_bytes [OF assms(1)] hl by (auto simp: m legacy_image_def list_update_append nth_append)
    have "image_get_size (hdr @ data[i - 64 := c] @ r) = Some (length (data[i - 64 := c]))" using f(3) by simp
    then have "image_check_dcrc wd (hdr @ data[i - 64 := c] @ r) = Some (unat (crc32 0 0 (bytes (data[i - 64 := c]))) = unat (crc32 0 0 (bytes data)))"
      using check_dcrc_bytes [OF hl _ f(6)] by blast
    then show ?thesis using u i(2) ok crc_update_differs [OF u(3), of c 0 0] by (simp add: word_unat_eq_iff [symmetric])
  qed
  then show ?thesis using legacy_image_checks [OF assms] by blast
qed

definition sample_header :: image_header where
  "sample_header = \<lparr>ih_time = 0, ih_load = 0x8000, ih_ep = 0x8000, ih_os = CHR 0x05, ih_arch = CHR 0x02, ih_type = CHR 0x02, ih_comp = NUL,
     ih_name = replicate 32 NUL\<rparr>"

lemma sample_header_ok: "header_ok sample_header"
  by (simp add: sample_header_def header_ok_def IH_NMLEN_def)

theorem legacy_image_integrity_witness:
  "let m = legacy_image sample_header ''vmlinuz'' in
   image_check_hcrc m = Some True \<and> image_check_dcrc True m = Some True
   \<and> (image_check_hcrc (m[64 := CHR ''x'']) \<noteq> Some True \<or> image_check_dcrc True (m[64 := CHR ''x'']) = Some False)"
proof -
  have "legacy_image sample_header ''vmlinuz'' ! 64 = CHR ''v''" "length (legacy_image sample_header ''vmlinuz'') = 71"
    using length_header_bytes [OF sample_header_ok] by (simp_all add: legacy_image_def nth_append)
  then show ?thesis using legacy_image_integrity [OF sample_header_ok, of "''vmlinuz''" _ "[]" True]
    by (auto simp: Let_def elim!: allE [of _ 64] allE [of _ "CHR ''x''"])
qed

section \<open>The parts of an image\<close>

definition multi_payload :: "char list list \<Rightarrow> char list" where
  "multi_payload parts = concat (map (\<lambda>p. be32 (length p)) parts) @ be32 0 @ concat (map padded (butlast parts)) @ last parts"

text \<open>An image with parts that are not empty, in less than 4 GB.\<close>

definition multi_image :: "char list \<Rightarrow> char list list \<Rightarrow> char list \<Rightarrow> bool" where
  "multi_image m parts r \<longleftrightarrow> (\<exists>h64. length h64 = 64 \<and> m = h64 @ multi_payload parts @ r) \<and> parts \<noteq> [] \<and> (\<forall>p \<in> set parts. p \<noteq> [])
     \<and> 64 + length (multi_payload parts) + 4 < 2 ^ 32"

lemma length_padded_eq: "length (padded p) = (length p + 3) div 4 * 4"
proof -
  obtain k where "length (padded p) = 4 * k" using length_padded(1) [of p] by (rule dvdE)
  then show ?thesis using length_padded(2,3) [of p] by presburger
qed

lemma length_sizes: "length (concat (map (\<lambda>p. be32 (length p)) parts)) = 4 * length parts"
  by (induction parts) simp_all

lemma layout_split:
  assumes "i < length parts"
  shows "\<exists>x. concat (map padded (butlast parts)) @ last parts = concat (map padded (take i parts)) @ parts ! i @ x"
proof (cases "i = length parts - 1")
  case True
  moreover have "parts \<noteq> []" using assms by auto
  ultimately show ?thesis by (intro exI [of _ "[]"]) (simp add: butlast_conv_take last_conv_nth)
next
  case False
  then have e: "butlast parts = take i parts @ parts ! i # drop (Suc i) (butlast parts)"
    using assms id_take_nth_drop [of i "butlast parts"] by (simp add: nth_butlast take_butlast)
  have "concat (map padded (butlast parts)) = concat (map padded (take i parts)) @ padded (parts ! i) @ concat (map padded (drop (Suc i) (butlast parts)))"
    using arg_cong [OF e, of "\<lambda>ps. concat (map padded ps)"] by simp
  moreover obtain z where "padded (parts ! i) = parts ! i @ z" using padded_def by blast
  ultimately show ?thesis by simp
qed

lemma part_small:
  assumes "multi_image m parts r" and "i < length parts"
  shows "length (parts ! i) + 4 < 2 ^ 32" "length (concat (map padded (take i parts))) + 4 < 2 ^ 32"
proof -
  obtain x where "concat (map padded (butlast parts)) @ last parts = concat (map padded (take i parts)) @ parts ! i @ x" using layout_split [OF assms(2)] by blast
  then have "length (concat (map padded (take i parts))) + length (parts ! i) \<le> length (multi_payload parts)" by (simp add: multi_payload_def)
  then show "length (parts ! i) + 4 < 2 ^ 32" "length (concat (map padded (take i parts))) + 4 < 2 ^ 32" using assms(1) by (auto simp: multi_image_def)
qed

lemma size_at_part:
  assumes "multi_image m parts r"
  shows "i < length parts \<Longrightarrow> size_at m i = Some (length (parts ! i))" and "size_at m (length parts) = Some 0"
proof -
  obtain h64 where h: "length h64 = 64" "m = h64 @ multi_payload parts @ r" using assms by (auto simp: multi_image_def)
  let ?f = "\<lambda>ps. concat (map (\<lambda>p. be32 (length p)) ps)"
  show "size_at m (length parts) = Some 0"
    using be32_field [of "h64 @ ?f parts" "64 + 4 * length parts" 0] h length_sizes [of parts]
    by (simp add: size_at_def image_get_header_size_def multi_payload_def)
  assume i: "i < length parts"
  have "?f parts = ?f (take i parts) @ be32 (length (parts ! i)) @ ?f (drop (Suc i) parts)"
    by (subst id_take_nth_drop [OF i]) simp
  then have "m = (h64 @ ?f (take i parts)) @ be32 (length (parts ! i)) @ ?f (drop (Suc i) parts) @ be32 0 @ concat (map padded (butlast parts)) @ last parts @ r"
    using h(2) by (simp add: multi_payload_def)
  then show "size_at m i = Some (length (parts ! i))"
    using be32_field [of "h64 @ ?f (take i parts)" "64 + 4 * i"] h(1) length_sizes [of "take i parts"] i part_small(1) [OF assms i]
    by (simp add: size_at_def image_get_header_size_def)
qed

lemma multi_count_parts:
  assumes "multi_image m parts r"
  shows "image_multi_count m = Some (length parts)"
proof -
  have "multi_count_loop m (length parts - n) = Some (length parts)" if "n \<le> length parts" for n
    using that
  proof (induction n)
    case 0
    then show ?case using size_at_part(2) [OF assms] by (subst multi_count_loop.simps) simp
  next
    case (Suc n)
    let ?i = "length parts - Suc n"
    have "?i < length parts" "?i + 1 = length parts - n" using Suc.prems by simp_all
    moreover have "length (parts ! ?i) \<noteq> 0" using assms nth_mem [OF \<open>?i < length parts\<close>] by (auto simp: multi_image_def)
    ultimately show ?case using size_at_part(1) [OF assms, of ?i] Suc by (subst multi_count_loop.simps) simp
  qed
  from this [of "length parts"] show ?thesis by (simp add: image_multi_count_def)
qed

lemma multi_offset_parts:
  assumes "multi_image m parts r"
  shows "i + n < length parts \<Longrightarrow> off = length (concat (map padded (take i parts))) \<Longrightarrow>
    multi_offset m i n off = Some (length (concat (map padded (take (i + n) parts))))"
proof (induction n arbitrary: i off)
  case (Suc n)
  have i: "i < length parts" "i + 1 < length parts \<or> n = 0" using Suc.prems(1) by auto
  have t: "take (i + 1) parts = take i parts @ [parts ! i]" using i(1) by (simp add: take_Suc_conv_app_nth)
  have "(length (parts ! i) + 3) mod 2 ^ 32 = length (parts ! i) + 3" using part_small(1) [OF assms i(1)] by simp
  moreover have "length (concat (map padded (take (i + 1) parts))) < 2 ^ 32" using part_small(2) [OF assms, of "i + 1"] Suc.prems(1) by simp
  ultimately have "(off + (length (parts ! i) + 3) mod 2 ^ 32 div 4 * 4) mod 2 ^ 32 = length (concat (map padded (take (i + 1) parts)))"
    using Suc.prems(2) t by (simp add: length_padded_eq)
  then show ?case using Suc.IH [of "i + 1"] Suc.prems(1) size_at_part(1) [OF assms i(1)] by simp
qed simp

text \<open>
  \<^bold>\<open>C21.\<close> The parts of an image. For an image with parts as the format defines it, at an address such that the image
  does not wrap around, \<^verbatim>\<open>image_multi_count\<close> is the number of the parts; \<^verbatim>\<open>image_multi_getimg\<close> returns the address
  and the length of the part of each index, whose bytes are there, and zeros for an index out of range.
\<close>

theorem image_multi_getimg_parts:
  assumes "multi_image m parts r" and "a + 64 + length (multi_payload parts) < 2 ^ 32"
  shows "image_multi_count m = Some (length parts)
    \<and> (case idx < length parts of
        True \<Rightarrow> (\<exists>off. image_multi_getimg a m idx = Some (a + off, length (parts ! idx)) \<and> prefix (parts ! idx) (drop off m))
      | False \<Rightarrow> image_multi_getimg a m idx = Some (0, 0))"
proof (cases "idx < length parts")
  case True
  let ?n = "length (concat (map padded (take idx parts)))"
  obtain x where x: "concat (map padded (butlast parts)) @ last parts = concat (map padded (take idx parts)) @ parts ! idx @ x" using layout_split [OF True] by blast
  obtain h64 where h: "length h64 = 64" "m = h64 @ multi_payload parts @ r" using assms(1) by (auto simp: multi_image_def)
  define off where "off = 64 + 4 * length parts + 4 + ?n"
  have "length (multi_payload parts) = 4 * length parts + 4 + ?n + length (parts ! idx) + length x"
    using x length_sizes [of parts] by (simp add: multi_payload_def)
  then have "a + off < 2 ^ 32" using assms(2) by (simp add: off_def)
  then have "image_multi_getimg a m idx = Some (a + off, length (parts ! idx))"
    using multi_count_parts [OF assms(1)] size_at_part(1) [OF assms(1) True] multi_offset_parts [OF assms(1), of 0 idx 0] True
    by (simp add: image_multi_getimg_def image_get_data_def image_get_header_size_def off_def Let_def algebra_simps)
  moreover have "m = (h64 @ concat (map (\<lambda>p. be32 (length p)) parts) @ be32 0 @ concat (map padded (take idx parts))) @ parts ! idx @ x @ r"
    using h(2) x by (simp add: multi_payload_def)
  then have "drop off m = parts ! idx @ x @ r" using h(1) length_sizes [of parts] by (simp add: off_def)
  ultimately show ?thesis using True multi_count_parts [OF assms(1)] by auto
qed (use multi_count_parts [OF assms(1)] in \<open>simp add: image_multi_getimg_def Let_def\<close>)

theorem image_multi_getimg_parts_witness:
  "image_multi_getimg 0x100000 (replicate 64 NUL @ multi_payload [''kernel'', ''ramdisk''] @ ''more'') 1 = Some (0x100000 + 84, 7)"
proof -
  let ?m = "replicate 64 NUL @ multi_payload [''kernel'', ''ramdisk''] @ ''more''"
  have m: "multi_image ?m [''kernel'', ''ramdisk''] ''more''" by (force simp: multi_image_def multi_payload_def padded_def)
  obtain off where off: "image_multi_getimg 0x100000 ?m 1 = Some (0x100000 + off, 7)"
    using image_multi_getimg_parts [OF m, of "0x100000" 1] by (auto simp: multi_payload_def padded_def)
  have "off = 84" using off multi_count_parts [OF m] size_at_part(1) [OF m, of 0] size_at_part(1) [OF m, of 1] multi_offset_parts [OF m, of 0 1 0]
    by (simp add: image_multi_getimg_def image_get_data_def image_get_header_size_def length_padded_eq)
  then show ?thesis using off by simp
qed

end
