(* ===== verification/ImageSig.thy ===== *)
theory ImageSig
  imports Fit Vsprintf
begin

text \<open>
  The signatures of FIT images: \<^verbatim>\<open>common/image-sig.c\<close> and \<^verbatim>\<open>lib/ecdsa/ecdsa-verify.c\<close>. The curve arithmetic of
  the vendored library \<^verbatim>\<open>lib/mbedtls\<close> is a parameter, a record of the five functions that are called. The
  board defines \<^verbatim>\<open>CONFIG_FORCE_CONFIG_VERIFY\<close>, and it does not define \<^verbatim>\<open>CONFIG_SYS_VSNPRINTF\<close>, so that \<^verbatim>\<open>snprintf\<close>
  is a macro for \<^verbatim>\<open>sprintf\<close> (\<^verbatim>\<open>include/vsprintf.h\<close>).
\<close>

section \<open>Algorithms\<close>

definition EPERM :: int where "EPERM = 1"
definition ENOENT :: int where "ENOENT = 2"
definition ENXIO :: int where "ENXIO = 6"
definition EFAULT :: int where "EFAULT = 14"

lemmas errnos = EPERM_def ENOENT_def ENXIO_def EFAULT_def EINVAL_def

record checksum_algo =
  checksum_name :: string
  checksum_len :: nat

datatype verify_fun = Rsa | Ecdsa

record crypto_algo =
  crypto_name :: string
  key_len :: nat
  crypto_verify :: verify_fun

definition checksum_algos :: "checksum_algo list" where
  "checksum_algos =
    [\<lparr>checksum_name = ''sha1'', checksum_len = 20\<rparr>, \<lparr>checksum_name = ''sha256'', checksum_len = 32\<rparr>,
     \<lparr>checksum_name = ''sha384'', checksum_len = 48\<rparr>, \<lparr>checksum_name = ''sha512'', checksum_len = 64\<rparr>]"

definition crypto_algos :: "crypto_algo list" where
  "crypto_algos =
    [\<lparr>crypto_name = ''rsa2048'', key_len = 256, crypto_verify = Rsa\<rparr>, \<lparr>crypto_name = ''rsa4096'', key_len = 512, crypto_verify = Rsa\<rparr>,
     \<lparr>crypto_name = ''secp256r1'', key_len = 32, crypto_verify = Ecdsa\<rparr>, \<lparr>crypto_name = ''secp384r1'', key_len = 48, crypto_verify = Ecdsa\<rparr>]"

text \<open>\<open>Some None\<close> is the NULL pointer.\<close>

fun find_checksum :: "checksum_algo list \<Rightarrow> char list \<Rightarrow> checksum_algo option option" where
  "find_checksum [] full_name = Some None"
| "find_checksum (a # as) full_name = do {
     r \<leftarrow> strncmp (checksum_name a @ [NUL]) full_name (length (checksum_name a));
     if r = 0 then do {
       c \<leftarrow> rd full_name (length (checksum_name a));
       if c = CHR '','' then Some (Some a) else find_checksum as full_name }
     else find_checksum as full_name }"

definition image_get_checksum_algo :: "char list \<Rightarrow> checksum_algo option option" where
  "image_get_checksum_algo = find_checksum checksum_algos"

fun find_crypto :: "crypto_algo list \<Rightarrow> char list \<Rightarrow> crypto_algo option option" where
  "find_crypto [] name = Some None"
| "find_crypto (a # as) name = do {
     r \<leftarrow> strcmp (crypto_name a @ [NUL]) name;
     if r = 0 then Some (Some a) else find_crypto as name }"

definition image_get_crypto_algo :: "char list \<Rightarrow> crypto_algo option option" where
  "image_get_crypto_algo full_name = do {
     name \<leftarrow> strchr full_name CHR '','';
     case name of None \<Rightarrow> Some None | Some i \<Rightarrow> find_crypto crypto_algos (drop (i + 1) full_name) }"

section \<open>Verification with ECDSA\<close>

text \<open>
  The library, the memory of fresh hash contexts, what the arrays \<^verbatim>\<open>hash\<close> and \<^verbatim>\<open>name\<close> hold before they
  are written, and the device tree with the keys (\<^verbatim>\<open>gd_fdt_blob()\<close>).
\<close>

record ('g, 'p, 's) mbedtls =
  curve_info_from_name :: "string \<Rightarrow> nat option"
  group_load :: "nat \<Rightarrow> int \<times> 'g"
  point_read_binary :: "'g \<Rightarrow> u8 list \<Rightarrow> int \<times> 'p"
  read_signature :: "u8 list \<Rightarrow> int \<times> 's"
  verify_signature :: "'g \<Rightarrow> u8 list \<Rightarrow> 'p \<Rightarrow> 's \<Rightarrow> int"

record ('g, 'p, 's) sig_env =
  lib :: "('g, 'p, 's) mbedtls"
  hmem :: hash_mem
  hash_stack :: "u8 list"
  name_stack :: "char list"
  fdt_blob :: "char list"

record image_sign_info =
  keyname :: "char list option"
  fit :: "char list"
  node_offset :: int
  algo :: "char list"
  checksum :: checksum_algo
  crypto :: crypto_algo
  required_keynode :: int

definition ecdsa_verify_key :: "('g, 'p, 's) mbedtls \<Rightarrow> image_sign_info \<Rightarrow> u8 list \<Rightarrow> u8 list \<Rightarrow> u8 list \<Rightarrow> int" where
  "ecdsa_verify_key L info pubkey sig hash =
     (case curve_info_from_name L (crypto_name (crypto info)) of None \<Rightarrow> - EINVAL
      | Some grp_id \<Rightarrow>
          let (ret, grp) = group_load L grp_id in
          if ret < 0 then - EINVAL
          else let (ret, q) = point_read_binary L grp pubkey in
            if ret < 0 then - EINVAL
            else let (ret, rs) = read_signature L sig in
              if ret < 0 then - EINVAL
              else let ret = verify_signature L grp (take (key_len (crypto info)) hash) q rs in
                if ret < 0 then - EINVAL else ret)"

text \<open>A region is an offset in the image and a size.\<close>

definition ecdsa_verify :: "('g, 'p, 's) sig_env \<Rightarrow> image_sign_info \<Rightarrow> (int \<times> int) list \<Rightarrow> u8 list \<Rightarrow> int option" where
  "ecdsa_verify E info areas sig =
     (if checksum_len (checksum info) > key_len (crypto info) then Some (- EINVAL)
      else do {
        sig_node \<leftarrow> fdt_subnode_offset (fdt_blob E) 0 (''signature'' @ [NUL]);
        if sig_node < 0 then Some (- ENOENT)
        else do {
          data \<leftarrow> those (map (\<lambda>(offset, sz). read_bytes (fit info) offset sz) areas);
          r \<leftarrow> hash_calculate (hmem E) (checksum_name (checksum info) @ [NUL]) (map bytes data);
          case r of Inl _ \<Rightarrow> Some (- EINVAL)
          | Inr h \<Rightarrow> do {
              (n, name, w) \<leftarrow> vsprintf 0 (name_stack E) (''key-%s'' @ [NUL]) [Vstr (keyname info)];
              node \<leftarrow> fdt_subnode_offset (fdt_blob E) sig_node name;
              if node < 0 then Some (- ENOENT)
              else do {
                (pubkey, pubkey_len) \<leftarrow> fdt_getprop (fdt_blob E) node ''pubkey'';
                case pubkey of None \<Rightarrow> Some (- EFAULT)
                | Some i \<Rightarrow>
                    if pubkey_len \<le> 0 then Some (- EFAULT)
                    else do {
                      pk \<leftarrow> read_bytes (fdt_blob E) (int i) pubkey_len;
                      Some (ecdsa_verify_key (lib E) info (bytes pk) sig (h @ drop (length h) (hash_stack E))) } } } } })"

definition rsa_verify :: "image_sign_info \<Rightarrow> (int \<times> int) list \<Rightarrow> u8 list \<Rightarrow> int option" where
  "rsa_verify info areas sig = Some (- ENXIO)"

fun verify_with :: "verify_fun \<Rightarrow> ('g, 'p, 's) sig_env \<Rightarrow> image_sign_info \<Rightarrow> (int \<times> int) list \<Rightarrow> u8 list \<Rightarrow> int option" where
  "verify_with Rsa E = rsa_verify"
| "verify_with Ecdsa E = ecdsa_verify E"

section \<open>Signatures of images\<close>

definition fit_image_setup_verify :: "char list \<Rightarrow> int \<Rightarrow> int \<Rightarrow> image_sign_info option option" where
  "fit_image_setup_verify m noffset required = do {
     a \<leftarrow> fit_image_hash_get_algo m noffset;
     case a of None \<Rightarrow> Some None
     | Some a \<Rightarrow> do {
         (key, _) \<leftarrow> fdt_getprop m noffset ''key-name-hint'';
         csum \<leftarrow> image_get_checksum_algo (drop a m);
         cry \<leftarrow> image_get_crypto_algo (drop a m);
         Some (case (csum, cry) of
           (Some csum, Some cry) \<Rightarrow> Some \<lparr>keyname = map_option (\<lambda>k. drop k m) key, fit = m, node_offset = noffset,
             algo = drop a m, checksum = csum, crypto = cry, required_keynode = required\<rparr>
         | _ \<Rightarrow> None) } }"

text \<open>The value and then the verification; \<open>regions\<close> is what happens between them.\<close>

definition fit_image_check_sig :: "('g, 'p, 's) sig_env \<Rightarrow> char list \<Rightarrow> int \<Rightarrow> int \<times> int \<Rightarrow> int \<Rightarrow> int option" where
  "fit_image_check_sig E m noffset data required = do {
     info \<leftarrow> fit_image_setup_verify m noffset required;
     case info of None \<Rightarrow> Some (-1)
     | Some info \<Rightarrow> do {
         v \<leftarrow> fit_image_hash_get_value m noffset;
         case v of None \<Rightarrow> Some (-1)
         | Some (i, fit_value_len) \<Rightarrow> do {
             sig \<leftarrow> read_bytes m (int i) fit_value_len;
             r \<leftarrow> verify_with (crypto_verify (crypto info)) E info [data] (bytes sig);
             Some (if r \<noteq> 0 then -1 else 0) } } }"

text \<open>
  \<^verbatim>\<open>fdt_for_each_subnode\<close> with a check of the nodes that are called \<^verbatim>\<open>signature\<close>: has one been verified, and
  the final offset.
\<close>

partial_function (option) signature_loop :: "(int \<Rightarrow> int option) \<Rightarrow> char list \<Rightarrow> int \<Rightarrow> (bool \<times> int) option" where
  "signature_loop check m noffset =
     (if noffset < 0 then Some (False, noffset)
      else do {
        (name, _) \<leftarrow> fdt_get_name m noffset;
        i \<leftarrow> name;
        r \<leftarrow> strncmp (drop i m) (''signature'' @ [NUL]) 9;
        ret \<leftarrow> (if r = 0 then check noffset else Some 1);
        if ret = 0 then Some (True, noffset)
        else do { noffset \<leftarrow> fdt_next_subnode m noffset; signature_loop check m noffset } })"

definition verify_sig :: "(int \<Rightarrow> int option) \<Rightarrow> char list \<Rightarrow> int \<Rightarrow> int option" where
  "verify_sig check m parent = do {
     noffset \<leftarrow> fdt_first_subnode m parent;
     (verified, noffset) \<leftarrow> signature_loop check m noffset;
     Some (if noffset = - FDT_ERR_TRUNCATED \<or> noffset = - FDT_ERR_BADSTRUCTURE then -1
           else if verified then 0 else - EPERM) }"

definition fit_image_verify_sig :: "('g, 'p, 's) sig_env \<Rightarrow> char list \<Rightarrow> int \<Rightarrow> int \<times> int \<Rightarrow> int \<Rightarrow> int option" where
  "fit_image_verify_sig E m image_noffset data sig_offset =
     verify_sig (\<lambda>noffset. fit_image_check_sig E m noffset data (-1)) m image_noffset"

text \<open>The loop over the keys of \<open>blob\<close> that are required; the number of verifications that succeeded.\<close>

partial_function (option) required_loop :: "(int \<Rightarrow> int option) \<Rightarrow> string \<Rightarrow> char list \<Rightarrow> int \<Rightarrow> nat \<Rightarrow> (int + nat) option" where
  "required_loop check what blob noffset verify_count =
     (if noffset < 0 then Some (Inr verify_count)
      else do {
        (required, _) \<leftarrow> fdt_getprop blob noffset ''required'';
        skip \<leftarrow> (case required of None \<Rightarrow> Some True | Some i \<Rightarrow> map_option (\<lambda>r. r \<noteq> 0) (strcmp (drop i blob) (what @ [NUL])));
        ret \<leftarrow> (if skip then Some 0 else check noffset);
        if ret \<noteq> 0 then Some (Inl ret)
        else do {
          next_noffset \<leftarrow> fdt_next_subnode blob noffset;
          required_loop check what blob next_noffset (if skip then verify_count else verify_count + 1) } })"

definition verify_required :: "(int \<Rightarrow> int option) \<Rightarrow> string \<Rightarrow> char list \<Rightarrow> (int \<times> nat) option" where
  "verify_required check what blob = do {
     sig_node \<leftarrow> fdt_subnode_offset blob 0 (''signature'' @ [NUL]);
     if sig_node < 0 then Some (0, 0)
     else do {
       noffset \<leftarrow> fdt_first_subnode blob sig_node;
       r \<leftarrow> required_loop check what blob noffset 0;
       Some (case r of Inl ret \<Rightarrow> (ret, 0) | Inr n \<Rightarrow> (0, n)) } }"

text \<open>The second component is \<^verbatim>\<open>*no_sigsp\<close>.\<close>

definition fit_image_verify_required_sigs :: "('g, 'p, 's) sig_env \<Rightarrow> char list \<Rightarrow> int \<Rightarrow> int \<times> int \<Rightarrow> char list \<Rightarrow> (int \<times> int) option" where
  "fit_image_verify_required_sigs E m image_noffset data sig_blob =
     map_option (\<lambda>(ret, n). (ret, if n \<noteq> 0 then 0 else 1))
       (verify_required (fit_image_verify_sig E m image_noffset data) ''image'' sig_blob)"

section \<open>Signatures of configurations\<close>

definition IMAGE_MAX_HASHED_NODES :: nat where "IMAGE_MAX_HASHED_NODES = 100"

text \<open>The list \<^verbatim>\<open>node_inc\<close> of the strings that begin before \<open>e\<close>; the array has a fixed number of elements.\<close>

fun node_inc_loop :: "char list \<Rightarrow> nat \<Rightarrow> nat \<Rightarrow> nat \<Rightarrow> char list list option" where
  "node_inc_loop m name e 0 = (if name < e then None else Some [])"
| "node_inc_loop m name e (Suc room) =
     (if name < e then do {
        n \<leftarrow> strlen (drop name m);
        rest \<leftarrow> node_inc_loop m (name + n + 1) e room;
        Some (drop name m # rest) }
      else Some [])"

definition hashed_nodes :: "char list \<Rightarrow> int \<Rightarrow> char list list option option" where
  "hashed_nodes m noffset = do {
     (prop, prop_len) \<leftarrow> fdt_getprop m noffset ''hashed-nodes'';
     case prop of None \<Rightarrow> Some None
     | Some p \<Rightarrow> do {
         bs \<leftarrow> read_bytes m (int p) (max 0 prop_len);
         let count = length (filter (\<lambda>c. c = NUL) bs);
         if count = 0 \<or> count > IMAGE_MAX_HASHED_NODES then Some None
         else map_option Some (node_inc_loop m p (p + length bs) count) } }"

text \<open>
  The regions to hash, \<open>Some None\<close> on failure. The array \<^verbatim>\<open>fdt_regions\<close> is written before it is read.
\<close>

definition config_regions :: "char list \<Rightarrow> int \<Rightarrow> char list list \<Rightarrow> (int \<times> int) list option option" where
  "config_regions m noffset node_inc = do {
     let max_regions = 20 + length node_inc * 7;
     (count, regions) \<leftarrow> fdt_find_regions m node_inc [''data'' @ [NUL]] (replicate max_regions (0, 0)) (max_regions - 1) 200 False;
     if count \<le> 0 \<or> count \<ge> int max_regions - 1 then Some None
     else do {
       (strings, _) \<leftarrow> fdt_getprop m noffset ''hashed-strings'';
       case strings of None \<Rightarrow> Some (Some (take (nat count) regions))
       | Some i \<Rightarrow> do {
           os \<leftarrow> fdt_off_dt_strings m;
           a \<leftarrow> fdt32_to_cpu m i;
           b \<leftarrow> fdt32_to_cpu m (i + 4);
           regions \<leftarrow> wr regions (nat count) (s32 (int (os + a)), s32 (int b));
           Some (Some (take (nat count + 1) regions)) } } }"

definition fit_config_check_sig :: "('g, 'p, 's) sig_env \<Rightarrow> char list \<Rightarrow> int \<Rightarrow> int \<Rightarrow> int option" where
  "fit_config_check_sig E m noffset required = do {
     info \<leftarrow> fit_image_setup_verify m noffset required;
     case info of None \<Rightarrow> Some (-1)
     | Some info \<Rightarrow> do {
         v \<leftarrow> fit_image_hash_get_value m noffset;
         case v of None \<Rightarrow> Some (-1)
         | Some (i, fit_value_len) \<Rightarrow> do {
             inc \<leftarrow> hashed_nodes m noffset;
             case inc of None \<Rightarrow> Some (-1)
             | Some node_inc \<Rightarrow> do {
                 areas \<leftarrow> config_regions m noffset node_inc;
                 case areas of None \<Rightarrow> Some (-1)
                 | Some areas \<Rightarrow> do {
                     sig \<leftarrow> read_bytes m (int i) fit_value_len;
                     r \<leftarrow> verify_with (crypto_verify (crypto info)) E info areas (bytes sig);
                     Some (if r \<noteq> 0 then -1 else 0) } } } } }"

definition fit_config_verify_sig :: "('g, 'p, 's) sig_env \<Rightarrow> char list \<Rightarrow> int \<Rightarrow> int \<Rightarrow> int option" where
  "fit_config_verify_sig E m conf_noffset sig_offset =
     verify_sig (\<lambda>noffset. fit_config_check_sig E m noffset sig_offset) m conf_noffset"

definition fit_config_verify_required_sigs :: "('g, 'p, 's) sig_env \<Rightarrow> char list \<Rightarrow> int \<Rightarrow> char list \<Rightarrow> int option" where
  "fit_config_verify_required_sigs E m conf_noffset sig_blob =
     map_option fst (verify_required (fit_config_verify_sig E m conf_noffset) ''conf'' sig_blob)"

text \<open>With \<^verbatim>\<open>CONFIG_FORCE_CONFIG_VERIFY\<close>, and without.\<close>

definition fit_config_verify :: "bool \<Rightarrow> ('g, 'p, 's) sig_env \<Rightarrow> char list \<Rightarrow> int \<Rightarrow> int option" where
  "fit_config_verify forced E m conf_noffset =
     (if forced then fit_config_verify_sig E m conf_noffset (-1)
      else fit_config_verify_required_sigs E m conf_noffset (fdt_blob E))"

section \<open>The name of the key\<close>

lemma emit_overflow: "\<not> vsn st \<Longrightarrow> length (obuf st) < pos st + length cs \<Longrightarrow> pos st \<le> length (obuf st) \<Longrightarrow> emit st cs = None"
proof (induction cs arbitrary: st)
  case (Cons c cs)
  then show ?case by (cases "pos st < length (obuf st)") (auto simp: ADDCH_def wr_def)
qed simp

text \<open>What \<^verbatim>\<open>%s\<close> prints for a pointer.\<close>

definition printed :: "char list option \<Rightarrow> char list" where
  "printed v = (case v of None \<Rightarrow> ''<NULL>'' @ [NUL] | Some bs \<Rightarrow> bs)"

lemma directive_s:
  "directive st (CHR ''s'' # r) [Vstr v] = Option.bind (strnlen (printed v) (2 ^ 32 - 1)) (\<lambda>n. map_option (\<lambda>st. (st, r, [])) (emit st (take n (printed v))))"
proof -
  have "string st v (-1) (-1) 0 = Option.bind (strnlen (printed v) (2 ^ 32 - 1)) (\<lambda>n. emit st (take n (printed v)))"
    by (simp add: string_def pad_to_def pad_emit LEFT_def Let_def option.map_comp comp_def printed_def map_option_case split: option.split Option.bind_split)
  moreover have "\<not> is_digit CHR ''s''" by code_simp
  ultimately show ?thesis
    by (simp add: directive_def parse_width_def parse_precision_def parse_qualifier_def rd_def convert_def convert_string_def option.map_comp comp_def map_option_bind)
qed

lemma sprintf_key_format:
  "format_loop st (''key-%s'' @ [NUL]) [Vstr v] = Option.bind (emit st ''key-'') (\<lambda>st. Option.bind (strnlen (printed v) (2 ^ 32 - 1)) (\<lambda>n. emit st (take n (printed v))))"
proof -
  have lit: "\<forall>c \<in> set ''key-''. c \<noteq> NUL \<and> c \<noteq> CHR ''%''" by simp
  have "format_loop st' (''%s'' @ [NUL]) [Vstr v] = Option.bind (strnlen (printed v) (2 ^ 32 - 1)) (\<lambda>n. emit st' (take n (printed v)))" for st'
    by (simp add: directive_s bind_assoc map_option_case split: option.split Option.bind_split)
  then show ?thesis using format_literal [OF lit, of st "''%s'' @ [NUL]" "[Vstr v]"] by simp
qed

lemma sprintf_key:
  assumes "cstring s (printed v)" and "length s < 2 ^ 32"
  shows "length s + 4 < length b \<Longrightarrow> vsprintf a b (''key-%s'' @ [NUL]) [Vstr v] = Some (length s + 4, ''key-'' @ s @ NUL # drop (length s + 5) b, [])"
    and "length b \<le> length s + 4 \<Longrightarrow> vsprintf a b (''key-%s'' @ [NUL]) [Vstr v] = None"
proof -
  let ?st = "\<lparr>vsn = False, en = 2 ^ 31 - 1, obuf = b, pos = 0, stores = []\<rparr>" and ?t = "''key-'' @ s"
  obtain x where bs: "printed v = s @ NUL # x" "NUL \<notin> set s" using assms(1) by (auto simp: cstring_def prefix_def)
  have "strnlen (printed v) (2 ^ 32 - 1) = Some (length s)" using strnlen_run [OF bs(2), of x "2 ^ 32 - 1"] assms(2) bs(1) by simp
  then have f: "format_loop ?st (''key-%s'' @ [NUL]) [Vstr v] = emit ?st ?t"
    using bs(1) sprintf_key_format [of ?st v] emit_append [of ?st "''key-''" s] by simp
  show "vsprintf a b (''key-%s'' @ [NUL]) [Vstr v] = None" if "length b \<le> length s + 4"
  proof (cases "length b = length s + 4")
    case True
    then show ?thesis using f emit_unbounded [of ?st ?t] by (simp add: vsprintf_def vsnprintf_internal_def wr_def del: format_loop.simps emit.simps)
  next
    case False
    then show ?thesis using f that emit_overflow [of ?st ?t] by (simp add: vsprintf_def vsnprintf_internal_def del: format_loop.simps emit.simps)
  qed
  assume fits: "length s + 4 < length b"
  have "(?t @ drop (length ?t) b)[length ?t := NUL] = ?t @ NUL # drop (Suc (length ?t)) b"
    using fits by (simp add: list_update_append Cons_nth_drop_Suc [symmetric])
  moreover have "drop (Suc (length ?t)) b = drop (length s + 5) b" by (rule arg_cong [of _ _ "\<lambda>n. drop n b"]) simp
  ultimately show "vsprintf a b (''key-%s'' @ [NUL]) [Vstr v] = Some (length s + 4, ''key-'' @ s @ NUL # drop (length s + 5) b, [])"
    using f fits emit_unbounded [of ?st ?t] by (simp add: vsprintf_def vsnprintf_internal_def wr_def less_diff_conv add.commute del: format_loop.simps emit.simps)
qed

lemma strnlen_unterminated: "NUL \<notin> set bs \<Longrightarrow> length bs < n \<Longrightarrow> strnlen bs n = None"
  by (induction bs n rule: strnlen.induct) auto

lemma cstring_takeWhile: "NUL \<in> set bs \<Longrightarrow> cstring (takeWhile (\<lambda>c. c \<noteq> NUL) bs) bs"
  by (induction bs) auto

lemma sprintf_key_sound:
  assumes "vsprintf a b (''key-%s'' @ [NUL]) [Vstr v] = Some (n, b', w)" and "length (printed v) < 2 ^ 32 - 1"
  obtains s where "cstring s (printed v)" "length s + 4 < length b" "b' = ''key-'' @ s @ NUL # drop (length s + 5) b"
proof -
  have "NUL \<in> set (printed v)"
  proof (rule ccontr)
    assume "NUL \<notin> set (printed v)"
    from strnlen_unterminated [OF this assms(2)] have "format_loop st (''key-%s'' @ [NUL]) [Vstr v] = None" for st
      unfolding sprintf_key_format by (simp split: Option.bind_split)
    with assms(1) show False by (simp add: vsprintf_def vsnprintf_internal_def del: format_loop.simps)
  qed
  then obtain s where s: "cstring s (printed v)" using cstring_takeWhile by blast
  have "length s < length (printed v)" using s by (auto simp: cstring_def prefix_def)
  then have "length s < 2 ^ 32" using assms(2) by simp
  note k = sprintf_key [OF s this]
  show thesis using assms(1) k s by (cases "length s + 4 < length b") (auto intro: that)
qed

section \<open>The names of the algorithms\<close>

lemma strncmp_zero: "strncmp (p @ x) bs (length p) = Some 0 \<Longrightarrow> NUL \<notin> set p \<Longrightarrow> prefix p bs"
proof (induction p arbitrary: bs)
  case (Cons c p)
  then show ?case by (cases bs) (auto simp: Let_def split: if_splits)
qed simp

lemma strcmp_zero_left: "strcmp (s @ [NUL]) bs = Some 0 \<Longrightarrow> NUL \<notin> set s \<Longrightarrow> cstring s bs"
proof (induction s arbitrary: bs)
  case Nil
  then show ?case by (cases bs) (auto simp: Let_def split: if_splits)
next
  case (Cons c s)
  then show ?case by (cases bs) (auto simp: Let_def split: if_splits)
qed

lemma find_checksum_sound:
  "find_checksum as bs = Some (Some a) \<Longrightarrow> \<forall>a \<in> set as. NUL \<notin> set (checksum_name a) \<Longrightarrow> a \<in> set as \<and> prefix (checksum_name a @ '','') bs"
proof (induction as)
  case (Cons b as)
  then obtain r where r: "strncmp (checksum_name b @ [NUL]) bs (length (checksum_name b)) = Some r" by (auto simp: bind_eq_Some_conv)
  show ?case
  proof (cases "r = 0")
    case True
    obtain x where x: "bs = checksum_name b @ x" using strncmp_zero [of "checksum_name b" "[NUL]" bs] r True Cons.prems(2) by (auto simp: prefix_def)
    then obtain c where c: "rd bs (length (checksum_name b)) = Some c" using Cons.prems(1) r True by (auto simp: bind_eq_Some_conv)
    then obtain y where y: "x = c # y" using x by (cases x) (auto simp: rd_def nth_append split: if_splits)
    show ?thesis using Cons r True c x y by (cases "c = CHR '',''") (auto simp: prefix_def)
  qed (use Cons r in auto)
qed simp

lemma find_crypto_sound:
  "find_crypto as bs = Some (Some a) \<Longrightarrow> \<forall>a \<in> set as. NUL \<notin> set (crypto_name a) \<Longrightarrow> a \<in> set as \<and> cstring (crypto_name a) bs"
proof (induction as)
  case (Cons b as)
  then obtain r where r: "strcmp (crypto_name b @ [NUL]) bs = Some r" by (auto simp: bind_eq_Some_conv)
  then show ?case using Cons strcmp_zero_left [of "crypto_name b" bs] by (cases "r = 0") auto
qed simp

lemma strchr_skip: "c \<notin> set p \<Longrightarrow> NUL \<notin> set p \<Longrightarrow> strchr (p @ c # x) c = Some (Some (length p))"
  by (induction p) auto

lemma algo_names_sound:
  assumes "image_get_checksum_algo bs = Some (Some a)" and "image_get_crypto_algo bs = Some (Some c)"
  shows "a \<in> set checksum_algos" "c \<in> set crypto_algos" "cstring (checksum_name a @ '','' @ crypto_name c) bs"
proof -
  have nn: "\<forall>a \<in> set checksum_algos. NUL \<notin> set (checksum_name a) \<and> CHR '','' \<notin> set (checksum_name a)" "\<forall>a \<in> set crypto_algos. NUL \<notin> set (crypto_name a)"
    by (simp_all add: checksum_algos_def crypto_algos_def)
  then have a: "a \<in> set checksum_algos" "prefix (checksum_name a @ '','') bs"
    using find_checksum_sound [of checksum_algos bs a] assms(1) by (simp_all add: image_get_checksum_algo_def)
  then obtain x where x: "bs = checksum_name a @ CHR '','' # x" by (auto simp: prefix_def)
  have "strchr bs CHR '','' = Some (Some (length (checksum_name a)))" using strchr_skip nn a(1) x by blast
  then have "find_crypto crypto_algos x = Some (Some c)" using assms(2) x by (simp add: image_get_crypto_algo_def)
  from find_crypto_sound [OF this nn(2)] have c: "c \<in> set crypto_algos" "cstring (crypto_name c) x" by auto
  then have "cstring (checksum_name a @ '','' @ crypto_name c) bs" using x nn a(1) by (auto simp: cstring_def prefix_def)
  with a(1) c(1) show "a \<in> set checksum_algos" "c \<in> set crypto_algos" "cstring (checksum_name a @ '','' @ crypto_name c) bs" .
qed

section \<open>What a verified signature means\<close>

text \<open>The library accepts the signature of \<open>hash\<close> on a curve.\<close>

definition accepts :: "('g, 'p, 's) mbedtls \<Rightarrow> crypto_algo \<Rightarrow> u8 list \<Rightarrow> u8 list \<Rightarrow> u8 list \<Rightarrow> bool" where
  "accepts L c pubkey sig hash \<longleftrightarrow> (\<exists>grp_id. curve_info_from_name L (crypto_name c) = Some grp_id \<and>
     (case group_load L grp_id of (ret1, grp) \<Rightarrow> case point_read_binary L grp pubkey of (ret2, q) \<Rightarrow> case read_signature L sig of (ret3, rs) \<Rightarrow>
        0 \<le> ret1 \<and> 0 \<le> ret2 \<and> 0 \<le> ret3 \<and> verify_signature L grp (take (key_len c) hash) q rs = 0))"

lemma verify_key_accepts: "ecdsa_verify_key L info pubkey sig hash = 0 \<longleftrightarrow> accepts L (crypto info) pubkey sig hash"
  by (auto simp: ecdsa_verify_key_def accepts_def errnos Let_def split: option.splits prod.splits if_splits)

fun sum_kind :: "string \<Rightarrow> hash_kind" where
  "sum_kind s = (if s = ''sha1'' then SHA1 else if s = ''sha256'' then SHA256 else if s = ''sha384'' then SHA384 else SHA512)"

text \<open>The public key of a name in the tree \<open>kt\<close> of the keys.\<close>

definition lookup_key :: "char list \<Rightarrow> node \<Rightarrow> string \<Rightarrow> char list option" where
  "lookup_key kb kt hint = do {
     s \<leftarrow> find (\<lambda>c. name_matches ''signature'' (nname c)) (nkids kt);
     k \<leftarrow> find (\<lambda>c. name_matches (''key-'' @ hint) (nname c)) (nkids s);
     value_of_prop kb k ''pubkey'' }"

lemma checksum_lookup:
  assumes "a \<in> set checksum_algos"
  obtains row where "hash_progressive_lookup_algo (checksum_name a @ [NUL]) = Some (Inr row)" "kind row = sum_kind (checksum_name a)"
proof -
  have "cstring (checksum_name a) (checksum_name a @ [NUL])" using assms by (auto simp: checksum_algos_def)
  note look = lookup_algo_name [OF this hash_algo_names]
  show thesis using assms look unfolding checksum_algos_def
    by (auto simp: hash_progressive_lookup_algo_def hash_algos_def intro: that)
qed

lemma read_bytes_slice: "read_bytes m i n = Some d \<Longrightarrow> d = slice m (i, n) \<and> length d \<le> length m"
  by (auto simp: read_bytes_def slice_def split: if_splits)

lemma those_slices:
  "those (map (\<lambda>(offset, sz). read_bytes m offset sz) areas) = Some data \<Longrightarrow>
   data = map (slice m) areas \<and> (\<forall>d \<in> set data. length d \<le> length m)"
proof (induction areas arbitrary: data)
  case (Cons r areas)
  then show ?case using read_bytes_slice [of m "fst r" "snd r"] by (cases r) (auto simp: map_option_case split: option.splits)
qed simp

lemma length_concat_le: "\<forall>d \<in> set ds. length d \<le> n \<Longrightarrow> length (concat ds) \<le> length ds * n"
  by (induction ds) auto

lemma bytes_concat: "concat (map bytes ds) = bytes (concat ds)"
  by (simp add: bytes_def map_concat)

lemma find_snd_kids: "map_option snd (find (\<lambda>(o1, c). Q c) (kids_of off t)) = find Q (nkids t)"
proof -
  have "map_option snd (find (\<lambda>(o1, c). Q c) (kids off cs)) = find Q cs" for off cs by (induction off cs rule: kids.induct) auto
  then show ?thesis by (simp add: kids_of_def)
qed

lemma subnode_offset_string:
  assumes "holds m os (pre @ tags t @ post)" and "NUL \<notin> set s" and "length s + 1 < 2 ^ 32"
    and "fdt_subnode_offset m (int (len_of pre)) (s @ NUL # r) = Some n" and "0 \<le> n"
  obtains k pre' post' where "find (\<lambda>c. name_matches s (nname c)) (nkids t) = Some k" "holds m os (pre' @ tags k @ post')" "n = int (len_of pre')"
proof -
  have "strlen (s @ NUL # r) = Some (length s)" using assms(2) by (intro strlen_cstring) (simp add: cstring_def)
  then have sub: "fdt_subnode_offset_namelen m (int (len_of pre)) (s @ NUL # r) (length s) = Some n" using assms(4) by (simp add: fdt_subnode_offset_def)
  note f = subnode_offset_at [OF assms(1-3), of "NUL # r"]
  obtain o1 k where k: "find (\<lambda>(o1, c). name_matches s (nname c)) (kids_of (len_of pre) t) = Some (o1, k)" "n = int o1"
    using f sub assms(5) by (cases "find (\<lambda>(o1, c). name_matches s (nname c)) (kids_of (len_of pre) t)") (auto simp: fdt_errors)
  from find_kid_mem [OF k(1)] obtain pre' post' where "holds m os (pre' @ tags k @ post')" "o1 = len_of pre'" by (rule holds_kid [OF assms(1)])
  moreover have "find (\<lambda>c. name_matches s (nname c)) (nkids t) = Some k"
    using find_snd_kids [of "\<lambda>c. name_matches s (nname c)" "len_of pre" t] k(1) by simp
  ultimately show thesis using k(2) by (intro that) simp_all
qed

text \<open>The bytes that are compared with the signature: the digest, and what the array held behind it.\<close>

definition signed_hash :: "('g, 'p, 's) sig_env \<Rightarrow> checksum_algo \<Rightarrow> char list \<Rightarrow> u8 list" where
  "signed_hash E a x = (let h = digest (sum_kind (checksum_name a)) (bytes x) in h @ drop (length h) (hash_stack E))"

text \<open>The tree of the keys, which is part of the boot loader, is well-formed.\<close>

definition env_ok :: "('g, 'p, 's) sig_env \<Rightarrow> node \<Rightarrow> bool" where
  "env_ok E kt \<longleftrightarrow> mem_ok (hmem E) \<and> length (name_stack E) = 100 \<and> wf_node (fdt_blob E) kt
     \<and> (\<exists>os post. holds (fdt_blob E) os (tags kt @ post))"

lemma wf_kid: "wf_node m t \<Longrightarrow> k \<in> set (nkids t) \<Longrightarrow> wf_node m k"
  by (cases t) (simp add: list_all_iff)

lemma wf_named: "wf_node m t \<Longrightarrow> named m (nprops t)"
  by (cases t) simp

lemma key_found:
  assumes "env_ok E kt" and "fdt_subnode_offset (fdt_blob E) 0 (''signature'' @ [NUL]) = Some n" and "0 \<le> n"
    and "fdt_subnode_offset (fdt_blob E) n (''key-'' @ hint @ NUL # r) = Some i" and "0 \<le> i" and "NUL \<notin> set hint" and "length hint < 96"
    and "fdt_getprop (fdt_blob E) i ''pubkey'' = Some (Some j, len)"
  obtains pk where "lookup_key (fdt_blob E) kt hint = Some pk" "len = int (length pk)" "read_bytes (fdt_blob E) (int j) len = Some pk"
proof -
  let ?m = "fdt_blob E"
  obtain os post where h: "holds ?m os ([] @ tags kt @ post)" and wf: "wf_node ?m kt" using assms(1) by (auto simp: env_ok_def)
  obtain s pre1 post1 where s: "find (\<lambda>c. name_matches ''signature'' (nname c)) (nkids kt) = Some s" "holds ?m os (pre1 @ tags s @ post1)" "n = int (len_of pre1)"
    by (rule subnode_offset_string [OF h, of "''signature''" "[]" n]) (use assms(2,3) in simp_all)
  obtain k pre2 post2 where k: "find (\<lambda>c. name_matches (''key-'' @ hint) (nname c)) (nkids s) = Some k" "holds ?m os (pre2 @ tags k @ post2)" "i = int (len_of pre2)"
    by (rule subnode_offset_string [OF s(2), of "''key-'' @ hint" r i]) (use assms(4-7) s(3) in simp_all)
  have "named ?m (nprops k)" using wf s(1) k(1) by (meson find_kid_mem wf_kid wf_named)
  then show thesis
  proof (cases rule: getprop_cases [OF k(2), of "''pubkey''", case_names nm nul absent present])
    case (present v j' r')
    then show thesis using assms(8) k(1,3) s(1) by (intro that [of v]) (simp_all add: lookup_key_def)
  qed (use assms(8) k(3) in simp_all)
qed

lemma hash_areas:
  assumes "env_ok E kt" and "a \<in> set checksum_algos" and "areas \<noteq> []" and "length areas \<le> 1000" and "length m < 2 ^ 31"
    and "those (map (\<lambda>(offset, sz). read_bytes m offset sz) areas) = Some data"
  shows "hash_calculate (hmem E) (checksum_name a @ [NUL]) (map bytes data) = Some (Inr (digest (sum_kind (checksum_name a)) (bytes (concat data))))"
proof -
  note sl = those_slices [OF assms(6)]
  obtain row where row: "hash_progressive_lookup_algo (checksum_name a @ [NUL]) = Some (Inr row)" "kind row = sum_kind (checksum_name a)"
    by (rule checksum_lookup [OF assms(2)])
  have "length (concat data) \<le> length data * length m" using sl by (intro length_concat_le) blast
  also have "\<dots> \<le> 1000 * 2 ^ 31" using sl assms(4,5) by (intro mult_le_mono) simp_all
  finally have tot: "length (concat (map bytes data)) < 2 ^ 61" by (simp add: bytes_concat)
  have b: "\<forall>c \<in> set (map bytes data). length c < 2 ^ 32" using sl assms(5) by fastforce
  have m: "mem_ok (hmem E)" "map bytes data \<noteq> []" using assms(1,3) sl by (simp_all add: env_ok_def)
  from calculate_digest [OF m(1) row(1) m(2) b tot] row(2) show ?thesis by (simp only: bytes_concat)
qed

lemma ecdsa_verify_sound:
  assumes "env_ok E kt" and "checksum info \<in> set checksum_algos" and "areas \<noteq> []" and "length areas \<le> 1000" and "length (fit info) < 2 ^ 31"
    and "length (printed (keyname info)) < 2 ^ 32 - 1" and "ecdsa_verify E info areas sig = Some 0"
  obtains hint pk where "cstring hint (printed (keyname info))" "length hint < 96" "lookup_key (fdt_blob E) kt hint = Some pk" "pk \<noteq> []"
    "checksum_len (checksum info) \<le> key_len (crypto info)"
    "accepts (lib E) (crypto info) (bytes pk) sig (signed_hash E (checksum info) (concat (map (slice (fit info)) areas)))"
proof -
  let ?a = "checksum info" and ?kb = "fdt_blob E"
  have len: "checksum_len ?a \<le> key_len (crypto info)" using assms(7) by (auto simp: ecdsa_verify_def errnos split: if_splits)
  then obtain n where n: "fdt_subnode_offset ?kb 0 (''signature'' @ [NUL]) = Some n" "0 \<le> n"
    using assms(7) by (auto simp: ecdsa_verify_def errnos bind_eq_Some_conv split: if_splits)
  then obtain data where data: "those (map (\<lambda>(offset, sz). read_bytes (fit info) offset sz) areas) = Some data"
    using assms(7) len by (auto simp: ecdsa_verify_def bind_eq_Some_conv)
  note sl = those_slices [OF data]
  note hc = hash_areas [OF assms(1-5) data]
  let ?h = "digest (sum_kind (checksum_name ?a)) (bytes (concat data))"
  obtain c b' w where sp: "vsprintf 0 (name_stack E) (''key-%s'' @ [NUL]) [Vstr (keyname info)] = Some (c, b', w)"
    using assms(7) len n data hc by (auto simp: ecdsa_verify_def bind_eq_Some_conv)
  obtain hint where hint: "cstring hint (printed (keyname info))" "length hint + 4 < length (name_stack E)" "b' = ''key-'' @ hint @ NUL # drop (length hint + 5) (name_stack E)"
    by (rule sprintf_key_sound [OF sp assms(6)])
  obtain i where i: "fdt_subnode_offset ?kb n b' = Some i" "0 \<le> i"
    using assms(7) len n data hc sp by (auto simp: ecdsa_verify_def bind_eq_Some_conv errnos split: if_splits)
  obtain j plen where j: "fdt_getprop ?kb i ''pubkey'' = Some (Some j, plen)" "0 < plen"
    using assms(7) len n data hc sp i by (auto simp: ecdsa_verify_def bind_eq_Some_conv errnos split: if_splits option.splits)
  have hl: "length hint < 96" "NUL \<notin> set hint" using hint(1,2) assms(1) by (simp_all add: env_ok_def cstring_def)
  obtain pk where pk: "lookup_key ?kb kt hint = Some pk" "plen = int (length pk)" "read_bytes ?kb (int j) plen = Some pk"
    by (rule key_found [OF assms(1) n i(1) [unfolded hint(3)] i(2) hl(2,1) j(1)])
  have "ecdsa_verify_key (lib E) info (bytes pk) sig (?h @ drop (length ?h) (hash_stack E)) = 0"
    using assms(7) len n data hc sp i j pk(3) by (auto simp: ecdsa_verify_def bind_eq_Some_conv)
  then have "accepts (lib E) (crypto info) (bytes pk) sig (signed_hash E ?a (concat (map (slice (fit info)) areas)))"
    using sl by (simp add: verify_key_accepts signed_hash_def Let_def)
  then show thesis using hint(1) hl(1) pk(1,2) j(2) len by (intro that) auto
qed

section \<open>The signed part of an image\<close>

abbreviation nul_strings :: "string list \<Rightarrow> char list" where
  "nul_strings ss \<equiv> concat (map (\<lambda>s. s @ [NUL]) ss)"

lemma split_first_NUL: "NUL \<in> set v \<Longrightarrow> \<exists>s w. v = s @ NUL # w \<and> NUL \<notin> set s"
  by (metis split_list_first)

lemma filter_not_NUL: "NUL \<notin> set s \<Longrightarrow> filter (\<lambda>c. c = NUL) s = []"
  by (auto simp: filter_empty_conv)

lemma count_NUL:
  assumes "length (filter (\<lambda>c. c = NUL) v) = Suc n"
  obtains s w where "v = s @ NUL # w" "NUL \<notin> set s" "length (filter (\<lambda>c. c = NUL) w) = n"
proof -
  have "NUL \<in> set v" using assms by (metis filter_not_NUL list.size(3) nat.distinct(1))
  then obtain s w where v: "v = s @ NUL # w" "NUL \<notin> set s" using split_first_NUL by blast
  then show thesis using assms filter_not_NUL [OF v(2)] by (intro that) simp_all
qed

lemma node_inc_step:
  assumes "drop p m = (s @ NUL # w) @ r" and "NUL \<notin> set s"
  shows "node_inc_loop m p (p + length (s @ NUL # w)) (Suc n) =
      map_option (\<lambda>rest. drop p m # rest) (node_inc_loop m (p + length s + 1) (p + length s + 1 + length w) n)"
    and "drop (p + length s + 1) m = w @ r"
proof -
  have "strlen (drop p m) = Some (length s)" using assms by (intro strlen_cstring) (simp add: cstring_def)
  then show "node_inc_loop m p (p + length (s @ NUL # w)) (Suc n) =
      map_option (\<lambda>rest. drop p m # rest) (node_inc_loop m (p + length s + 1) (p + length s + 1 + length w) n)"
    by (simp add: add_ac map_option_case split: option.split)
  show "drop (p + length s + 1) m = w @ r" using arg_cong [OF assms(1), of "drop (length s + 1)"] by (simp add: add_ac)
qed

lemma node_inc_loop_sound:
  assumes "drop p m = v @ r" and "n = length (filter (\<lambda>c. c = NUL) v)" and "node_inc_loop m p (p + length v) n = Some incp"
  shows "\<exists>inc. v = nul_strings inc \<and> length inc = n \<and> list_all2 cstring inc incp"
  using assms
proof (induction n arbitrary: p v incp)
  case 0
  then show ?case by (auto split: if_splits)
next
  case (Suc n)
  obtain s w where v: "v = s @ NUL # w" "NUL \<notin> set s" "length (filter (\<lambda>c. c = NUL) w) = n" using count_NUL Suc.prems(2) by metis
  note st = node_inc_step [OF Suc.prems(1) [unfolded v(1)] v(2)]
  obtain rest where rest: "node_inc_loop m (p + length s + 1) (p + length s + 1 + length w) n = Some rest" "incp = drop p m # rest"
    using Suc.prems(3) unfolding v(1) st(1) map_option_eq_Some by blast
  from Suc.IH [OF st(2) v(3) [symmetric] rest(1)] obtain inc where inc: "w = nul_strings inc" "length inc = n" "list_all2 cstring inc rest" by blast
  have "cstring s (drop p m)" using Suc.prems(1) v by (simp add: cstring_def)
  then show ?case using inc v(1) rest(2) by (intro exI [of _ "s # inc"]) simp
qed

lemma node_inc_loop_overflow:
  assumes "drop p m = v @ r" and "n = length (filter (\<lambda>c. c = NUL) v)" and "v \<noteq> []" and "last v \<noteq> NUL"
  shows "node_inc_loop m p (p + length v) n = None"
  using assms
proof (induction n arbitrary: p v)
  case (Suc n)
  obtain s w where v: "v = s @ NUL # w" "NUL \<notin> set s" "length (filter (\<lambda>c. c = NUL) w) = n" using count_NUL Suc.prems(2) by metis
  note st = node_inc_step [OF Suc.prems(1) [unfolded v(1)] v(2)]
  have "w \<noteq> []" "last w \<noteq> NUL" using Suc.prems(4) v(1) by (auto split: if_splits)
  from Suc.IH [OF st(2) v(3) [symmetric] this] st(1) [of n] v(1) show ?case by simp
qed simp

lemma hashed_nodes_at:
  assumes "holds m os (pre @ tags k @ post)" and "named m (nprops k)"
  shows "hashed_nodes m (int (len_of pre)) = Some (Some incp) \<Longrightarrow>
      \<exists>inc. value_of_prop m k ''hashed-nodes'' = Some (nul_strings inc) \<and> 0 < length inc \<and> length inc \<le> 100 \<and> list_all2 cstring inc incp"
    and "value_of_prop m k ''hashed-nodes'' = Some v \<Longrightarrow> NUL \<in> set v \<Longrightarrow> length (filter (\<lambda>c. c = NUL) v) \<le> 100 \<Longrightarrow> last v \<noteq> NUL \<Longrightarrow>
      hashed_nodes m (int (len_of pre)) = None"
proof -
  note c = getprop_cases [OF assms, of "''hashed-nodes''", case_names nul absent present]
  show "\<exists>inc. value_of_prop m k ''hashed-nodes'' = Some (nul_strings inc) \<and> 0 < length inc \<and> length inc \<le> 100 \<and> list_all2 cstring inc incp"
    if h: "hashed_nodes m (int (len_of pre)) = Some (Some incp)"
  proof (cases rule: c)
    case (present v i r)
    let ?n = "length (filter (\<lambda>c. c = NUL) v)"
    have "node_inc_loop m i (i + length v) ?n = Some incp" "0 < ?n" "?n \<le> 100"
      using h present by (auto simp: hashed_nodes_def IMAGE_MAX_HASHED_NODES_def Let_def filter_empty_conv split: if_splits)
    with node_inc_loop_sound [OF present(3) refl this(1)] present(1) show ?thesis by auto
  qed (use h in \<open>simp_all add: hashed_nodes_def\<close>)
  assume v: "value_of_prop m k ''hashed-nodes'' = Some v" "NUL \<in> set v" "length (filter (\<lambda>c. c = NUL) v) \<le> 100" "last v \<noteq> NUL"
  show "hashed_nodes m (int (len_of pre)) = None"
  proof (cases rule: c)
    case (present v' i r)
    then have "node_inc_loop m i (i + length v) (length (filter (\<lambda>c. c = NUL) v)) = None"
      using v by (intro node_inc_loop_overflow [of i m v r]) auto
    then show ?thesis using present v by (simp add: hashed_nodes_def IMAGE_MAX_HASHED_NODES_def Let_def filter_empty_conv)
  qed (use v in simp_all)
qed

text \<open>The strings that the signature covers, as the property \<^verbatim>\<open>hashed-strings\<close> says.\<close>

definition signed_strings :: "char list \<Rightarrow> node \<Rightarrow> char list \<Rightarrow> bool" where
  "signed_strings m k strs \<longleftrightarrow> (case value_of_prop m k ''hashed-strings'' of None \<Rightarrow> strs = []
     | Some v \<Rightarrow> 8 \<le> length v \<longrightarrow>
         strs = slice m (s32 (int (the (fdt_off_dt_strings m) + be_nat (take 4 v))), s32 (int (be_nat (take 4 (drop 4 v))))))"

lemma config_regions_sound:
  assumes "holds m os (tags t @ [End])" and "wf_node m t" and "holds m os (pre @ tags k @ post)" and "named m (nprops k)"
    and "list_all2 cstring inc incp" and "length inc \<le> 100" and "config_regions m (int (len_of pre)) incp = Some (Some areas)"
  obtains strs where "signed_strings m k strs" "concat (map (slice m) areas) = encs (covered m inc [''data''] [] 0 t) @ enc End @ strs"
    "areas \<noteq> []" "length areas \<le> 1000"
proof -
  define max_regions where "max_regions = 20 + length incp * 7"
  have li: "length incp \<le> 100" using assms(5,6) by (simp add: list_all2_lengthD)
  obtain count reg where f: "fdt_find_regions m incp [''data'' @ [NUL]] (replicate max_regions (0, 0)) (max_regions - 1) 200 False = Some (count, reg)"
    and cov: "count < 0 \<or> int (max_regions - 1) < count \<or>
      0 < count \<and> concat (map (slice m) (take (nat count) reg)) = encs (covered m inc [''data''] [] 0 t) @ enc End"
    using find_regions_covered [OF assms(1,2,5), of "[''data'']" "[''data'' @ [NUL]]" "max_regions - 1" "replicate max_regions (0, 0)" 200]
    by auto
  have count: "0 < count" "count < int max_regions - 1"
    using assms(7) f by (auto simp: config_regions_def max_regions_def [symmetric] split: if_splits)
  have cc: "concat (map (slice m) (take (nat count) reg)) = encs (covered m inc [''data''] [] 0 t) @ enc End" using cov count by auto
  have ne: "take (nat count) reg \<noteq> []" using cc length_enc(2) [of End] by auto
  have small: "nat count \<le> 999" using count li by (simp add: max_regions_def)
  note c = getprop_cases [OF assms(3,4), of "''hashed-strings''", case_names nul absent present]
  show thesis
  proof (cases rule: c)
    case absent
    then have "areas = take (nat count) reg" using assms(7) f count by (simp add: config_regions_def max_regions_def [symmetric])
    then show thesis using absent(1) cc ne small by (intro that [of "[]"]) (simp_all add: signed_strings_def)
  next
    case (present v i r)
    obtain os' a b reg' where x: "fdt_off_dt_strings m = Some os'" "fdt32_to_cpu m i = Some a" "fdt32_to_cpu m (i + 4) = Some b"
      "wr reg (nat count) (s32 (int (os' + a)), s32 (int b)) = Some reg'" "areas = take (nat count + 1) reg'"
      using assms(7) f count present(2) by (auto simp: config_regions_def max_regions_def [symmetric] bind_eq_Some_conv)
    have "nat count < length reg" "reg' = reg[nat count := (s32 (int (os' + a)), s32 (int b))]" using x(4) by (auto simp: wr_def split: if_splits)
    then have ar: "areas = take (nat count) reg @ [(s32 (int (os' + a)), s32 (int b))]" using x(5) by (simp add: take_Suc_conv_app_nth)
    have "a = be_nat (take 4 v)" "b = be_nat (take 4 (drop 4 v))" if "8 \<le> length v"
    proof -
      have "drop (i + 4) m = drop 4 v @ r" using that arg_cong [OF present(3), of "drop 4"] by (simp add: add.commute)
      then have "take 4 (drop i m) = take 4 v" "take 4 (drop (i + 4) m) = take 4 (drop 4 v)" using that present(3) by simp_all
      then show "a = be_nat (take 4 v)" "b = be_nat (take 4 (drop 4 v))" using x(2,3) by (simp_all add: fdt32_to_cpu_def split: if_splits)
    qed
    then have "signed_strings m k (slice m (s32 (int (os' + a)), s32 (int b)))" using present(1) x(1) by (simp add: signed_strings_def)
    then show thesis using ar cc small by (intro that) simp_all
  qed simp
qed

text \<open>The node \<open>k\<close> carries a signature over the listed nodes of the tree \<open>t\<close> that a key of the boot loader verifies.\<close>

definition config_signed :: "('g, 'p, 's) sig_env \<Rightarrow> node \<Rightarrow> char list \<Rightarrow> node \<Rightarrow> node \<Rightarrow> bool" where
  "config_signed E kt m t k \<longleftrightarrow> (\<exists>a c hint inc strs sig pk.
     a \<in> set checksum_algos \<and> c \<in> set crypto_algos \<and> crypto_verify c = Ecdsa \<and> checksum_len a \<le> key_len c
     \<and> reads m k ''algo'' (checksum_name a @ '','' @ crypto_name c)
     \<and> (if value_of_prop m k ''key-name-hint'' = None then hint = ''<NULL>'' else reads m k ''key-name-hint'' hint)
     \<and> lookup_key (fdt_blob E) kt hint = Some pk \<and> pk \<noteq> []
     \<and> value_of_prop m k ''hashed-nodes'' = Some (nul_strings inc) \<and> inc \<noteq> [] \<and> length inc \<le> 100 \<and> (\<forall>s \<in> set inc. NUL \<notin> set s)
     \<and> signed_strings m k strs \<and> value_of_prop m k ''value'' = Some sig
     \<and> accepts (lib E) c (bytes pk) (bytes sig) (signed_hash E a (encs (covered m inc [''data''] [] 0 t) @ enc End @ strs)))"

lemma setup_verify_Some:
  assumes "fit_image_setup_verify m n req = Some (Some info)"
  obtains i key len where "fit_image_hash_get_algo m n = Some (Some i)" "fdt_getprop m n ''key-name-hint'' = Some (key, len)"
    "image_get_checksum_algo (drop i m) = Some (Some (checksum info))" "image_get_crypto_algo (drop i m) = Some (Some (crypto info))"
    "keyname info = map_option (\<lambda>k. drop k m) key" "fit info = m"
  using assms unfolding fit_image_setup_verify_def by (auto split: Option.bind_split_asm option.split_asm prod.split_asm)

lemma setup_verify_at:
  assumes "holds m os (pre @ tags k @ post)" and "named m (nprops k)" and "fit_image_setup_verify m (int (len_of pre)) req = Some (Some info)"
  shows "checksum info \<in> set checksum_algos" "crypto info \<in> set crypto_algos" "fit info = m" "length (printed (keyname info)) < 2 ^ 32 - 1"
    "reads m k ''algo'' (checksum_name (checksum info) @ '','' @ crypto_name (crypto info))"
    "cstring hint (printed (keyname info)) \<Longrightarrow> if value_of_prop m k ''key-name-hint'' = None then hint = ''<NULL>'' else reads m k ''key-name-hint'' hint"
proof -
  have lm: "length m + 4 \<le> 2 ^ 31" using assms(1) by (simp add: holds_def complete_def)
  obtain i key len where set: "fit_image_hash_get_algo m (int (len_of pre)) = Some (Some i)" "fdt_getprop m (int (len_of pre)) ''key-name-hint'' = Some (key, len)"
    "image_get_checksum_algo (drop i m) = Some (Some (checksum info))" "image_get_crypto_algo (drop i m) = Some (Some (crypto info))"
    "keyname info = map_option (\<lambda>k. drop k m) key" "fit info = m" by (rule setup_verify_Some [OF assms(3)])
  note ca = getprop_cases [OF assms(1,2), of "''algo''", case_names nul absent present]
  note ck = getprop_cases [OF assms(1,2), of "''key-name-hint''", case_names nul absent present]
  have "checksum info \<in> set checksum_algos \<and> crypto info \<in> set crypto_algos \<and> fit info = m
    \<and> reads m k ''algo'' (checksum_name (checksum info) @ '','' @ crypto_name (crypto info))"
  proof (cases rule: ca)
    case (present v i r)
    then have "image_get_checksum_algo (v @ r) = Some (Some (checksum info))" "image_get_crypto_algo (v @ r) = Some (Some (crypto info))" "fit info = m"
      using set by (auto simp: fit_image_hash_get_algo_def)
    with algo_names_sound [OF this(1,2)] present(1) show ?thesis unfolding reads_def by blast
  qed (use set(1) in \<open>simp_all add: fit_image_hash_get_algo_def\<close>)
  then show "checksum info \<in> set checksum_algos" "crypto info \<in> set crypto_algos" "fit info = m"
    "reads m k ''algo'' (checksum_name (checksum info) @ '','' @ crypto_name (crypto info))" by auto
  have "(if value_of_prop m k ''key-name-hint'' = None then keyname info = None else \<exists>v i r. value_of_prop m k ''key-name-hint'' = Some v \<and> keyname info = Some (drop i m) \<and> drop i m = v @ r)"
  proof (cases rule: ck)
    case absent
    then show ?thesis using set(2,5) by simp
  next
    case (present v j r)
    then have "keyname info = Some (drop j m)" using set(2,5) by simp
    with present show ?thesis by (metis option.distinct(1))
  qed simp
  then show "cstring hint (printed (keyname info)) \<Longrightarrow> if value_of_prop m k ''key-name-hint'' = None then hint = ''<NULL>'' else reads m k ''key-name-hint'' hint"
    by (auto simp: printed_def reads_def split: if_splits dest: cstring_unique)
  have "length (printed (keyname info)) \<le> length m + 7" using set(5) by (cases key) (simp_all add: printed_def)
  then show "length (printed (keyname info)) < 2 ^ 32 - 1" using lm by simp
qed

lemma config_check_sig_sound:
  assumes "env_ok E kt" and "holds m os (tags t @ [End])" and "wf_node m t" and "holds m os (pre @ tags k @ post)" and "named m (nprops k)"
    and "fit_config_check_sig E m (int (len_of pre)) req = Some 0"
  shows "config_signed E kt m t k"
proof -
  let ?n = "int (len_of pre)"
  obtain info where info: "fit_image_setup_verify m ?n req = Some (Some info)"
    using assms(6) by (auto simp: fit_config_check_sig_def bind_eq_Some_conv split: option.splits)
  note set = setup_verify_at [OF assms(4,5) info]
  note cv = getprop_cases [OF assms(4,5), of "''value''", case_names nul absent present]
  obtain v i where v: "value_of_prop m k ''value'' = Some v" "fit_image_hash_get_value m ?n = Some (Some (i, int (length v)))" "read_bytes m (int i) (int (length v)) = Some v"
  proof (cases rule: cv)
    case (present v i r)
    then show thesis by (intro that [of v i]) (simp_all add: fit_image_hash_get_value_def get_range_def)
  qed (use assms(6) info in \<open>simp_all add: fit_config_check_sig_def fit_image_hash_get_value_def get_range_def\<close>)
  obtain incp where incp: "hashed_nodes m ?n = Some (Some incp)"
    using assms(6) info v(2) by (auto simp: fit_config_check_sig_def bind_eq_Some_conv split: option.splits)
  obtain inc where inc: "value_of_prop m k ''hashed-nodes'' = Some (nul_strings inc)" "0 < length inc" "length inc \<le> 100" "list_all2 cstring inc incp"
    using hashed_nodes_at(1) [OF assms(4,5) incp] by blast
  obtain areas where areas: "config_regions m ?n incp = Some (Some areas)"
    using assms(6) info v(2) incp by (auto simp: fit_config_check_sig_def bind_eq_Some_conv split: option.splits)
  obtain strs where strs: "signed_strings m k strs" "concat (map (slice m) areas) = encs (covered m inc [''data''] [] 0 t) @ enc End @ strs"
    "areas \<noteq> []" "length areas \<le> 1000" by (rule config_regions_sound [OF assms(2-5) inc(4,3) areas])
  have ver: "verify_with (crypto_verify (crypto info)) E info areas (bytes v) = Some 0"
    using assms(6) info v(2,3) incp areas by (auto simp: fit_config_check_sig_def bind_eq_Some_conv split: if_splits)
  then have ec: "crypto_verify (crypto info) = Ecdsa" by (cases "crypto_verify (crypto info)") (simp_all add: rsa_verify_def errnos)
  have lm: "length (fit info) < 2 ^ 31" using assms(2) set(3) by (simp add: holds_def complete_def)
  have nn: "\<forall>s \<in> set inc. NUL \<notin> set s" using inc(4) by (auto simp: list_all2_conv_all_nth in_set_conv_nth cstring_def)
  obtain hint pk where ok: "cstring hint (printed (keyname info))" "lookup_key (fdt_blob E) kt hint = Some pk" "pk \<noteq> []"
    "checksum_len (checksum info) \<le> key_len (crypto info)"
    "accepts (lib E) (crypto info) (bytes pk) (bytes v) (signed_hash E (checksum info) (concat (map (slice (fit info)) areas)))"
    by (rule ecdsa_verify_sound [OF assms(1) set(1) strs(3,4) lm set(4)]) (use ver ec in simp_all)
  show ?thesis unfolding config_signed_def
    using set(1,2,5) set(6) [OF ok(1)] ok(2-4) ok(5) [unfolded set(3) strs(2)] ec inc(1-3) nn strs(1) v(1)
    by (intro exI [of _ "checksum info"] exI [of _ "crypto info"] exI [of _ hint] exI [of _ inc] exI [of _ strs] exI [of _ v] exI [of _ pk]) simp
qed

lemma signature_loop_sound:
  assumes "holds m os (pre @ tags t @ post)" and "set ks \<subseteq> set (kids_of (len_of pre) t)" and "visits m (map fst ks)" and "ks \<noteq> []"
    and "signature_loop check m (int (fst (hd ks))) = Some (True, n)"
  shows "\<exists>(o1, k) \<in> set ks. prefix ''signature'' (nname k) \<and> check (int o1) = Some 0 \<and> 0 \<le> n"
  using assms(2-5)
proof (induction ks)
  case (Cons x ks)
  obtain o1 k where x: "x = (o1, k)" by fastforce
  obtain pre' post' where h: "holds m os (pre' @ tags k @ post')" "o1 = len_of pre'" using holds_kid [OF assms(1)] Cons.prems(1) x by (metis insert_subset list.simps(15))
  obtain i len where i: "fdt_get_name m (int o1) = Some (Some i, len)" "cstring (nname k) (drop i m)" using name_at [OF h(1)] h(2) by metis
  obtain r where r: "strncmp (drop i m) (''signature'' @ [NUL]) 9 = Some r" "r = 0 \<longleftrightarrow> prefix ''signature'' (nname k)"
    using strncmp_prefix [OF i(2), of "''signature''" "[NUL]"] by (auto simp: numeral_eq_Suc)
  note run = Cons.prems(4) [unfolded x list.sel fst_conv signature_loop.simps [of check m "int o1"]]
  show ?case
  proof (cases "r = 0 \<and> check (int o1) = Some 0")
    case True
    then show ?thesis using run i r x by auto
  next
    case False
    obtain n' where n': "fdt_next_subnode m (int o1) = Some n'" "signature_loop check m n' = Some (True, n)"
      using run i r False by (auto simp: bind_eq_Some_conv split: if_splits)
    have nx: "fdt_next_subnode m (int o1) = Some (case map fst ks of [] \<Rightarrow> - FDT_ERR_NOTFOUND | o2 # _ \<Rightarrow> int o2)" "visits m (map fst ks)"
      using Cons.prems(2) x by simp_all
    show ?thesis
    proof (cases ks)
      case Nil
      then have "signature_loop check m (- FDT_ERR_NOTFOUND) = Some (True, n)" using n' nx(1) by simp
      then show ?thesis by (subst (asm) signature_loop.simps) (simp add: fdt_errors)
    next
      case (Cons y ys)
      then have "signature_loop check m (int (fst (hd ks))) = Some (True, n)" using n' nx(1) by simp
      from Cons.IH [OF _ nx(2) _ this] Cons.prems(1) \<open>ks = y # ys\<close> show ?thesis by auto
    qed
  qed
qed simp

lemma verify_sig_sound:
  assumes "holds m os (pre @ tags t @ post)" and "verify_sig check m (int (len_of pre)) = Some 0"
  shows "\<exists>(o1, k) \<in> set (kids_of (len_of pre) t). prefix ''signature'' (nname k) \<and> check (int o1) = Some 0"
proof -
  let ?ks = "kids_of (len_of pre) t"
  note v = visits_kids [OF assms(1)]
  obtain b n where r: "signature_loop check m (case ?ks of [] \<Rightarrow> - FDT_ERR_NOTFOUND | (o1, _) # _ \<Rightarrow> int o1) = Some (b, n)" "b"
    using assms(2) v(1) by (auto simp: verify_sig_def errnos bind_eq_Some_conv split: if_splits)
  show ?thesis
  proof (cases ?ks)
    case Nil
    then have "signature_loop check m (- FDT_ERR_NOTFOUND) = Some (b, n)" using r(1) by simp
    then show ?thesis using r(2) by (subst (asm) signature_loop.simps) (simp add: fdt_errors)
  next
    case (Cons x ks)
    then have "signature_loop check m (int (fst (hd ?ks))) = Some (True, n)" using r by (cases x) simp
    from signature_loop_sound [OF assms(1) subset_refl v(2) _ this] Cons show ?thesis by auto
  qed
qed

lemma verify_sig_first:
  assumes "holds m os (pre @ tags t @ post)" and "kids_of (len_of pre) t = (o1, k) # ks" and "prefix ''signature'' (nname k)" and "check (int o1) = Some 0"
  shows "verify_sig check m (int (len_of pre)) = Some 0"
proof -
  obtain pre' post' where h: "holds m os (pre' @ tags k @ post')" "o1 = len_of pre'" using holds_kid [OF assms(1), of o1 k] assms(2) by auto
  obtain i len where i: "fdt_get_name m (int o1) = Some (Some i, len)" "cstring (nname k) (drop i m)" using name_at [OF h(1)] h(2) by metis
  have "strncmp (drop i m) (''signature'' @ [NUL]) 9 = Some 0"
    using strncmp_prefix [OF i(2), of "''signature''" "[NUL]"] assms(3) by (auto simp: numeral_eq_Suc)
  then have "signature_loop check m (int o1) = Some (True, int o1)" using i(1) assms(4) by (subst signature_loop.simps) simp
  then show ?thesis using visits_kids(1) [OF assms(1)] assms(2) by (simp add: verify_sig_def fdt_errors)
qed

end
