(* ===== verification/ImageSigned.thy ===== *)
theory ImageSigned
  imports ImageSig
begin

text \<open>
  When a signature is accepted: the converse of the soundness of \<open>ImageSig\<close>, the properties of the
  verification of configurations, and what the signature does not cover.
\<close>

section \<open>A valid signature is accepted\<close>

lemma those_readable:
  "\<forall>(o1, n) \<in> set areas. read_bytes m o1 n \<noteq> None \<Longrightarrow> \<exists>data. those (map (\<lambda>(o1, n). read_bytes m o1 n) areas) = Some data"
  by (induction areas) auto

lemma subnode_offset_found:
  assumes "holds m os (pre @ tags t @ post)" and "NUL \<notin> set s" and "length s + 1 < 2 ^ 32"
    and "find (\<lambda>c. name_matches s (nname c)) (nkids t) = Some k"
  obtains pre' post' where "fdt_subnode_offset m (int (len_of pre)) (s @ NUL # r) = Some (int (len_of pre'))" "holds m os (pre' @ tags k @ post')"
proof -
  have l: "strlen (s @ NUL # r) = Some (length s)" using assms(2) by (intro strlen_cstring) (simp add: cstring_def)
  obtain o1 where o1: "find (\<lambda>(o1, c). name_matches s (nname c)) (kids_of (len_of pre) t) = Some (o1, k)"
    using find_snd_kids [of "\<lambda>c. name_matches s (nname c)" "len_of pre" t] assms(4) by auto
  obtain pre' post' where h: "holds m os (pre' @ tags k @ post')" "o1 = len_of pre'" by (rule holds_kid [OF assms(1) find_kid_mem [OF o1]])
  have "fdt_subnode_offset m (int (len_of pre)) (s @ NUL # r) = Some (int (len_of pre'))"
    using subnode_offset_at [OF assms(1-3), of "NUL # r"] l o1 h(2) by (simp add: fdt_subnode_offset_def)
  then show thesis using h(1) by (rule that)
qed

lemma key_at:
  assumes "env_ok E kt" and "lookup_key (fdt_blob E) kt hint = Some pk" and "NUL \<notin> set hint" and "length hint < 96"
  obtains n i j where "fdt_subnode_offset (fdt_blob E) 0 (''signature'' @ [NUL]) = Some n" "0 \<le> n"
    "fdt_subnode_offset (fdt_blob E) n (''key-'' @ hint @ NUL # r) = Some i" "0 \<le> i"
    "fdt_getprop (fdt_blob E) i ''pubkey'' = Some (Some j, int (length pk))" "read_bytes (fdt_blob E) (int j) (int (length pk)) = Some pk"
proof -
  let ?m = "fdt_blob E"
  obtain os post where h: "holds ?m os ([] @ tags kt @ post)" and wf: "wf_node ?m kt" using assms(1) by (auto simp: env_ok_def)
  obtain s k where f: "find (\<lambda>c. name_matches ''signature'' (nname c)) (nkids kt) = Some s"
    "find (\<lambda>c. name_matches (''key-'' @ hint) (nname c)) (nkids s) = Some k" "value_of_prop ?m k ''pubkey'' = Some pk"
    using assms(2) by (auto simp: lookup_key_def bind_eq_Some_conv)
  obtain pre1 post1 where s: "fdt_subnode_offset ?m (int (len_of [])) (''signature'' @ NUL # []) = Some (int (len_of pre1))" "holds ?m os (pre1 @ tags s @ post1)"
    by (rule subnode_offset_found [OF h _ _ f(1), of "[]"]) simp_all
  obtain pre2 post2 where k: "fdt_subnode_offset ?m (int (len_of pre1)) ((''key-'' @ hint) @ NUL # r) = Some (int (len_of pre2))" "holds ?m os (pre2 @ tags k @ post2)"
    by (rule subnode_offset_found [OF s(2) _ _ f(2), of r]) (use assms(3,4) in simp_all)
  have "named ?m (nprops k)" using wf f(1,2) by (meson find_kid_mem wf_kid wf_named)
  then show thesis
  proof (cases rule: getprop_cases [OF k(2), of "''pubkey''", case_names nm nul absent present])
    case (present v j r')
    then show thesis using that [of "int (len_of pre1)" "int (len_of pre2)" j] s(1) k(1) f(3) by simp
  qed (use f(3) in simp_all)
qed

lemma ecdsa_verify_complete:
  assumes "env_ok E kt" and "checksum info \<in> set checksum_algos" and "areas \<noteq> []" and "length areas \<le> 1000" and "length (fit info) < 2 ^ 31"
    and "\<forall>(o1, n) \<in> set areas. read_bytes (fit info) o1 n \<noteq> None"
    and "cstring hint (printed (keyname info))" and "length hint < 96" and "lookup_key (fdt_blob E) kt hint = Some pk" and "pk \<noteq> []"
    and "checksum_len (checksum info) \<le> key_len (crypto info)"
    and "accepts (lib E) (crypto info) (bytes pk) sig (signed_hash E (checksum info) (concat (map (slice (fit info)) areas)))"
  shows "ecdsa_verify E info areas sig = Some 0"
proof -
  obtain data where data: "those (map (\<lambda>(o1, n). read_bytes (fit info) o1 n) areas) = Some data" using those_readable [OF assms(6)] by blast
  note sl = those_slices [OF data]
  note hc = hash_areas [OF assms(1-5) data]
  have nn: "NUL \<notin> set hint" using assms(7) by (simp add: cstring_def)
  obtain n i j where k: "fdt_subnode_offset (fdt_blob E) 0 (''signature'' @ [NUL]) = Some n" "0 \<le> n"
    "fdt_subnode_offset (fdt_blob E) n (''key-'' @ hint @ NUL # drop (length hint + 5) (name_stack E)) = Some i" "0 \<le> i"
    "fdt_getprop (fdt_blob E) i ''pubkey'' = Some (Some j, int (length pk))" "read_bytes (fdt_blob E) (int j) (int (length pk)) = Some pk"
    by (rule key_at [OF assms(1,9) nn assms(8)])
  have "length (name_stack E) = 100" using assms(1) by (simp add: env_ok_def)
  then have sp: "vsprintf 0 (name_stack E) (''key-%s'' @ [NUL]) [Vstr (keyname info)]
      = Some (length hint + 4, ''key-'' @ hint @ NUL # drop (length hint + 5) (name_stack E), [])"
    using sprintf_key(1) [OF assms(7), of "name_stack E" 0] assms(8) by simp
  have "ecdsa_verify_key (lib E) info (bytes pk) sig (signed_hash E (checksum info) (concat data)) = 0"
    using assms(12) sl by (simp add: verify_key_accepts)
  then show ?thesis using assms(10,11) data hc sp k by (simp add: ecdsa_verify_def signed_hash_def Let_def)
qed

lemma node_inc_loop_complete:
  assumes "drop p m = nul_strings inc @ r" and "\<forall>s \<in> set inc. NUL \<notin> set s"
  shows "\<exists>incp. node_inc_loop m p (p + length (nul_strings inc)) (length inc) = Some incp \<and> list_all2 cstring inc incp"
  using assms
proof (induction inc arbitrary: p)
  case (Cons s inc)
  have d: "drop p m = (s @ NUL # nul_strings inc) @ r" "NUL \<notin> set s" using Cons.prems by simp_all
  note st = node_inc_step [OF d]
  obtain incp where i: "node_inc_loop m (p + length s + 1) (p + length s + 1 + length (nul_strings inc)) (length inc) = Some incp" "list_all2 cstring inc incp"
    using Cons.IH [OF st(2)] Cons.prems(2) by auto
  have "cstring s (drop p m)" using d by (simp add: cstring_def)
  then show ?case using st(1) i by simp
qed simp

lemma filter_nul_strings: "\<forall>s \<in> set inc. NUL \<notin> set s \<Longrightarrow> length (filter (\<lambda>c. c = NUL) (nul_strings inc)) = length inc"
  by (induction inc) (simp_all add: filter_not_NUL)

lemma hashed_nodes_complete:
  assumes "holds m os (pre @ tags k @ post)" and "named m (nprops k)" and "value_of_prop m k ''hashed-nodes'' = Some (nul_strings inc)"
    and "inc \<noteq> []" and "length inc \<le> 100" and "\<forall>s \<in> set inc. NUL \<notin> set s"
  obtains incp where "hashed_nodes m (int (len_of pre)) = Some (Some incp)" "list_all2 cstring inc incp"
proof (cases rule: getprop_cases [OF assms(1,2), of "''hashed-nodes''", case_names nul absent present])
  case (present v i r)
  obtain incp where "node_inc_loop m i (i + length (nul_strings inc)) (length inc) = Some incp" "list_all2 cstring inc incp"
    using node_inc_loop_complete [OF _ assms(6), of i m r] present(1,3) assms(3) by auto
  then show thesis using present assms(3-5) filter_nul_strings [OF assms(6)]
    by (intro that [of incp]) (auto simp: hashed_nodes_def IMAGE_MAX_HASHED_NODES_def Let_def)
qed (use assms(3) in simp_all)

text \<open>
  The limits of the arrays; \<^verbatim>\<open>hashed-strings\<close> is a part of the image, and the strings of the signature node are
  terminated.
\<close>

definition strings_area :: "char list \<Rightarrow> char list \<Rightarrow> int \<times> int" where
  "strings_area m v = (s32 (int (the (fdt_off_dt_strings m) + be_nat (take 4 v))), s32 (int (be_nat (take 4 (drop 4 v)))))"

definition within_limits :: "char list \<Rightarrow> node \<Rightarrow> node \<Rightarrow> bool" where
  "within_limits m t k \<longleftrightarrow> \<not> exceeds 200 (-1) [] t
     \<and> (\<forall>v. value_of_prop m k ''hashed-nodes'' = Some v \<longrightarrow> length (tags t) < 17 + 7 * length (filter (\<lambda>c. c = NUL) v))
     \<and> (\<forall>v. value_of_prop m k ''hashed-strings'' = Some v \<longrightarrow> 8 \<le> length v \<and> read_bytes m (fst (strings_area m v)) (snd (strings_area m v)) \<noteq> None)
     \<and> terminated m k ''algo'' \<and> terminated m k ''key-name-hint''"

text \<open>The name of the key fits into the array for it.\<close>

definition hint_fits :: "char list \<Rightarrow> node \<Rightarrow> bool" where
  "hint_fits m k \<longleftrightarrow> (\<forall>hint. reads m k ''key-name-hint'' hint \<longrightarrow> length hint < 96)"

lemma inside_readable: "inside 0 (int (length m)) rs \<Longrightarrow> \<forall>(o1, n) \<in> set rs. read_bytes m o1 n \<noteq> None"
  by (auto simp: inside_def list_all_iff read_bytes_def)

lemma config_regions_complete:
  assumes "holds m os (tags t @ [End])" and "wf_node m t" and "holds m os (pre @ tags k @ post)" and "named m (nprops k)"
    and "list_all2 cstring inc incp" and "within_limits m t k" and "value_of_prop m k ''hashed-nodes'' = Some (nul_strings inc)" and "\<forall>s \<in> set inc. NUL \<notin> set s"
  obtains areas where "config_regions m (int (len_of pre)) incp = Some (Some areas)" "\<forall>(o1, n) \<in> set areas. read_bytes m o1 n \<noteq> None"
proof -
  define max_regions where "max_regions = 20 + length incp * 7"
  have lim: "\<not> exceeds 200 (-1) [] t" "length (tags t) + 3 < max_regions"
    using assms(6-8) filter_nul_strings [of inc] list_all2_lengthD [OF assms(5)] by (auto simp: within_limits_def max_regions_def)
  obtain count reg where f: "fdt_find_regions m incp [''data'' @ [NUL]] (replicate max_regions (0, 0)) (max_regions - 1) 200 False = Some (count, reg)"
    and count: "0 < count" "count < int max_regions - 1" "max_regions - 1 \<le> length reg" "inside 0 (int (length m)) (take (nat count) reg)"
    using find_regions_covered [OF assms(1,2,5), of "[''data'']" "[''data'' @ [NUL]]" "max_regions - 1" "replicate max_regions (0, 0)" 200] lim
    by auto
  note rd = inside_readable [OF count(4)]
  note run = config_regions_def [of m "int (len_of pre)" incp, folded max_regions_def]
  show thesis
  proof (cases rule: getprop_cases [OF assms(3,4), of "''hashed-strings''", case_names nul absent present])
    case absent
    then show thesis using f count rd by (intro that [of "take (nat count) reg"]) (simp_all add: run)
  next
    case (present v i r)
    have v: "8 \<le> length v" "read_bytes m (fst (strings_area m v)) (snd (strings_area m v)) \<noteq> None"
      using assms(6) present(1) by (simp_all add: within_limits_def)
    have "drop (i + 4) m = drop 4 v @ r" using v(1) arg_cong [OF present(3), of "drop 4"] by (simp add: add.commute)
    moreover have "i + 8 \<le> length m" using v(1) arg_cong [OF present(3), of length] by (cases "i \<le> length m") simp_all
    ultimately have ab: "fdt32_to_cpu m i = Some (be_nat (take 4 v))" "fdt32_to_cpu m (i + 4) = Some (be_nat (take 4 (drop 4 v)))"
      using v(1) present(3) by (simp_all add: fdt32_to_cpu_def)
    have "fdt_off_dt_strings m = Some (the (fdt_off_dt_strings m))"
      using assms(1) by (auto simp: holds_def complete_def fdt_off_dt_strings_def fdt32_to_cpu_def)
    then obtain os' where os': "fdt_off_dt_strings m = Some os'" by blast
    have "config_regions m (int (len_of pre)) incp = Some (Some (take (nat count) reg @ [strings_area m v]))"
      using f count present(2) ab os' by (simp add: run wr_def strings_area_def take_Suc_conv_app_nth nat_less_iff)
    then show thesis using rd v(2) by (intro that [of "take (nat count) reg @ [strings_area m v]"]) (simp_all add: split_beta)
  qed simp
qed

lemma signed_strings_unique:
  "signed_strings m k strs \<Longrightarrow> signed_strings m k strs' \<Longrightarrow> within_limits m t k \<Longrightarrow> strs = strs'"
  by (auto simp: signed_strings_def within_limits_def split: option.splits)

lemma algo_names_complete:
  assumes "a \<in> set checksum_algos" and "c \<in> set crypto_algos" and "cstring (checksum_name a @ '','' @ crypto_name c) bs"
  shows "image_get_checksum_algo bs = Some (Some a)" "image_get_crypto_algo bs = Some (Some c)"
proof -
  obtain x where bs: "bs = checksum_name a @ CHR '','' # crypto_name c @ NUL # x" using assms(3) by (auto simp: cstring_def prefix_def)
  show "image_get_checksum_algo bs = Some (Some a)"
    using assms(1) unfolding bs checksum_algos_def image_get_checksum_algo_def by (auto simp: rd_def)
  have "NUL \<notin> set (checksum_name a)" "CHR '','' \<notin> set (checksum_name a)" using assms(1) by (auto simp: checksum_algos_def)
  then have "strchr bs CHR '','' = Some (Some (length (checksum_name a)))" unfolding bs by (intro strchr_skip)
  moreover have "find_crypto crypto_algos (crypto_name c @ NUL # x) = Some (Some c)" using assms(2) unfolding crypto_algos_def by auto
  ultimately show "image_get_crypto_algo bs = Some (Some c)" by (simp add: image_get_crypto_algo_def bs)
qed

lemma setup_verify_complete:
  assumes "holds m os (pre @ tags k @ post)" and "named m (nprops k)" and "within_limits m t k"
    and "a \<in> set checksum_algos" and "c \<in> set crypto_algos" and "reads m k ''algo'' (checksum_name a @ '','' @ crypto_name c)"
    and "if value_of_prop m k ''key-name-hint'' = None then hint = ''<NULL>'' else reads m k ''key-name-hint'' hint"
  obtains info where "fit_image_setup_verify m (int (len_of pre)) req = Some (Some info)" "checksum info = a" "crypto info = c" "fit info = m"
    "cstring hint (printed (keyname info))"
proof -
  have tm: "terminated m k ''algo''" "terminated m k ''key-name-hint''" using assms(3) by (simp_all add: within_limits_def)
  obtain v where v: "value_of_prop m k ''algo'' = Some v" using assms(6) by (auto simp: reads_def)
  have cs: "cstring (checksum_name a @ '','' @ crypto_name c) (v @ x)" for x
    using terminated_reads [OF tm(1) v] assms(6) by metis
  obtain i where i: "fit_image_hash_get_algo m (int (len_of pre)) = Some (Some i)" "image_get_checksum_algo (drop i m) = Some (Some a)"
    "image_get_crypto_algo (drop i m) = Some (Some c)"
  proof (cases rule: getprop_cases [OF assms(1,2), of "''algo''", case_names nul absent present])
    case (present w i r)
    then show thesis using v algo_names_complete [OF assms(4,5) cs, of r] by (intro that [of i]) (simp_all add: fit_image_hash_get_algo_def)
  qed (use v in simp_all)
  obtain key n where key: "fdt_getprop m (int (len_of pre)) ''key-name-hint'' = Some (key, n)" "cstring hint (printed (map_option (\<lambda>k. drop k m) key))"
  proof (cases rule: getprop_cases [OF assms(1,2), of "''key-name-hint''", case_names nul absent present])
    case absent
    then show thesis using assms(7) by (intro that [of None]) (simp_all add: printed_def)
  next
    case (present w j r)
    then have "hint = takeWhile (\<lambda>c. c \<noteq> NUL) w" using terminated_reads(2) [OF tm(2) present(1)] assms(7) by simp
    then have "cstring hint (w @ r)" using terminated_reads(1) [OF tm(2) present(1)] by simp
    then show thesis using present by (intro that [of "Some j"]) (simp_all add: printed_def)
  qed simp
  show thesis using that i key by (simp add: fit_image_setup_verify_def)
qed

lemma config_check_sig_complete:
  assumes "env_ok E kt" and "holds m os (tags t @ [End])" and "wf_node m t" and "holds m os (pre @ tags k @ post)" and "named m (nprops k)"
    and "config_signed E kt m t k" and "within_limits m t k" and "hint_fits m k"
  shows "fit_config_check_sig E m (int (len_of pre)) req = Some 0"
proof -
  obtain a c hint inc strs sig pk where k: "a \<in> set checksum_algos" "c \<in> set crypto_algos" "crypto_verify c = Ecdsa" "checksum_len a \<le> key_len c"
    "reads m k ''algo'' (checksum_name a @ '','' @ crypto_name c)"
    "if value_of_prop m k ''key-name-hint'' = None then hint = ''<NULL>'' else reads m k ''key-name-hint'' hint"
    and key: "lookup_key (fdt_blob E) kt hint = Some pk" "pk \<noteq> []"
    and inc: "value_of_prop m k ''hashed-nodes'' = Some (nul_strings inc)" "inc \<noteq> []" "length inc \<le> 100" "\<forall>s \<in> set inc. NUL \<notin> set s"
    and sig: "signed_strings m k strs" "value_of_prop m k ''value'' = Some sig"
    "accepts (lib E) c (bytes pk) (bytes sig) (signed_hash E a (encs (covered m inc [''data''] [] 0 t) @ enc End @ strs))"
    using assms(6) unfolding config_signed_def by blast
  obtain info where info: "fit_image_setup_verify m (int (len_of pre)) req = Some (Some info)" "checksum info = a" "crypto info = c" "fit info = m"
    "cstring hint (printed (keyname info))"
    by (rule setup_verify_complete [OF assms(4,5,7) k(1,2,5,6)])
  have hl: "length hint < 96" using k(6) assms(8) by (auto simp: hint_fits_def split: if_splits)
  obtain incp where incp: "hashed_nodes m (int (len_of pre)) = Some (Some incp)" "list_all2 cstring inc incp"
    by (rule hashed_nodes_complete [OF assms(4,5) inc])
  obtain areas where ar: "config_regions m (int (len_of pre)) incp = Some (Some areas)" "\<forall>(o1, n) \<in> set areas. read_bytes m o1 n \<noteq> None"
    by (rule config_regions_complete [OF assms(2-5) incp(2) assms(7) inc(1,4)])
  obtain strs' where strs': "signed_strings m k strs'" "concat (map (slice m) areas) = encs (covered m inc [''data''] [] 0 t) @ enc End @ strs'"
    "areas \<noteq> []" "length areas \<le> 1000" by (rule config_regions_sound [OF assms(2-5) incp(2) inc(3) ar(1)])
  have same: "strs' = strs" by (rule signed_strings_unique [OF strs'(1) sig(1) assms(7)])
  have lm: "length m < 2 ^ 31" using assms(2) by (simp add: holds_def complete_def)
  have ver: "ecdsa_verify E info areas (bytes sig) = Some 0"
    using ecdsa_verify_complete [OF assms(1) _ strs'(3,4) _ _ info(5) hl key] k(1,4) info(2-4) lm ar(2) sig(3) strs'(2) same by simp
  show ?thesis
  proof (cases rule: getprop_cases [OF assms(4,5), of "''value''", case_names nul absent present])
    case (present v i r)
    then show ?thesis using info(1,3) incp(1) ar(1) ver k(3) sig(2) by (simp add: fit_config_check_sig_def fit_image_hash_get_value_def get_range_def)
  qed (use sig(2) in simp_all)
qed

lemma wf_resolve: "resolve off t cs = Some (o1, c) \<Longrightarrow> wf_node m t \<Longrightarrow> wf_node m c"
proof (induction cs arbitrary: off t)
  case (Cons n cs)
  then obtain o2 k where k: "find (\<lambda>(o1, k). name_matches n (nname k)) (kids_of off t) = Some (o2, k)" "resolve o2 k cs = Some (o1, c)"
    by (auto simp: bind_eq_Some_conv)
  have "find (\<lambda>c. name_matches n (nname c)) (nkids t) = Some k" using find_snd_kids [of "\<lambda>c. name_matches n (nname c)" off t] k(1) by simp
  then show ?case using Cons k(2) wf_kid by (metis find_kid_mem)
qed simp

lemma kids_nkids: "set (map snd (kids_of off t)) = set (nkids t)"
proof -
  have "map snd (kids off cs) = cs" for off cs by (induction off cs rule: kids.induct) auto
  then show ?thesis by (simp add: kids_of_def)
qed

lemma fit_config_verify_at:
  assumes "env_ok E kt" and "holds m os (tags t @ [End])" and "wf_node m t" and "resolve 0 t cs = Some (off, c)"
  shows "fit_config_verify True E m (int off) = Some 0 \<Longrightarrow> \<exists>k \<in> set (nkids c). prefix ''signature'' (nname k) \<and> config_signed E kt m t k"
    and "nkids c = k # ks \<Longrightarrow> prefix ''signature'' (nname k) \<Longrightarrow> config_signed E kt m t k \<Longrightarrow> within_limits m t k \<Longrightarrow> hint_fits m k \<Longrightarrow>
      fit_config_verify True E m (int off) = Some 0"
proof -
  obtain pre post where h: "holds m os (pre @ tags c @ post)" "off = len_of pre" using resolve_holds [of m os "[]" t "[End]" cs off c] assms(2,4) by auto
  have wf: "named m (nprops k)" if "k \<in> set (nkids c)" for k using wf_resolve [OF assms(4,3)] that by (meson wf_kid wf_named)
  show "\<exists>k \<in> set (nkids c). prefix ''signature'' (nname k) \<and> config_signed E kt m t k" if v: "fit_config_verify True E m (int off) = Some 0"
  proof -
    obtain o1 k where k: "(o1, k) \<in> set (kids_of (len_of pre) c)" "prefix ''signature'' (nname k)" "fit_config_check_sig E m (int o1) (-1) = Some 0"
      using verify_sig_sound [OF h(1), of "\<lambda>noffset. fit_config_check_sig E m noffset (-1)"] v h(2)
      by (auto simp: fit_config_verify_def fit_config_verify_sig_def)
    obtain pre' post' where h': "holds m os (pre' @ tags k @ post')" "o1 = len_of pre'" by (rule holds_kid [OF h(1) k(1)])
    have "k \<in> set (nkids c)" using k(1) kids_nkids [of "len_of pre" c] by force
    then show ?thesis using config_check_sig_sound [OF assms(1-3) h'(1) wf] k(2,3) h'(2) by blast
  qed
  assume k: "nkids c = k # ks" "prefix ''signature'' (nname k)" "config_signed E kt m t k" "within_limits m t k" "hint_fits m k"
  obtain o1 ks' where ks': "kids_of (len_of pre) c = (o1, k) # ks'" using k(1) by (simp add: kids_of_def)
  obtain pre' post' where h': "holds m os (pre' @ tags k @ post')" "o1 = len_of pre'" using holds_kid [OF h(1), of o1 k] ks' by auto
  have "fit_config_check_sig E m (int o1) (-1) = Some 0"
    using config_check_sig_complete [OF assms(1-3) h'(1) wf k(3-5)] k(1) h'(2) by simp
  then show "fit_config_verify True E m (int off) = Some 0"
    using verify_sig_first [OF h(1) ks' k(2)] h(2) by (simp add: fit_config_verify_def fit_config_verify_sig_def)
qed

section \<open>Signature nodes that make the check leave its arrays\<close>

lemma verify_sig_first_None:
  assumes "holds m os (pre @ tags t @ post)" and "kids_of (len_of pre) t = (o1, k) # ks" and "prefix ''signature'' (nname k)" and "check (int o1) = None"
  shows "verify_sig check m (int (len_of pre)) = None"
proof -
  obtain pre' post' where h: "holds m os (pre' @ tags k @ post')" "o1 = len_of pre'" using holds_kid [OF assms(1), of o1 k] assms(2) by auto
  obtain i len where i: "fdt_get_name m (int o1) = Some (Some i, len)" "cstring (nname k) (drop i m)" using name_at [OF h(1)] h(2) by metis
  have "strncmp (drop i m) (''signature'' @ [NUL]) 9 = Some 0"
    using strncmp_prefix [OF i(2), of "''signature''" "[NUL]"] assms(3) by (auto simp: numeral_eq_Suc)
  then have "signature_loop check m (int o1) = None" using i(1) assms(4) by (subst signature_loop.simps) simp
  then show ?thesis using visits_kids(1) [OF assms(1)] assms(2) by (simp add: verify_sig_def)
qed

lemma fit_config_verify_None:
  assumes "holds m os (tags t @ [End])" and "wf_node m t" and "resolve 0 t cs = Some (off, c)" and "nkids c = k # ks" and "prefix ''signature'' (nname k)"
    and "\<And>pre post. holds m os (pre @ tags k @ post) \<Longrightarrow> named m (nprops k) \<Longrightarrow> fit_config_check_sig E m (int (len_of pre)) (-1) = None"
  shows "fit_config_verify True E m (int off) = None"
proof -
  obtain pre post where h: "holds m os (pre @ tags c @ post)" "off = len_of pre" using resolve_holds [of m os "[]" t "[End]" cs off c] assms(1,3) by auto
  have wf: "named m (nprops k)" using wf_resolve [OF assms(3,2)] assms(4) by (metis list.set_intros(1) wf_kid wf_named)
  obtain o1 ks' where ks': "kids_of (len_of pre) c = (o1, k) # ks'" using assms(4) by (simp add: kids_of_def)
  obtain pre' post' where h': "holds m os (pre' @ tags k @ post')" "o1 = len_of pre'" using holds_kid [OF h(1), of o1 k] ks' by auto
  show ?thesis using verify_sig_first_None [OF h(1) ks' assms(5)] assms(6) [OF h'(1) wf] h(2) h'(2)
    by (simp add: fit_config_verify_def fit_config_verify_sig_def)
qed

lemma ecdsa_verify_long_hint:
  assumes "env_ok E kt" and "checksum info \<in> set checksum_algos" and "areas \<noteq> []" and "length areas \<le> 1000" and "length (fit info) < 2 ^ 31"
    and "\<forall>(o1, n) \<in> set areas. read_bytes (fit info) o1 n \<noteq> None"
    and "cstring hint (printed (keyname info))" and "96 \<le> length hint" and "length hint < 2 ^ 32"
    and "find (\<lambda>c. name_matches ''signature'' (nname c)) (nkids kt) = Some s" and "checksum_len (checksum info) \<le> key_len (crypto info)"
  shows "ecdsa_verify E info areas sig = None"
proof -
  obtain data where data: "those (map (\<lambda>(o1, n). read_bytes (fit info) o1 n) areas) = Some data" using those_readable [OF assms(6)] by blast
  note hc = hash_areas [OF assms(1-5) data]
  obtain os post where h: "holds (fdt_blob E) os ([] @ tags kt @ post)" using assms(1) by (auto simp: env_ok_def)
  obtain pre1 post1 where s: "fdt_subnode_offset (fdt_blob E) (int (len_of [])) (''signature'' @ NUL # []) = Some (int (len_of pre1))"
    by (rule subnode_offset_found [OF h _ _ assms(10), of "[]"]) simp_all
  have "length (name_stack E) = 100" using assms(1) by (simp add: env_ok_def)
  then have "vsprintf 0 (name_stack E) (''key-%s'' @ [NUL]) [Vstr (keyname info)] = None"
    using sprintf_key(2) [OF assms(7,9), of "name_stack E" 0] assms(8) by simp
  then show ?thesis using assms(11) data hc s by (simp add: ecdsa_verify_def)
qed

text \<open>A signature node that the check gets through up to the verification.\<close>

definition sig_node_ok :: "char list \<Rightarrow> node \<Rightarrow> bool" where
  "sig_node_ok m k \<longleftrightarrow> value_of_prop m k ''value'' \<noteq> None \<and>
     (\<exists>a \<in> set checksum_algos. \<exists>c \<in> set crypto_algos. crypto_verify c = Ecdsa \<and> checksum_len a \<le> key_len c
        \<and> reads m k ''algo'' (checksum_name a @ '','' @ crypto_name c))"

lemma sig_node_setup:
  assumes "sig_node_ok m k" and "holds m os (pre @ tags k @ post)" and "named m (nprops k)" and "within_limits m t k"
    and "reads m k ''key-name-hint'' hint"
  obtains info i n v where "fit_image_setup_verify m (int (len_of pre)) req = Some (Some info)" "checksum info \<in> set checksum_algos" "fit info = m"
    "checksum_len (checksum info) \<le> key_len (crypto info)" "crypto_verify (crypto info) = Ecdsa" "cstring hint (printed (keyname info))"
    "fit_image_hash_get_value m (int (len_of pre)) = Some (Some (i, n))" "read_bytes m (int i) n = Some v"
proof -
  obtain a c where ac: "a \<in> set checksum_algos" "c \<in> set crypto_algos" "crypto_verify c = Ecdsa" "checksum_len a \<le> key_len c"
    "reads m k ''algo'' (checksum_name a @ '','' @ crypto_name c)" using assms(1) by (auto simp: sig_node_ok_def)
  have hint: "if value_of_prop m k ''key-name-hint'' = None then hint = ''<NULL>'' else reads m k ''key-name-hint'' hint"
    using assms(5) by (auto simp: reads_def)
  obtain info where info: "fit_image_setup_verify m (int (len_of pre)) req = Some (Some info)" "checksum info = a" "crypto info = c" "fit info = m"
    "cstring hint (printed (keyname info))" by (rule setup_verify_complete [OF assms(2,3,4) ac(1,2,5) hint])
  show thesis
  proof (cases rule: getprop_cases [OF assms(2,3), of "''value''", case_names nul absent present])
    case (present v i r)
    then show thesis using that [OF info(1), of i "int (length v)" v] info(2-5) ac
      by (simp add: fit_image_hash_get_value_def get_range_def)
  qed (use assms(1) in \<open>simp_all add: sig_node_ok_def\<close>)
qed

section \<open>Images with the same strings\<close>

abbreviation fits :: "node \<Rightarrow> char list \<Rightarrow> bool" where
  "fits t strs \<equiv> 60 + len_of (tags t @ [End]) + length strs \<le> 2 ^ 31 \<and> list_all tag_ok (tags t)"

text \<open>The name at an offset of the strings block, and the well-formedness and the properties of a node by these names.\<close>

abbreviation name_of :: "char list \<Rightarrow> nat \<Rightarrow> string" where
  "name_of strs no \<equiv> takeWhile (\<lambda>c. c \<noteq> NUL) (drop no strs)"

fun wf_strs :: "char list \<Rightarrow> node \<Rightarrow> bool" where
  "wf_strs strs (Node nm ps cs) \<longleftrightarrow> list_all (\<lambda>(no, v). NUL \<in> set (drop no strs)) ps \<and> CHR ''/'' \<notin> set nm \<and> list_all (wf_strs strs) cs"

definition prop_in :: "char list \<Rightarrow> node \<Rightarrow> string \<Rightarrow> char list option" where
  "prop_in strs k s = map_option snd (find (\<lambda>(no, v). name_of strs no = s) (nprops k))"

lemma image_str_at:
  assumes "fits t strs" and "NUL \<in> set (drop no strs)"
  shows "drop (str_pos (fdt_image t strs) no) (fdt_image t strs) = drop no strs" "str_at (fdt_image t strs) no = name_of strs no"
proof -
  have "no \<le> length strs" using assms(2) by (cases "no \<le> length strs") simp_all
  then show "drop (str_pos (fdt_image t strs) no) (fdt_image t strs) = drop no strs" using fdt_image_strings assms(1) by blast
  then show "str_at (fdt_image t strs) no = name_of strs no" by (simp add: str_at_def)
qed

lemma image_wf_node: "fits t strs \<Longrightarrow> wf_strs strs n \<Longrightarrow> wf_node (fdt_image t strs) n"
proof (induction n)
  case (Node nm ps cs)
  then show ?case using image_str_at(1) [OF Node.prems(1)] by (fastforce simp: list_all_iff named_def)
qed

lemma find_cong_pred: "(\<And>x. x \<in> set xs \<Longrightarrow> Q x = Q' x) \<Longrightarrow> find Q xs = find Q' xs"
  by (rule find_cong) simp_all

lemma image_value_of_prop:
  assumes "fits t strs" and "wf_strs strs k"
  shows "value_of_prop (fdt_image t strs) k s = prop_in strs k s"
proof (cases k)
  case (Node nm ps cs)
  have "find (\<lambda>(no, v). str_at (fdt_image t strs) no = s) ps = find (\<lambda>(no, v). name_of strs no = s) ps"
    using assms(2) image_str_at(2) [OF assms(1)] by (intro find_cong_pred) (auto simp: Node list_all_iff)
  then show ?thesis by (simp add: value_of_prop_def prop_in_def Node)
qed

lemma image_covered:
  assumes "fits t strs" and "fits t' strs"
  shows "wf_strs strs n \<Longrightarrow> covered (fdt_image t strs) inc exc p w n = covered (fdt_image t' strs) inc exc p w n"
proof (induction n arbitrary: p w)
  case (Node nm ps cs)
  have "filter (\<lambda>(no, v). w \<ge> 2 \<and> str_at (fdt_image t strs) no \<notin> set exc) ps = filter (\<lambda>(no, v). w \<ge> 2 \<and> str_at (fdt_image t' strs) no \<notin> set exc) ps" for w :: nat
    using Node.prems image_str_at(2) [OF assms(1)] image_str_at(2) [OF assms(2)] by (intro filter_cong) (auto simp: list_all_iff)
  moreover have "map (covered (fdt_image t strs) inc exc q w) cs = map (covered (fdt_image t' strs) inc exc q w) cs" for q w
    using Node by (simp add: list_all_iff)
  ultimately show ?case by (simp only: covered.simps Let_def)
qed

text \<open>A node below which no path is listed.\<close>

lemma enter_path_prefix: "prefix (enter_path p nm) s \<Longrightarrow> prefix p s"
  by (auto simp: enter_path_def prefix_def split: if_splits)

lemma uncovered:
  "w \<le> 1 \<Longrightarrow> \<forall>s \<in> set inc. \<not> prefix (enter_path p (nname n)) s \<Longrightarrow> covered m inc exc p w n = []"
proof (induction n arbitrary: p w)
  case (Node nm ps cs)
  have q: "enter_path p nm \<notin> set inc" using Node.prems(2) by auto
  have "covered m inc exc (enter_path p nm) 0 c = []" if "c \<in> set cs" for c
    using Node.prems(2) that by (intro Node.IH) (auto dest: enter_path_prefix)
  moreover have "node_want inc (enter_path p nm) 0 (nname c) = 0" if "c \<in> set cs" for c
    using Node.prems(2) enter_path_prefix [of "enter_path p nm" "nname c" "enter_path (enter_path p nm) (nname c)"] by (auto simp: node_want_def)
  moreover have "node_want inc p w nm = 0" using q Node.prems(1) by (simp add: node_want_def)
  ultimately show ?case using last_in_set [of cs] by (cases "cs = []") (simp_all add: Let_def)
qed

text \<open>The tree of an image in which \<open>confs\<close> are the configurations.\<close>

definition image_tree :: "(nat \<times> char list) list \<Rightarrow> node list \<Rightarrow> (nat \<times> char list) list \<Rightarrow> node list \<Rightarrow> node" where
  "image_tree rps ims cps confs = Node [] rps (ims @ [Node ''configurations'' cps confs])"

lemma covered_new_configuration:
  assumes "confs \<noteq> []" and "\<forall>s \<in> set inc. s \<noteq> ''/configurations'' \<and> \<not> prefix (''/configurations/'' @ nname c) s"
  shows "covered m inc exc [] 0 (image_tree rps ims cps (c # confs)) = covered m inc exc [] 0 (image_tree rps ims cps confs)"
proof -
  let ?q = "''/configurations''"
  have q: "enter_path (enter_path [] []) ''configurations'' = ?q" "enter_path ?q (nname c) = ''/configurations/'' @ nname c" by (simp_all add: enter_path_def)
  define w where "w = node_want inc [] 0 []"
  have "node_want inc (enter_path [] []) w ''configurations'' \<le> 1" using assms(2) by (auto simp: node_want_def q w_def)
  then have "covered m inc exc ?q (node_want inc (enter_path [] []) w ''configurations'') c = []"
    using assms(2) by (intro uncovered) (auto simp: q(2))
  then show ?thesis using assms(1) by (simp add: image_tree_def Let_def q(1) w_def)
qed

lemma nul_strings_inj:
  "nul_strings xs = nul_strings ys \<Longrightarrow> \<forall>s \<in> set xs. NUL \<notin> set s \<Longrightarrow> \<forall>s \<in> set ys. NUL \<notin> set s \<Longrightarrow> xs = ys"
proof (induction xs arbitrary: ys)
  case Nil
  then show ?case by (cases ys) simp_all
next
  case (Cons x xs)
  obtain y ys' where ys: "ys = y # ys'" using Cons.prems(1) by (cases ys) simp_all
  have e: "x @ NUL # nul_strings xs = y @ NUL # nul_strings ys'" using Cons.prems(1) ys by simp
  have "cstring x (x @ NUL # nul_strings xs)" "cstring y (y @ NUL # nul_strings ys')" using Cons.prems(2,3) ys by (simp_all add: cstring_def)
  from this [THEN cstring_unique] have "x = y" using e by simp
  then show ?case using Cons.IH [of ys'] Cons.prems e ys by simp
qed

text \<open>The strings of \<^verbatim>\<open>hashed-strings\<close> are a part of the strings block.\<close>

definition strings_listed :: "char list \<Rightarrow> node \<Rightarrow> bool" where
  "strings_listed strs k \<longleftrightarrow> (\<forall>v. prop_in strs k ''hashed-strings'' = Some v \<longrightarrow>
     8 \<le> length v \<and> be_nat (take 4 v) + be_nat (take 4 (drop 4 v)) \<le> length strs)"

lemma image_strings_area:
  assumes "fits t strs" and "a + b \<le> length strs"
  shows "slice (fdt_image t strs) (s32 (int (the (fdt_off_dt_strings (fdt_image t strs)) + a)), s32 (int b)) = take b (drop a strs)"
proof -
  let ?n = "len_of (tags t @ [End])"
  have "the (fdt_off_dt_strings (fdt_image t strs)) = 56 + ?n" using fdt_image_header(4) assms(1) by simp
  moreover have "s32 (int (56 + ?n + a)) = int (56 + ?n + a)" "s32 (int b) = int b" using assms by (intro s32_nat; simp)+
  moreover have "drop (56 + ?n + a) (fdt_image t strs) = drop a strs" by (simp add: fdt_image_def Let_def drop_Cons' be32_def)
  ultimately show ?thesis by (simp add: slice_def del: of_nat_add)
qed

lemma image_signed_strings:
  assumes "fits t strs" and "wf_strs strs k" and "strings_listed strs k"
  shows "signed_strings (fdt_image t strs) k x \<longleftrightarrow> x = (case prop_in strs k ''hashed-strings'' of None \<Rightarrow> []
     | Some v \<Rightarrow> take (be_nat (take 4 (drop 4 v))) (drop (be_nat (take 4 v)) strs))"
  using assms image_strings_area [OF assms(1)]
  by (auto simp: signed_strings_def image_value_of_prop strings_listed_def split: option.split)

lemma image_config_signed:
  assumes "fits t strs" and "fits t' strs" and "wf_strs strs k" and "strings_listed strs k"
    and "prop_in strs k ''hashed-nodes'' = Some (nul_strings inc)" and "\<forall>s \<in> set inc. NUL \<notin> set s"
    and "covered (fdt_image t strs) inc [''data''] [] 0 t = covered (fdt_image t' strs) inc [''data''] [] 0 t'"
    and "config_signed E kt (fdt_image t strs) t k"
  shows "config_signed E kt (fdt_image t' strs) t' k"
proof -
  have v: "value_of_prop (fdt_image t' strs) k = value_of_prop (fdt_image t strs) k" using image_value_of_prop [OF assms(1,3)] image_value_of_prop [OF assms(2,3)] by (intro ext) simp
  have sg: "signed_strings (fdt_image t' strs) k = signed_strings (fdt_image t strs) k" using image_signed_strings [OF assms(1,3,4)] image_signed_strings [OF assms(2-4)] by (intro ext) simp
  have "inc' = inc" if "value_of_prop (fdt_image t strs) k ''hashed-nodes'' = Some (nul_strings inc')" "\<forall>s \<in> set inc'. NUL \<notin> set s" for inc'
    using nul_strings_inj [OF _ that(2) assms(6)] that(1) assms(5) image_value_of_prop [OF assms(1,3)] by simp
  then show ?thesis using assms(8) unfolding config_signed_def reads_def v sg using assms(7) by metis
qed

section \<open>Properties\<close>

text \<open>
  \<^bold>\<open>C4.\<close> The verification of a configuration, as the board is built. If \<^verbatim>\<open>fit_config_verify\<close> accepts the
  configuration at a path of a well-formed image, then one of its signature nodes carries a signature that
  the library accepts under a key of the boot loader, the one named by the hint, for the digest of the nodes
  listed in \<^verbatim>\<open>hashed-nodes\<close>, without the data of the images, and of the strings. Conversely it accepts a
  configuration whose first subnode is such a signature, within the limits of its arrays: then all reads and
  writes are inside the objects, and all loops end.
\<close>

theorem config_signature_verified:
  assumes "env_ok E kt" and "holds m os (tags t @ [End])" and "wf_node m t" and "resolve 0 t cs = Some (off, c)"
  shows "(fit_config_verify True E m (int off) = Some 0 \<longrightarrow> (\<exists>k \<in> set (nkids c). prefix ''signature'' (nname k) \<and> config_signed E kt m t k))
    \<and> (\<forall>k ks. nkids c = k # ks \<and> prefix ''signature'' (nname k) \<and> config_signed E kt m t k \<and> within_limits m t k \<and> hint_fits m k
        \<longrightarrow> fit_config_verify True E m (int off) = Some 0)"
  using fit_config_verify_at [OF assms] by blast

text \<open>
  \<^bold>\<open>C10.\<close> A signature does not say which configuration it is for. Given an image with a signature node \<open>k\<close> that
  is valid, anyone can add a configuration of their own, with any properties, and copy the node \<open>k\<close> into it: the
  new image is accepted with this configuration. It is enough that the new name is not in the list of the
  hashed nodes, which the signature node itself holds, and that the list does not hold \<^verbatim>\<open>/configurations\<close>.
\<close>

theorem copied_signature_accepted:
  assumes "env_ok E kt" and "confs \<noteq> []" and "c = Node nm ps (k # ks)" and "prefix ''signature'' (nname k)"
    and "t = image_tree rps ims cps confs" and "t' = image_tree rps ims cps (c # confs)"
    and "fits t strs" and "fits t' strs" and "wf_strs strs t'" and "strings_listed strs k"
    and "config_signed E kt (fdt_image t strs) t k" and "within_limits (fdt_image t' strs) t' k" and "hint_fits (fdt_image t' strs) k"
    and "prop_in strs k ''hashed-nodes'' = Some (nul_strings inc)"
    and "\<forall>s \<in> set inc. NUL \<notin> set s \<and> s \<noteq> ''/configurations'' \<and> \<not> prefix (''/configurations/'' @ nm) s"
    and "resolve 0 t' cs = Some (off, c)"
  shows "fit_config_verify True E (fdt_image t' strs) (int off) = Some 0"
proof -
  have wf: "wf_strs strs k" "wf_strs strs t" using assms(3,5,6,9) by (simp_all add: image_tree_def)
  have "covered (fdt_image t strs) inc [''data''] [] 0 t = covered (fdt_image t' strs) inc [''data''] [] 0 t'"
    using covered_new_configuration [OF assms(2), of inc c] assms(3,5,6,15) image_covered [OF assms(7,8) wf(2)] by simp
  then have "config_signed E kt (fdt_image t' strs) t' k"
    using image_config_signed [OF assms(7,8) wf(1) assms(10,14)] assms(11,15) by blast
  moreover have "holds (fdt_image t' strs) 56 (tags t' @ [End])" using fdt_image_holds assms(8) by blast
  ultimately show ?thesis
    using fit_config_verify_at(2) [OF assms(1) _ image_wf_node [OF assms(8,9)] assms(16), of 56 k ks] assms(3,4,12,13) by simp
qed

text \<open>
  \<^bold>\<open>C36.\<close> A key name of 96 or more characters in a signature node, whether the signature is valid or not, makes
  the verification write behind the array \<^verbatim>\<open>name\<close> of \<^verbatim>\<open>ecdsa_verify\<close>: in the configuration of the board \<^verbatim>\<open>snprintf\<close>
  ignores the size.
\<close>

theorem long_key_hint_overflows:
  assumes "env_ok E kt" and "holds m os (tags t @ [End])" and "wf_node m t" and "resolve 0 t cs = Some (off, c)" and "nkids c = k # ks"
    and "prefix ''signature'' (nname k)" and "sig_node_ok m k" and "within_limits m t k" and "value_of_prop m k ''hashed-nodes'' = Some (nul_strings inc)"
    and "inc \<noteq> []" and "length inc \<le> 100" and "\<forall>s \<in> set inc. NUL \<notin> set s"
    and "find (\<lambda>c. name_matches ''signature'' (nname c)) (nkids kt) = Some s" and "reads m k ''key-name-hint'' hint" and "96 \<le> length hint"
  shows "fit_config_verify True E m (int off) = None"
proof (rule fit_config_verify_None [OF assms(2-6)])
  fix pre post
  assume h: "holds m os (pre @ tags k @ post)" "named m (nprops k)"
  obtain info i n v where info: "fit_image_setup_verify m (int (len_of pre)) (-1) = Some (Some info)" "checksum info \<in> set checksum_algos" "fit info = m"
    "checksum_len (checksum info) \<le> key_len (crypto info)" "crypto_verify (crypto info) = Ecdsa" "cstring hint (printed (keyname info))"
    "fit_image_hash_get_value m (int (len_of pre)) = Some (Some (i, n))" "read_bytes m (int i) n = Some v"
    by (rule sig_node_setup [OF assms(7) h assms(8,14)])
  obtain incp where incp: "hashed_nodes m (int (len_of pre)) = Some (Some incp)" "list_all2 cstring inc incp"
    by (rule hashed_nodes_complete [OF h assms(9-12)])
  obtain areas where ar: "config_regions m (int (len_of pre)) incp = Some (Some areas)" "\<forall>(o1, n) \<in> set areas. read_bytes m o1 n \<noteq> None"
    by (rule config_regions_complete [OF assms(2,3) h incp(2) assms(8,9,12)])
  obtain strs where "areas \<noteq> []" "length areas \<le> 1000" by (rule config_regions_sound [OF assms(2,3) h incp(2) assms(11) ar(1)])
  moreover have "length hint < length (printed (keyname info))" using info(6) by (auto simp: cstring_def prefix_def)
  moreover note setup_verify_at(4) [OF h info(1)]
  moreover have "length m < 2 ^ 31" using assms(2) by (simp add: holds_def complete_def)
  ultimately have "ecdsa_verify E info areas (bytes v) = None"
    using ecdsa_verify_long_hint [OF assms(1) info(2) _ _ _ _ info(6) assms(15) _ assms(13) info(4)] info(3) ar(2) by simp
  then show "fit_config_check_sig E m (int (len_of pre)) (-1) = None"
    using info incp(1) ar(1) by (simp add: fit_config_check_sig_def)
qed

text \<open>
  \<^bold>\<open>C37.\<close> A list of hashed nodes that does not end with a NUL makes the check write behind the array \<^verbatim>\<open>node_inc\<close>,
  which has one element for every NUL, before the signature is looked at.
\<close>

theorem unterminated_hashed_nodes_overflow:
  assumes "holds m os (tags t @ [End])" and "wf_node m t" and "resolve 0 t cs = Some (off, c)" and "nkids c = k # ks"
    and "prefix ''signature'' (nname k)" and "sig_node_ok m k" and "within_limits m t k" and "reads m k ''key-name-hint'' hint"
    and "value_of_prop m k ''hashed-nodes'' = Some v" and "NUL \<in> set v" and "length (filter (\<lambda>c. c = NUL) v) \<le> 100" and "last v \<noteq> NUL"
  shows "fit_config_verify True E m (int off) = None"
proof (rule fit_config_verify_None [OF assms(1-5)])
  fix pre post
  assume h: "holds m os (pre @ tags k @ post)" "named m (nprops k)"
  obtain info i n w where "fit_image_setup_verify m (int (len_of pre)) (-1) = Some (Some info)" "fit_image_hash_get_value m (int (len_of pre)) = Some (Some (i, n))"
    by (rule sig_node_setup [OF assms(6) h assms(7,8)])
  then show "fit_config_check_sig E m (int (len_of pre)) (-1) = None"
    using hashed_nodes_at(2) [OF h assms(9-12)] by (simp add: fit_config_check_sig_def)
qed

section \<open>A sample image\<close>

definition sample_key_strings :: "char list" where "sample_key_strings = ''pubkey'' @ [NUL]"

definition sample_keys :: node where
  "sample_keys = Node [] [] [Node ''signature'' [] [Node ''key-dev'' [(0, ''K'')] []]]"

definition sample_sig_strings :: "char list" where
  "sample_sig_strings = ''algo'' @ [NUL] @ ''key-name-hint'' @ [NUL] @ ''hashed-nodes'' @ [NUL] @ ''value'' @ [NUL] @ ''kernel'' @ [NUL]
     @ ''description'' @ [NUL] @ ''data'' @ [NUL] @ ''arch'' @ [NUL] @ ''type'' @ [NUL]"

definition sample_inc :: "string list" where
  "sample_inc = [''/'', ''/configurations/conf@1'']"

definition sample_sig :: "string \<Rightarrow> char list \<Rightarrow> node" where
  "sample_sig hint listed = Node ''signature@1'' [(0, ''sha256,secp256r1'' @ [NUL]), (5, hint @ [NUL]), (19, listed), (32, ''S'')] []"

abbreviation good_sig :: node where
  "good_sig \<equiv> sample_sig ''dev'' (nul_strings sample_inc)"

definition sample_conf :: "string \<Rightarrow> string \<Rightarrow> node \<Rightarrow> node" where
  "sample_conf nm img sig = Node nm [(38, img @ [NUL])] [sig]"

definition sample_image :: "node list \<Rightarrow> node" where
  "sample_image confs = image_tree [] [] [] confs"

text \<open>A library that accepts the signature \<open>S\<close> of a digest under the key \<open>K\<close>.\<close>

definition sample_lib :: "(unit, u8 list, u8 list) mbedtls" where
  "sample_lib = \<lparr>curve_info_from_name = (\<lambda>s. if s = ''secp256r1'' then Some 3 else None), group_load = (\<lambda>n. (0, ())),
     point_read_binary = (\<lambda>g bs. (0, bs)), read_signature = (\<lambda>bs. (0, bs)),
     verify_signature = (\<lambda>g h q s. if q = bytes ''K'' \<and> s = bytes ''S'' then 0 else -1)\<rparr>"

definition sample_env :: "(unit, u8 list, u8 list) sig_env" where
  "sample_env = \<lparr>lib = sample_lib, hmem = sample_mem, hash_stack = replicate 48 7, name_stack = replicate 100 CHR ''x'',
     fdt_blob = fdt_image sample_keys sample_key_strings\<rparr>"

lemma sample_keys_fit: "fits sample_keys sample_key_strings" "wf_strs sample_key_strings sample_keys"
  by (simp_all add: sample_keys_def sample_key_strings_def head_tags_def enc_def padded_def)

lemma sample_env_ok: "env_ok sample_env sample_keys"
proof -
  have "holds (fdt_blob sample_env) 56 (tags sample_keys @ [End])" using fdt_image_holds sample_keys_fit(1) by (auto simp: sample_env_def)
  moreover have "wf_node (fdt_blob sample_env) sample_keys" using image_wf_node sample_keys_fit by (simp add: sample_env_def)
  moreover have "mem_ok (hmem sample_env)" "length (name_stack sample_env) = 100" by (simp_all add: sample_env_def mem_ok_def sample_mem_def)
  ultimately show ?thesis unfolding env_ok_def by blast
qed

lemma sample_key: "lookup_key (fdt_blob sample_env) sample_keys ''dev'' = Some ''K''"
proof -
  let ?k = "Node ''key-dev'' [(0, ''K'')] []"
  have "wf_strs sample_key_strings ?k" by (simp add: sample_key_strings_def)
  then have "value_of_prop (fdt_blob sample_env) ?k ''pubkey'' = prop_in sample_key_strings ?k ''pubkey''"
    using image_value_of_prop sample_keys_fit(1) by (simp add: sample_env_def)
  also have "\<dots> = Some ''K''" by (simp add: prop_in_def sample_key_strings_def)
  finally show ?thesis by (simp add: lookup_key_def sample_keys_def name_matches_def)
qed

lemma sample_sig_wf: "wf_strs sample_sig_strings (sample_sig hint listed)"
  by (simp add: sample_sig_def sample_sig_strings_def)

lemma sample_props:
  "prop_in sample_sig_strings (sample_sig hint listed) ''algo'' = Some (''sha256,secp256r1'' @ [NUL])"
  "prop_in sample_sig_strings (sample_sig hint listed) ''key-name-hint'' = Some (hint @ [NUL])"
  "prop_in sample_sig_strings (sample_sig hint listed) ''hashed-nodes'' = Some listed"
  "prop_in sample_sig_strings (sample_sig hint listed) ''value'' = Some ''S''"
  "prop_in sample_sig_strings (sample_sig hint listed) ''hashed-strings'' = None"
  by (simp_all add: prop_in_def sample_sig_def sample_sig_strings_def)

lemma sample_reads:
  assumes "fits t sample_sig_strings" and "NUL \<notin> set hint" and "m = fdt_image t sample_sig_strings" and "k = sample_sig hint listed"
  shows "value_of_prop m k = prop_in sample_sig_strings k" "reads m k ''algo'' x \<longleftrightarrow> x = ''sha256,secp256r1''"
    "reads m k ''key-name-hint'' x \<longleftrightarrow> x = hint" "terminated m k ''algo''" "terminated m k ''key-name-hint''" "sig_node_ok m k"
proof -
  show v: "value_of_prop m k = prop_in sample_sig_strings k" using image_value_of_prop [OF assms(1) sample_sig_wf] assms(3,4) by blast
  note v' = v [unfolded assms(4)]
  show tm: "terminated m k ''algo''" "terminated m k ''key-name-hint''" by (simp_all add: terminated_def v' sample_props assms(4))
  show r: "reads m k ''algo'' x \<longleftrightarrow> x = ''sha256,secp256r1''" "reads m k ''key-name-hint'' x \<longleftrightarrow> x = hint" for x
    using terminated_reads(2) [OF tm(1)] terminated_reads(2) [OF tm(2)] cstring_unique [of hint "hint @ [NUL]"] assms(2) by (simp_all add: v' sample_props assms(4) cstring_def)
  show "sig_node_ok m k" by (simp add: sig_node_ok_def v r checksum_algos_def crypto_algos_def) (simp add: sample_props assms(4))
qed

lemma sample_signed:
  assumes "fits t sample_sig_strings"
  shows "config_signed sample_env sample_keys (fdt_image t sample_sig_strings) t good_sig"
proof -
  let ?a = "\<lparr>checksum_name = ''sha256'', checksum_len = 32\<rparr>" and ?c = "\<lparr>crypto_name = ''secp256r1'', key_len = 32, crypto_verify = Ecdsa\<rparr>"
  have "NUL \<notin> set ''dev''" by simp
  note v = sample_reads [OF assms this refl refl, of "nul_strings sample_inc"]
  have "accepts (lib sample_env) ?c (bytes ''K'') (bytes ''S'') h" for h by (simp add: accepts_def sample_env_def sample_lib_def)
  moreover have "signed_strings (fdt_image t sample_sig_strings) good_sig []" by (simp add: signed_strings_def v(1) sample_props)
  moreover have "?a \<in> set checksum_algos" "?c \<in> set crypto_algos" "\<forall>s \<in> set sample_inc. NUL \<notin> set s" "sample_inc \<noteq> []" "length sample_inc \<le> 100"
    by (simp_all add: checksum_algos_def crypto_algos_def sample_inc_def)
  ultimately show ?thesis unfolding config_signed_def
    by (intro exI [of _ ?a] exI [of _ ?c] exI [of _ "''dev''"] exI [of _ sample_inc] exI [of _ "[]"] exI [of _ "''S''"] exI [of _ "''K''"])
      (simp add: v sample_props sample_key)
qed

lemma sample_limits:
  assumes "fits t sample_sig_strings" and "NUL \<notin> set hint" and "\<not> exceeds 200 (-1) [] t" and "length (tags t) < 17 + 7 * length (filter (\<lambda>c. c = NUL) listed)"
  shows "within_limits (fdt_image t sample_sig_strings) t (sample_sig hint listed)"
  using assms(3,4) by (simp add: within_limits_def sample_reads [OF assms(1,2) refl refl] sample_props)

lemma sample_inc_count: "length (filter (\<lambda>c. c = NUL) (nul_strings sample_inc)) = 2"
  using filter_nul_strings [of sample_inc] by (simp add: sample_inc_def)

lemma sample_hint: "fits t sample_sig_strings \<Longrightarrow> hint_fits (fdt_image t sample_sig_strings) good_sig"
  by (simp add: hint_fits_def sample_reads [OF _ _ refl refl])

lemmas sample_eval = sample_image_def image_tree_def sample_conf_def sample_sig_def sample_inc_def sample_sig_strings_def
  head_tags_def enc_def padded_def enter_path_def kids_of_def name_matches_def

abbreviation sample_one :: "node \<Rightarrow> node" where
  "sample_one sig \<equiv> sample_image [sample_conf ''conf@1'' ''kernel@1'' sig]"

abbreviation sample_two :: node where
  "sample_two \<equiv> sample_image [sample_conf ''conf@2'' ''evil'' good_sig, sample_conf ''conf@1'' ''kernel@1'' good_sig]"

lemma sample_one:
  "wf_strs sample_sig_strings (sample_one (sample_sig hint listed))"
  "\<not> exceeds 200 (-1) [] (sample_one (sample_sig hint listed))" "length (tags (sample_one (sample_sig hint listed))) = 13"
  "resolve 0 (sample_one (sample_sig hint listed)) [''configurations'', ''conf@1''] = Some (28, sample_conf ''conf@1'' ''kernel@1'' (sample_sig hint listed))"
  by (simp_all add: sample_eval)

lemma sample_fits:
  "fits (sample_one good_sig) sample_sig_strings" "fits (sample_one (sample_sig (replicate 96 CHR ''A'') (nul_strings sample_inc))) sample_sig_strings"
  "fits (sample_one (sample_sig ''dev'' (''/'' @ [NUL] @ ''x''))) sample_sig_strings" "fits sample_two sample_sig_strings"
  by (simp_all add: sample_eval)

lemma sample_two: "wf_strs sample_sig_strings sample_two" "\<not> exceeds 200 (-1) [] sample_two" "length (tags sample_two) = 22"
    "resolve 0 sample_two [''configurations'', ''conf@2''] = Some (28, sample_conf ''conf@2'' ''evil'' good_sig)"
  by (simp_all add: sample_eval)

lemma sample_kids: "nkids (sample_conf nm img sig) = [sig]" "prefix ''signature'' (nname (sample_sig hint listed))"
  by (simp_all add: sample_conf_def sample_sig_def)

theorem config_signature_verified_witness:
  "fit_config_verify True sample_env (fdt_image (sample_one good_sig) sample_sig_strings) 28 = Some 0"
proof -
  have "within_limits (fdt_image (sample_one good_sig) sample_sig_strings) (sample_one good_sig) good_sig"
    by (rule sample_limits [OF sample_fits(1) _ sample_one(2)]) (simp_all add: sample_one(3) sample_inc_count)
  moreover have "holds (fdt_image (sample_one good_sig) sample_sig_strings) 56 (tags (sample_one good_sig) @ [End])" using fdt_image_holds sample_fits(1) by blast
  ultimately show ?thesis
    using config_signature_verified [OF sample_env_ok _ image_wf_node [OF sample_fits(1) sample_one(1)] sample_one(4), of 56] sample_kids
      sample_signed [OF sample_fits(1)] sample_hint [OF sample_fits(1)] by simp
qed

theorem copied_signature_accepted_witness:
  "fit_config_verify True sample_env (fdt_image sample_two sample_sig_strings) 28 = Some 0"
proof -
  have "within_limits (fdt_image sample_two sample_sig_strings) sample_two good_sig"
    by (rule sample_limits [OF sample_fits(4) _ sample_two(2)]) (simp_all add: sample_two(3) sample_inc_count)
  moreover have "strings_listed sample_sig_strings good_sig" by (simp add: strings_listed_def sample_props)
  moreover have "\<forall>s \<in> set sample_inc. NUL \<notin> set s \<and> s \<noteq> ''/configurations'' \<and> \<not> prefix (''/configurations/'' @ ''conf@2'') s" by (simp add: sample_inc_def)
  ultimately show ?thesis
    using copied_signature_accepted [OF sample_env_ok _ sample_conf_def sample_kids(2) sample_image_def sample_image_def sample_fits(1,4) sample_two(1) _
        sample_signed [OF sample_fits(1)] _ sample_hint [OF sample_fits(4)] sample_props(3) _ sample_two(4)] by simp
qed

theorem long_key_hint_overflows_witness:
  "fit_config_verify True sample_env (fdt_image (sample_one (sample_sig (replicate 96 CHR ''A'') (nul_strings sample_inc))) sample_sig_strings) 28 = None"
proof -
  define k where "k = sample_sig (replicate 96 CHR ''A'') (nul_strings sample_inc)"
  define m where "m = fdt_image (sample_one k) sample_sig_strings"
  have f: "fits (sample_one k) sample_sig_strings" and nn: "NUL \<notin> set (replicate 96 CHR ''A'')" using sample_fits(2) by (simp_all add: k_def)
  note r = sample_reads [OF f nn m_def k_def]
  have lim: "within_limits m (sample_one k) k" unfolding m_def k_def
    by (rule sample_limits [OF sample_fits(2) nn sample_one(2)]) (simp add: sample_one(3) sample_inc_count)
  have "holds m 56 (tags (sample_one k) @ [End])" "wf_node m (sample_one k)"
    using fdt_image_holds image_wf_node [OF f] f sample_one(1) unfolding m_def k_def by blast+
  moreover have "find (\<lambda>c. name_matches ''signature'' (nname c)) (nkids sample_keys) = Some (hd (nkids sample_keys))" by (simp add: sample_keys_def name_matches_def)
  ultimately show ?thesis
    using long_key_hint_overflows [OF sample_env_ok _ _ sample_one(4) [of "replicate 96 CHR ''A''" "nul_strings sample_inc", folded k_def]
        sample_kids(1) _ r(6) lim, of 56 sample_inc] sample_kids(2) r(1,3) sample_props(3) unfolding m_def k_def by (simp add: sample_inc_def)
qed

theorem unterminated_hashed_nodes_overflow_witness:
  "fit_config_verify True sample_env (fdt_image (sample_one (sample_sig ''dev'' (''/'' @ [NUL] @ ''x''))) sample_sig_strings) 28 = None"
proof -
  define k where "k = sample_sig ''dev'' (''/'' @ [NUL] @ ''x'')"
  define m where "m = fdt_image (sample_one k) sample_sig_strings"
  have f: "fits (sample_one k) sample_sig_strings" and nn: "NUL \<notin> set ''dev''" using sample_fits(3) by (simp_all add: k_def)
  note r = sample_reads [OF f nn m_def k_def]
  have lim: "within_limits m (sample_one k) k" unfolding m_def k_def
    by (rule sample_limits [OF sample_fits(3) nn sample_one(2)]) (simp add: sample_one(3))
  have "holds m 56 (tags (sample_one k) @ [End])" "wf_node m (sample_one k)"
    using fdt_image_holds image_wf_node [OF f] f sample_one(1) unfolding m_def k_def by blast+
  then show ?thesis
    using unterminated_hashed_nodes_overflow [OF _ _ sample_one(4) [of "''dev''" "''/'' @ [NUL] @ ''x''", folded k_def]
        sample_kids(1) _ r(6) lim, of 56 "''dev''" "''/'' @ [NUL] @ ''x''" sample_env] sample_kids(2) r(1,3) sample_props(3) unfolding m_def k_def by simp
qed

end
