(* ===== verification/Bootm.thy ===== *)
theory Bootm
  imports Uimage ImageSigned
begin

text \<open>
  Finding the kernel: \<^verbatim>\<open>boot_get_kernel\<close> of \<^verbatim>\<open>common/cmd_bootm.c\<close> with the parts it calls, for images in the legacy and in
  the FIT format. The memory is a list of bytes and an address is an index in it; a pointer into a string is the
  list of the bytes from there on. The board has neither \<^verbatim>\<open>CONFIG_HAS_DATAFLASH\<close> nor \<^verbatim>\<open>CONFIG_FIT_BEST_MATCH\<close>, and
  it defines \<^verbatim>\<open>CONFIG_FIT_SIGNATURE\<close>.
\<close>

section \<open>The argument of the command\<close>

text \<open>The address, and the name behind the separator, NULL without separator.\<close>

definition fit_parse_spec :: "char list \<Rightarrow> char \<Rightarrow> nat \<Rightarrow> (nat \<times> char list option) option" where
  "fit_parse_spec spec sepc addr_curr = do {
     sep \<leftarrow> strchr spec sepc;
     case sep of None \<Rightarrow> Some (addr_curr, None)
     | Some i \<Rightarrow> do {
         addr \<leftarrow> (if i > 0 then map_option (unat \<circ> fst) (simple_strtoul spec 16) else Some addr_curr);
         Some (addr, Some (drop (i + 1) spec)) } }"

definition fit_parse_conf :: "char list \<Rightarrow> nat \<Rightarrow> (nat \<times> char list option) option" where
  "fit_parse_conf spec addr_curr = fit_parse_spec spec CHR ''#'' addr_curr"

definition fit_parse_subimage :: "char list \<Rightarrow> nat \<Rightarrow> (nat \<times> char list option) option" where
  "fit_parse_subimage spec addr_curr = fit_parse_spec spec CHR '':'' addr_curr"

text \<open>The address of the image, the name of a configuration and the name of a kernel; \<open>None\<close> for no argument.\<close>

definition kernel_spec :: "nat \<Rightarrow> char list option \<Rightarrow> (nat \<times> char list option \<times> char list option) option" where
  "kernel_spec load_addr arg =
     (case arg of None \<Rightarrow> Some (load_addr, None, None)
      | Some spec \<Rightarrow> do {
          (addr, conf) \<leftarrow> fit_parse_conf spec load_addr;
          if conf \<noteq> None then Some (addr, conf, None)
          else do {
            (addr, kernel') \<leftarrow> fit_parse_subimage spec load_addr;
            if kernel' \<noteq> None then Some (addr, None, kernel')
            else map_option (\<lambda>(n, _). (unat n, None, None)) (simple_strtoul spec 16) } })"

section \<open>Checks of a kernel image\<close>

definition image_get_kernel :: "bool \<Rightarrow> char list \<Rightarrow> int \<Rightarrow> bool option" where
  "image_get_kernel wd hdr verify' = do {
     magic \<leftarrow> image_check_magic hdr;
     if \<not> magic then Some False
     else do {
       hcrc \<leftarrow> image_check_hcrc hdr;
       if \<not> hcrc then Some False
       else do {
         dcrc \<leftarrow> (if verify' \<noteq> 0 then image_check_dcrc wd hdr else Some True);
         if \<not> dcrc then Some False else image_check_target_arch hdr } } }"

definition fit_image_check_target_arch :: "char list \<Rightarrow> int \<Rightarrow> int option" where
  "fit_image_check_target_arch m noffset = fit_image_check_arch m noffset IH_ARCH_ARM"

definition fit_check_kernel :: "bool \<Rightarrow> fit_mem \<Rightarrow> char list \<Rightarrow> int \<Rightarrow> int \<Rightarrow> bool option" where
  "fit_check_kernel wd mem m os_noffset verify' = do {
     hashes \<leftarrow> (if verify' \<noteq> 0 then fit_image_check_hashes wd mem m os_noffset else Some 1);
     if hashes = 0 then Some False
     else do {
       arch \<leftarrow> fit_image_check_target_arch m os_noffset;
       if arch = 0 then Some False
       else do {
         kernel' \<leftarrow> fit_image_check_type m os_noffset IH_TYPE_KERNEL;
         noload \<leftarrow> (if kernel' \<noteq> 0 then Some 1 else fit_image_check_type m os_noffset IH_TYPE_KERNEL_NOLOAD);
         Some (noload \<noteq> 0) } } }"

section \<open>Finding the kernel\<close>

text \<open>The fields of \<^verbatim>\<open>bootm_headers_t\<close> that the search for the kernel uses.\<close>

record bootm_headers =
  legacy_hdr_os :: "nat option"
  legacy_hdr_os_copy :: "char list"
  legacy_hdr_valid :: bool
  fit_uname_cfg :: "char list option"
  fit_hdr_os :: "nat option"
  fit_uname_os :: "char list option"
  fit_noffset_os :: int
  verify :: int

type_synonym found = "nat option \<times> bootm_headers \<times> nat \<times> nat"

definition boot_legacy :: "bool \<Rightarrow> char list \<Rightarrow> nat \<Rightarrow> bootm_headers \<Rightarrow> found option" where
  "boot_legacy wd ram img_addr images = do {
     let hdr = drop img_addr ram;
     ok \<leftarrow> image_get_kernel wd hdr (verify images);
     if \<not> ok then Some (None, images, 0, 0)
     else do {
       t \<leftarrow> image_get_type hdr;
       os \<leftarrow> (if t = IH_TYPE_KERNEL \<or> t = IH_TYPE_KERNEL_NOLOAD \<or> t = IH_TYPE_STANDALONE
              then map_option (\<lambda>n. Some (image_get_data img_addr, n)) (image_get_data_size hdr)
              else if t = IH_TYPE_MULTI then map_option Some (image_multi_getimg img_addr hdr 0)
              else Some None);
       case os of None \<Rightarrow> Some (None, images, 0, 0)
       | Some (os_data, os_len) \<Rightarrow> do {
           copy \<leftarrow> read_bytes hdr 0 (int image_get_header_size);
           Some (Some img_addr, images\<lparr>legacy_hdr_os := Some img_addr, legacy_hdr_os_copy := copy, legacy_hdr_valid := True\<rparr>, os_data, os_len) } } }"

text \<open>The kernel node of a FIT image and its name, or an error code; with a configuration, its signature is verified.\<close>

definition fit_kernel_node :: "('g, 'p, 's) sig_env \<Rightarrow> char list \<Rightarrow> char list option \<Rightarrow> char list option \<Rightarrow> bootm_headers
    \<Rightarrow> (int \<times> char list option \<times> bootm_headers) option" where
  "fit_kernel_node E m fit_uname_config fit_uname_kernel images =
     (case fit_uname_kernel of
       Some name \<Rightarrow> map_option (\<lambda>n. (n, Some name, images)) (fit_image_get_node m name)
     | None \<Rightarrow> do {
         cfg_noffset \<leftarrow> fit_conf_get_node m fit_uname_config;
         if cfg_noffset < 0 then Some (-1, None, images)
         else do {
           (cfg, _) \<leftarrow> fdt_get_name m cfg_noffset;
           let images = images\<lparr>fit_uname_cfg := map_option (\<lambda>i. drop i m) cfg\<rparr>;
           bad \<leftarrow> (if verify images \<noteq> 0 then fit_config_verify True E m cfg_noffset else Some 0);
           if bad \<noteq> 0 then Some (-1, None, images)
           else do {
             os_noffset \<leftarrow> fit_conf_get_kernel_node m cfg_noffset;
             (name, _) \<leftarrow> fdt_get_name m os_noffset;
             Some (os_noffset, map_option (\<lambda>i. drop i m) name, images) } } })"

definition boot_fit :: "bool \<Rightarrow> ('g, 'p, 's) sig_env \<Rightarrow> fit_mem \<Rightarrow> char list \<Rightarrow> nat \<Rightarrow> char list option \<Rightarrow> char list option \<Rightarrow> bootm_headers \<Rightarrow> found option" where
  "boot_fit wd E mem ram img_addr fit_uname_config fit_uname_kernel images = do {
     let m = drop img_addr ram;
     ok \<leftarrow> fit_check_format m;
     if ok = 0 then Some (None, images, 0, 0)
     else do {
       (os_noffset, name, images) \<leftarrow> fit_kernel_node E m fit_uname_config fit_uname_kernel images;
       if os_noffset < 0 then Some (None, images, 0, 0)
       else do {
         good \<leftarrow> fit_check_kernel wd mem m os_noffset (verify images);
         if \<not> good then Some (None, images, 0, 0)
         else do {
           data \<leftarrow> fit_image_get_data m os_noffset;
           case data of None \<Rightarrow> Some (None, images, 0, 0)
           | Some (i, len) \<Rightarrow>
               Some (Some img_addr, images\<lparr>fit_hdr_os := Some img_addr, fit_uname_os := name, fit_noffset_os := os_noffset\<rparr>,
                     img_addr + i, u32_of len) } } } }"

definition boot_get_kernel :: "bool \<Rightarrow> ('g, 'p, 's) sig_env \<Rightarrow> fit_mem \<Rightarrow> char list \<Rightarrow> nat \<Rightarrow> char list option \<Rightarrow> bootm_headers \<Rightarrow> found option" where
  "boot_get_kernel wd E mem ram load_addr arg images = do {
     (img_addr, fit_uname_config, fit_uname_kernel) \<leftarrow> kernel_spec load_addr arg;
     format \<leftarrow> genimg_get_format (drop img_addr ram);
     if format = IMAGE_FORMAT_LEGACY then boot_legacy wd ram img_addr images
     else if format = IMAGE_FORMAT_FIT then boot_fit wd E mem ram img_addr fit_uname_config fit_uname_kernel images
     else Some (None, images, 0, 0) }"

section \<open>The nodes that are found\<close>

lemma subnode_cstring:
  assumes "holds m os (pre @ tags t @ post)" and "fdt_subnode_offset m (int (len_of pre)) bs = Some n" and "0 \<le> n" and "length bs < 2 ^ 32"
  obtains s o1 k where "cstring s bs" "find (\<lambda>(o1, k). name_matches s (nname k)) (kids_of (len_of pre) t) = Some (o1, k)" "n = int o1"
proof -
  obtain l where "strlen bs = Some l" using assms(2) by (auto simp: fdt_subnode_offset_def bind_eq_Some_conv)
  then obtain s where s: "cstring s bs" "length s = l" using strlen_Some [of bs l] strlen_cstring [of "take l bs" bs] by (intro that [of "take l bs"]) simp_all
  obtain r where r: "bs = s @ NUL # r" "NUL \<notin> set s" using s(1) by (auto simp: cstring_def prefix_def)
  have "fdt_subnode_offset_namelen m (int (len_of pre)) (s @ NUL # r) (length s) = Some n"
    using assms(2) \<open>strlen bs = Some l\<close> s(2) r(1) by (simp add: fdt_subnode_offset_def)
  moreover have "length s + 1 < 2 ^ 32" using assms(4) r(1) by simp
  moreover note subnode_offset_at [OF assms(1) r(2) this, of "NUL # r"]
  ultimately show thesis using assms(3) s(1)
    by (cases "find (\<lambda>(o1, k). name_matches s (nname k)) (kids_of (len_of pre) t)") (auto simp: fdt_errors intro: that)
qed

text \<open>A node below the root, and a child of it, by name.\<close>

lemma path_one:
  assumes "holds m os (tags t @ post)" and "plain a" and "length a < 100" and "fdt_path_offset m (path_string [a] @ [NUL]) = Some o1" and "0 \<le> o1"
  obtains o2 p pre' post' where "resolve 0 t [a] = Some (o2, p)" "o1 = int o2" "holds m os (pre' @ tags p @ post')" "o2 = len_of pre'"
proof -
  have "fdt_path_offset m (path_string [a] @ NUL # []) = Some (case resolve 0 t [a] of Some (o1, _) \<Rightarrow> int o1 | None \<Rightarrow> - FDT_ERR_NOTFOUND)"
    using assms(2,3) by (intro path_offset_at [OF assms(1)]) (simp_all add: path_string_def)
  then obtain o2 p where p: "resolve 0 t [a] = Some (o2, p)" "o1 = int o2" using assms(4,5) by (cases "resolve 0 t [a]") (auto simp: fdt_errors)
  obtain pre' post' where "holds m os (pre' @ tags p @ post')" "o2 = len_of pre'" using resolve_holds [of m os "[]" t post "[a]" o2 p] assms(1) p(1) by auto
  with p show thesis by (rule that)
qed

lemma path_then_subnode:
  assumes "resolve 0 t [a] = Some (o2, p)" and "holds m os (pre' @ tags p @ post')" and "o2 = len_of pre'"
    and "fdt_subnode_offset m (int o2) bs = Some n" and "0 \<le> n" and "length bs < 2 ^ 32"
  obtains s off k where "cstring s bs" "resolve 0 t [a, s] = Some (off, k)" "n = int off"
proof -
  obtain s off k where k: "cstring s bs" "find (\<lambda>(o1, k). name_matches s (nname k)) (kids_of (len_of pre') p) = Some (off, k)" "n = int off"
    by (rule subnode_cstring [OF assms(2) _ assms(5,6)]) (use assms(3,4) in simp)
  have "resolve 0 t [a, s] = Some (off, k)" using assms(1,3) k(2) by (auto simp: bind_eq_Some_conv split: prod.splits)
  with k(1) show thesis using k(3) by (rule that)
qed

lemma resolve_at:
  assumes "holds m os (tags t @ post)" and "resolve 0 t cs = Some (off, k)"
  obtains pre' post' where "holds m os (pre' @ tags k @ post')" "off = len_of pre'"
  using resolve_holds [of m os "[]" t post cs off k] assms by auto

lemma property_at:
  assumes "holds m os (tags t @ post)" and "wf_node m t" and "resolve 0 t cs = Some (off, k)" and "NUL \<notin> set p" and "fdt_getprop m (int off) p = Some (Some i, len)"
  obtains v r where "value_of_prop m k p = Some v" "drop i m = v @ r" "len = int (length v)"
proof -
  obtain pre' post' where h: "holds m os (pre' @ tags k @ post')" "off = len_of pre'" by (rule resolve_at [OF assms(1,3)])
  have "named m (nprops k)" using wf_resolve [OF assms(3,2)] by (rule wf_named)
  then show thesis
  proof (cases rule: getprop_cases [OF h(1) _ assms(4), case_names n absent present])
    case (present v j r)
    then show thesis using assms(5) h(2) by (intro that [of v r]) simp_all
  qed (use assms(5) h(2) in simp_all)
qed

lemma holds_length: "holds m os ts \<Longrightarrow> length (drop i m) < 2 ^ 32"
  by (auto simp: holds_def complete_def)

lemma image_node_sound:
  assumes "holds m os (tags t @ post)" and "fit_image_get_node m bs = Some n" and "0 \<le> n" and "length bs < 2 ^ 32"
  obtains kn off k where "cstring kn bs" "resolve 0 t [''images'', kn] = Some (off, k)" "n = int off"
proof -
  obtain o1 where o1: "fdt_path_offset m (path_string [''images''] @ [NUL]) = Some o1" "0 \<le> o1" "fdt_subnode_offset m o1 bs = Some n"
    using assms(2,3) by (auto simp: fit_image_get_node_def path_string_def bind_eq_Some_conv split: if_splits)
  have pl: "plain ''images''" "length ''images'' < 100" by (simp_all add: plain_def)
  obtain o2 p pre' post' where p: "resolve 0 t [''images''] = Some (o2, p)" "o1 = int o2" "holds m os (pre' @ tags p @ post')" "o2 = len_of pre'"
    by (rule path_one [OF assms(1) pl o1(1,2)])
  show thesis by (rule path_then_subnode [OF p(1,3,4) o1(3) [unfolded p(2)] assms(3,4)]) (rule that)
qed

lemma conf_node_sound:
  assumes "holds m os (tags t @ post)" and "wf_node m t" and "fit_conf_get_node m cfg = Some n" and "0 \<le> n"
    and "case cfg of None \<Rightarrow> True | Some bs \<Rightarrow> length bs < 2 ^ 32"
  obtains cn off c o2 p where "resolve 0 t [''configurations'', cn] = Some (off, c)" "n = int off" "resolve 0 t [''configurations''] = Some (o2, p)"
    "case cfg of None \<Rightarrow> reads m p ''default'' cn | Some bs \<Rightarrow> cstring cn bs"
proof -
  obtain o1 where o1: "fdt_path_offset m (path_string [''configurations''] @ [NUL]) = Some o1" "0 \<le> o1"
    using assms(3,4) by (auto simp: fit_conf_get_node_def path_string_def bind_eq_Some_conv split: if_splits)
  have pl: "plain ''configurations''" "length ''configurations'' < 100" by (simp_all add: plain_def)
  obtain o2 p pre' post' where p: "resolve 0 t [''configurations''] = Some (o2, p)" "o1 = int o2" "holds m os (pre' @ tags p @ post')" "o2 = len_of pre'"
    by (rule path_one [OF assms(1) pl o1])
  note run = assms(3) [unfolded fit_conf_get_node_def] o1(1) [unfolded path_string_def, simplified]
  show thesis
  proof (cases cfg)
    case (Some bs)
    then have bs: "fdt_subnode_offset m (int o2) bs = Some n" "length bs < 2 ^ 32" using run assms(5) o1(2) p(2) by simp_all
    obtain s off k where "cstring s bs" "resolve 0 t [''configurations'', s] = Some (off, k)" "n = int off"
      by (rule path_then_subnode [OF p(1,3,4) bs(1) assms(4) bs(2)])
    then show thesis using Some p(1) by (intro that) simp_all
  next
    case None
    have "named m (nprops p)" using wf_resolve [OF p(1) assms(2)] by (rule wf_named)
    then show thesis
    proof (cases rule: getprop_cases [OF p(3), of "''default''", case_names nm nul absent present])
      case absent
      then show thesis using run None p(2,4) o1(2) assms(4) by (simp add: fdt_errors)
    next
      case (present v i r)
      then have i: "fdt_subnode_offset m (int o2) (drop i m) = Some n" using run None p(2,4) o1(2) by simp
      obtain s off k where k: "cstring s (drop i m)" "resolve 0 t [''configurations'', s] = Some (off, k)" "n = int off"
        by (rule path_then_subnode [OF p(1,3,4) i assms(4) holds_length [OF assms(1)]])
      have "reads m p ''default'' s" using present(1,3) k(1) by (auto simp: reads_def)
      then show thesis using k None p(1) by (intro that) simp_all
    qed simp_all
  qed
qed

lemma conf_kernel_sound:
  assumes "holds m os (tags t @ post)" and "wf_node m t" and "resolve 0 t cs = Some (off, c)" and "fit_conf_get_kernel_node m (int off) = Some n" and "0 \<le> n"
  obtains kn ko k where "reads m c ''kernel'' kn" "resolve 0 t [''images'', kn] = Some (ko, k)" "n = int ko"
proof -
  obtain pre' post' where h: "holds m os (pre' @ tags c @ post')" "off = len_of pre'" by (rule resolve_at [OF assms(1,3)])
  have "named m (nprops c)" using wf_resolve [OF assms(3,2)] by (rule wf_named)
  then show thesis
  proof (cases rule: getprop_cases [OF h(1), of "''kernel''", case_names nm nul absent present])
    case absent
    then show thesis using assms(4,5) h(2) by (simp add: fit_conf_get_kernel_node_def fit_conf_get_prop_node_def fdt_errors)
  next
    case (present v i r)
    then have i: "fit_image_get_node m (drop i m) = Some n" using assms(4) h(2) by (simp add: fit_conf_get_kernel_node_def fit_conf_get_prop_node_def)
    obtain kn ko k where k: "cstring kn (drop i m)" "resolve 0 t [''images'', kn] = Some (ko, k)" "n = int ko"
      by (rule image_node_sound [OF assms(1) i assms(5) holds_length [OF assms(1)]])
    have "reads m c ''kernel'' kn" using present(1,3) k(1) by (auto simp: reads_def)
    then show thesis using k(2,3) by (rule that)
  qed simp_all
qed

text \<open>The names of the architecture and of the types.\<close>

lemma table_entry_sound:
  assumes "get_table_entry_id ts bs = Some n" and "\<forall>t \<in> set ts. \<forall>s. sname t = Some s \<longrightarrow> NUL \<notin> set s"
  shows "n = -1 \<or> (\<exists>t \<in> set ts. tid t = n \<and> (\<exists>s. sname t = Some s \<and> cstring s bs))"
  using assms
proof (induction ts)
  case (Cons t ts)
  show ?case
  proof (cases "sname t")
    case None
    then show ?thesis using Cons by (auto split: if_splits)
  next
    case (Some s)
    consider "tid t < 0" | r where "tid t \<ge> 0" "strcmp (s @ [NUL]) bs = Some r"
      using Cons.prems(1) Some by (cases "tid t < 0") (auto simp: bind_eq_Some_conv)
    then show ?thesis
    proof cases
      case 2
      then show ?thesis using Cons Some strcmp_zero_left [of s bs] by (cases "r = 0") auto
    qed (use Cons.prems(1) in simp)
  qed
qed simp

lemma arch_sound: "genimg_get_arch_id bs = Some n \<Longrightarrow> n mod 256 = IH_ARCH_ARM \<Longrightarrow> cstring ''arm'' bs"
  using table_entry_sound [of uimage_arch bs n] by (auto simp: genimg_get_arch_id_def uimage_arch_def ih_defs)

lemma type_sound:
  "genimg_get_type_id bs = Some n \<Longrightarrow> n mod 256 = IH_TYPE_KERNEL \<Longrightarrow> cstring ''kernel'' bs"
  "genimg_get_type_id bs = Some n \<Longrightarrow> n mod 256 = IH_TYPE_KERNEL_NOLOAD \<Longrightarrow> cstring ''kernel_noload'' bs"
  using table_entry_sound [of uimage_type bs n] by (auto simp: genimg_get_type_id_def uimage_type_def ih_defs)

lemma check_id_sound:
  assumes "holds m os (tags t @ post)" and "wf_node m t" and "resolve 0 t cs = Some (off, k)" and "NUL \<notin> set p"
    and "check_id (fit_image_get_id get_id p m (int off)) x = Some r" and "r \<noteq> 0" and "\<And>bs n. get_id bs = Some n \<Longrightarrow> n mod 256 = x \<Longrightarrow> cstring s bs"
  shows "reads m k p s"
proof -
  obtain i len n where i: "fdt_getprop m (int off) p = Some (Some i, len)" "get_id (drop i m) = Some n" "n mod 256 = x"
    using assms(5,6) by (auto simp: check_id_def fit_image_get_id_def bind_eq_Some_conv split: option.splits if_splits)
  obtain v r' where v: "value_of_prop m k p = Some v" "drop i m = v @ r'" by (rule property_at [OF assms(1-4) i(1)])
  then show ?thesis using assms(7) [OF i(2,3)] by (auto simp: reads_def)
qed

text \<open>What the checks of a kernel node establish: the hashes of its data, the architecture and the type.\<close>

definition kernel_ok :: "char list \<Rightarrow> node \<Rightarrow> char list \<Rightarrow> bool" where
  "kernel_ok m k d \<longleftrightarrow> value_of_prop m k ''data'' = Some d \<and> (\<forall>h \<in> set (nkids k). prefix ''hash'' (nname h) \<longrightarrow> hash_ok m d h)
     \<and> reads m k ''arch'' ''arm'' \<and> (reads m k ''type'' ''kernel'' \<or> reads m k ''type'' ''kernel_noload'')"

lemma check_kernel_sound:
  assumes "holds m os (tags t @ post)" and "wf_node m t" and "resolve 0 t cs = Some (off, k)" and "fit_mem_ok mem"
    and "fit_check_kernel wd mem m (int off) v = Some True" and "v \<noteq> 0"
  obtains d where "kernel_ok m k d"
proof -
  obtain pre' post' where h: "holds m os (pre' @ tags k @ post')" "off = len_of pre'" by (rule resolve_at [OF assms(1,3)])
  have wf: "wf_node m k" by (rule wf_resolve [OF assms(3,2)])
  then have "props_named m k" by (auto simp: props_named_def intro: wf_named dest: wf_kid)
  obtain n where n: "fit_image_check_hashes wd mem m (int off) = Some n" "n \<noteq> 0"
    using assms(5,6) by (auto simp: fit_check_kernel_def bind_eq_Some_conv split: if_splits)
  then have "n = 1" by (auto simp: fit_image_check_hashes_def bind_eq_Some_conv split: option.splits prod.splits if_splits)
  obtain d where d: "value_of_prop m k ''data'' = Some d" "\<forall>h \<in> set (nkids k). prefix ''hash'' (nname h) \<longrightarrow> hash_ok m d h"
    by (rule check_hashes_sound [OF h(1) \<open>props_named m k\<close> assms(4)]) (use n \<open>n = 1\<close> h(2) in auto)
  obtain a where a: "check_id (fit_image_get_id genimg_get_arch_id ''arch'' m (int off)) IH_ARCH_ARM = Some a" "a \<noteq> 0"
    using assms(5,6) n by (auto simp: fit_check_kernel_def fit_image_check_target_arch_def fit_image_check_arch_def fit_image_get_arch_def bind_eq_Some_conv split: if_splits)
  have arch: "reads m k ''arch'' ''arm''" by (rule check_id_sound [OF assms(1-3) _ a arch_sound]) simp_all
  obtain x b where b: "check_id (fit_image_get_id genimg_get_type_id ''type'' m (int off)) x = Some b" "b \<noteq> 0" "x = IH_TYPE_KERNEL \<or> x = IH_TYPE_KERNEL_NOLOAD"
    using assms(5,6) n a by (auto simp: fit_check_kernel_def fit_image_check_target_arch_def fit_image_check_arch_def fit_image_get_arch_def
        fit_image_check_type_def fit_image_get_type_def bind_eq_Some_conv split: if_splits)
  have "reads m k ''type'' ''kernel'' \<or> reads m k ''type'' ''kernel_noload''"
    using b(3) check_id_sound [OF assms(1-3) _ b(1,2), of "''kernel''"] check_id_sound [OF assms(1-3) _ b(1,2), of "''kernel_noload''"] type_sound by auto
  then show thesis using d arch by (intro that) (simp add: kernel_ok_def)
qed

section \<open>A signed kernel is found\<close>

lemma path_one_complete:
  assumes "holds m os (tags t @ post)" and "plain a" and "length a < 100" and "resolve 0 t [a] = Some (o2, p)"
  shows "fdt_path_offset m (path_string [a] @ [NUL]) = Some (int o2)"
  using path_offset_at [OF assms(1), of "[a]" "[]"] assms(2-4) by (simp add: path_string_def del: resolve.simps)

lemma subnode_complete:
  assumes "holds m os (tags t @ post)" and "resolve 0 t [a] = Some (o2, p)" and "resolve 0 t [a, s] = Some (off, k)" and "cstring s bs" and "length bs < 2 ^ 32"
  shows "fdt_subnode_offset m (int o2) bs = Some (int off)"
proof -
  obtain pre' post' where h: "holds m os (pre' @ tags p @ post')" "o2 = len_of pre'" by (rule resolve_at [OF assms(1,2)])
  obtain r where r: "bs = s @ NUL # r" "NUL \<notin> set s" using assms(4) by (auto simp: cstring_def prefix_def)
  have "find (\<lambda>(o1, k). name_matches s (nname k)) (kids_of o2 p) = Some (off, k)"
    using assms(2,3) by (auto simp: bind_eq_Some_conv split: prod.splits)
  moreover have "length s + 1 < 2 ^ 32" using assms(5) r(1) by simp
  ultimately show ?thesis using subnode_offset_at [OF h(1) r(2), of "NUL # r"] strlen_cstring [OF assms(4)] h(2) r(1)
    by (simp add: fdt_subnode_offset_def)
qed

lemma property_complete:
  assumes "holds m os (tags t @ post)" and "wf_node m t" and "resolve 0 t cs = Some (off, k)" and "NUL \<notin> set p" and "value_of_prop m k p = Some v"
  obtains i r where "fdt_getprop m (int off) p = Some (Some i, int (length v))" "drop i m = v @ r"
proof -
  obtain pre' post' where h: "holds m os (pre' @ tags k @ post')" "off = len_of pre'" by (rule resolve_at [OF assms(1,3)])
  have "named m (nprops k)" using wf_resolve [OF assms(3,2)] by (rule wf_named)
  then show thesis
  proof (cases rule: getprop_cases [OF h(1) _ assms(4), case_names n absent present])
    case (present w j r)
    then show thesis using assms(5) h(2) by (intro that [of j r]) simp_all
  qed (use assms(5) in simp_all)
qed

lemma name_complete:
  assumes "holds m os (tags t @ post)" and "resolve 0 t cs = Some (off, k)"
  obtains i len where "fdt_get_name m (int off) = Some (Some i, len)"
proof -
  obtain pre' post' where h: "holds m os (pre' @ tags k @ post')" "off = len_of pre'" by (rule resolve_at [OF assms])
  then show thesis using name_at [OF h(1)] that by blast
qed

lemma image_node_complete:
  assumes "holds m os (tags t @ post)" and "resolve 0 t [''images''] = Some (o2, p)" and "resolve 0 t [''images'', kn] = Some (ko, k)" and "cstring kn bs"
    and "length bs < 2 ^ 32"
  shows "fit_image_get_node m bs = Some (int ko)"
  using path_one_complete [OF assms(1) _ _ assms(2)] subnode_complete [OF assms]
  by (simp add: fit_image_get_node_def plain_def path_string_def)

lemma conf_node_complete:
  assumes "holds m os (tags t @ post)" and "resolve 0 t [''configurations''] = Some (o2, p)" and "resolve 0 t [''configurations'', cn] = Some (off, c)" and "cstring cn bs"
    and "length bs < 2 ^ 32"
  shows "fit_conf_get_node m (Some bs) = Some (int off)"
  using path_one_complete [OF assms(1) _ _ assms(2)] subnode_complete [OF assms]
  by (simp add: fit_conf_get_node_def plain_def path_string_def)

lemma resolve_parent: "resolve off t [a, b] = Some x \<Longrightarrow> \<exists>o2 p. resolve off t [a] = Some (o2, p)"
  by (auto simp: bind_eq_Some_conv split: prod.splits)

text \<open>The strings of a kernel node and of its hash nodes are terminated.\<close>

definition kernel_strings :: "char list \<Rightarrow> node \<Rightarrow> bool" where
  "kernel_strings m k \<longleftrightarrow> terminated m k ''arch'' \<and> terminated m k ''type'' \<and> (\<forall>h \<in> set (nkids k). terminated m h ''algo'')"

lemma check_id_complete:
  assumes "holds m os (tags t @ post)" and "wf_node m t" and "resolve 0 t cs = Some (off, k)" and "NUL \<notin> set p" and "terminated m k p" and "reads m k p s"
    and "\<And>bs. cstring s bs \<Longrightarrow> get_id bs = Some n"
  shows "check_id (fit_image_get_id get_id p m (int off)) x = Some (if n mod 256 = x then 1 else 0)"
proof -
  obtain v where v: "value_of_prop m k p = Some v" using assms(6) by (auto simp: reads_def)
  obtain i r where i: "fdt_getprop m (int off) p = Some (Some i, int (length v))" "drop i m = v @ r" by (rule property_complete [OF assms(1-4) v])
  have "cstring s (v @ r)" using terminated_reads [OF assms(5) v] assms(6) by metis
  then show ?thesis using i assms(7) by (simp add: check_id_def fit_image_get_id_def)
qed

lemma id_names:
  "cstring ''arm'' bs \<Longrightarrow> genimg_get_arch_id bs = Some 2"
  "cstring ''kernel'' bs \<Longrightarrow> genimg_get_type_id bs = Some 2"
  "cstring ''kernel_noload'' bs \<Longrightarrow> genimg_get_type_id bs = Some 14"
proof -
  have bs: "\<exists>x. bs = s @ NUL # x" if "cstring s bs" for s using that by (auto simp: cstring_def prefix_def)
  show "genimg_get_arch_id bs = Some 2" if "cstring ''arm'' bs" using bs [OF that] by (auto simp: genimg_get_arch_id_def uimage_arch_def)
  show "genimg_get_type_id bs = Some 2" if "cstring ''kernel'' bs" using bs [OF that] by (auto simp: genimg_get_type_id_def uimage_type_def)
  show "genimg_get_type_id bs = Some 14" if "cstring ''kernel_noload'' bs" using bs [OF that] by (auto simp: genimg_get_type_id_def uimage_type_def)
qed

lemma check_kernel_complete:
  assumes "holds m os (tags t @ post)" and "wf_node m t" and "resolve 0 t cs = Some (off, k)" and "fit_mem_ok mem" and "kernel_ok m k d" and "kernel_strings m k"
  shows "fit_check_kernel wd mem m (int off) v = Some True"
proof -
  obtain pre' post' where h: "holds m os (pre' @ tags k @ post')" "off = len_of pre'" by (rule resolve_at [OF assms(1,3)])
  have "wf_node m k" by (rule wf_resolve [OF assms(3,2)])
  then have "props_named m k" by (auto simp: props_named_def intro: wf_named dest: wf_kid)
  then have hs: "fit_image_check_hashes wd mem m (int off) = Some 1"
    using check_hashes_exact [OF h(1) _ _ assms(4)] assms(5,6) h(2) by (simp add: kernel_ok_def kernel_strings_def)
  have ar: "fit_image_check_target_arch m (int off) = Some 1"
    unfolding fit_image_check_target_arch_def fit_image_check_arch_def fit_image_get_arch_def
    using check_id_complete [OF assms(1-3), where p = "''arch''" and get_id = genimg_get_arch_id and s = "''arm''" and n = 2 and x = IH_ARCH_ARM] id_names(1) assms(5,6) by (simp add: kernel_ok_def kernel_strings_def ih_defs)
  have ty: "check_id (fit_image_get_id genimg_get_type_id ''type'' m (int off)) x = Some (if n mod 256 = x then 1 else 0)"
    if "reads m k ''type'' s" "\<And>bs. cstring s bs \<Longrightarrow> genimg_get_type_id bs = Some n" for s n x
    using check_id_complete [OF assms(1-3) _ _ that(1), of genimg_get_type_id n x] that(2) assms(6) by (simp add: kernel_strings_def)
  consider "reads m k ''type'' ''kernel''" | "reads m k ''type'' ''kernel_noload''" using assms(5) by (auto simp: kernel_ok_def)
  then have t2: "(\<exists>a. fit_image_check_type m (int off) IH_TYPE_KERNEL = Some a \<and> (a \<noteq> 0 \<or> fit_image_check_type m (int off) IH_TYPE_KERNEL_NOLOAD = Some 1))"
  proof cases
    case 1
    then show ?thesis using ty [of "''kernel''" 2 IH_TYPE_KERNEL] id_names(2) by (simp add: fit_image_check_type_def fit_image_get_type_def ih_defs)
  next
    case 2
    then show ?thesis using ty [of "''kernel_noload''" 14 IH_TYPE_KERNEL] ty [of "''kernel_noload''" 14 IH_TYPE_KERNEL_NOLOAD] id_names(3)
      by (simp add: fit_image_check_type_def fit_image_get_type_def ih_defs)
  qed
  show ?thesis using hs ar t2 by (auto simp: fit_check_kernel_def)
qed

lemma boot_fit_complete:
  assumes "holds m os (tags t @ [End])" and "wf_node m t" and "fit_mem_ok mem" and "m = drop addr ram" and "value_of_prop m t ''description'' \<noteq> None"
    and "resolve 0 t [''images'', kn] = Some (ko, k)" and "kernel_ok m k d" and "kernel_strings m k"
    and "fit_kernel_node E m cfg kernel' images = Some (int ko, name, im)"
  shows "\<exists>images' os_data. boot_fit wd E mem ram addr cfg kernel' images = Some (Some addr, images', os_data, length d) \<and> prefix d (drop os_data ram)"
proof -
  obtain o2 p where img: "resolve 0 t [''images''] = Some (o2, p)" using resolve_parent [OF assms(6)] by blast
  obtain v where v: "value_of_prop m t ''description'' = Some v" using assms(5) by blast
  have r0: "resolve 0 t [] = Some (0, t)" by simp
  obtain di dr where "fdt_getprop m (int 0) ''description'' = Some (Some di, int (length v))" by (rule property_complete [OF assms(1,2) r0 _ v]) simp_all
  then have fmt: "fit_check_format m = Some 1"
    using path_one_complete [OF assms(1) _ _ img] by (simp add: fit_check_format_def plain_def path_string_def)
  have good: "fit_check_kernel wd mem m (int ko) x = Some True" for x by (rule check_kernel_complete [OF assms(1,2,6,3,7,8)])
  have "value_of_prop m k ''data'' = Some d" using assms(7) by (simp add: kernel_ok_def)
  then obtain i r where i: "fdt_getprop m (int ko) ''data'' = Some (Some i, int (length d))" "drop i m = d @ r"
    by (rule property_complete [OF assms(1,2,6), rotated]) simp_all
  have "length d < 2 ^ 32" using arg_cong [OF i(2), of length] holds_length [OF assms(1), of i] by simp
  then have "\<exists>images'. boot_fit wd E mem ram addr cfg kernel' images = Some (Some addr, images', addr + i, length d)"
    using assms(4,9) fmt good i(1) by (simp add: boot_fit_def Let_def fit_image_get_data_def get_range_def u32_of_def)
  moreover have "prefix d (drop (addr + i) ram)" using i(2) by (simp add: assms(4) add.commute)
  ultimately show ?thesis by blast
qed

lemma boot_get_kernel_complete:
  assumes "env_ok E kt" and "fit_mem_ok mem" and "kernel_spec load_addr arg = Some (addr, Some bs, None)" and "m = drop addr ram"
    and "holds m os (tags t @ [End])" and "wf_node m t" and "genimg_get_format m = Some IMAGE_FORMAT_FIT" and "length bs < 2 ^ 32"
    and "value_of_prop m t ''description'' \<noteq> None" and "cstring cn bs"
    and "resolve 0 t [''configurations'', cn] = Some (off, c)" and "nkids c = s # ss" and "prefix ''signature'' (nname s)" and "config_signed E kt m t s"
    and "within_limits m t s" and "hint_fits m s" and "reads m c ''kernel'' kn" and "terminated m c ''kernel''"
    and "resolve 0 t [''images'', kn] = Some (ko, k)" and "kernel_ok m k d" and "kernel_strings m k"
  shows "\<exists>images' os_data. boot_get_kernel wd E mem ram load_addr arg images = Some (Some addr, images', os_data, length d) \<and> prefix d (drop os_data ram)"
proof -
  obtain o2 p where img: "resolve 0 t [''images''] = Some (o2, p)" using resolve_parent [OF assms(19)] by blast
  obtain o3 q where cfg: "resolve 0 t [''configurations''] = Some (o3, q)" using resolve_parent [OF assms(11)] by blast
  have cn: "fit_conf_get_node m (Some bs) = Some (int off)" by (rule conf_node_complete [OF assms(5) cfg assms(11,10,8)])
  have ver: "fit_config_verify True E m (int off) = Some 0" by (rule fit_config_verify_at(2) [OF assms(1,5,6,11-16)])
  obtain w where w: "value_of_prop m c ''kernel'' = Some w" using assms(17) by (auto simp: reads_def)
  obtain ki kr where ki: "fdt_getprop m (int off) ''kernel'' = Some (Some ki, int (length w))" "drop ki m = w @ kr"
    by (rule property_complete [OF assms(5,6,11) _ w]) simp_all
  have "cstring kn (drop ki m)" using terminated_reads [OF assms(18) w] assms(17) ki(2) by metis
  then have kn: "fit_conf_get_kernel_node m (int off) = Some (int ko)"
    using image_node_complete [OF assms(5) img assms(19) _ holds_length [OF assms(5)]] ki(1) by (simp add: fit_conf_get_kernel_node_def fit_conf_get_prop_node_def)
  obtain a b where n1: "fdt_get_name m (int off) = Some (Some a, b)" by (rule name_complete [OF assms(5,11)])
  obtain a' b' where n2: "fdt_get_name m (int ko) = Some (Some a', b')" by (rule name_complete [OF assms(5,19)])
  have "fit_kernel_node E m (Some bs) None images = Some (int ko, Some (drop a' m), images\<lparr>fit_uname_cfg := Some (drop a m)\<rparr>)"
    using cn ver kn n1 n2 by (simp add: fit_kernel_node_def Let_def)
  from boot_fit_complete [OF assms(5,6,2,4,9,19,20,21) this] show ?thesis
    using assms(3,4,7) by (simp add: boot_get_kernel_def formats)
qed

section \<open>Properties\<close>


text \<open>
  \<^bold>\<open>C5.\<close> A signed kernel is booted. Let the argument name a configuration of a well-formed FIT image in memory. If the
  first child of that configuration is a signature node with a valid signature of a key of the boot loader,
  within the limits of the buffers that the verification uses, and the configuration names a kernel for this
  architecture with correct hashes, then \<^verbatim>\<open>boot_get_kernel\<close> finds this kernel, whether or not the verification is on.
\<close>

theorem signed_kernel_is_booted:
  assumes "env_ok E kt" and "fit_mem_ok mem" and "kernel_spec load_addr arg = Some (addr, Some bs, None)" and "m = drop addr ram"
    and "holds m os (tags t @ [End])" and "wf_node m t" and "genimg_get_format m = Some IMAGE_FORMAT_FIT" and "length bs < 2 ^ 32"
    and "value_of_prop m t ''description'' \<noteq> None" and "cstring cn bs"
    and "resolve 0 t [''configurations'', cn] = Some (off, c)" and "nkids c = s # ss" and "prefix ''signature'' (nname s)" and "config_signed E kt m t s"
    and "within_limits m t s" and "hint_fits m s" and "reads m c ''kernel'' kn" and "terminated m c ''kernel''"
    and "resolve 0 t [''images'', kn] = Some (ko, k)" and "kernel_ok m k d" and "kernel_strings m k"
  shows "\<exists>images' os_data. boot_get_kernel wd E mem ram load_addr arg images = Some (Some addr, images', os_data, length d) \<and> prefix d (drop os_data ram)"
  by (rule boot_get_kernel_complete [OF assms])

text \<open>
  \<^bold>\<open>C11.\<close> A kernel without signature is booted as well, if the argument names it. Let the argument be an address and,
  behind a colon, the name of a kernel for this architecture with correct hashes in a well-formed FIT image.
  Then \<^verbatim>\<open>boot_get_kernel\<close> finds this kernel with the verification on, for every key and whatever signatures the image has or
  does not have.
\<close>

theorem named_kernel_is_not_verified:
  assumes "fit_mem_ok mem" and "kernel_spec load_addr arg = Some (addr, None, Some bs)" and "m = drop addr ram"
    and "holds m os (tags t @ [End])" and "wf_node m t" and "genimg_get_format m = Some IMAGE_FORMAT_FIT" and "length bs < 2 ^ 32"
    and "value_of_prop m t ''description'' \<noteq> None" and "cstring kn bs" and "resolve 0 t [''images'', kn] = Some (ko, k)"
    and "kernel_ok m k d" and "kernel_strings m k"
  shows "\<exists>images' os_data. boot_get_kernel wd E mem ram load_addr arg images = Some (Some addr, images', os_data, length d) \<and> prefix d (drop os_data ram)"
proof -
  obtain o2 p where img: "resolve 0 t [''images''] = Some (o2, p)" using resolve_parent [OF assms(10)] by blast
  have "fit_image_get_node m bs = Some (int ko)" by (rule image_node_complete [OF assms(4) img assms(10,9,7)])
  then have "fit_kernel_node E m None (Some bs) images = Some (int ko, Some bs, images)" by (simp add: fit_kernel_node_def)
  from boot_fit_complete [OF assms(4,5,1,3,8,10,11,12) this] show ?thesis
    using assms(2,3,6) by (simp add: boot_get_kernel_def formats)
qed

text \<open>
  \<^bold>\<open>C20.\<close> Kernels in legacy images. For a legacy image in memory \<^verbatim>\<open>boot_get_kernel\<close> returns, for every key, with the verification
  on or off, and whatever configuration the argument names: nothing, if the image is not for this
  architecture; the data behind the header, if the type of the image is a kernel or a standalone program; and nothing
  for the other types without parts.
\<close>

theorem legacy_kernel_is_not_verified:
  assumes "kernel_spec load_addr arg = Some (addr, cfg, sub)" and "drop addr ram = legacy_image h data @ r" and "header_ok h" and "addr + 64 + length data < 2 ^ 32"
    and "of_char (ih_type h) \<noteq> IH_TYPE_MULTI"
  shows "boot_get_kernel wd E mem ram load_addr arg images =
    (if of_char (ih_arch h) = IH_ARCH_ARM \<and> of_char (ih_type h) \<in> {IH_TYPE_KERNEL, IH_TYPE_KERNEL_NOLOAD, IH_TYPE_STANDALONE}
     then Some (Some addr, images\<lparr>legacy_hdr_os := Some addr, legacy_hdr_os_copy := take 64 (drop addr ram), legacy_hdr_valid := True\<rparr>, addr + 64, length data)
     else Some (None, images, 0, 0))
   \<and> take (length data) (drop (addr + 64) ram) = data"
proof -
  let ?m = "drop addr ram"
  have l: "length data < 2 ^ 32" using assms(4) by simp
  note c = legacy_image_checks [OF assms(3) l assms(2)]
  have hl: "length (header_bytes x h data) = 64" for x by (rule length_header_bytes [OF assms(3)])
  have kern: "image_get_kernel wd ?m v = Some (of_char (ih_arch h) = IH_ARCH_ARM)" for v
    using c by (simp add: image_get_kernel_def image_check_target_arch_def image_check_arch_def)
  have fmt: "genimg_get_format ?m = Some IMAGE_FORMAT_LEGACY" using c(1) by (simp add: genimg_get_format_def)
  have "64 \<le> length ?m" unfolding assms(2) by (simp add: legacy_image_def hl)
  then have cp: "read_bytes ?m 0 64 = Some (take 64 ?m)" by (simp add: read_bytes_def)
  have "take (length data) (drop 64 ?m) = data" by (simp only: assms(2)) (simp add: legacy_image_def hl)
  then have dat: "take (length data) (drop (addr + 64) ram) = data" by (simp add: add.commute)
  show ?thesis using assms(1,4,5) fmt kern c(4,6) cp dat
    by (simp add: boot_get_kernel_def boot_legacy_def Let_def image_get_data_size_def image_get_data_def image_get_header_size_def)
qed

section \<open>Witnesses\<close>

text \<open>An image with one kernel and one signed configuration, at the address 256.\<close>

definition sample_kern :: node where
  "sample_kern = Node ''kernel@1'' [(57, ''vmlinuz''), (62, ''arm'' @ [NUL]), (67, ''kernel'' @ [NUL])] []"

definition sample_boot :: node where
  "sample_boot = image_tree [(45, ''sample'' @ [NUL])] [Node ''images'' [] [sample_kern]] [] [sample_conf ''conf@1'' ''kernel@1'' good_sig]"

abbreviation sample_fdt :: "char list" where
  "sample_fdt \<equiv> fdt_image sample_boot sample_sig_strings"

definition sample_ram :: "char list" where
  "sample_ram = replicate 256 NUL @ sample_fdt"

definition sample_headers :: bootm_headers where
  "sample_headers = \<lparr>legacy_hdr_os = None, legacy_hdr_os_copy = [], legacy_hdr_valid = False, fit_uname_cfg = None, fit_hdr_os = None,
     fit_uname_os = None, fit_noffset_os = 0, verify = 1\<rparr>"

lemma sample_boot_fits: "fits sample_boot sample_sig_strings"
  by (simp add: sample_boot_def sample_kern_def sample_eval)

lemma sample_boot_wf: "wf_strs sample_sig_strings sample_boot" "wf_strs sample_sig_strings sample_kern" "wf_strs sample_sig_strings (sample_conf ''conf@1'' ''kernel@1'' good_sig)"
  by (simp_all add: sample_boot_def sample_kern_def sample_eval)

lemma sample_boot_tree:
  "\<not> exceeds 200 (-1) [] sample_boot" "length (tags sample_boot) = 21"
  "\<exists>off. resolve 0 sample_boot [''configurations'', ''conf@1''] = Some (off, sample_conf ''conf@1'' ''kernel@1'' good_sig)"
  "\<exists>off. resolve 0 sample_boot [''images'', ''kernel@1''] = Some (off, sample_kern)"
  by (simp_all add: sample_boot_def sample_kern_def sample_eval)

lemma sample_ram: "drop 256 sample_ram = sample_fdt"
  by (simp add: sample_ram_def)

lemma sample_fdt_format: "genimg_get_format sample_fdt = Some IMAGE_FORMAT_FIT"
  using fdt_image_header(2) [of sample_boot sample_sig_strings] sample_boot_fits
  by (simp add: genimg_get_format_def image_check_magic_def image_get_magic_def fdt_image_def Let_def be32_field [of "[]" 0, simplified] FDT_MAGIC_def IH_MAGIC_def)

lemma sample_fdt_reads:
  "reads sample_fdt sample_kern ''arch'' ''arm''" "terminated sample_fdt sample_kern ''arch''"
  "reads sample_fdt sample_kern ''type'' ''kernel''" "terminated sample_fdt sample_kern ''type''"
  "reads sample_fdt (sample_conf ''conf@1'' ''kernel@1'' good_sig) ''kernel'' ''kernel@1''"
  "terminated sample_fdt (sample_conf ''conf@1'' ''kernel@1'' good_sig) ''kernel''"
  "value_of_prop sample_fdt sample_kern ''data'' = Some ''vmlinuz''" "value_of_prop sample_fdt sample_boot ''description'' \<noteq> None"
  using image_value_of_prop [OF sample_boot_fits sample_boot_wf(1)] image_value_of_prop [OF sample_boot_fits sample_boot_wf(2)] image_value_of_prop [OF sample_boot_fits sample_boot_wf(3)]
  by (simp_all add: reads_def terminated_def prop_in_def sample_kern_def sample_boot_def sample_eval)

lemma sample_fdt_holds: "holds sample_fdt 56 (tags sample_boot @ [End])" "wf_node sample_fdt sample_boot"
  using fdt_image_holds image_wf_node [OF sample_boot_fits sample_boot_wf(1)] sample_boot_fits by blast+

lemma sample_kernel_ok: "kernel_ok sample_fdt sample_kern ''vmlinuz''" "kernel_strings sample_fdt sample_kern"
  using sample_fdt_reads by (simp_all add: kernel_ok_def kernel_strings_def) (simp_all add: sample_kern_def)

lemma sample_boot_limits: "within_limits sample_fdt sample_boot good_sig"
  by (rule sample_limits [OF sample_boot_fits _ sample_boot_tree(1)]) (simp_all add: sample_boot_tree(2) sample_inc_count)

lemma sample_mem5_ok: "fit_mem_ok sample_mem5"
  by (simp add: fit_mem_ok_def sample_mem5_def sample_mem_def hash_mem.defs)

lemma sample_specs:
  "kernel_spec 256 (Some (''#conf@1'' @ [NUL])) = Some (256, Some (''conf@1'' @ [NUL]), None)"
  "kernel_spec 256 (Some ('':kernel@1'' @ [NUL])) = Some (256, None, Some (''kernel@1'' @ [NUL]))"
  "kernel_spec 256 None = Some (256, None, None)"
  by (simp_all add: kernel_spec_def fit_parse_conf_def fit_parse_subimage_def fit_parse_spec_def)

lemmas sample_found = sample_env_ok sample_mem5_ok sample_specs(1) sample_ram [symmetric] sample_fdt_holds sample_fdt_format

abbreviation sample_boot_run :: "char list option \<Rightarrow> found option" where
  "sample_boot_run arg \<equiv> boot_get_kernel False sample_env sample_mem5 sample_ram 256 arg sample_headers"

theorem signed_kernel_is_booted_witness:
  "\<exists>images' os_data. sample_boot_run (Some (''#conf@1'' @ [NUL])) = Some (Some 256, images', os_data, length ''vmlinuz'') \<and> prefix ''vmlinuz'' (drop os_data sample_ram)"
proof -
  obtain off ko where "resolve 0 sample_boot [''configurations'', ''conf@1''] = Some (off, sample_conf ''conf@1'' ''kernel@1'' good_sig)"
    "resolve 0 sample_boot [''images'', ''kernel@1''] = Some (ko, sample_kern)" using sample_boot_tree(3,4) by blast
  then show ?thesis
    using signed_kernel_is_booted [OF sample_found _ sample_fdt_reads(8) _ _ sample_kids sample_signed [OF sample_boot_fits] sample_boot_limits
        sample_hint [OF sample_boot_fits] sample_fdt_reads(5,6) _ sample_kernel_ok, of "''conf@1''" off ko False sample_headers] by simp
qed


theorem named_kernel_is_not_verified_witness:
  "\<exists>images' os_data. sample_boot_run (Some ('':kernel@1'' @ [NUL])) = Some (Some 256, images', os_data, length ''vmlinuz'') \<and> prefix ''vmlinuz'' (drop os_data sample_ram)"
proof -
  obtain ko where "resolve 0 sample_boot [''images'', ''kernel@1''] = Some (ko, sample_kern)" using sample_boot_tree(4) by blast
  then show ?thesis
    using named_kernel_is_not_verified [OF sample_mem5_ok sample_specs(2) sample_ram [symmetric] sample_fdt_holds sample_fdt_format _ sample_fdt_reads(8) _ _ sample_kernel_ok,
        of "''kernel@1''" ko False sample_env sample_headers] by simp
qed

theorem legacy_kernel_is_not_verified_witness:
  "\<exists>images'. boot_get_kernel False sample_env sample_mem5 (replicate 256 NUL @ legacy_image sample_header ''vmlinuz'') 256 None sample_headers
     = Some (Some 256, images', 320, 7)"
  using legacy_kernel_is_not_verified [OF sample_specs(3) _ sample_header_ok,
      of "replicate 256 NUL @ legacy_image sample_header ''vmlinuz''" "''vmlinuz''" "[]" False sample_env sample_mem5 sample_headers]
  by (simp add: sample_header_def ih_defs)

end
