(* ===== verification/Spec2Isabelle.thy ===== *)
theory Spec2Isabelle
  imports Circbuf HashLimits Lmb EnvNumbers EnvNand EnvSf Meraki Aes Bootm
begin

text \<open>
  A verification of the hardware-independent core of the U-Boot boot loader of the MS120 switch
  (\<^verbatim>\<open>src/U-boot.MS120\<close>, board configuration \<^verbatim>\<open>include/configs/msys.h\<close>, 32-bit little-endian ARM). File names
  below are relative to that directory.

  \<^bold>\<open>The program.\<close> The loader keeps its settings as named strings, the environment. They live in a hash
  table (\<^verbatim>\<open>lib/hashtable.c\<close>); the commands of \<^verbatim>\<open>common/cmd_nvedit.c\<close> set, read and delete them; each change
  is checked against the type and the access right of the variable (\<^verbatim>\<open>common/env_flags.c\<close>) and
  announced to a callback (\<^verbatim>\<open>common/env_callback.c\<close>), both described by attribute lists
  (\<^verbatim>\<open>common/env_attr.c\<close>) that are variables themselves. Saving exports the table to a linear form with a
  CRC-32 (\<^verbatim>\<open>lib/crc32.c\<close>) and writes it to NAND (\<^verbatim>\<open>common/env_nand.c\<close>) or SPI flash (\<^verbatim>\<open>common/env_sf.c\<close>); at
  boot the copy is read, its checksum compared, and imported, or the built-in default is taken
  (\<^verbatim>\<open>common/env_common.c\<close>). Booting allocates the memory of kernel, ramdisk and device tree from the
  logical memory blocks (\<^verbatim>\<open>lib/lmb.c\<close>), and the command \<^verbatim>\<open>meraki_check_upgrade\<close> (\<^verbatim>\<open>common/cmd_meraki.c\<close>)
  counts the boot attempts of a new image. The rest are the routines that these parts use: strings,
  number conversion, formatting, sorting, 64-bit division, a byte queue, SHA-256 and AES.

  \<^bold>\<open>The theories\<close>, in the order of their imports.

  \<^item> \<open>Prelude\<close>: machine types, the checked accesses \<open>rd\<close> and \<open>wr\<close>, 32-bit subtraction, list and option
    lemmas.
  \<^item> \<open>Circbuf\<close> (\<^verbatim>\<open>lib/circbuf.c\<close>): the record \<open>circbuf\<close> and its operations, interpreted as the locale
    \<open>lossy_queue\<close>: a queue that forgets its oldest bytes.
  \<^item> \<open>Cstring\<close> (\<^verbatim>\<open>lib/string.c\<close>, \<^verbatim>\<open>lib/linux_string.c\<close>, \<^verbatim>\<open>lib/ctype.c\<close>): all string and memory routines;
    each returns on every well-formed input what its description says, word-wise copying equals
    byte-wise copying, \<^verbatim>\<open>memmove\<close> works on overlapping ranges.
  \<^item> \<open>Hashtable\<close>, \<open>HashProbe\<close>, \<open>HashRefine\<close>, \<open>HashLimits\<close>, \<open>HashImpExp\<close> (\<^verbatim>\<open>lib/hashtable.c\<close>): the operations;
    the probe sequence, which visits every bucket of a table of prime size; the invariant \<open>tinv\<close>, the
    abstraction to a finite map and the contract \<open>env_hooks\<close> of the functions that the table calls, in
    which search, insertion and deletion refine lookup, update and removal; what happens with a full
    table; export, import and that one inverts the other.
  \<^item> \<open>EnvAttr\<close>, \<open>EnvFlags\<close>, \<open>EnvHooks\<close> (\<^verbatim>\<open>common/env_attr.c\<close>, \<^verbatim>\<open>env_flags.c\<close>, \<^verbatim>\<open>env_callback.c\<close>): attribute lists,
    types and rights, and the callbacks. \<open>env_world\<close> is a sublocale of \<open>env_hooks\<close> and is interpreted on the
    configuration of the board, so the refinement of the table holds for the code that it really calls.
  \<^item> \<open>Qsort\<close> (\<^verbatim>\<open>lib/qsort.c\<close>): the shell sort ends, permutes, and sorts for every \<open>comparator\<close>; interpreted on
    the comparison of names that the export uses.
  \<^item> \<open>Crc\<close> (\<^verbatim>\<open>lib/crc32.c\<close>): the table, its generator, and the routine as a shift register over
    polynomials, which detects an error in any one byte.
  \<^item> \<open>Nvedit\<close>, \<open>EnvNumbers\<close> (\<^verbatim>\<open>common/cmd_nvedit.c\<close>, \<^verbatim>\<open>common/env_common.c\<close>): the state \<open>env_state\<close>, the commands,
    defaults, checked import; what is set is read back, numbers included.
  \<^item> \<open>EnvImage\<close>, \<open>EnvNand\<close>, \<open>EnvSf\<close> (\<^verbatim>\<open>include/environment.h\<close>, \<^verbatim>\<open>common/env_nand.c\<close>, \<^verbatim>\<open>common/env_sf.c\<close>): the saved
    image and the two storage drivers. A saved environment is loaded at the next boot although blocks
    are bad; with two copies, the SPI driver never loses the environment when power fails between or
    during the operations of a save (rule induction over the relation \<open>life\<close>).
  \<^item> \<open>Lmb\<close> (\<^verbatim>\<open>lib/lmb.c\<close>): both tables of ranges at their fixed capacity; adding, reserving, freeing and
    allocating as operations on sets of addresses; an allocation is free, aligned and below its limit.
  \<^item> \<open>Div64\<close>, \<open>Strtoul\<close>, \<open>Vsprintf\<close> (\<^verbatim>\<open>lib/div64.c\<close>, \<^verbatim>\<open>lib/vsprintf.c\<close>): division by shift and subtract, reading
    and printing of numbers, and the formatter; \<^verbatim>\<open>vsnprintf\<close> is \<^verbatim>\<open>vsprintf\<close> cut off at the size.
  \<^item> \<open>Meraki\<close> (\<^verbatim>\<open>common/cmd_meraki.c\<close>): a new image is tried a bounded number of times.
  \<^item> \<open>Sha256\<close>, \<open>AesTables\<close>, \<open>Aes\<close> (\<^verbatim>\<open>lib/sha256.c\<close>, \<^verbatim>\<open>lib/aes.c\<close>): the digest of data given in any pieces is the
    one of FIPS 180-4; the tables of the cipher mean what they should and decryption inverts
    encryption.

  \<^bold>\<open>Conventions.\<close> An operation that indexes memory returns an \<open>option\<close>: \<open>None\<close> is an access outside the
  object, and for a loop given as \<open>partial_function\<close> also a run that never ends. Theorems state that the
  result is \<open>Some\<close>, hence safety and termination are part of them. Pointers into an object are offsets, or the
  list of bytes from there on. Widths matter as in the code: \<^verbatim>\<open>long\<close> and \<^verbatim>\<open>size_t\<close> have 32 bits, \<^verbatim>\<open>char\<close> is
  unsigned. No operation takes fuel; where a loop is bounded by a constant of the code (64 rounds, 9 decimal
  digits, the capacity of a table) the bound is that constant.

  \<^bold>\<open>Parameters.\<close> Code outside these files is an argument. \<open>world\<close> holds what the callbacks use
  (\<^verbatim>\<open>GD_FLG_ENV_READY\<close>, the early environment, \<^verbatim>\<open>malloc\<close>, the callbacks of other files). The NAND driver is the
  record \<open>nand_info\<close> with the hypothesis \<open>reliable\<close>: what was written to erased good blocks is read
  back, and bad blocks are skipped. The SPI chip is under \<open>spi_chip\<close>: a write can only clear
  bits, an erase sets them, neither touches a cell outside its range, also when power fails. \<^verbatim>\<open>run_command\<close> of \<open>Meraki\<close> is under
  \<open>ubi_commands\<close>. Each hypothesis has a concrete instance in a witness.

  \<^bold>\<open>Limits that the model shows.\<close> A full table overwrites a live entry although the key is new
  (\<open>HashLimits\<close>); the last bucket is never scanned; \<open>hexport_r\<close> writes past the buffer that it allocates
  when the values hold more backslashes than it made room for (\<open>HashImpExp\<close>); an attribute list is read before
  its start (\<open>EnvAttr\<close>); with two copies the NAND driver erases one and writes the other (\<open>EnvNand\<close>); a
  reservation in an emptied table is lost (\<open>Lmb\<close>).

  \<^bold>\<open>Not modelled.\<close> Console output and the interactive commands (\<^verbatim>\<open>env print\<close>, \<^verbatim>\<open>edit\<close>, \<^verbatim>\<open>grep\<close>, \<^verbatim>\<open>ask\<close>), the
  single-copy variant of \<^verbatim>\<open>env_sf.c\<close>, \<^verbatim>\<open>CONFIG_ENV_OFFSET_OOB\<close>; the shells (\<^verbatim>\<open>common/hush.c\<close>, \<^verbatim>\<open>common/main.c\<close>),
  image headers and boot stages (\<^verbatim>\<open>common/image.c\<close>, \<^verbatim>\<open>common/cmd_bootm.c\<close>) and the network stack, which
  are next in the plan as far as they do not touch devices; vendored code (zlib, LZMA, bzip2, libfdt,
  file systems), drivers, the Marvell hardware abstraction layer and start-up code, which program
  registers; host tools and tests.
\<close>

end
